(* ===== verification/Prelude.thy ===== *)
theory Prelude
  imports Main "HOL-Library.Word" "HOL-Library.While_Combinator" "HOL-Library.Monad_Syntax"
begin

text \<open>
  Shared vocabulary of the development: the machine integer types of the C sources, byte
  memory with little-endian multi-byte accesses, the alignment macros, the counted
  \<open>for\<close> loop, and the generic facts about words and lists the component theories use.
\<close>

unbundle bit_operations_syntax

type_synonym u8 = "8 word"
type_synonym u16 = "16 word"
type_synonym u32 = "32 word"
type_synonym u64 = "64 word"

text \<open>Memory is a byte store indexed by 64-bit addresses.\<close>

type_synonym memory = "u64 \<Rightarrow> u8"

named_theorems mem_simps \<open>loads after stores\<close>
named_theorems unat_simps \<open>moving word terms to natural numbers\<close>

section \<open>Words as natural numbers\<close>

lemma unat_lt_64 [simp]: "unat (x::u64) < 18446744073709551616"
  using unsigned_less [of x, where ?'a = nat] by simp

lemma unat_add_nowrap:
  "unat x + unat y < 18446744073709551616 \<Longrightarrow> unat (x + y) = unat x + unat (y::u64)"
  by (simp add: unat_word_ariths)

lemma unat_add_of_nat:
  "unat x + n < 18446744073709551616 \<Longrightarrow> unat (x + of_nat n) = unat (x::u64) + n"
  by (simp add: unat_word_ariths unat_of_nat)

lemma unat_of_nat_small [unat_simps]:
  "n < 18446744073709551616 \<Longrightarrow> unat (of_nat n :: u64) = n"
  by (simp add: unat_of_nat)

lemma unat_suc_less: "(i::u64) < n \<Longrightarrow> unat (i + 1) = Suc (unat i)"
  using unat_add_nowrap [of i 1] unat_lt_64 [of n] by (simp add: word_less_nat_alt)

lemma less_suc_le: "(i::u64) < n \<Longrightarrow> i + 1 \<le> n"
  by (simp add: word_le_nat_alt word_less_nat_alt unat_suc_less)

lemma unat_mult_nowrap:
  "unat x * unat y < 18446744073709551616 \<Longrightarrow> unat (x * y) = unat x * unat (y::u64)"
  by (simp add: unat_word_ariths)

lemma unat_lt_32 [simp]: "unat (x::u32) < 4294967296"
  using unsigned_less [of x, where ?'a = nat] by simp

lemma unat_lt_16 [simp]: "unat (x::u16) < 65536"
  using unsigned_less [of x, where ?'a = nat] by simp

lemma unat_lt_8 [simp]: "unat (x::u8) < 256"
  using unsigned_less [of x, where ?'a = nat] by simp

lemma unat_ucast_u32 [simp, unat_simps]: "unat (ucast (x::u32) :: u64) = unat x"
  using order.strict_trans [OF unat_lt_32 [of x], of "2 ^ 64"]
  by (simp add: unsigned_ucast_eq take_bit_nat_eq_self)

lemma sint_small:
  assumes "unat x < 2 ^ 63"
  shows "sint (x::u64) = int (unat x)"
proof -
  have u: "uint x = int (unat x)" by (rule uint_nat)
  have "int (unat x) < 2 ^ 63" using assms by (simp flip: of_nat_less_iff [where 'a = int])
  then have "signed_take_bit 63 (uint x) = uint x"
    unfolding u by (intro signed_take_bit_int_eq_self) (rule order_trans [of _ 0], simp_all)
  then show ?thesis unfolding sint_uint u by simp
qed

lemma nat_eq_div_mod: "(x::nat) = y \<longleftrightarrow> x div d = y div d \<and> x mod d = y mod d"
  by (metis div_mult_mod_eq)

lemma page_split:
  "\<lbrakk>x < 4096; y < 4096; 4096 * q + x = 4096 * r + y\<rbrakk> \<Longrightarrow> q = r \<and> x = (y::nat)"
  by (cases q r rule: linorder_cases) linarith+

section \<open>Alignment macros\<close>

definition ALIGN_DOWN :: "u64 \<Rightarrow> u64 \<Rightarrow> u64" where
  "ALIGN_DOWN x a = x AND NOT (a - 1)"

definition ALIGN_UP :: "u64 \<Rightarrow> u64 \<Rightarrow> u64" where
  "ALIGN_UP x a = (x + a - 1) AND NOT (a - 1)"

lemma unat_and_not_mask: "unat (x AND NOT (mask n)) = unat (x::u64) div 2 ^ n * 2 ^ n"
proof -
  have eq: "x AND NOT (mask n) = push_bit n (drop_bit n x)"
    by (rule bit_word_eqI) (auto simp: bit_simps)
  have lt: "push_bit n (drop_bit n (unat x)) < 2 ^ 64"
    unfolding push_bit_eq_mult drop_bit_eq_div
    by (rule le_less_trans [OF div_times_less_eq_dividend]) simp
  have "unat (push_bit n (drop_bit n x)) = take_bit 64 (push_bit n (drop_bit n (unat x)))"
    by (simp only: unsigned_push_bit_eq unsigned_drop_bit_eq len_bit0 len_num1)
      (simp add: take_bit_nat_eq_self)
  also have "\<dots> = push_bit n (drop_bit n (unat x))"
    using lt by (rule take_bit_nat_eq_self)
  finally show ?thesis by (simp add: eq push_bit_eq_mult drop_bit_eq_div)
qed

lemma unat_page_mask [unat_simps]:
  "unat (x AND - 4096) = unat (x::u64) div 4096 * 4096"
  using unat_and_not_mask [of x 12] by (simp add: mask_eq_exp_minus_1)

lemma unat_and_mask: "unat (x AND mask n) = unat (x::u64) mod 2 ^ n"
  by (simp only: unsigned_take_bit_eq flip: take_bit_eq_mask) (simp add: take_bit_eq_mod)

lemma unat_page_offset [unat_simps]: "unat (x AND 0xFFF) = unat (x::u64) mod 4096"
  using unat_and_mask [of x 12] by (simp add: mask_eq_exp_minus_1)

lemma unat_ALIGN_DOWN_page: "unat (ALIGN_DOWN x 4096) = unat x div 4096 * 4096"
  using unat_page_mask [of x] by (simp add: ALIGN_DOWN_def)

lemma unat_ALIGN_UP_page:
  assumes "unat x + 4095 < 18446744073709551616"
  shows "unat (ALIGN_UP x 4096) = (unat x + 4095) div 4096 * 4096"
proof -
  have "ALIGN_UP x 4096 = (x + 4095) AND - 4096"
    by (simp add: ALIGN_UP_def algebra_simps)
  moreover have "unat (x + 4095) = unat x + 4095"
    using assms unat_add_nowrap [of x 4095] by simp
  ultimately show ?thesis by (simp add: unat_page_mask)
qed

section \<open>Little-endian loads and stores\<close>

definition load16 :: "memory \<Rightarrow> u64 \<Rightarrow> u16" where
  "load16 m a = ucast (m a) OR push_bit 8 (ucast (m (a + 1)))"

definition load32 :: "memory \<Rightarrow> u64 \<Rightarrow> u32" where
  "load32 m a = ucast (m a) OR push_bit 8 (ucast (m (a + 1))) OR
     push_bit 16 (ucast (m (a + 2))) OR push_bit 24 (ucast (m (a + 3)))"

definition load64 :: "memory \<Rightarrow> u64 \<Rightarrow> u64" where
  "load64 m a = ucast (m a) OR push_bit 8 (ucast (m (a + 1))) OR
     push_bit 16 (ucast (m (a + 2))) OR push_bit 24 (ucast (m (a + 3))) OR
     push_bit 32 (ucast (m (a + 4))) OR push_bit 40 (ucast (m (a + 5))) OR
     push_bit 48 (ucast (m (a + 6))) OR push_bit 56 (ucast (m (a + 7)))"

definition store64 :: "memory \<Rightarrow> u64 \<Rightarrow> u64 \<Rightarrow> memory" where
  "store64 m a v = (\<lambda>x. if x - a < 8 then ucast (drop_bit (8 * unat (x - a)) v) else m x)"

definition store32 :: "memory \<Rightarrow> u64 \<Rightarrow> u32 \<Rightarrow> memory" where
  "store32 m a v = (\<lambda>x. if x - a < 4 then ucast (drop_bit (8 * unat (x - a)) v) else m x)"

lemma take_bit_or_slice:
  "take_bit n v OR push_bit n (take_bit k (drop_bit n v)) = take_bit (n + k) (v :: 'a::len word)"
  by (rule bit_word_eqI) (auto simp: bit_simps)

lemma take_bit_or_slice_more:
  "take_bit n v OR (push_bit n (take_bit k (drop_bit n v)) OR w)
   = take_bit (n + k) (v :: 'a::len word) OR w"
  by (simp flip: take_bit_or_slice or.assoc)

lemma ucast_ucast_u8: "ucast (ucast (x::u64) :: u8) = take_bit 8 x"
  by (rule bit_word_eqI) (auto simp: bit_simps)

lemma load64_store64 [simp, mem_simps]: "load64 (store64 m a v) a = v"
  by (simp add: load64_def store64_def ucast_ucast_u8 or.assoc take_bit_word_eq_self
      take_bit_or_slice_more [of 8 v 8, simplified] take_bit_or_slice_more [of 16 v 8, simplified]
      take_bit_or_slice_more [of 24 v 8, simplified] take_bit_or_slice_more [of 32 v 8, simplified]
      take_bit_or_slice_more [of 40 v 8, simplified] take_bit_or_slice_more [of 48 v 8, simplified]
      take_bit_or_slice [of 56 v 8, simplified])

lemma ucast_ucast_u8_u32: "ucast (ucast (x::u32) :: u8) = take_bit 8 x"
  by (rule bit_word_eqI) (auto simp: bit_simps)

lemma load32_store32 [simp, mem_simps]: "load32 (store32 m a v) a = v"
  by (simp add: load32_def store32_def ucast_ucast_u8_u32 or.assoc take_bit_word_eq_self
      take_bit_or_slice_more [of 8 v 8, simplified] take_bit_or_slice_more [of 16 v 8, simplified]
      take_bit_or_slice [of 24 v 8, simplified])

text \<open>Agreement on the bytes of an access decides its value.\<close>

lemma load64_cong: "(\<And>k. k < 8 \<Longrightarrow> m (a + k) = m' (a + k)) \<Longrightarrow> load64 m a = load64 m' a"
proof -
  assume H: "\<And>k. k < 8 \<Longrightarrow> m (a + k) = m' (a + k)"
  have "m a = m' a" using H [of 0] by simp
  moreover have "m (a + 1) = m' (a + 1)" "m (a + 2) = m' (a + 2)" "m (a + 3) = m' (a + 3)"
    "m (a + 4) = m' (a + 4)" "m (a + 5) = m' (a + 5)" "m (a + 6) = m' (a + 6)"
    "m (a + 7) = m' (a + 7)" by (rule H, simp)+
  ultimately show ?thesis by (simp add: load64_def)
qed

lemma load32_cong: "(\<And>k. k < 4 \<Longrightarrow> m (a + k) = m' (a + k)) \<Longrightarrow> load32 m a = load32 m' a"
proof -
  assume H: "\<And>k. k < 4 \<Longrightarrow> m (a + k) = m' (a + k)"
  have "m a = m' a" using H [of 0] by simp
  moreover have "m (a + 1) = m' (a + 1)" "m (a + 2) = m' (a + 2)" "m (a + 3) = m' (a + 3)"
    by (rule H, simp)+
  ultimately show ?thesis by (simp add: load32_def)
qed

lemma store64_outside: "\<not> x - a < 8 \<Longrightarrow> store64 m a v x = m x"
  by (simp add: store64_def)

definition aligned8 :: "u64 \<Rightarrow> bool" where
  "aligned8 a \<longleftrightarrow> unat a mod 8 = 0"

lemma unat_aligned8_add:
  assumes "aligned8 a" "k < 8"
  shows "unat (a + k) = unat a + unat (k::u64)"
proof (rule unat_add_nowrap)
  have "unat a mod 8 = 0" using assms(1) by (simp add: aligned8_def)
  moreover have "unat k < 8" using assms(2) by (simp add: word_less_nat_alt)
  moreover have "unat a < 18446744073709551616" by simp
  ultimately show "unat a + unat k < 18446744073709551616" by presburger
qed

lemma aligned8_disjoint:
  assumes "aligned8 a" "aligned8 b" "a \<noteq> b" "k < 8"
  shows "\<not> b + k - a < 8"
proof
  assume lt: "b + k - a < 8"
  define l where "l = b + k - a"
  have "a + l = b + k" by (simp add: l_def)
  then have "unat a + unat l = unat b + unat k"
    using unat_aligned8_add [OF assms(1), of l] unat_aligned8_add [OF assms(2,4)] lt
    by (simp add: l_def)
  moreover have "unat l < 8" "unat k < 8"
    using lt assms(4) by (simp_all add: l_def word_less_nat_alt)
  ultimately have "unat a = unat b"
    using assms(1,2) unfolding aligned8_def by presburger
  with assms(3) show False by (simp add: word_unat_eq_iff)
qed

lemma load64_store64_other [mem_simps]:
  "\<lbrakk>aligned8 a; aligned8 b; a \<noteq> b\<rbrakk> \<Longrightarrow> load64 (store64 m a v) b = load64 m b"
  by (rule load64_cong) (simp add: store64_outside aligned8_disjoint)

section \<open>Counted loops\<close>

text \<open>
  \<open>for (x = a; c(x); x += step) s = f(x, s)\<close>. The value is \<open>None\<close> when the loop
  never ends, which a zero step or a wrapping counter can cause.
\<close>

definition for_step ::
  "(u64 \<Rightarrow> bool) \<Rightarrow> u64 \<Rightarrow> u64 \<Rightarrow> (u64 \<Rightarrow> 's \<Rightarrow> 's) \<Rightarrow> 's \<Rightarrow> 's option" where
  "for_step c step a f s =
     map_option snd (while_option (\<lambda>(x, s). c x) (\<lambda>(x, s). (x + step, f x s)) (a, s))"

lemma for_step_unfold:
  "for_step c step a f s = (if c a then for_step c step (a + step) f (f a s) else Some s)"
  unfolding for_step_def by (subst while_option_unfold) simp

lemma for_step_Some:
  assumes "\<And>k. k < n \<Longrightarrow> c (a + of_nat k * step)" and "\<not> c (a + of_nat n * step)"
  shows "for_step c step a f s = Some (fold f (map (\<lambda>k. a + of_nat k * step) [0..<n]) s)"
  using assms
proof (induction n arbitrary: a s)
  case 0
  then show ?case by (simp add: for_step_unfold)
next
  case (Suc n)
  have "for_step c step (a + step) f (f a s)
      = Some (fold f (map (\<lambda>k. a + step + of_nat k * step) [0..<n]) (f a s))"
  proof (rule Suc.IH)
    show "c (a + step + of_nat k * step)" if "k < n" for k
      using Suc.prems(1) [of "Suc k"] that by (simp add: algebra_simps)
    show "\<not> c (a + step + of_nat n * step)"
      using Suc.prems(2) by (simp add: algebra_simps)
  qed
  moreover have "map (\<lambda>k. a + step + of_nat k * step) [0..<n]
      = map (\<lambda>k. a + of_nat k * step) (map Suc [0..<n])"
    by (simp add: algebra_simps)
  moreover have "c a" using Suc.prems(1) [of 0] by simp
  ultimately show ?case
    by (subst for_step_unfold) (simp add: map_Suc_upt upt_conv_Cons del: map_map upt_Suc)
qed

text \<open>The common shape: \<open>for (x = a; x < e; x += step)\<close> far from the top of the address space.\<close>

lemma for_step_less:
  assumes "0 < unat step" and "unat e + unat step < 18446744073709551616"
    and "n = (if a < e then (unat e - unat a + unat step - 1) div unat step else 0)"
  shows "for_step (\<lambda>x. x < e) step a f s
       = Some (fold f (map (\<lambda>k. a + of_nat k * step) [0..<n]) s)"
proof (rule for_step_Some)
  let ?d = "unat step"
  have nd: "n * ?d < unat e - unat a + ?d" if "a < e"
  proof -
    have "n * ?d \<le> unat e - unat a + ?d - 1" using that assms(3) by simp
    moreover have "unat a < unat e" using that by (simp add: word_less_nat_alt)
    ultimately show ?thesis using assms(1) by linarith
  qed
  have U: "unat (a + of_nat k * step) = unat a + k * ?d" if "k \<le> n" "a < e" for k
  proof -
    have "k * ?d \<le> n * ?d" using that(1) by (rule mult_le_mono1)
    moreover have "unat a < unat e" using that(2) by (simp add: word_less_nat_alt)
    ultimately have le: "unat a + k * ?d < 18446744073709551616"
      using nd [OF that(2)] assms(2) by linarith
    have "of_nat k * step = (of_nat (k * ?d) :: u64)" by simp
    then show ?thesis using unat_add_of_nat [of a "k * ?d"] le by simp
  qed
  show "a + of_nat k * step < e" if "k < n" for k
  proof -
    have ae: "a < e" using that assms(3) by (cases "a < e") auto
    have "Suc k * ?d \<le> n * ?d" using that by (intro mult_right_mono) auto
    then have "k * ?d + ?d < unat e - unat a + ?d" using nd [OF ae] by simp
    then show ?thesis using U [of k] that ae by (simp add: word_less_nat_alt)
  qed
  show "\<not> a + of_nat n * step < e"
  proof (cases "a < e")
    case True
    let ?x = "unat e - unat a"
    have "?x + ?d - 1 = ((?x + ?d - 1) div ?d) * ?d + (?x + ?d - 1) mod ?d" by simp
    moreover have "(?x + ?d - 1) mod ?d < ?d" using assms(1) by simp
    ultimately have "?x \<le> ((?x + ?d - 1) div ?d) * ?d" using assms(1) by linarith
    then have "?x \<le> n * ?d" using assms(3) True by simp
    then show ?thesis using U [of n] True by (simp add: word_less_nat_alt)
  next
    case False
    then show ?thesis using assms(3) by simp
  qed
qed

text \<open>A loop over \<open>0, \<dots>, n - 1\<close> with an invariant in the loop index.\<close>

lemma fold_upt_inv:
  assumes "P 0 x" and "\<And>k y. k < n \<Longrightarrow> P k y \<Longrightarrow> P (Suc k) (f k y)"
  shows "P n (fold f [0..<n] x)"
  using assms(2)
proof (induction n)
  case (Suc n)
  then show ?case by (simp add: less_SucI)
qed (simp add: assms(1))

end
