(* ===== verification/Machine.thy ===== *)
theory Machine
  imports Prelude
begin

text \<open>
  The address-space constants of \<^verbatim>\<open>kernel/mm/vmm.h\<close> and the kernel's view of physical memory.
  While the kernel runs, a physical byte is reachable at its identity address (low half) or at
  its address in the higher-half direct map (HHDM). \<open>kaddr\<close> resolves such a kernel pointer to
  the physical byte it names.
\<close>

definition HHDM_OFFSET :: u64 where
  "HHDM_OFFSET = 0xFFFF800000000000"

definition KERNEL_VMA :: u64 where
  "KERNEL_VMA = 0xFFFFFFFF80000000"

definition USER_SPACE_END :: u64 where
  "USER_SPACE_END = 0x0000800000000000"

definition KERNEL_VIRT_BASE :: u64 where
  "KERNEL_VIRT_BASE = 0xFFFFFFFF80100000"

definition KERNEL_PHYS_BASE :: u64 where
  "KERNEL_PHYS_BASE = 0x100000"

definition FRAME_SIZE :: u64 where
  "FRAME_SIZE = 4096"

definition phys_to_virt :: "u64 \<Rightarrow> u64" where
  "phys_to_virt phys = phys + HHDM_OFFSET"

definition virt_to_phys_hhdm :: "u64 \<Rightarrow> u64" where
  "virt_to_phys_hhdm v = v - HHDM_OFFSET"

definition kaddr :: "u64 \<Rightarrow> u64" where
  "kaddr v = (if HHDM_OFFSET \<le> v then virt_to_phys_hhdm v else v)"

section \<open>Pointers into the direct map\<close>

lemma virt_to_phys_phys_to_virt [simp]: "virt_to_phys_hhdm (phys_to_virt p) = p"
  by (simp add: virt_to_phys_hhdm_def phys_to_virt_def)

lemma unat_HHDM_OFFSET: "unat HHDM_OFFSET = 18446603336221196288"
  by (simp add: HHDM_OFFSET_def)

lemma unat_phys_to_virt:
  "unat p < 2 ^ 47 \<Longrightarrow> unat (phys_to_virt p) = unat p + 18446603336221196288"
  unfolding phys_to_virt_def
  by (subst unat_add_nowrap) (simp_all add: unat_HHDM_OFFSET)

lemma kaddr_phys_to_virt: "unat p < 2 ^ 47 \<Longrightarrow> kaddr (phys_to_virt p) = p"
  by (simp add: kaddr_def word_le_nat_alt unat_phys_to_virt unat_HHDM_OFFSET)

lemma kaddr_low: "unat p < 2 ^ 47 \<Longrightarrow> kaddr p = p"
  by (simp add: kaddr_def word_le_nat_alt unat_HHDM_OFFSET)

lemma kaddr_add:
  assumes "unat (kaddr v) + unat k < 2 ^ 47"
  shows "kaddr (v + k) = kaddr v + k"
proof (cases "HHDM_OFFSET \<le> v")
  case True
  define p where "p = virt_to_phys_hhdm v"
  have v: "v = phys_to_virt p"
    by (simp add: p_def phys_to_virt_def virt_to_phys_hhdm_def)
  have kv: "kaddr v = p" using True by (simp add: kaddr_def p_def)
  have "unat (p + k) = unat p + unat k"
    using assms kv by (intro unat_add_nowrap) simp
  then have "unat (p + k) < 2 ^ 47" using assms kv by simp
  moreover have "v + k = phys_to_virt (p + k)"
    by (simp add: v phys_to_virt_def)
  ultimately show ?thesis using kv kaddr_phys_to_virt by simp
next
  case False
  then have kv: "kaddr v = v" by (simp add: kaddr_def)
  have "unat (v + k) = unat v + unat k"
    using assms kv by (intro unat_add_nowrap) simp
  then show ?thesis using assms kv kaddr_low [of "v + k"] by simp
qed

lemma unat_kaddr_add:
  "unat (kaddr v) + unat k < 2 ^ 47 \<Longrightarrow> unat (kaddr (v + k)) = unat (kaddr v) + unat k"
  by (simp add: kaddr_add unat_add_nowrap)

end
