(* ===== verification/Pmm.thy ===== *)
theory Pmm
  imports Machine
begin

text \<open>
  The physical memory manager, \<^verbatim>\<open>kernel/mm/pmm.c\<close>: one bit per 4 KB frame in a bitmap that
  lives in physical memory itself. The state holds the file's static variables and the memory
  they point into; \<open>None\<close> is a call that never returns (a halt loop, or a loop with no end).
  Progress messages printed with \<open>kprintf\<close> are left out.
\<close>

record pmm_state =
  ram :: memory
  bitmap :: u64
  bitmap_phys :: u64
  total_frames :: u64
  used_frames :: u64
  bitmap_size :: u64
  module_start :: u64
  module_end :: u64

section \<open>Bitmap operations\<close>

definition bm_byte :: "'a pmm_state_scheme \<Rightarrow> u64 \<Rightarrow> u64" where
  "bm_byte s f = kaddr (bitmap s + f div 8)"

definition bm_bit :: "u64 \<Rightarrow> u8" where
  "bm_bit f = push_bit (unat (f mod 8)) 1"

definition bitmap_set :: "'a pmm_state_scheme \<Rightarrow> u64 \<Rightarrow> 'a pmm_state_scheme" where
  "bitmap_set s f = s\<lparr>ram := (ram s)(bm_byte s f := ram s (bm_byte s f) OR bm_bit f)\<rparr>"

definition bitmap_clear :: "'a pmm_state_scheme \<Rightarrow> u64 \<Rightarrow> 'a pmm_state_scheme" where
  "bitmap_clear s f = s\<lparr>ram := (ram s)(bm_byte s f := ram s (bm_byte s f) AND NOT (bm_bit f))\<rparr>"

definition bitmap_test :: "'a pmm_state_scheme \<Rightarrow> u64 \<Rightarrow> bool" where
  "bitmap_test s f \<longleftrightarrow> ram s (bm_byte s f) AND bm_bit f \<noteq> 0"

definition mark_used :: "u64 \<Rightarrow> 'a pmm_state_scheme \<Rightarrow> 'a pmm_state_scheme" where
  "mark_used f s =
     (if \<not> bitmap_test s f
      then (bitmap_set s f)\<lparr>used_frames := used_frames s + 1\<rparr> else s)"

definition mark_free :: "u64 \<Rightarrow> 'a pmm_state_scheme \<Rightarrow> 'a pmm_state_scheme" where
  "mark_free f s =
     (if bitmap_test s f
      then (bitmap_clear s f)\<lparr>used_frames := used_frames s - 1\<rparr> else s)"

section \<open>Allocation\<close>

text \<open>The linear first-fit scan of \<open>pmm_alloc_frame\<close>.\<close>

function alloc_scan :: "'a pmm_state_scheme \<Rightarrow> u64 \<Rightarrow> u64 option" where
  "alloc_scan s i =
     (if i < total_frames s then
        if \<not> bitmap_test s i then Some i else alloc_scan s (i + 1)
      else None)"
  by pat_completeness auto
termination
  by (relation "measure (\<lambda>(s, i). unat (total_frames s) - unat i)")
    (auto simp: unat_suc_less word_less_nat_alt)

declare alloc_scan.simps [simp del]

definition pmm_alloc_frame :: "'a pmm_state_scheme \<Rightarrow> u64 \<times> 'a pmm_state_scheme" where
  "pmm_alloc_frame s =
     (case alloc_scan s 1 of
        Some i \<Rightarrow> (i * FRAME_SIZE, mark_used i s)
      | None \<Rightarrow> (0, s))"

definition pmm_free_frame :: "u64 \<Rightarrow> 'a pmm_state_scheme \<Rightarrow> 'a pmm_state_scheme" where
  "pmm_free_frame addr s = mark_free (addr div FRAME_SIZE) s"

text \<open>The scan of \<open>pmm_alloc_contig\<close> returns the last frame of the first long enough run.\<close>

function contig_scan :: "'a pmm_state_scheme \<Rightarrow> u64 \<Rightarrow> u64 \<Rightarrow> u64 \<Rightarrow> u64 option" where
  "contig_scan s count i run =
     (if i < total_frames s then
        if bitmap_test s i then contig_scan s count (i + 1) 0
        else if run + 1 = count then Some i
        else contig_scan s count (i + 1) (run + 1)
      else None)"
  by pat_completeness auto
termination
  by (relation "measure (\<lambda>(s, count, i, run). unat (total_frames s) - unat i)")
    (auto simp: unat_suc_less word_less_nat_alt)

declare contig_scan.simps [simp del]

text \<open>\<open>for (f = first; f <= i; f++) mark_used(f)\<close>, with \<open>first \<le> i\<close>.\<close>

function mark_range :: "u64 \<Rightarrow> u64 \<Rightarrow> 'a pmm_state_scheme \<Rightarrow> 'a pmm_state_scheme" where
  "mark_range f i s =
     (if f < i then mark_range (f + 1) i (mark_used f s)
      else if f = i then mark_used f s else s)"
  by pat_completeness auto
termination
  by (relation "measure (\<lambda>(f, i, s). unat i - unat f)")
    (auto simp: unat_suc_less word_less_nat_alt)

declare mark_range.simps [simp del]

definition pmm_alloc_contig :: "u64 \<Rightarrow> 'a pmm_state_scheme \<Rightarrow> u64 \<times> 'a pmm_state_scheme" where
  "pmm_alloc_contig count s =
     (case contig_scan s count 1 0 of
        Some i \<Rightarrow> (let first = i - count + 1 in (first * FRAME_SIZE, mark_range first i s))
      | None \<Rightarrow> (0, s))"

definition pmm_boot_module :: "'a pmm_state_scheme \<Rightarrow> (u64 \<times> u64) option" where
  "pmm_boot_module s =
     (if module_end s = 0 then None else Some (module_start s, module_end s - module_start s))"

definition pmm_use_hhdm :: "'a pmm_state_scheme \<Rightarrow> 'a pmm_state_scheme" where
  "pmm_use_hhdm s = s\<lparr>bitmap := phys_to_virt (bitmap_phys s)\<rparr>"

definition pmm_total_frames :: "'a pmm_state_scheme \<Rightarrow> u64" where
  "pmm_total_frames s = total_frames s"

definition pmm_used_frames :: "'a pmm_state_scheme \<Rightarrow> u64" where
  "pmm_used_frames s = used_frames s"

section \<open>The bitmap as a set of used frames\<close>

text \<open>
  \<open>bm_ok\<close>: the bitmap lies below the top of the direct map and has a bit for every frame.
  \<open>used_set\<close> is the abstract state: the numbers of the frames marked used. \<open>pmm_inv\<close>
  adds that the counter \<open>used_frames\<close> is the size of that set.
\<close>

definition bm_ok :: "'a pmm_state_scheme \<Rightarrow> bool" where
  "bm_ok s \<longleftrightarrow> unat (kaddr (bitmap s)) + unat (bitmap_size s) \<le> 2 ^ 47 \<and>
     unat (total_frames s) \<le> 8 * unat (bitmap_size s)"

definition used_set :: "'a pmm_state_scheme \<Rightarrow> nat set" where
  "used_set s = {f. f < unat (total_frames s) \<and> bitmap_test s (of_nat f)}"

definition pmm_inv :: "'a pmm_state_scheme \<Rightarrow> bool" where
  "pmm_inv s \<longleftrightarrow> bm_ok s \<and> unat (used_frames s) = card (used_set s)"

lemma finite_used_set [simp]: "finite (used_set s)"
  by (simp add: used_set_def)

lemma used_set_bound: "f \<in> used_set s \<Longrightarrow> f < unat (total_frames s)"
  by (simp add: used_set_def)

lemma in_used_set: "f < total_frames s \<Longrightarrow> unat f \<in> used_set s \<longleftrightarrow> bitmap_test s f"
  by (simp add: used_set_def word_less_nat_alt)

lemma mark_fields [simp]:
  "total_frames (mark_used f s) = total_frames s" "total_frames (mark_free f s) = total_frames s"
  "bitmap (mark_used f s) = bitmap s" "bitmap (mark_free f s) = bitmap s"
  "bitmap_size (mark_used f s) = bitmap_size s" "bitmap_size (mark_free f s) = bitmap_size s"
  by (simp_all add: mark_used_def mark_free_def bitmap_set_def bitmap_clear_def)

lemma bitmap_test_bit: "bitmap_test s f \<longleftrightarrow> bit (ram s (bm_byte s f)) (unat (f mod 8))"
  by (simp add: bitmap_test_def bm_bit_def push_bit_eq_mult and_exp_eq_0_iff_not_bit)

lemma unat_bm_byte:
  assumes "bm_ok s" "f < total_frames s"
  shows "unat (bm_byte s f) = unat (kaddr (bitmap s)) + unat f div 8"
proof -
  have "unat f div 8 < unat (bitmap_size s)"
    using assms unfolding bm_ok_def word_less_nat_alt by linarith
  moreover have "unat (f div 8) = unat f div 8" by (simp add: unat_div)
  ultimately show ?thesis
    using assms(1) unat_kaddr_add [of "bitmap s" "f div 8"]
    by (simp add: bm_byte_def bm_ok_def)
qed

lemma bm_byte_eq_iff:
  "\<lbrakk>bm_ok s; f < total_frames s; g < total_frames s\<rbrakk> \<Longrightarrow>
   bm_byte s f = bm_byte s g \<longleftrightarrow> unat f div 8 = unat g div 8"
  by (simp add: word_unat_eq_iff unat_bm_byte)

lemma frame_bit_eq_iff:
  "f = g \<longleftrightarrow> unat f div 8 = unat g div 8 \<and> unat (f mod 8) = unat (g mod 8)" for f g :: u64
  unfolding word_unat_eq_iff unat_mod using nat_eq_div_mod [of "unat f" "unat g" 8] by simp

lemma bitmap_test_set:
  assumes "bm_ok s" "f < total_frames s" "g < total_frames s"
  shows "bitmap_test (bitmap_set s f) g \<longleftrightarrow> g = f \<or> bitmap_test s g"
proof -
  have same: "bm_byte (bitmap_set s f) g = bm_byte s g"
    by (simp add: bm_byte_def bitmap_set_def)
  have "unat (g mod 8) < 8" "unat (f mod 8) < 8" by (simp_all add: unat_mod)
  then show ?thesis
    using bm_byte_eq_iff [OF assms] frame_bit_eq_iff [of f g]
    by (auto simp: bitmap_test_bit same) (auto simp: bitmap_set_def bm_bit_def bit_simps)
qed

lemma bitmap_test_clear:
  assumes "bm_ok s" "f < total_frames s" "g < total_frames s"
  shows "bitmap_test (bitmap_clear s f) g \<longleftrightarrow> g \<noteq> f \<and> bitmap_test s g"
proof -
  have same: "bm_byte (bitmap_clear s f) g = bm_byte s g"
    by (simp add: bm_byte_def bitmap_clear_def)
  have "unat (g mod 8) < 8" "unat (f mod 8) < 8" by (simp_all add: unat_mod)
  then show ?thesis
    using bm_byte_eq_iff [OF assms] frame_bit_eq_iff [of f g]
    by (auto simp: bitmap_test_bit same) (auto simp: bitmap_clear_def bm_bit_def bit_simps)
qed

text \<open>The operations leave the layout and every byte outside the bitmap alone.\<close>

definition same_layout :: "'a pmm_state_scheme \<Rightarrow> 'a pmm_state_scheme \<Rightarrow> bool" where
  "same_layout s s' \<longleftrightarrow>
     bitmap s' = bitmap s \<and> bitmap_phys s' = bitmap_phys s \<and>
     total_frames s' = total_frames s \<and> bitmap_size s' = bitmap_size s \<and>
     module_start s' = module_start s \<and> module_end s' = module_end s \<and>
     pmm_state.more s' = pmm_state.more s \<and>
     (\<forall>a. \<not> a - kaddr (bitmap s) < bitmap_size s \<longrightarrow> ram s' a = ram s a)"

lemma same_layout_refl [simp]: "same_layout s s"
  by (simp add: same_layout_def)

lemma same_layout_trans [trans]:
  "\<lbrakk>same_layout s s'; same_layout s' s''\<rbrakk> \<Longrightarrow> same_layout s s''"
  by (simp add: same_layout_def)

lemma same_layout_fields:
  assumes "same_layout s s'"
  shows "bitmap s' = bitmap s" "bitmap_phys s' = bitmap_phys s"
    "total_frames s' = total_frames s" "bitmap_size s' = bitmap_size s"
    "module_start s' = module_start s" "module_end s' = module_end s"
    "pmm_state.more s' = pmm_state.more s"
  using assms by (simp_all add: same_layout_def)

lemma same_layout_outside:
  "\<lbrakk>same_layout s s'; \<not> a - kaddr (bitmap s) < bitmap_size s\<rbrakk> \<Longrightarrow> ram s' a = ram s a"
  by (simp add: same_layout_def)

lemma bm_byte_inside:
  assumes "bm_ok s" "f < total_frames s"
  shows "bm_byte s f - kaddr (bitmap s) < bitmap_size s"
proof -
  have lt: "unat f div 8 < unat (bitmap_size s)"
    using assms unfolding bm_ok_def word_less_nat_alt by linarith
  have "unat (kaddr (bitmap s)) \<le> unat (bm_byte s f)"
    using unat_bm_byte [OF assms] by simp
  then have "unat (bm_byte s f - kaddr (bitmap s)) = unat f div 8"
    using unat_bm_byte [OF assms] by (simp add: unat_sub word_le_nat_alt)
  then show ?thesis using lt by (simp add: word_less_nat_alt)
qed

lemma same_layout_mark:
  assumes "bm_ok s" "f < total_frames s"
  shows "same_layout s (mark_used f s)" "same_layout s (mark_free f s)"
  using bm_byte_inside [OF assms]
  by (auto simp: mark_used_def mark_free_def bitmap_set_def bitmap_clear_def same_layout_def)

lemma bm_ok_same_layout: "same_layout s s' \<Longrightarrow> bm_ok s' \<longleftrightarrow> bm_ok s"
  by (simp add: bm_ok_def same_layout_fields)

lemma bm_ok_mark [simp]:
  "\<lbrakk>bm_ok s; f < total_frames s\<rbrakk> \<Longrightarrow> bm_ok (mark_used f s)"
  "\<lbrakk>bm_ok s; f < total_frames s\<rbrakk> \<Longrightarrow> bm_ok (mark_free f s)"
  by (simp_all add: bm_ok_same_layout [OF same_layout_mark(1)]
      bm_ok_same_layout [OF same_layout_mark(2)])

lemma frame_of_nat:
  assumes "n < unat (t::u64)"
  shows "of_nat n < t" "of_nat n = (f::u64) \<longleftrightarrow> n = unat f"
proof -
  have *: "unat (of_nat n :: u64) = n"
    using assms by (intro unat_of_nat_small) (rule less_trans [OF _ unat_lt_64])
  then show "of_nat n < t" using assms by (simp add: word_less_nat_alt)
  from * show "of_nat n = (f::u64) \<longleftrightarrow> n = unat f" by (auto simp: word_unat_eq_iff)
qed

lemma bitmap_test_used_frames [simp]:
  "bitmap_test (s\<lparr>used_frames := u\<rparr>) g = bitmap_test s g"
  by (simp add: bitmap_test_def bm_byte_def)

lemma bitmap_test_mark:
  assumes "bm_ok s" "f < total_frames s" "g < total_frames s"
  shows "bitmap_test (mark_used f s) g \<longleftrightarrow> g = f \<or> bitmap_test s g"
    and "bitmap_test (mark_free f s) g \<longleftrightarrow> g \<noteq> f \<and> bitmap_test s g"
  using bitmap_test_set [OF assms] bitmap_test_clear [OF assms]
  by (auto simp: mark_used_def mark_free_def)

lemma used_set_mark:
  assumes "bm_ok s" "f < total_frames s"
  shows "used_set (mark_used f s) = insert (unat f) (used_set s)"
    and "used_set (mark_free f s) = used_set s - {unat f}"
proof -
  have "n \<in> used_set (mark_used f s) \<longleftrightarrow> n \<in> insert (unat f) (used_set s)"
       "n \<in> used_set (mark_free f s) \<longleftrightarrow> n \<in> used_set s - {unat f}" for n
  proof -
    have "n \<noteq> unat f" if "\<not> n < unat (total_frames s)"
      using that assms(2) by (auto simp: word_less_nat_alt)
    then show "n \<in> used_set (mark_used f s) \<longleftrightarrow> n \<in> insert (unat f) (used_set s)"
       "n \<in> used_set (mark_free f s) \<longleftrightarrow> n \<in> used_set s - {unat f}"
      using bitmap_test_mark [OF assms frame_of_nat(1)] frame_of_nat(2) [of n _ f] assms(2)
      by (auto simp: used_set_def word_less_nat_alt)
  qed
  then show "used_set (mark_used f s) = insert (unat f) (used_set s)"
    and "used_set (mark_free f s) = used_set s - {unat f}" by blast+
qed

text \<open>Counting on transitions keeps the counter exact, whatever is marked and however often.\<close>

lemma pmm_inv_mark:
  assumes "pmm_inv s" "f < total_frames s"
  shows "pmm_inv (mark_used f s)" "pmm_inv (mark_free f s)"
proof -
  have ok: "bm_ok s" and c: "unat (used_frames s) = card (used_set s)"
    using assms(1) by (simp_all add: pmm_inv_def)
  have f: "unat f \<in> used_set s \<longleftrightarrow> bitmap_test s f" using assms(2) by (rule in_used_set)
  have sub: "used_set s \<subseteq> {..<unat (total_frames s)}" by (auto dest: used_set_bound)
  have le: "card (insert (unat f) (used_set s)) \<le> unat (total_frames s)"
    using card_mono [of "{..<unat (total_frames s)}" "insert (unat f) (used_set s)"] sub assms(2)
    by (simp add: word_less_nat_alt)
  show "pmm_inv (mark_used f s)"
  proof (cases "bitmap_test s f")
    case True
    then show ?thesis using assms(1) by (simp add: mark_used_def)
  next
    case False
    then have "card (insert (unat f) (used_set s)) = Suc (card (used_set s))" using f by simp
    moreover have "unat (used_frames s + 1) = Suc (unat (used_frames s))"
      using le calculation c unat_add_nowrap [of "used_frames s" 1] unat_lt_64 [of "total_frames s"]
      by simp
    moreover have "used_frames (mark_used f s) = used_frames s + 1"
      using False by (simp add: mark_used_def)
    ultimately show ?thesis
      using ok c assms(2) by (simp add: pmm_inv_def used_set_mark)
  qed
  show "pmm_inv (mark_free f s)"
  proof (cases "bitmap_test s f")
    case True
    then have "0 < card (used_set s)" using f by (auto simp: card_gt_0_iff)
    then have "1 \<le> used_frames s" using c by (simp add: word_le_nat_alt)
    then have "unat (used_frames s - 1) = card (used_set s) - 1"
      using c by (simp add: unat_sub)
    moreover have "used_frames (mark_free f s) = used_frames s - 1"
      using True by (simp add: mark_free_def)
    ultimately show ?thesis
      using ok f True assms(2) by (simp add: pmm_inv_def used_set_mark)
  next
    case False
    then show ?thesis using assms(1) by (simp add: mark_free_def)
  qed
qed

section \<open>Allocation correctness\<close>

lemma alloc_scan_Some:
  "alloc_scan s i = Some j \<Longrightarrow>
   i \<le> j \<and> j < total_frames s \<and> \<not> bitmap_test s j \<and>
   (\<forall>k. i \<le> k \<and> k < j \<longrightarrow> bitmap_test s k)"
proof (induction s i rule: alloc_scan.induct)
  case (1 s i)
  show ?case
  proof (cases "i < total_frames s \<and> bitmap_test s i")
    case True
    then have "i + 1 \<le> j \<and> j < total_frames s \<and> \<not> bitmap_test s j \<and>
       (\<forall>k. i + 1 \<le> k \<and> k < j \<longrightarrow> bitmap_test s k)"
      using 1 by (subst (asm) (2) alloc_scan.simps) auto
    moreover have "i \<le> i + 1"
      using True unat_suc_less [of i "total_frames s"] by (simp add: word_le_nat_alt)
    moreover have "k = i \<or> i + 1 \<le> k" if "i \<le> k" for k
      using that less_suc_le [of i k] by (metis order_le_less)
    ultimately show ?thesis using True by (metis order.trans)
  next
    case False
    then show ?thesis using 1(2)
      by (subst (asm) alloc_scan.simps) (auto split: if_splits)
  qed
qed

lemma alloc_scan_None:
  "alloc_scan s i = None \<Longrightarrow> i \<le> k \<Longrightarrow> k < total_frames s \<Longrightarrow> bitmap_test s k"
proof (induction s i rule: alloc_scan.induct)
  case (1 s i)
  have lt: "i < total_frames s" using 1(3,4) by simp
  then have t: "bitmap_test s i" using 1(2) by (subst (asm) alloc_scan.simps) (auto split: if_splits)
  show ?case
  proof (cases "k = i")
    case False
    then have "i + 1 \<le> k" using 1(3) by (simp add: less_suc_le)
    then show ?thesis using 1 lt t by (subst (asm) (2) alloc_scan.simps) auto
  qed (simp add: t)
qed

text \<open>
  The contract of a frame allocator: what its clients (page tables, the kernel heap, the ELF
  loader) rely on. \<open>used\<close> abstracts the allocator to the set of frames handed out.
\<close>

locale frame_allocator =
  fixes alloc :: "'s \<Rightarrow> u64 \<times> 's"
    and free :: "u64 \<Rightarrow> 's \<Rightarrow> 's"
    and inv :: "'s \<Rightarrow> bool"
    and used :: "'s \<Rightarrow> nat set"
    and frames :: "'s \<Rightarrow> nat"
  assumes used_bound: "inv s \<Longrightarrow> f \<in> used s \<Longrightarrow> f < frames s"
    and frames_bound: "inv s \<Longrightarrow> frames s * 4096 < 2 ^ 64"
    and alloc_inv: "inv s \<Longrightarrow> alloc s = (a, s') \<Longrightarrow> inv s'"
    and alloc_frames: "inv s \<Longrightarrow> alloc s = (a, s') \<Longrightarrow> frames s' = frames s"
    and alloc_fresh: "inv s \<Longrightarrow> alloc s = (a, s') \<Longrightarrow> a \<noteq> 0 \<Longrightarrow>
      (\<exists>f. 0 < f \<and> f < frames s \<and> f \<notin> used s \<and> unat a = f * 4096 \<and> used s' = insert f (used s))"
    and alloc_oom: "inv s \<Longrightarrow> alloc s = (0, s') \<Longrightarrow> s' = s \<and> {1..<frames s} \<subseteq> used s"
    and free_inv: "inv s \<Longrightarrow> unat a < frames s * 4096 \<Longrightarrow> inv (free a s)"
    and free_frames: "inv s \<Longrightarrow> unat a < frames s * 4096 \<Longrightarrow> frames (free a s) = frames s"
    and free_used: "inv s \<Longrightarrow> unat a < frames s * 4096 \<Longrightarrow>
      used (free a s) = used s - {unat a div 4096}"
begin

lemma alloc_aligned: "inv s \<Longrightarrow> alloc s = (a, s') \<Longrightarrow> unat a mod 4096 = 0"
  using alloc_fresh [of s a s'] by (cases "a = 0") auto

lemma alloc_then_free:
  assumes "inv s" "alloc s = (a, s')" "a \<noteq> 0"
  shows "inv (free a s')" and "used (free a s') = used s"
proof -
  obtain f where f: "f < frames s" "f \<notin> used s" "unat a = f * 4096" "used s' = insert f (used s)"
    using alloc_fresh [OF assms] by auto
  have s': "inv s'" "frames s' = frames s"
    using alloc_inv [OF assms(1,2)] alloc_frames [OF assms(1,2)] by simp_all
  have lt: "unat a < frames s' * 4096" using f s' by simp
  show "inv (free a s')" by (rule free_inv [OF s'(1) lt])
  show "used (free a s') = used s" using free_used [OF s'(1) lt] f by simp
qed

text \<open>A second allocation never returns the frame of the first.\<close>

lemma alloc_twice_distinct:
  assumes "inv s" "alloc s = (a, s')" "alloc s' = (b, s'')" "a \<noteq> 0" "b \<noteq> 0"
  shows "a \<noteq> b" and "unat a div 4096 \<in> used s''"
proof -
  obtain f where f: "f \<notin> used s" "unat a = f * 4096" "used s' = insert f (used s)"
    using alloc_fresh [OF assms(1,2,4)] by auto
  obtain g where g: "g \<notin> used s'" "unat b = g * 4096" "used s'' = insert g (used s')"
    using alloc_fresh [OF alloc_inv [OF assms(1,2)] assms(3,5)] by auto
  show "a \<noteq> b" using f g by auto
  show "unat a div 4096 \<in> used s''" using f g by simp
qed

text \<open>As long as a frame beyond frame 0 is free, allocation succeeds.\<close>

lemma alloc_succeeds:
  assumes "inv s" "f \<notin> used s" "0 < f" "f < frames s"
  shows "fst (alloc s) \<noteq> 0"
proof
  assume "fst (alloc s) = 0"
  then have "alloc s = (0, snd (alloc s))" by (metis prod.collapse)
  then have "{1..<frames s} \<subseteq> used s" using alloc_oom [OF assms(1)] by blast
  moreover have "f \<in> {1..<frames s}" using assms(3,4) by simp
  ultimately show False using assms(2) by blast
qed

end

text \<open>Frame addresses fit in 64 bits under \<open>bm_ok\<close>.\<close>

lemma bm_ok_total: "bm_ok s \<Longrightarrow> unat (total_frames s) \<le> 2 ^ 50"
  unfolding bm_ok_def by (simp; linarith)

lemma unat_frame_addr:
  assumes "bm_ok s" "f < total_frames s"
  shows "unat (f * FRAME_SIZE) = unat f * 4096"
proof -
  have "unat f * 4096 < 18446744073709551616"
    using bm_ok_total [OF assms(1)] assms(2) by (simp add: word_less_nat_alt)
  then show ?thesis using unat_mult_nowrap [of f 4096] by (simp add: FRAME_SIZE_def)
qed

lemma pmm_alloc_frame_fresh:
  assumes "pmm_inv s" "pmm_alloc_frame s = (a, s')" "a \<noteq> 0"
  obtains f where "0 < f" "f < total_frames s" "\<not> bitmap_test s f" "a = f * FRAME_SIZE"
    "s' = mark_used f s" "\<And>k. 1 \<le> k \<Longrightarrow> k < f \<Longrightarrow> bitmap_test s k"
proof -
  from assms(2,3) obtain f where f: "alloc_scan s 1 = Some f" "a = f * FRAME_SIZE" "s' = mark_used f s"
    by (auto simp: pmm_alloc_frame_def split: option.splits)
  have "1 \<le> f" using alloc_scan_Some [OF f(1)] by blast
  then have "0 < f" by (simp add: word_le_nat_alt word_less_nat_alt)
  then show ?thesis using that alloc_scan_Some [OF f(1)] f by blast
qed

lemma pmm_alloc_frame_oom:
  assumes "pmm_inv s" "pmm_alloc_frame s = (0, s')"
  shows "s' = s" and "{1..<unat (total_frames s)} \<subseteq> used_set s"
proof -
  have none: "alloc_scan s 1 = None"
  proof (rule ccontr)
    assume "alloc_scan s 1 \<noteq> None"
    then obtain f where f: "alloc_scan s 1 = Some f" by blast
    then have "unat (f * FRAME_SIZE) = unat f * 4096" "1 \<le> f"
      using alloc_scan_Some [OF f] assms(1) unat_frame_addr by (auto simp: pmm_inv_def)
    then show False using assms(2) f
      by (auto simp: pmm_alloc_frame_def word_le_nat_alt word_unat_eq_iff)
  qed
  then show "s' = s" using assms(2) by (simp add: pmm_alloc_frame_def)
  show "{1..<unat (total_frames s)} \<subseteq> used_set s"
  proof
    fix n assume "n \<in> {1..<unat (total_frames s)}"
    then have n: "1 \<le> n" "n < unat (total_frames s)" by auto
    have "unat (of_nat n :: u64) = n" using frame_of_nat(2) [OF n(2), of "of_nat n"] by simp
    then have "1 \<le> (of_nat n :: u64)" using n(1) by (simp add: word_le_nat_alt)
    then have "bitmap_test s (of_nat n)"
      using alloc_scan_None [OF none] frame_of_nat(1) [OF n(2)] by blast
    then show "n \<in> used_set s" using n(2) by (simp add: used_set_def)
  qed
qed

interpretation pmm: frame_allocator
  "pmm_alloc_frame :: 'a pmm_state_scheme \<Rightarrow> _" pmm_free_frame pmm_inv used_set
  "\<lambda>s. unat (total_frames s)"
proof (unfold_locales, goal_cases)
  case (1 s f)
  then show ?case by (simp add: used_set_bound)
next
  case (2 s)
  then show ?case using bm_ok_total [of s] by (simp add: pmm_inv_def)
next
  case (3 s a s')
  then show ?case
  proof (cases "a = 0")
    case True
    then show ?thesis using 3 pmm_alloc_frame_oom(1) by blast
  next
    case False
    then obtain f where "f < total_frames s" "s' = mark_used f s"
      using 3 by (auto elim: pmm_alloc_frame_fresh)
    then show ?thesis using 3(1) by (simp add: pmm_inv_mark)
  qed
next
  case (4 s a s')
  then show ?case
  proof (cases "a = 0")
    case True
    then show ?thesis using 4 pmm_alloc_frame_oom(1) by blast
  next
    case False
    then obtain f where "f < total_frames s" "s' = mark_used f s"
      using 4 by (auto elim: pmm_alloc_frame_fresh)
    then show ?thesis by simp
  qed
next
  case (5 s a s')
  then obtain f where f: "0 < f" "f < total_frames s" "\<not> bitmap_test s f" "a = f * FRAME_SIZE"
    "s' = mark_used f s" by (auto elim: pmm_alloc_frame_fresh)
  have ok: "bm_ok s" using 5(1) by (simp add: pmm_inv_def)
  show ?case
    using f in_used_set [OF f(2)] unat_frame_addr [OF ok f(2)] used_set_mark(1) [OF ok f(2)]
    by (intro exI [of _ "unat f"]) (simp add: word_less_nat_alt)
next
  case (6 s s')
  then show ?case using pmm_alloc_frame_oom by blast
next
  case (7 s a)
  then have "a div FRAME_SIZE < total_frames s"
    by (simp add: word_less_nat_alt unat_div FRAME_SIZE_def less_mult_imp_div_less)
  then show ?case using 7(1) by (simp add: pmm_free_frame_def pmm_inv_mark)
next
  case (8 s a)
  then show ?case by (simp add: pmm_free_frame_def)
next
  case (9 s a)
  then have "a div FRAME_SIZE < total_frames s"
    by (simp add: word_less_nat_alt unat_div FRAME_SIZE_def less_mult_imp_div_less)
  then show ?case
    using 9(1) used_set_mark(2) [of s "a div FRAME_SIZE"]
    by (simp add: pmm_free_frame_def pmm_inv_def unat_div FRAME_SIZE_def)
qed

text \<open>A run of \<open>n\<close> free frames from frame \<open>a\<close> on.\<close>

definition free_run :: "'a pmm_state_scheme \<Rightarrow> nat \<Rightarrow> nat \<Rightarrow> bool" where
  "free_run s a n \<longleftrightarrow> a + n \<le> unat (total_frames s) \<and> {a..<a + n} \<inter> used_set s = {}"

definition contig_inv :: "'a pmm_state_scheme \<Rightarrow> u64 \<Rightarrow> u64 \<Rightarrow> u64 \<Rightarrow> bool" where
  "contig_inv s count i run \<longleftrightarrow>
     run < count \<and> unat run < unat i \<and> unat i \<le> unat (total_frames s) \<and>
     free_run s (unat i - unat run) (unat run) \<and>
     (\<forall>st. 1 \<le> st \<longrightarrow> st < unat i - unat run \<longrightarrow> \<not> free_run s st (unat count))"

lemma free_run_extend:
  "\<lbrakk>free_run s a n; a + n < unat (total_frames s); a + n \<notin> used_set s\<rbrakk> \<Longrightarrow> free_run s a (Suc n)"
  by (auto simp: free_run_def less_Suc_eq)

lemma contig_inv_used:
  assumes "contig_inv s count i run" "i < total_frames s" "bitmap_test s i"
  shows "contig_inv s count (i + 1) 0"
proof -
  have ui: "unat (i + 1) = Suc (unat i)" using assms(2) by (rule unat_suc_less)
  have "\<not> free_run s st (unat count)" if "1 \<le> st" "st \<le> unat i" for st
  proof (cases "st < unat i - unat run")
    case True
    then show ?thesis using assms(1) that by (simp add: contig_inv_def)
  next
    case False
    have "unat run < unat count" using assms(1) by (simp add: contig_inv_def word_less_nat_alt)
    then have "unat i \<in> {st..<st + unat count}" using False that by auto
    then show ?thesis using in_used_set [OF assms(2)] assms(3) by (auto simp: free_run_def)
  qed
  then show ?thesis
    using assms by (auto simp: contig_inv_def ui free_run_def word_less_nat_alt)
qed

lemma contig_inv_free:
  assumes "contig_inv s count i run" "i < total_frames s" "\<not> bitmap_test s i"
  shows "unat (run + 1) = Suc (unat run)"
    and "free_run s (unat i - unat run) (Suc (unat run))"
    and "run + 1 \<noteq> count \<Longrightarrow> contig_inv s count (i + 1) (run + 1)"
proof -
  have ui: "unat (i + 1) = Suc (unat i)" using assms(2) by (rule unat_suc_less)
  show ur: "unat (run + 1) = Suc (unat run)"
    using assms(1) unat_suc_less [of run count] by (simp add: contig_inv_def)
  show fr: "free_run s (unat i - unat run) (Suc (unat run))"
    using assms in_used_set [OF assms(2)] 
    by (intro free_run_extend) (auto simp: contig_inv_def word_less_nat_alt)
  show "contig_inv s count (i + 1) (run + 1)" if "run + 1 \<noteq> count"
  proof -
    have "run + 1 < count"
      using assms(1) that less_suc_le [of run count] by (simp add: contig_inv_def order_less_le)
    then show ?thesis using assms fr by (simp add: contig_inv_def ui ur word_less_nat_alt)
  qed
qed

lemma contig_scan_Some:
  "\<lbrakk>contig_scan s count i run = Some j; contig_inv s count i run\<rbrakk> \<Longrightarrow>
   j < total_frames s \<and> unat count \<le> unat j \<and>
   free_run s (Suc (unat j) - unat count) (unat count) \<and>
   (\<forall>st. 1 \<le> st \<longrightarrow> st < Suc (unat j) - unat count \<longrightarrow> \<not> free_run s st (unat count))"
proof (induction s count i run rule: contig_scan.induct)
  case (1 s count i run)
  have lt: "i < total_frames s" using 1(3) by (subst (asm) contig_scan.simps) (auto split: if_splits)
  show ?case
  proof (cases "bitmap_test s i")
    case True
    then have "contig_scan s count (i + 1) 0 = Some j"
      using 1(3) lt by (subst (asm) contig_scan.simps) simp
    then show ?thesis using 1(1) [OF lt True] contig_inv_used [OF 1(4) lt True] by simp
  next
    case False
    note c = contig_inv_free [OF 1(4) lt False]
    show ?thesis
    proof (cases "run + 1 = count")
      case True
      then have "j = i" using 1(3) lt False by (subst (asm) contig_scan.simps) simp
      moreover have "unat count = Suc (unat run)" using c(1) True by simp
      ultimately show ?thesis using c(2) 1(4) lt by (auto simp: contig_inv_def)
    next
      case ne: False
      then have "contig_scan s count (i + 1) (run + 1) = Some j"
        using 1(3) lt False by (subst (asm) contig_scan.simps) simp
      then show ?thesis using 1(2) [OF lt False ne] c(3) [OF ne] by simp
    qed
  qed
qed

lemma contig_scan_None:
  "\<lbrakk>contig_scan s count i run = None; contig_inv s count i run; 1 \<le> st\<rbrakk> \<Longrightarrow>
   \<not> free_run s st (unat count)"
proof (induction s count i run rule: contig_scan.induct)
  case (1 s count i run)
  show ?case
  proof (cases "i < total_frames s")
    case lt: True
    show ?thesis
    proof (cases "bitmap_test s i")
      case True
      then have "contig_scan s count (i + 1) 0 = None"
        using 1(3) lt by (subst (asm) contig_scan.simps) simp
      then show ?thesis using 1(1) [OF lt True] contig_inv_used [OF 1(4) lt True] 1(5) by simp
    next
      case False
      then have ne: "run + 1 \<noteq> count"
        using 1(3) lt by (subst (asm) contig_scan.simps) (auto split: if_splits)
      then have "contig_scan s count (i + 1) (run + 1) = None"
        using 1(3) lt False by (subst (asm) contig_scan.simps) simp
      then show ?thesis
        using 1(2) [OF lt False ne] contig_inv_free(3) [OF 1(4) lt False ne] 1(5) by simp
    qed
  next
    case False
    then have "unat i = unat (total_frames s)" "unat run < unat count"
      using 1(4) by (auto simp: contig_inv_def word_less_nat_alt)
    then show ?thesis using 1(4,5)
      by (cases "st < unat i - unat run") (auto simp: contig_inv_def free_run_def)
  qed
qed

lemma mark_range_marks:
  "\<lbrakk>pmm_inv s; i < total_frames s\<rbrakk> \<Longrightarrow>
   pmm_inv (mark_range f i s) \<and> same_layout s (mark_range f i s) \<and>
   used_set (mark_range f i s) = used_set s \<union> {unat f..unat i}"
proof (induction f i s rule: mark_range.induct)
  case (1 f i s)
  have ok: "bm_ok s" using 1(2) by (simp add: pmm_inv_def)
  show ?case
  proof (cases "f < i")
    case True
    then have f: "f < total_frames s" using 1(3) by (rule order.strict_trans)
    note m = same_layout_mark(1) [OF ok f]
    have "i < total_frames (mark_used f s)" using 1(3) by simp
    note IH = 1(1) [OF True pmm_inv_mark(1) [OF 1(2) f] this]
    have "{unat f..unat i} = insert (unat f) {unat (f + 1)..unat i}"
      using True unat_suc_less [OF True] by (auto simp: word_less_nat_alt)
    moreover have "mark_range f i s = mark_range (f + 1) i (mark_used f s)"
      using True by (simp add: mark_range.simps [of f i s])
    ultimately show ?thesis
      using IH used_set_mark(1) [OF ok f] same_layout_trans [OF m] by auto
  next
    case False
    show ?thesis
    proof (cases "f = i")
      case True
      then show ?thesis
        using 1(2,3) ok by (simp add: mark_range.simps [of i i] pmm_inv_mark same_layout_mark used_set_mark)
    next
      case ne: False
      then have "{unat f..unat i} = {}" using False by (auto simp: word_less_nat_alt word_unat_eq_iff)
      then show ?thesis using False ne 1(2) by (simp add: mark_range.simps [of f i])
    qed
  qed
qed

section \<open>Properties of the allocator\<close>

lemma same_layout_alloc:
  assumes "pmm_inv s" "pmm_alloc_frame s = (a, s')"
  shows "same_layout s s'"
proof (cases "a = 0")
  case True
  then have "s' = s" using assms by (intro pmm_alloc_frame_oom(1)) simp_all
  then show ?thesis by simp
next
  case False
  then obtain f where "f < total_frames s" "s' = mark_used f s"
    using assms by (auto elim: pmm_alloc_frame_fresh)
  then show ?thesis using assms(1) by (simp add: same_layout_mark pmm_inv_def)
qed

lemma frames_below:
  assumes "\<And>k. 1 \<le> k \<Longrightarrow> k < f \<Longrightarrow> bitmap_test s k" "f < total_frames s"
  shows "{1..<unat f} \<subseteq> used_set s"
proof
  fix n assume "n \<in> {1..<unat f}"
  then have n: "1 \<le> n" "n < unat f" by auto
  then have "unat (of_nat n :: u64) = n" using frame_of_nat(2) [OF n(2), of "of_nat n"] by simp
  then have "bitmap_test s (of_nat n)"
    using n by (intro assms(1)) (simp_all add: word_le_nat_alt word_less_nat_alt)
  then show "n \<in> used_set s" using n assms(2) by (simp add: used_set_def word_less_nat_alt)
qed

text \<open>
  C2. \<open>pmm_alloc_frame\<close> is a first-fit allocator: it returns the address of the lowest frame
  above frame 0 that is not in use and marks exactly that frame, or it returns 0, changes
  nothing, and every frame above frame 0 is in use. Nothing outside the bitmap changes.
\<close>

theorem pmm_alloc_frame_correct:
  assumes "pmm_inv s" "pmm_alloc_frame s = (a, s')"
  shows "pmm_inv s' \<and> same_layout s s' \<and>
    (if a = 0 then s' = s \<and> {1..<unat (total_frames s)} \<subseteq> used_set s
     else \<exists>f. 0 < f \<and> f < unat (total_frames s) \<and> f \<notin> used_set s \<and> {1..<f} \<subseteq> used_set s \<and>
       unat a = f * 4096 \<and> used_set s' = insert f (used_set s))"
proof (cases "a = 0")
  case True
  then have "pmm_alloc_frame s = (0, s')" using assms(2) by simp
  from pmm_alloc_frame_oom [OF assms(1) this] show ?thesis using True assms(1) by simp
next
  case False
  then obtain f where f: "0 < f" "f < total_frames s" "\<not> bitmap_test s f" "a = f * FRAME_SIZE"
    "s' = mark_used f s" "\<And>k. 1 \<le> k \<Longrightarrow> k < f \<Longrightarrow> bitmap_test s k"
    using pmm_alloc_frame_fresh [OF assms] by metis
  have ok: "bm_ok s" using assms(1) by (simp add: pmm_inv_def)
  have "unat a = unat f * 4096" using unat_frame_addr [OF ok f(2)] f(4) by simp
  moreover have "unat f \<notin> used_set s" using f(3) in_used_set [OF f(2)] by simp
  moreover have "used_set s' = insert (unat f) (used_set s)"
    using f(5) used_set_mark(1) [OF ok f(2)] by simp
  ultimately show ?thesis
    using False f(1,2) frames_below [OF f(6,2)] pmm.alloc_inv [OF assms] same_layout_alloc [OF assms]
    by (auto simp: word_less_nat_alt)
qed

text \<open>A sixteen-frame memory with frames 0 to 3 and 6 in use, its bitmap at 4 KB.\<close>

definition pmm_example :: pmm_state where
  "pmm_example = \<lparr>ram = (\<lambda>_. 0)(0x1000 := 0x4F), bitmap = 0x1000, bitmap_phys = 0x1000,
     total_frames = 16, used_frames = 5, bitmap_size = 2, module_start = 0, module_end = 0\<rparr>"

lemma used_set_sixteen:
  assumes "ram s = (\<lambda>_. 0)(0x1000 := 0x4F)" "bitmap s = 0x1000" "total_frames s = 16"
  shows "used_set s = {0, 1, 2, 3, 6}"
proof -
  have "used_set s = set (filter (\<lambda>n. bitmap_test s (of_nat n)) [0..<16])"
    by (auto simp: used_set_def assms)
  also have "[0..<16] = [0, 1, 2, 3, 4, 5, 6, 7, 8, 9, 10, 11, 12, 13, 14, 15]"
    by (simp add: upt_rec)
  also have "set (filter (\<lambda>n. bitmap_test s (of_nat n)) \<dots>) = {0, 1, 2, 3, 6}"
    by (simp add: bitmap_test_def bm_byte_def bm_bit_def assms kaddr_def HHDM_OFFSET_def)
  finally show ?thesis .
qed

lemma used_set_example: "used_set pmm_example = {0, 1, 2, 3, 6}"
  by (rule used_set_sixteen) (simp_all add: pmm_example_def)

lemma pmm_example_inv: "pmm_inv pmm_example"
  by (simp add: pmm_inv_def used_set_example)
    (simp add: bm_ok_def pmm_example_def kaddr_def HHDM_OFFSET_def)

theorem pmm_alloc_frame_correct_witness:
  "\<exists>s'. pmm_alloc_frame pmm_example = (0x4000, s') \<and> pmm_inv s' \<and>
     used_set s' = {0, 1, 2, 3, 4, 6}"
proof -
  obtain a s' where e: "pmm_alloc_frame pmm_example = (a, s')" by (cases "pmm_alloc_frame pmm_example")
  have t: "unat (total_frames pmm_example) = 16" by (simp add: pmm_example_def)
  note c = pmm_alloc_frame_correct [OF pmm_example_inv e, unfolded used_set_example t]
  have "(5::nat) \<in> {1..<16}" "(5::nat) \<notin> {0, 1, 2, 3, 6}" by simp_all
  then have "\<not> {1..<16} \<subseteq> {0, 1, 2, 3, 6 :: nat}" by blast
  with c obtain f where f: "0 < f" "f \<notin> {0, 1, 2, 3, 6}" "{1..<f} \<subseteq> {0, 1, 2, 3, 6}"
    "unat a = f * 4096" "used_set s' = insert f {0, 1, 2, 3, 6}"
    by (auto split: if_splits)
  have "\<not> 4 < f" using f(3) by (auto dest: subsetD [of _ _ 4])
  then have "f = 4" using f(1,2) by auto
  then have "a = 0x4000" using f(4) by (simp add: word_unat_eq_iff)
  then show ?thesis using e c f(5) \<open>f = 4\<close> by auto
qed

text \<open>
  C3. \<open>pmm_alloc_contig\<close> with a positive count returns the start of the lowest run of that
  many consecutive free frames above frame 0 and marks exactly this run, or it returns 0,
  changes nothing, and no such run exists.
\<close>

theorem pmm_alloc_contig_correct:
  assumes "pmm_inv s" "0 < count" "pmm_alloc_contig count s = (a, s')"
  shows "pmm_inv s' \<and> same_layout s s' \<and>
    (if a = 0 then s' = s \<and> (\<forall>f \<ge> 1. \<not> free_run s f (unat count))
     else \<exists>f \<ge> 1. unat a = f * 4096 \<and> free_run s f (unat count) \<and>
       (\<forall>g. 1 \<le> g \<and> g < f \<longrightarrow> \<not> free_run s g (unat count)) \<and>
       used_set s' = used_set s \<union> {f..<f + unat count})"
proof (cases "total_frames s = 0")
  case True
  then have "contig_scan s count 1 0 = None" by (simp add: contig_scan.simps)
  then show ?thesis using assms(1-3) True
    by (auto simp: pmm_alloc_contig_def free_run_def word_less_nat_alt)
next
  case False
  have ok: "bm_ok s" using assms(1) by (simp add: pmm_inv_def)
  have "1 \<le> unat (total_frames s)" using False by (simp add: Suc_le_eq unat_gt_0)
  then have ci: "contig_inv s count 1 0"
    using assms(2) by (simp add: contig_inv_def free_run_def)
  show ?thesis
  proof (cases "contig_scan s count 1 0")
    case None
    then show ?thesis using assms contig_scan_None [OF None ci] by (simp add: pmm_alloc_contig_def)
  next
    case (Some i)
    note c = contig_scan_Some [OF Some ci]
    define first where "first = i - count + 1"
    have "count \<le> i" using c by (simp add: word_le_nat_alt)
    then have sub: "unat (i - count) = unat i - unat count" by (simp add: unat_sub)
    have "i - count < i" using sub c assms(2) by (simp add: word_less_nat_alt)
    then have uf: "unat first = Suc (unat i) - unat count"
      using sub c unat_suc_less [of "i - count" i] by (simp add: first_def Suc_diff_le)
    have flt: "first < total_frames s"
      using uf c assms(2) unfolding word_less_nat_alt by linarith
    have as: "a = first * FRAME_SIZE" "s' = mark_range first i s"
      using assms(3) Some by (simp_all add: pmm_alloc_contig_def first_def Let_def)
    have ua: "unat a = unat first * 4096" using unat_frame_addr [OF ok flt] as(1) by simp
    have f1: "1 \<le> unat first" using uf c by linarith
    have rng: "{unat first..unat i} = {unat first..<unat first + unat count}" using uf c by auto
    have "a \<noteq> 0" using ua f1 by auto
    then show ?thesis
      using mark_range_marks [OF assms(1), of i first] c ua f1 rng as(2)
      by (auto simp: uf [symmetric] intro!: exI [of _ "unat first"])
  qed
qed

theorem pmm_alloc_contig_correct_witness:
  "\<exists>a s'. pmm_alloc_contig 3 pmm_example = (a, s') \<and> pmm_inv s' \<and>
     unat a = 7 * 4096 \<and> used_set s' = {0, 1, 2, 3, 6} \<union> {7..<10}"
proof -
  obtain a s' where e: "pmm_alloc_contig 3 pmm_example = (a, s')"
    by (cases "pmm_alloc_contig 3 pmm_example")
  have t: "unat (total_frames pmm_example) = 16" by (simp add: pmm_example_def)
  have run: "free_run pmm_example f 3 \<longleftrightarrow> f + 3 \<le> 16 \<and> {f..<f + 3} \<inter> {0, 1, 2, 3, 6} = {}" for f
    by (simp add: free_run_def used_set_example t)
  have r7: "free_run pmm_example 7 3" by (simp add: run)
  have "(0::u64) < 3" by simp
  note c = pmm_alloc_contig_correct [OF pmm_example_inv this e]
  have u3: "unat (3::u64) = 3" by simp
  have "a \<noteq> 0" using c r7 unfolding u3 by (cases "a = 0") auto
  then obtain f where f: "1 \<le> f" "unat a = f * 4096" "free_run pmm_example f 3"
    "\<forall>g. 1 \<le> g \<and> g < f \<longrightarrow> \<not> free_run pmm_example g 3"
    "used_set s' = used_set pmm_example \<union> {f..<f + 3}"
    using c unfolding u3 by auto
  have "\<not> 7 < f" using f(4) r7 by auto
  moreover have "f \<notin> {1, 2, 3, 4, 5, 6}" using f(3) by (auto simp: run)
  ultimately have "f = 7" using f(1) by auto
  then show ?thesis using e c f(2,5) by (simp add: used_set_example)
qed

text \<open>
  Freeing undoes an allocation: the set of frames in use and the counter are what they were
  before, and freeing the same frame a second time changes nothing.
\<close>

theorem pmm_free_frame_correct:
  assumes "pmm_inv s" "pmm_alloc_frame s = (a, s')" "a \<noteq> 0"
  shows "pmm_inv (pmm_free_frame a s') \<and> used_set (pmm_free_frame a s') = used_set s \<and>
    used_frames (pmm_free_frame a s') = used_frames s \<and>
    pmm_free_frame a (pmm_free_frame a s') = pmm_free_frame a s'"
proof -
  let ?s = "pmm_free_frame a s'"
  note f = pmm.alloc_then_free [OF assms]
  have "unat (used_frames ?s) = unat (used_frames s)"
    using f assms(1) by (simp add: pmm_inv_def)
  moreover have "\<not> bitmap_test ?s (a div FRAME_SIZE)"
  proof -
    obtain g where g: "g < total_frames s" "a = g * FRAME_SIZE" "s' = mark_used g s"
      using assms by (auto elim: pmm_alloc_frame_fresh)
    have ok: "bm_ok s" using assms(1) by (simp add: pmm_inv_def)
    have d: "a div FRAME_SIZE = g"
      using unat_frame_addr [OF ok g(1)] g(2)
      by (simp add: word_unat_eq_iff unat_div FRAME_SIZE_def)
    show ?thesis unfolding pmm_free_frame_def d
      using g(1,3) ok by (simp add: bitmap_test_mark)
  qed
  then have "pmm_free_frame a ?s = ?s"
    unfolding pmm_free_frame_def [of a ?s] mark_free_def by simp
  ultimately show ?thesis using f by (simp add: word_unat_eq_iff)
qed

theorem pmm_free_frame_correct_witness:
  "\<exists>a s'. pmm_alloc_frame pmm_example = (a, s') \<and> used_set (pmm_free_frame a s') = {0, 1, 2, 3, 6}"
proof -
  obtain a s' where e: "pmm_alloc_frame pmm_example = (a, s')" by (cases "pmm_alloc_frame pmm_example")
  have "fst (pmm_alloc_frame pmm_example) \<noteq> 0"
    using pmm.alloc_succeeds [OF pmm_example_inv, of 4] by (simp add: used_set_example)
      (simp add: pmm_example_def)
  then show ?thesis
    using pmm_free_frame_correct [OF pmm_example_inv e] e by (auto simp: used_set_example)
qed

end
