(* ===== verification/PmmInit.thy ===== *)
theory PmmInit
  imports Pmm
begin

text \<open>
  Boot-time construction of the frame bitmap, \<open>pmm_init\<close> of \<^verbatim>\<open>kernel/mm/pmm.c\<close>: the walk
  over the Multiboot2 tags, the sizing pass over the memory map, the placement of the bitmap, and
  the passes that free the available regions and reserve the kernel, the bitmap and the module.
  The boot loader's identity map is active, so these pointers are physical addresses.
\<close>

section \<open>Multiboot2 structures\<close>

record mb2_tag =
  tag_type :: u32
  tag_size :: u32

definition mb2_tag_at :: "memory \<Rightarrow> u64 \<Rightarrow> mb2_tag" where
  "mb2_tag_at m p = \<lparr>tag_type = load32 m p, tag_size = load32 m (p + 4)\<rparr>"

record mb2_tag_mmap = mb2_tag +
  tag_entry_size :: u32
  tag_entry_version :: u32

definition mb2_tag_mmap_at :: "memory \<Rightarrow> u64 \<Rightarrow> mb2_tag_mmap" where
  "mb2_tag_mmap_at m p =
     \<lparr>tag_type = load32 m p, tag_size = load32 m (p + 4),
      tag_entry_size = load32 m (p + 8), tag_entry_version = load32 m (p + 12)\<rparr>"

record mb2_tag_module = mb2_tag +
  mod_start :: u32
  mod_end :: u32

definition mb2_tag_module_at :: "memory \<Rightarrow> u64 \<Rightarrow> mb2_tag_module" where
  "mb2_tag_module_at m p =
     \<lparr>tag_type = load32 m p, tag_size = load32 m (p + 4),
      mod_start = load32 m (p + 8), mod_end = load32 m (p + 12)\<rparr>"

record mb2_mmap_entry =
  base_addr :: u64
  entry_length :: u64
  entry_type :: u32

definition mb2_mmap_entry_at :: "memory \<Rightarrow> u64 \<Rightarrow> mb2_mmap_entry" where
  "mb2_mmap_entry_at m e =
     \<lparr>base_addr = load64 m e, entry_length = load64 m (e + 8), entry_type = load32 m (e + 16)\<rparr>"

section \<open>The passes of pmm_init\<close>

text \<open>What one tag contributes: the memory map tag seen last, the first module with an end.\<close>

definition tag_effect :: "memory \<Rightarrow> u64 \<Rightarrow> u64 \<times> u64 \<times> u64 \<Rightarrow> u64 \<times> u64 \<times> u64" where
  "tag_effect m p = (\<lambda>(mmap, ms, me).
     let tag = mb2_tag_at m p;
         mmap' = (if tag_type tag = 6 then p else mmap)
     in if tag_type tag = 3 \<and> me = 0
        then let md = mb2_tag_module_at m p in (mmap', ucast (mod_start md), ucast (mod_end md))
        else (mmap', ms, me))"

text \<open>\<open>ALIGN_UP(tag->size, 8)\<close>: the sum is formed in 32 bits, the mask in 64.\<close>

definition tag_advance :: "memory \<Rightarrow> u64 \<Rightarrow> u64" where
  "tag_advance m p = ucast (tag_size (mb2_tag_at m p) + 8 - 1) AND NOT (8 - 1)"

definition tag_walk ::
  "memory \<Rightarrow> u64 \<Rightarrow> u64 \<Rightarrow> u64 \<times> u64 \<times> u64 \<Rightarrow> (u64 \<times> u64 \<times> u64) option" where
  "tag_walk m endp p acc =
     map_option snd (while_option (\<lambda>(p, acc). p < endp \<and> tag_type (mb2_tag_at m p) \<noteq> 0)
       (\<lambda>(p, acc). (p + tag_advance m p, tag_effect m p acc)) (p, acc))"

definition region_end :: "mb2_mmap_entry \<Rightarrow> u64" where
  "region_end m = base_addr m + entry_length m"

text \<open>Pass 1: the highest usable physical address.\<close>

definition max_region :: "memory \<Rightarrow> u64 \<Rightarrow> u64 \<Rightarrow> u64" where
  "max_region m e max_addr =
     (let r = mb2_mmap_entry_at m e in
      if entry_type r = 1 \<and> region_end r > max_addr then region_end r else max_addr)"

text \<open>Move the bitmap past whatever it overlaps until a pass moves nothing.\<close>

definition place_pass ::
  "u64 \<Rightarrow> u64 \<Rightarrow> u64 \<Rightarrow> u64 \<Rightarrow> u64 \<Rightarrow> u64 \<times> bool \<Rightarrow> u64 \<times> bool" where
  "place_pass mb2_start mb2_end ms me bsize = (\<lambda>(b, moved).
     let (b, moved) = (if mb2_end > b \<and> mb2_start < b + bsize
                       then (ALIGN_UP mb2_end FRAME_SIZE, True) else (b, False))
     in if me \<noteq> 0 \<and> me > b \<and> ms < b + bsize then (ALIGN_UP me FRAME_SIZE, True) else (b, moved))"

definition place_bitmap :: "u64 \<Rightarrow> u64 \<Rightarrow> u64 \<Rightarrow> u64 \<Rightarrow> u64 \<Rightarrow> u64 \<Rightarrow> u64 option" where
  "place_bitmap kernel_phys_end mb2_start mb2_end ms me bsize =
     map_option fst (while_option snd (place_pass mb2_start mb2_end ms me bsize)
       (ALIGN_UP kernel_phys_end FRAME_SIZE, True))"

definition fill_bitmap :: "'a pmm_state_scheme \<Rightarrow> 'a pmm_state_scheme option" where
  "fill_bitmap s =
     for_step (\<lambda>i. i < bitmap_size s) 1 0
       (\<lambda>i s. s\<lparr>ram := (ram s)(kaddr (bitmap s + i) := 0xFF)\<rparr>) s"

text \<open>Pass 2: free the whole frames inside one available region.\<close>

definition free_region :: "u64 \<Rightarrow> 'a pmm_state_scheme \<Rightarrow> 'a pmm_state_scheme option" where
  "free_region e s =
     (let m = mb2_mmap_entry_at (ram s) e in
      if entry_type m \<noteq> 1 then Some s
      else for_step (\<lambda>a. a + FRAME_SIZE \<le> region_end m) FRAME_SIZE
             (ALIGN_UP (base_addr m) FRAME_SIZE) (\<lambda>a. mark_free (a div FRAME_SIZE)) s)"

definition free_regions ::
  "u64 \<Rightarrow> u64 \<Rightarrow> u64 \<Rightarrow> 'a pmm_state_scheme \<Rightarrow> 'a pmm_state_scheme option" where
  "free_regions entries mmap_end entry_size s =
     Option.bind (for_step (\<lambda>e. e < mmap_end) entry_size entries
       (\<lambda>e so. Option.bind so (free_region e)) (Some s)) (\<lambda>so. so)"

text \<open>Mark the frames of \<open>[start, stop)\<close> used, one frame at a time.\<close>

definition reserve_range ::
  "u64 \<Rightarrow> u64 \<Rightarrow> 'a pmm_state_scheme \<Rightarrow> 'a pmm_state_scheme option" where
  "reserve_range start stop s =
     for_step (\<lambda>a. a < stop) FRAME_SIZE start (\<lambda>a. mark_used (a div FRAME_SIZE)) s"

definition pmm_init :: "u64 \<Rightarrow> u64 \<Rightarrow> 'a pmm_state_scheme \<Rightarrow> 'a pmm_state_scheme option" where
  "pmm_init kernel_phys_end mb2_info s = do {
     let total_size = load32 (ram s) mb2_info;
     let endp = mb2_info + ucast total_size;
     (mmap, ms, me) \<leftarrow> tag_walk (ram s) endp (mb2_info + 8) (0, module_start s, module_end s);
     let s = s\<lparr>module_start := ms, module_end := me\<rparr>;
     if mmap = 0 then None else do {
       let tag = mb2_tag_mmap_at (ram s) mmap;
       let entries = mmap + 16;
       let mmap_end = mmap + ucast (tag_size tag);
       let entry_size = ucast (tag_entry_size tag);
       max_addr \<leftarrow> for_step (\<lambda>e. e < mmap_end) entry_size entries (max_region (ram s)) 0;
       let s = s\<lparr>total_frames := max_addr div FRAME_SIZE\<rparr>;
       let s = s\<lparr>bitmap_size := (total_frames s + 7) div 8\<rparr>;
       bitmap_start \<leftarrow> place_bitmap kernel_phys_end mb2_info (mb2_info + ucast total_size)
         (module_start s) (module_end s) (bitmap_size s);
       let s = s\<lparr>bitmap := bitmap_start\<rparr>;
       s \<leftarrow> fill_bitmap s;
       let s = s\<lparr>used_frames := total_frames s\<rparr>;
       s \<leftarrow> free_regions entries mmap_end entry_size s;
       let s = mark_used 0 s;
       s \<leftarrow> reserve_range 0 (ALIGN_UP (bitmap s + bitmap_size s) FRAME_SIZE) s;
       if module_end s \<noteq> 0
       then reserve_range (ALIGN_DOWN (module_start s) FRAME_SIZE) (module_end s) s
       else Some s
     }
   }"

section \<open>The tag walk\<close>

text \<open>\<open>tag_seq m p e ps\<close>: from \<open>p\<close> on, the tags before the end tag are at the addresses \<open>ps\<close>.\<close>

fun tag_seq :: "memory \<Rightarrow> u64 \<Rightarrow> u64 \<Rightarrow> u64 list \<Rightarrow> bool" where
  "tag_seq m p e [] \<longleftrightarrow> \<not> (p < e \<and> tag_type (mb2_tag_at m p) \<noteq> 0)"
| "tag_seq m p e (q # qs) \<longleftrightarrow>
     q = p \<and> p < e \<and> tag_type (mb2_tag_at m p) \<noteq> 0 \<and> tag_seq m (p + tag_advance m p) e qs"

lemma tag_walk_unfold:
  "tag_walk m e p acc =
     (if p < e \<and> tag_type (mb2_tag_at m p) \<noteq> 0
      then tag_walk m e (p + tag_advance m p) (tag_effect m p acc) else Some acc)"
  unfolding tag_walk_def by (subst while_option_unfold) (cases acc, simp)

lemma tag_walk_seq: "tag_seq m p e ps \<Longrightarrow> tag_walk m e p acc = Some (fold (tag_effect m) ps acc)"
proof (induction ps arbitrary: p acc)
  case Nil
  then show ?case by (subst tag_walk_unfold) auto
next
  case (Cons q qs)
  then show ?case by (subst tag_walk_unfold) auto
qed

text \<open>Tags that advance at all cannot keep the walk inside the structure for ever.\<close>

lemma tag_seq_exists:
  assumes "\<And>q. p \<le> q \<Longrightarrow> q < e \<Longrightarrow> tag_type (mb2_tag_at m q) \<noteq> 0 \<Longrightarrow>
     0 < unat (tag_advance m q) \<and> unat q + unat (tag_advance m q) < 18446744073709551616"
  shows "\<exists>ps. tag_seq m p e ps"
  using assms
proof (induction "unat e - unat p" arbitrary: p rule: less_induct)
  case less
  show ?case
  proof (cases "p < e \<and> tag_type (mb2_tag_at m p) \<noteq> 0")
    case True
    let ?q = "p + tag_advance m p"
    have adv: "0 < unat (tag_advance m p)" "unat ?q = unat p + unat (tag_advance m p)"
      using less.prems [of p] True unat_add_nowrap by auto
    have "\<exists>ps. tag_seq m ?q e ps"
    proof (rule less.hyps)
      show "unat e - unat ?q < unat e - unat p"
        using adv True unfolding word_less_nat_alt by linarith
      show "0 < unat (tag_advance m q) \<and> unat q + unat (tag_advance m q) < 18446744073709551616"
        if "?q \<le> q" "q < e" "tag_type (mb2_tag_at m q) \<noteq> 0" for q
        using that adv by (intro less.prems) (simp_all add: word_le_nat_alt)
    qed
    then obtain ps where "tag_seq m ?q e ps" by blast
    then have "tag_seq m p e (p # ps)" using True by simp
    then show ?thesis by blast
  next
    case False
    then have "tag_seq m p e []" by simp
    then show ?thesis by blast
  qed
qed

section \<open>Placing the bitmap\<close>

text \<open>Two half-open address ranges do not meet.\<close>

definition apart :: "nat \<Rightarrow> nat \<Rightarrow> nat \<Rightarrow> nat \<Rightarrow> bool" where
  "apart a b c d \<longleftrightarrow> b \<le> c \<or> d \<le> a"

text \<open>Addresses handled at boot are far below the top of the address space.\<close>

abbreviation low :: "u64 \<Rightarrow> bool" where
  "low x \<equiv> unat x < 2 ^ 46"

lemma low_align_up:
  assumes "low x"
  shows "unat x \<le> unat (ALIGN_UP x FRAME_SIZE)" "unat (ALIGN_UP x FRAME_SIZE) < 2 ^ 46 + 4096"
    "unat (ALIGN_UP x FRAME_SIZE) mod 4096 = 0"
proof -
  have "unat (ALIGN_UP x FRAME_SIZE) = (unat x + 4095) div 4096 * 4096"
    using assms unat_ALIGN_UP_page [of x] by (simp add: FRAME_SIZE_def)
  then show "unat x \<le> unat (ALIGN_UP x FRAME_SIZE)"
    "unat (ALIGN_UP x FRAME_SIZE) < 2 ^ 46 + 4096"
    "unat (ALIGN_UP x FRAME_SIZE) mod 4096 = 0" using assms by simp_all
qed

definition place_ok :: "u64 \<Rightarrow> u64 \<Rightarrow> u64 \<Rightarrow> u64 \<Rightarrow> u64 \<Rightarrow> u64 \<Rightarrow> bool" where
  "place_ok mb2_start mb2_end ms me bsize b \<longleftrightarrow>
     \<not> (mb2_end > b \<and> mb2_start < b + bsize) \<and> \<not> (me \<noteq> 0 \<and> me > b \<and> ms < b + bsize)"

lemma place_pass_still:
  assumes "place_pass mb2_start mb2_end ms me bsize (b, mv) = (b', False)"
  shows "b' = b \<and> place_ok mb2_start mb2_end ms me bsize b"
  using assms by (auto simp: place_pass_def place_ok_def Let_def split: if_splits)

text \<open>How many of the two obstacles still end above the candidate.\<close>

definition obstacles :: "u64 \<Rightarrow> u64 \<Rightarrow> u64 \<Rightarrow> nat" where
  "obstacles mb2_end me b = (if mb2_end > b then 1 else 0) + (if me > b then 1 else 0)"

lemma place_pass_step:
  assumes "place_pass mb2_start mb2_end ms me bsize (b, mv) = (b', True)" "low mb2_end" "low me"
  shows "b < b'" "unat b' < 2 ^ 46 + 4096" "unat b' mod 4096 = 0"
    "b' = ALIGN_UP mb2_end FRAME_SIZE \<or> b' = ALIGN_UP me FRAME_SIZE"
    "obstacles mb2_end me b' < obstacles mb2_end me b"
proof -
  let ?A = "ALIGN_UP mb2_end FRAME_SIZE" and ?M = "ALIGN_UP me FRAME_SIZE"
  have A: "mb2_end \<le> ?A" and M: "me \<le> ?M"
    using low_align_up(1) assms(2,3) by (simp_all add: word_le_nat_alt)
  have "b' = ?A \<and> b < mb2_end \<or> b' = ?M \<and> b < me \<and> (b < mb2_end \<longrightarrow> ?A < me \<or> b < me)"
    using assms(1) A by (auto simp: place_pass_def Let_def split: if_splits)
  then show "b < b'" "unat b' < 2 ^ 46 + 4096" "unat b' mod 4096 = 0"
    "b' = ALIGN_UP mb2_end FRAME_SIZE \<or> b' = ALIGN_UP me FRAME_SIZE"
    "obstacles mb2_end me b' < obstacles mb2_end me b"
    using A M low_align_up [OF assms(2)] low_align_up [OF assms(3)]
    by (auto simp: obstacles_def)
qed

lemma place_bitmap_returns:
  assumes "low kernel_phys_end" "low mb2_end" "low me"
  obtains b where "place_bitmap kernel_phys_end mb2_start mb2_end ms me bsize = Some b"
    "ALIGN_UP kernel_phys_end FRAME_SIZE \<le> b" "unat b < 2 ^ 46 + 4096" "unat b mod 4096 = 0"
    "b \<in> (\<lambda>x. ALIGN_UP x FRAME_SIZE) ` {kernel_phys_end, mb2_end, me}"
    "place_ok mb2_start mb2_end ms me bsize b"
proof -
  define K where "K = ALIGN_UP kernel_phys_end FRAME_SIZE"
  define c where "c = place_pass mb2_start mb2_end ms me bsize"
  define P where "P = (\<lambda>(b, moved). K \<le> b \<and> unat b < 2 ^ 46 + 4096 \<and> unat b mod 4096 = 0 \<and>
     b \<in> (\<lambda>x. ALIGN_UP x FRAME_SIZE) ` {kernel_phys_end, mb2_end, me} \<and>
     (\<not> moved \<longrightarrow> place_ok mb2_start mb2_end ms me bsize b))"
  define f :: "u64 \<times> bool \<Rightarrow> nat"
    where "f = (\<lambda>(b, moved). 2 * obstacles mb2_end me b + (if moved then 1 else 0))"
  have P0: "P (K, True)" using low_align_up [OF assms(1)] by (simp add: P_def K_def)
  have step: "P (c t) \<and> f (c t) < f t" if Pt: "P t" and st: "snd t" for t
  proof -
    obtain b where t: "t = (b, True)" using st by (cases t) auto
    obtain b' mv' where c: "c (b, True) = (b', mv')" by (cases "c (b, True)")
    show ?thesis
    proof (cases mv')
      case True
      then have "place_pass mb2_start mb2_end ms me bsize (b, True) = (b', True)"
        using c by (simp add: c_def)
      from place_pass_step [OF this assms(2,3)] have
        "b < b'" "unat b' < 2 ^ 46 + 4096" "unat b' mod 4096 = 0"
        "b' = ALIGN_UP mb2_end FRAME_SIZE \<or> b' = ALIGN_UP me FRAME_SIZE"
        "obstacles mb2_end me b' < obstacles mb2_end me b" .
      moreover from this(1) have "K \<le> b'"
        using Pt by (simp add: P_def t word_le_nat_alt word_less_nat_alt)
      ultimately show ?thesis using True by (auto simp: t c P_def f_def)
    next
      case False
      then have "b' = b \<and> place_ok mb2_start mb2_end ms me bsize b"
        using c by (intro place_pass_still [of _ _ _ _ _ b True]) (simp add: c_def)
      then show ?thesis using Pt False by (simp add: t c P_def f_def)
    qed
  qed
  have "\<exists>t. while_option snd c (K, True) = Some t"
    using step by (rule measure_while_option_Some [where P = P and f = f, OF _ P0])
  then obtain t where t: "while_option snd c (K, True) = Some t" by (rule exE)
  have "P t" using step by (intro while_option_rule [where P = P, OF _ t P0]) simp
  moreover have "\<not> snd t" using while_option_stop [OF t] .
  ultimately have "P (fst t, False)" by (cases t) simp
  then show ?thesis using t
    by (intro that [of "fst t"]) (simp_all add: place_bitmap_def P_def K_def c_def)
qed

lemma place_ok_apart:
  assumes "place_ok mb2_start mb2_end ms me bsize b" "unat b + unat bsize < 2 ^ 64"
  shows "apart (unat mb2_start) (unat mb2_end) (unat b) (unat b + unat bsize)"
    "me \<noteq> 0 \<Longrightarrow> apart (unat ms) (unat me) (unat b) (unat b + unat bsize)"
proof -
  have "unat (b + bsize) = unat b + unat bsize" using assms(2) by (intro unat_add_nowrap) simp
  then show "apart (unat mb2_start) (unat mb2_end) (unat b) (unat b + unat bsize)"
    "me \<noteq> 0 \<Longrightarrow> apart (unat ms) (unat me) (unat b) (unat b + unat bsize)"
    using assms(1) by (auto simp: place_ok_def apart_def word_less_nat_alt)
qed

section \<open>Filling the bitmap and marking ranges\<close>

lemma fold_fill:
  "fold (\<lambda>i s. s\<lparr>ram := (ram s)(kaddr (bitmap s + i) := 0xFF)\<rparr>) xs s =
   s\<lparr>ram := \<lambda>a. if a \<in> (\<lambda>i. kaddr (bitmap s + i)) ` set xs then 0xFF else ram s a\<rparr>"
  by (induction xs arbitrary: s) (auto simp: fun_eq_iff)

lemma fill_bitmap_returns:
  assumes "unat (kaddr (bitmap s)) + unat (bitmap_size s) < 2 ^ 47"
  shows "fill_bitmap s = Some (s\<lparr>ram := \<lambda>a. if a - kaddr (bitmap s) < bitmap_size s
           then 0xFF else ram s a\<rparr>)"
proof -
  let ?n = "unat (bitmap_size s)"
  have "fill_bitmap s = Some (fold (\<lambda>i s. s\<lparr>ram := (ram s)(kaddr (bitmap s + i) := 0xFF)\<rparr>)
      (map (\<lambda>k. 0 + of_nat k * 1) [0..<?n]) s)"
    unfolding fill_bitmap_def using assms
    by (intro for_step_less) (auto simp: word_less_nat_alt)
  moreover have "(\<lambda>i. kaddr (bitmap s + i)) ` set (map (\<lambda>k. 0 + of_nat k * 1) [0..<?n])
      = {a. a - kaddr (bitmap s) < bitmap_size s}" (is "?L = ?R")
  proof (rule set_eqI, rule iffI)
    fix a assume "a \<in> ?L"
    then obtain k where k: "k < ?n" "a = kaddr (bitmap s + of_nat k)" by auto
    have "unat (of_nat k :: u64) = k" using k(1) frame_of_nat(2) [of k "bitmap_size s" "of_nat k"] by simp
    then show "a \<in> ?R"
      using k assms kaddr_add [of "bitmap s" "of_nat k"] by (simp add: word_less_nat_alt)
  next
    fix a assume "a \<in> ?R"
    then have lt: "a - kaddr (bitmap s) < bitmap_size s" by simp
    then have "kaddr (bitmap s + (a - kaddr (bitmap s))) = a"
      using assms by (subst kaddr_add) (simp_all add: word_less_nat_alt)
    then have "a = kaddr (bitmap s + of_nat (unat (a - kaddr (bitmap s))))" by simp
    moreover have "unat (a - kaddr (bitmap s)) < ?n" using lt by (simp add: word_less_nat_alt)
    ultimately show "a \<in> ?L"
      by (intro image_eqI [of _ _ "of_nat (unat (a - kaddr (bitmap s)))"]) (simp, force)
  qed
  ultimately show ?thesis by (simp only: fold_fill) simp
qed

lemma bit_0xFF: "n < 8 \<Longrightarrow> bit (0xFF :: u8) n"
proof -
  assume "n < 8"
  moreover have "(0xFF :: u8) = mask 8" by (simp add: mask_eq_exp_minus_1)
  ultimately show ?thesis by (simp only: bit_mask_iff) simp
qed

text \<open>Marking a list of frame addresses, one after the other.\<close>

lemma fold_mark_used:
  "\<lbrakk>pmm_inv s; \<And>a. a \<in> set xs \<Longrightarrow> a div FRAME_SIZE < total_frames s\<rbrakk> \<Longrightarrow>
   pmm_inv (fold (\<lambda>a. mark_used (a div FRAME_SIZE)) xs s) \<and>
   same_layout s (fold (\<lambda>a. mark_used (a div FRAME_SIZE)) xs s) \<and>
   used_set (fold (\<lambda>a. mark_used (a div FRAME_SIZE)) xs s)
     = used_set s \<union> (\<lambda>a. unat a div 4096) ` set xs"
proof (induction xs arbitrary: s)
  case (Cons x xs)
  have x: "x div FRAME_SIZE < total_frames s" using Cons.prems(2) by simp
  have ok: "bm_ok s" using Cons.prems(1) by (simp add: pmm_inv_def)
  note IH = Cons.IH [OF pmm_inv_mark(1) [OF Cons.prems(1) x]]
  show ?case
    using IH Cons.prems(2) used_set_mark(1) [OF ok x] same_layout_trans [OF same_layout_mark(1) [OF ok x]]
    by (simp add: unat_div FRAME_SIZE_def)
qed simp

lemma fold_mark_free:
  "\<lbrakk>pmm_inv s; \<And>a. a \<in> set xs \<Longrightarrow> a div FRAME_SIZE < total_frames s\<rbrakk> \<Longrightarrow>
   pmm_inv (fold (\<lambda>a. mark_free (a div FRAME_SIZE)) xs s) \<and>
   same_layout s (fold (\<lambda>a. mark_free (a div FRAME_SIZE)) xs s) \<and>
   used_set (fold (\<lambda>a. mark_free (a div FRAME_SIZE)) xs s)
     = used_set s - (\<lambda>a. unat a div 4096) ` set xs"
proof (induction xs arbitrary: s)
  case (Cons x xs)
  have x: "x div FRAME_SIZE < total_frames s" using Cons.prems(2) by simp
  have ok: "bm_ok s" using Cons.prems(1) by (simp add: pmm_inv_def)
  note IH = Cons.IH [OF pmm_inv_mark(2) [OF Cons.prems(1) x]]
  show ?case
    using IH Cons.prems(2) used_set_mark(2) [OF ok x] same_layout_trans [OF same_layout_mark(2) [OF ok x]]
    by (auto simp: unat_div FRAME_SIZE_def)
qed simp

text \<open>The frame numbers a stride-4096 loop visits from an aligned start.\<close>

lemma stride_frames:
  assumes "unat a mod 4096 = 0" "unat a + n * 4096 \<le> 2 ^ 48"
  shows "(\<lambda>x. unat x div 4096) ` set (map (\<lambda>k. a + of_nat k * FRAME_SIZE) [0..<n])
       = {unat a div 4096..<unat a div 4096 + n}"
proof -
  have "unat (a + of_nat k * FRAME_SIZE) div 4096 = unat a div 4096 + k" if "k < n" for k
  proof -
    have le: "k * 4096 \<le> n * 4096" using that by simp
    have "of_nat k * FRAME_SIZE = (of_nat (k * 4096) :: u64)" by (simp add: FRAME_SIZE_def)
    then have "unat (a + of_nat k * FRAME_SIZE) = unat a + k * 4096"
      using le assms(2) unat_add_of_nat [of a "k * 4096"] by simp
    then show ?thesis by simp
  qed
  then have "(\<lambda>x. unat x div 4096) ` set (map (\<lambda>k. a + of_nat k * FRAME_SIZE) [0..<n])
      = (\<lambda>k. unat a div 4096 + k) ` {0..<n}" by (force simp: image_image)
  then show ?thesis by (simp add: image_add_atLeastLessThan add.commute)
qed

lemma frame_ceil: "f < (x + 4095) div 4096 \<longleftrightarrow> f * 4096 < (x::nat)"
proof -
  have "f < (x + 4095) div 4096 \<longleftrightarrow> Suc f * 4096 \<le> x + 4095"
    by (simp add: less_eq_div_iff_mult_less_eq flip: Suc_le_eq)
  then show ?thesis by auto
qed

lemma reserve_range_marks:
  assumes "pmm_inv s" "unat start mod 4096 = 0" "unat stop \<le> unat (total_frames s) * 4096"
    "unat stop < 2 ^ 47"
  obtains s' where "reserve_range start stop s = Some s'" "pmm_inv s'" "same_layout s s'"
    "used_set s' = used_set s \<union> {f. unat start \<le> f * 4096 \<and> f * 4096 < unat stop}"
proof -
  define n where "n = (if start < stop then (unat stop - unat start + 4096 - 1) div 4096 else 0)"
  define xs where "xs = map (\<lambda>k. start + of_nat k * FRAME_SIZE) [0..<n]"
  have ret: "reserve_range start stop s = Some (fold (\<lambda>a. mark_used (a div FRAME_SIZE)) xs s)"
    unfolding reserve_range_def xs_def
    by (rule for_step_less) (use assms(4) in \<open>auto simp: FRAME_SIZE_def n_def\<close>)
  have fr: "(\<lambda>x. unat x div 4096) ` set xs = {f. unat start \<le> f * 4096 \<and> f * 4096 < unat stop}"
  proof (cases "start < stop")
    case True
    then have lt: "unat start < unat stop" by (simp add: word_less_nat_alt)
    obtain q where q: "unat start = 4096 * q" using assms(2) by (auto simp: mod_eq_0_iff_dvd)
    have n: "q + n = (unat stop + 4095) div 4096"
      using True lt q unfolding n_def by simp
    then have "unat start + n * 4096 \<le> 2 ^ 48" using q assms(4) by simp
    then have "(\<lambda>x. unat x div 4096) ` set xs = {q..<q + n}"
      using stride_frames [of start n] assms(2) q by (simp add: xs_def)
    then show ?thesis unfolding n using q frame_ceil by auto
  next
    case False
    then have "xs = []" by (simp add: xs_def n_def)
    then show ?thesis using False by (auto simp: word_less_nat_alt)
  qed
  have "a div FRAME_SIZE < total_frames s" if "a \<in> set xs" for a
  proof -
    have "unat a div 4096 \<in> {f. unat start \<le> f * 4096 \<and> f * 4096 < unat stop}"
      using that fr by blast
    then have "unat a div 4096 < unat (total_frames s)" using assms(3) by simp
    then show ?thesis by (simp add: word_less_nat_alt unat_div FRAME_SIZE_def)
  qed
  from fold_mark_used [OF assms(1) this] show ?thesis
    using that [OF ret] fr by auto
qed

lemma free_region_frees:
  assumes "pmm_inv s" and r: "mb2_mmap_entry_at (ram s) e = r"
    and nowrap: "entry_type r = 1 \<Longrightarrow> unat (base_addr r) + unat (entry_length r) < 2 ^ 46 \<and>
      (unat (base_addr r) + unat (entry_length r)) div 4096 \<le> unat (total_frames s)"
  obtains s' where "free_region e s = Some s'" "pmm_inv s'" "same_layout s s'"
    "used_set s' = used_set s - {f. entry_type r = 1 \<and> unat (base_addr r) \<le> f * 4096 \<and>
       f * 4096 + 4096 \<le> unat (base_addr r) + unat (entry_length r)}"
proof (cases "entry_type r = 1")
  case True
  let ?b = "unat (base_addr r)" and ?e = "unat (base_addr r) + unat (entry_length r)"
  define start where "start = ALIGN_UP (base_addr r) FRAME_SIZE"
  define n where "n = (if unat start \<le> ?e then (?e - unat start) div 4096 else 0)"
  define xs where "xs = map (\<lambda>k. start + of_nat k * FRAME_SIZE) [0..<n]"
  have e: "?e < 2 ^ 46" "?e div 4096 \<le> unat (total_frames s)" using nowrap True by simp_all
  then have re: "unat (region_end r) = ?e" unfolding region_end_def by (intro unat_add_nowrap) simp
  have st: "unat start = (?b + 4095) div 4096 * 4096"
    using unat_ALIGN_UP_page [of "base_addr r"] e by (simp add: start_def FRAME_SIZE_def)
  obtain q where q: "q = (?b + 4095) div 4096" by simp
  have bound: "unat start + n * 4096 \<le> 2 ^ 47" using st e by (auto simp: n_def)
  have at: "unat (start + of_nat k * FRAME_SIZE + FRAME_SIZE) = unat start + k * 4096 + 4096"
    if "k \<le> n" for k
  proof -
    have "start + of_nat k * FRAME_SIZE + FRAME_SIZE = start + (of_nat (k * 4096 + 4096) :: u64)"
      by (simp add: FRAME_SIZE_def)
    moreover have "k * 4096 \<le> n * 4096" using that by simp
    then have "unat start + (k * 4096 + 4096) < 18446744073709551616" using bound by simp
    ultimately show ?thesis using unat_add_of_nat [of start "k * 4096 + 4096"]
      by (simp only: add.assoc)
  qed
  have ret: "free_region e s = Some (fold (\<lambda>a. mark_free (a div FRAME_SIZE)) xs s)"
  proof -
    have "for_step (\<lambda>a. a + FRAME_SIZE \<le> region_end r) FRAME_SIZE start
        (\<lambda>a. mark_free (a div FRAME_SIZE)) s = Some (fold (\<lambda>a. mark_free (a div FRAME_SIZE)) xs s)"
      unfolding xs_def
    proof (rule for_step_Some)
      show "start + of_nat k * FRAME_SIZE + FRAME_SIZE \<le> region_end r" if "k < n" for k
      proof -
        have "Suc k \<le> n" using that by simp
        then have "Suc k * 4096 \<le> n * 4096" by simp
        then show ?thesis using at [of k] that re
          by (auto simp: word_le_nat_alt n_def split: if_splits)
      qed
      show "\<not> start + of_nat n * FRAME_SIZE + FRAME_SIZE \<le> region_end r"
        using at [of n] re by (auto simp: word_le_nat_alt n_def)
    qed
    then show ?thesis using True r by (simp add: free_region_def start_def Let_def)
  qed
  have fr: "(\<lambda>x. unat x div 4096) ` set xs = {f. ?b \<le> f * 4096 \<and> f * 4096 + 4096 \<le> ?e}"
  proof -
    have "(\<lambda>x. unat x div 4096) ` set xs = {q..<q + n}"
      using stride_frames [of start n] bound st q by (simp add: xs_def)
    moreover have "f \<in> {q..<q + n} \<longleftrightarrow> ?b \<le> f * 4096 \<and> f * 4096 + 4096 \<le> ?e" for f
      using st q unfolding n_def by (cases "q * 4096 \<le> ?e") auto
    ultimately show ?thesis by blast
  qed
  have "a div FRAME_SIZE < total_frames s" if "a \<in> set xs" for a
  proof -
    have "unat a div 4096 \<in> {f. ?b \<le> f * 4096 \<and> f * 4096 + 4096 \<le> ?e}" using that fr by blast
    then have "Suc (unat a div 4096) * 4096 \<le> ?e" by simp
    then have "Suc (unat a div 4096) \<le> ?e div 4096" by (simp only: less_eq_div_iff_mult_less_eq)
    then have "unat a div 4096 < unat (total_frames s)" using e(2) by simp
    then show ?thesis by (simp add: word_less_nat_alt unat_div FRAME_SIZE_def)
  qed
  from fold_mark_free [OF assms(1) this] show ?thesis
    using that [OF ret] fr True by auto
next
  case False
  then show ?thesis using that [of s] r assms(1) by (simp add: free_region_def)
qed

section \<open>The passes over the memory map\<close>

text \<open>The addresses of the entries of the memory map tag at \<open>mmap\<close>, as the loops visit them.\<close>

definition mmap_entries :: "memory \<Rightarrow> u64 \<Rightarrow> u64 list" where
  "mmap_entries m mmap =
     (let tag = mb2_tag_mmap_at m mmap; entries = mmap + 16; stop = mmap + ucast (tag_size tag);
          d = ucast (tag_entry_size tag);
          n = (if entries < stop then (unat stop - unat entries + unat d - 1) div unat d else 0)
      in map (\<lambda>k. entries + of_nat k * d) [0..<n])"

text \<open>Frame \<open>f\<close> lies wholly inside the available region described at \<open>e\<close>.\<close>

definition in_region :: "memory \<Rightarrow> u64 \<Rightarrow> nat \<Rightarrow> bool" where
  "in_region m e f \<longleftrightarrow> (let r = mb2_mmap_entry_at m e in
     entry_type r = 1 \<and> unat (base_addr r) \<le> f * 4096 \<and>
     f * 4096 + 4096 \<le> unat (base_addr r) + unat (entry_length r))"

lemma outside_bitmap:
  fixes e k b bsize :: u64
  assumes "apart (unat e) (unat e + n) (unat b) (unat b + unat bsize)" "unat e + n < 2 ^ 64"
    "unat b + unat bsize < 2 ^ 64" "unat k < n"
  shows "\<not> e + k - b < bsize"
proof
  assume lt: "e + k - b < bsize"
  have "b + (e + k - b) = e + k" by simp
  moreover have "unat (b + (e + k - b)) = unat b + unat (e + k - b)"
    using lt assms(3) by (intro unat_add_nowrap) (simp add: word_less_nat_alt)
  moreover have "unat (e + k) = unat e + unat k" using assms by (intro unat_add_nowrap) simp
  ultimately show False using assms(1,4) lt by (auto simp: apart_def word_less_nat_alt)
qed

lemma mmap_entry_stable:
  assumes "same_layout s s'" "apart (unat e) (unat e + 24) (unat (kaddr (bitmap s)))
      (unat (kaddr (bitmap s)) + unat (bitmap_size s))" "unat e + 24 < 2 ^ 64"
    "unat (kaddr (bitmap s)) + unat (bitmap_size s) < 2 ^ 64"
  shows "mb2_mmap_entry_at (ram s') e = mb2_mmap_entry_at (ram s) e"
proof -
  have same: "ram s' (e + k) = ram s (e + k)" if "unat k < 24" for k
    by (rule same_layout_outside [OF assms(1) outside_bitmap [OF assms(2,3,4) that]])
  have "load64 (ram s') e = load64 (ram s) e"
    by (rule load64_cong) (simp add: same word_less_nat_alt)
  moreover have "load64 (ram s') (e + 8) = load64 (ram s) (e + 8)"
  proof (rule load64_cong)
    fix k :: u64 assume "k < 8"
    then have "unat (8 + k) < 24" by (subst unat_add_nowrap) (simp_all add: word_less_nat_alt)
    then show "ram s' (e + 8 + k) = ram s (e + 8 + k)" using same [of "8 + k"] by (simp add: add.assoc)
  qed
  moreover have "load32 (ram s') (e + 16) = load32 (ram s) (e + 16)"
  proof (rule load32_cong)
    fix k :: u64 assume "k < 4"
    then have "unat (16 + k) < 24" by (subst unat_add_nowrap) (simp_all add: word_less_nat_alt)
    then show "ram s' (e + 16 + k) = ram s (e + 16 + k)" using same [of "16 + k"] by (simp add: add.assoc)
  qed
  ultimately show ?thesis by (simp add: mb2_mmap_entry_at_def)
qed

lemma fold_free_regions:
  assumes "pmm_inv s"
    and "\<And>e t. e \<in> set es \<Longrightarrow> same_layout s t \<Longrightarrow> mb2_mmap_entry_at (ram t) e = mb2_mmap_entry_at m e"
    and "\<And>e. e \<in> set es \<Longrightarrow> entry_type (mb2_mmap_entry_at m e) = 1 \<Longrightarrow>
      unat (base_addr (mb2_mmap_entry_at m e)) + unat (entry_length (mb2_mmap_entry_at m e)) < 2 ^ 46 \<and>
      (unat (base_addr (mb2_mmap_entry_at m e)) + unat (entry_length (mb2_mmap_entry_at m e))) div 4096
        \<le> unat (total_frames s)"
  shows "\<exists>s'. fold (\<lambda>e so. Option.bind so (free_region e)) es (Some s) = Some s' \<and> pmm_inv s' \<and>
    same_layout s s' \<and> used_set s' = used_set s - {f. \<exists>e \<in> set es. in_region m e f}"
  using assms
proof (induction es arbitrary: s)
  case (Cons e es)
  have r: "mb2_mmap_entry_at (ram s) e = mb2_mmap_entry_at m e" using Cons.prems(2) [of e s] by simp
  obtain s1 where s1: "free_region e s = Some s1" "pmm_inv s1" "same_layout s s1"
    "used_set s1 = used_set s - {f. in_region m e f}"
    using free_region_frees [OF Cons.prems(1) r] Cons.prems(3) [of e]
    by (auto simp: in_region_def Let_def)
  have "\<exists>s'. fold (\<lambda>e so. Option.bind so (free_region e)) es (Some s1) = Some s' \<and> pmm_inv s' \<and>
    same_layout s1 s' \<and> used_set s' = used_set s1 - {f. \<exists>e \<in> set es. in_region m e f}"
  proof (rule Cons.IH [OF s1(2)])
    show "mb2_mmap_entry_at (ram t) e' = mb2_mmap_entry_at m e'"
      if "e' \<in> set es" "same_layout s1 t" for e' t
      using Cons.prems(2) [of e' t] that same_layout_trans [OF s1(3)] by simp
  qed (use Cons.prems(3) same_layout_fields(3) [OF s1(3)] in auto)
  then show ?case using s1 same_layout_trans [OF s1(3)] by auto
qed auto

lemma max_region_ge: "acc \<le> max_region m e acc"
  by (auto simp: max_region_def Let_def)

lemma fold_max_region_ge: "acc \<le> fold (max_region m) es acc"
  by (induction es arbitrary: acc) (auto intro: order.trans [OF max_region_ge])

lemma fold_max_region_upper:
  "\<lbrakk>e \<in> set es; entry_type (mb2_mmap_entry_at m e) = 1\<rbrakk> \<Longrightarrow>
   region_end (mb2_mmap_entry_at m e) \<le> fold (max_region m) es acc"
proof (induction es arbitrary: acc)
  case (Cons a es)
  show ?case
  proof (cases "e \<in> set es")
    case False
    then have "region_end (mb2_mmap_entry_at m e) \<le> max_region m a acc"
      using Cons.prems by (auto simp: max_region_def Let_def)
    then show ?thesis using fold_max_region_ge [of "max_region m a acc" m es] by simp
  qed (use Cons in simp)
qed simp

lemma fold_max_region_low:
  "\<lbrakk>\<And>e. e \<in> set es \<Longrightarrow> entry_type (mb2_mmap_entry_at m e) = 1 \<Longrightarrow>
      low (region_end (mb2_mmap_entry_at m e)); low acc\<rbrakk> \<Longrightarrow> low (fold (max_region m) es acc)"
  by (induction es arbitrary: acc) (auto simp: max_region_def Let_def)

text \<open>A freshly filled bitmap: every frame used, and the counter right.\<close>

lemma full_bitmap:
  assumes "bm_ok s" "used_frames s = total_frames s"
    "\<And>a. a - kaddr (bitmap s) < bitmap_size s \<Longrightarrow> ram s a = 0xFF"
  shows "pmm_inv s" "used_set s = {..<unat (total_frames s)}"
proof -
  have "bitmap_test s f" if "f < total_frames s" for f
    using assms(3) [OF bm_byte_inside [OF assms(1) that]] bit_0xFF [of "unat (f mod 8)"]
    by (simp add: bitmap_test_bit unat_mod)
  then show "used_set s = {..<unat (total_frames s)}"
    using frame_of_nat(1) by (auto simp: used_set_def)
  then show "pmm_inv s" using assms(1,2) by (simp add: pmm_inv_def)
qed

section \<open>Correctness of pmm_init\<close>

text \<open>
  A well-formed boot environment: the information structure lies below 64 TB, its tags run from
  the fixed part to an end tag, one of them is a memory map with a positive entry size whose
  entries lie inside the structure, and there is room for the bitmap in the RAM above the
  kernel, the structure and the module.
\<close>

definition ram_top :: "memory \<Rightarrow> u64 \<Rightarrow> u64" where
  "ram_top m mmap = fold (max_region m) (mmap_entries m mmap) 0"

definition boot_info_ok :: "memory \<Rightarrow> u64 \<Rightarrow> u64 \<Rightarrow> u64 list \<Rightarrow> u64 \<Rightarrow> u64 \<Rightarrow> u64 \<Rightarrow> bool" where
  "boot_info_ok m kernel_phys_end info tags mmap ms me \<longleftrightarrow>
     (let stop = info + ucast (load32 m info); total = unat (ram_top m mmap) div 4096 in
      unat info + unat (load32 m info) < 2 ^ 46 \<and> low kernel_phys_end \<and>
      tag_seq m (info + 8) stop tags \<and> fold (tag_effect m) tags (0, 0, 0) = (mmap, ms, me) \<and>
      mmap \<noteq> 0 \<and> 0 < tag_entry_size (mb2_tag_mmap_at m mmap) \<and> unat mmap < 2 ^ 46 \<and>
      (\<forall>e \<in> set (mmap_entries m mmap).
         unat info \<le> unat e \<and> unat e + 24 \<le> unat stop \<and>
         (entry_type (mb2_mmap_entry_at m e) = 1 \<longrightarrow>
          unat (base_addr (mb2_mmap_entry_at m e)) + unat (entry_length (mb2_mmap_entry_at m e)) < 2 ^ 46)) \<and>
      (\<forall>x \<in> {kernel_phys_end, stop, me}. unat x + (total + 7) div 8 + 8192 \<le> total * 4096))"

text \<open>The last three steps: frame 0, everything below the end of the bitmap, the module.\<close>

lemma pmm_init_reserve:
  assumes "pmm_inv s" "0 < unat (total_frames s)"
    and stop: "unat (bitmap s + bitmap_size s) + 4096 \<le> unat (total_frames s) * 4096"
      "low (bitmap s + bitmap_size s)"
    and me: "unat (module_end s) \<le> unat (total_frames s) * 4096" "low (module_end s)"
  obtains s1 s2 where
    "reserve_range 0 (ALIGN_UP (bitmap s + bitmap_size s) FRAME_SIZE) (mark_used 0 s) = Some s1"
    "(if module_end s1 \<noteq> 0
      then reserve_range (ALIGN_DOWN (module_start s1) FRAME_SIZE) (module_end s1) s1
      else Some s1) = Some s2"
    "pmm_inv s2" "same_layout s s2"
    "used_set s2 = used_set s \<union> {f. f = 0 \<or> f * 4096 < unat (bitmap s + bitmap_size s)} \<union>
       {f. unat (module_start s) div 4096 \<le> f \<and> f * 4096 < unat (module_end s)}"
proof -
  have ok: "bm_ok s" and t0: "0 < total_frames s"
    using assms(1,2) by (simp_all add: pmm_inv_def word_less_nat_alt)
  let ?E = "ALIGN_UP (bitmap s + bitmap_size s) FRAME_SIZE"
  have E: "unat ?E = (unat (bitmap s + bitmap_size s) + 4095) div 4096 * 4096"
    using stop(2) unat_ALIGN_UP_page [of "bitmap s + bitmap_size s"] by (simp add: FRAME_SIZE_def)
  have E1: "f * 4096 < unat ?E \<longleftrightarrow> f * 4096 < unat (bitmap s + bitmap_size s)" for f
    using frame_ceil [of f "unat (bitmap s + bitmap_size s)"] by (simp add: E)
  note m0 = pmm_inv_mark(1) [OF assms(1) t0] same_layout_mark(1) [OF ok t0]
    used_set_mark(1) [OF ok t0]
  obtain s1 where s1: "reserve_range 0 ?E (mark_used 0 s) = Some s1" "pmm_inv s1"
    "same_layout (mark_used 0 s) s1"
    "used_set s1 = used_set (mark_used 0 s) \<union> {f. unat (0::u64) \<le> f * 4096 \<and> f * 4096 < unat ?E}"
    using stop E by (elim reserve_range_marks [OF m0(1), rotated -1]) simp_all
  have l1: "same_layout s s1" using m0(2) s1(3) by (rule same_layout_trans)
  note f1 = same_layout_fields [OF l1]
  have u1: "used_set s1 = used_set s \<union> {f. f = 0 \<or> f * 4096 < unat (bitmap s + bitmap_size s)}"
    using s1(4) m0(3) E1 by auto
  show ?thesis
  proof (cases "module_end s = 0")
    case True
    then show ?thesis using that [OF s1(1), of s1] s1(2) l1 u1 f1 by simp
  next
    case False
    let ?D = "ALIGN_DOWN (module_start s) FRAME_SIZE"
    have D: "unat ?D = unat (module_start s) div 4096 * 4096"
      using unat_ALIGN_DOWN_page by (simp add: FRAME_SIZE_def)
    obtain s2 where s2: "reserve_range ?D (module_end s) s1 = Some s2" "pmm_inv s2"
      "same_layout s1 s2"
      "used_set s2 = used_set s1 \<union> {f. unat ?D \<le> f * 4096 \<and> f * 4096 < unat (module_end s)}"
      using me D f1 by (elim reserve_range_marks [OF s1(2), rotated -1]) simp_all
    then show ?thesis
      using that [OF s1(1), of s2] False f1 u1 D same_layout_trans [OF l1 s2(3)] by auto
  qed
qed

lemma unat_total_of_top:
  assumes "low hi"
  shows "unat (hi div FRAME_SIZE) = unat hi div 4096"
    "unat ((hi div FRAME_SIZE + 7) div 8) = (unat hi div 4096 + 7) div 8"
proof -
  show t: "unat (hi div FRAME_SIZE) = unat hi div 4096" by (simp add: unat_div FRAME_SIZE_def)
  have "unat (hi div FRAME_SIZE + 7) = unat hi div 4096 + 7"
    using assms t by (subst unat_add_nowrap) simp_all
  then show "unat ((hi div FRAME_SIZE + 7) div 8) = (unat hi div 4096 + 7) div 8"
    by (simp add: unat_div)
qed

text \<open>The bitmap chosen in a well-formed boot environment.\<close>

lemma boot_place:
  assumes "boot_info_ok m kend info tags mmap ms me"
    and "stop = info + ucast (load32 m info)" "T = unat (ram_top m mmap) div 4096"
    and "bsize = (ram_top m mmap div FRAME_SIZE + 7) div 8"
  obtains b where "place_bitmap kend info stop ms me bsize = Some b"
    "unat bsize = (T + 7) div 8" "T \<le> 8 * unat bsize" "unat kend \<le> unat b"
    "unat b + unat bsize < 2 ^ 46" "unat b + unat bsize + 4096 \<le> T * 4096"
    "apart (unat info) (unat stop) (unat b) (unat b + unat bsize)"
    "me \<noteq> 0 \<longrightarrow> apart (unat ms) (unat me) (unat b) (unat b + unat bsize)"
    "low (ram_top m mmap)" "low me" "unat me \<le> T * 4096" "0 < T"
proof -
  have top: "low (ram_top m mmap)"
    unfolding ram_top_def
  proof (rule fold_max_region_low)
    fix e assume e: "e \<in> set (mmap_entries m mmap)" "entry_type (mb2_mmap_entry_at m e) = 1"
    then have "unat (base_addr (mb2_mmap_entry_at m e)) + unat (entry_length (mb2_mmap_entry_at m e)) < 2 ^ 46"
      using assms(1) by (auto simp: boot_info_ok_def Let_def)
    then show "low (region_end (mb2_mmap_entry_at m e))"
      unfolding region_end_def by (subst unat_add_nowrap) simp_all
  qed simp
  have bsz: "unat bsize = (T + 7) div 8" using unat_total_of_top(2) [OF top] assms(3,4) by simp
  have room: "unat x + (T + 7) div 8 + 8192 \<le> T * 4096" if "x \<in> {kend, stop, me}" for x
    using assms(1-3) that by (auto simp: boot_info_ok_def Let_def)
  have T: "T * 4096 < 2 ^ 46" using top assms(3) by simp
  have low_all: "low kend" "low stop" "low me" using room [of kend] room [of stop] room [of me] T by simp_all
  obtain b where b: "place_bitmap kend info stop ms me bsize = Some b"
    "ALIGN_UP kend FRAME_SIZE \<le> b" "b \<in> (\<lambda>x. ALIGN_UP x FRAME_SIZE) ` {kend, stop, me}"
    "place_ok info stop ms me bsize b"
    using place_bitmap_returns [OF low_all, of info ms bsize] by blast
  from b(3) obtain x where x: "x \<in> {kend, stop, me}" "b = ALIGN_UP x FRAME_SIZE" by blast
  have "unat b \<le> unat x + 4095"
    using x low_all unat_ALIGN_UP_page [of x] by (auto simp: FRAME_SIZE_def)
  then have bb: "unat b + unat bsize + 4096 \<le> T * 4096" using room [OF x(1)] bsz by simp
  have lt64: "unat b + unat bsize < 2 ^ 64" using bb T by simp
  have kb: "unat kend \<le> unat b" using b(2) low_align_up(1) [OF low_all(1)] by (simp add: word_le_nat_alt)
  show ?thesis
    using that [OF b(1) bsz _ kb _ bb] place_ok_apart [OF b(4) lt64] top low_all room [of me] bb T bsz
    by simp
qed

text \<open>Bitmap filled: the state from which the regions are freed.\<close>

lemma pmm_init_filled:
  assumes "unat b + unat bsize < 2 ^ 46" "unat (total_frames s) \<le> 8 * unat bsize"
    "bitmap s = b" "bitmap_size s = bsize"
  obtains s' where "fill_bitmap s = Some s'"
    "pmm_inv (s'\<lparr>used_frames := total_frames s'\<rparr>)"
    "used_set (s'\<lparr>used_frames := total_frames s'\<rparr>) = {..<unat (total_frames s)}"
    "same_layout s (s'\<lparr>used_frames := total_frames s'\<rparr>)"
proof -
  have k: "kaddr b = b" using assms(1) by (intro kaddr_low) simp
  let ?s = "s\<lparr>ram := \<lambda>a. if a - kaddr (bitmap s) < bitmap_size s then 0xFF else ram s a\<rparr>"
  have ret: "fill_bitmap s = Some ?s" using assms k by (intro fill_bitmap_returns) simp
  have ok: "bm_ok (?s\<lparr>used_frames := total_frames ?s\<rparr>)" using assms k by (simp add: bm_ok_def)
  have "pmm_inv (?s\<lparr>used_frames := total_frames ?s\<rparr>)"
    "used_set (?s\<lparr>used_frames := total_frames ?s\<rparr>) = {..<unat (total_frames s)}"
    using full_bitmap [OF ok] by simp_all
  then show ?thesis using that [OF ret] by (simp add: same_layout_def)
qed

lemma mmap_entries_loop:
  assumes "0 < tag_entry_size (mb2_tag_mmap_at m mmap)" "unat mmap < 2 ^ 46"
  shows "for_step (\<lambda>e. e < mmap + ucast (tag_size (mb2_tag_mmap_at m mmap)))
      (ucast (tag_entry_size (mb2_tag_mmap_at m mmap))) (mmap + 16) f acc
    = Some (fold f (mmap_entries m mmap) acc)"
proof -
  let ?t = "mb2_tag_mmap_at m mmap"
  have "unat (mmap + ucast (tag_size ?t)) = unat mmap + unat (tag_size ?t)"
    using assms(2) unat_lt_32 [of "tag_size ?t"]
    by (subst unat_add_nowrap) (simp_all del: unat_lt_32)
  moreover have "unat (tag_size ?t) < 4294967296" "unat (tag_entry_size ?t) < 4294967296" by simp_all
  ultimately show ?thesis unfolding mmap_entries_def Let_def
    using assms by (intro for_step_less) (simp_all add: word_less_nat_alt del: unat_lt_32)
qed

section \<open>Boot-time allocation state\<close>

text \<open>The static variables once the bitmap at \<open>b\<close> has been chosen.\<close>

definition boot_layout :: "'a pmm_state_scheme \<Rightarrow> u64 \<Rightarrow> u64 \<Rightarrow> u64 \<Rightarrow> u64 \<Rightarrow> 'a pmm_state_scheme" where
  "boot_layout s mmap ms me b = s\<lparr>module_start := ms, module_end := me,
     total_frames := ram_top (ram s) mmap div FRAME_SIZE,
     bitmap_size := (ram_top (ram s) mmap div FRAME_SIZE + 7) div 8, bitmap := b\<rparr>"

lemma boot_regions_freed:
  assumes ok: "boot_info_ok m kend info tags mmap ms me" and m: "m = ram s"
    and s0: "s0 = boot_layout s mmap ms me b"
    and b: "unat b + unat (bitmap_size s0) < 2 ^ 46"
      "apart (unat info) (unat (info + ucast (load32 m info))) (unat b) (unat b + unat (bitmap_size s0))"
    and l: "same_layout s0 s2" and inv: "pmm_inv s2"
  obtains s3 where
    "fold (\<lambda>e so. Option.bind so (free_region e)) (mmap_entries m mmap) (Some s2) = Some s3"
    "pmm_inv s3" "same_layout s0 s3"
    "used_set s3 = used_set s2 - {f. \<exists>e \<in> set (mmap_entries m mmap). in_region m e f}"
proof -
  have kb: "kaddr b = b" using b(1) by (intro kaddr_low) simp
  have "\<exists>s'. fold (\<lambda>e so. Option.bind so (free_region e)) (mmap_entries m mmap) (Some s2) = Some s' \<and>
    pmm_inv s' \<and> same_layout s2 s' \<and>
    used_set s' = used_set s2 - {f. \<exists>e \<in> set (mmap_entries m mmap). in_region m e f}"
  proof (rule fold_free_regions [OF inv])
    fix e t assume e: "e \<in> set (mmap_entries m mmap)" and "same_layout s2 t"
    then have "same_layout s0 t" using same_layout_trans [OF l] by blast
    moreover have e2: "unat info \<le> unat e" "unat e + 24 \<le> unat (info + ucast (load32 m info))"
      using ok e by (auto simp: boot_info_ok_def Let_def)
    moreover have "unat e + 24 < 2 ^ 64"
      using e2(2) unat_lt_64 [of "info + ucast (load32 m info)"] by (simp del: unat_lt_64)
    ultimately show "mb2_mmap_entry_at (ram t) e = mb2_mmap_entry_at m e"
      using b kb by (subst mmap_entry_stable [of s0 t e]) (auto simp: s0 boot_layout_def m apart_def)
  next
    fix e assume e: "e \<in> set (mmap_entries m mmap)" and ty: "entry_type (mb2_mmap_entry_at m e) = 1"
    let ?L = "unat (base_addr (mb2_mmap_entry_at m e)) + unat (entry_length (mb2_mmap_entry_at m e))"
    have lt: "?L < 2 ^ 46" using ok e ty by (auto simp: boot_info_ok_def Let_def)
    then have "?L = unat (region_end (mb2_mmap_entry_at m e))"
      unfolding region_end_def by (subst unat_add_nowrap) simp_all
    then have "?L \<le> unat (ram_top m mmap)"
      using fold_max_region_upper [OF e ty, of 0] by (simp add: ram_top_def word_le_nat_alt)
    then show "?L < 2 ^ 46 \<and> ?L div 4096 \<le> unat (total_frames s2)"
      using lt same_layout_fields(3) [OF l]
      by (simp add: s0 boot_layout_def m unat_div FRAME_SIZE_def div_le_mono)
  qed
  then show ?thesis using that same_layout_trans [OF l] by blast
qed

text \<open>The composition of the passes, as the code runs them.\<close>

lemma pmm_init_compose:
  assumes "boot_info_ok (ram s) kend info tags mmap ms me" "module_start s = 0" "module_end s = 0"
    and "place_bitmap kend info (info + ucast (load32 (ram s) info)) ms me
      ((ram_top (ram s) mmap div FRAME_SIZE + 7) div 8) = Some b"
    and "fill_bitmap (boot_layout s mmap ms me b) = Some s1"
    and "fold (\<lambda>e so. Option.bind so (free_region e)) (mmap_entries (ram s) mmap)
      (Some (s1\<lparr>used_frames := total_frames s1\<rparr>)) = Some s3"
    and "reserve_range 0 (ALIGN_UP (bitmap s3 + bitmap_size s3) FRAME_SIZE) (mark_used 0 s3) = Some s4"
    and "(if module_end s4 \<noteq> 0
      then reserve_range (ALIGN_DOWN (module_start s4) FRAME_SIZE) (module_end s4) s4
      else Some s4) = Some s5"
  shows "pmm_init kend info s = Some s5"
proof -
  have ok: "tag_seq (ram s) (info + 8) (info + ucast (load32 (ram s) info)) tags"
    "fold (tag_effect (ram s)) tags (0, 0, 0) = (mmap, ms, me)" "mmap \<noteq> 0"
    "0 < tag_entry_size (mb2_tag_mmap_at (ram s) mmap)" "unat mmap < 2 ^ 46"
    using assms(1) by (auto simp: boot_info_ok_def Let_def)
  note loop = mmap_entries_loop [OF ok(4,5)]
  have walk: "tag_walk (ram s) (info + ucast (load32 (ram s) info)) (info + 8) (0, 0, 0)
      = Some (mmap, ms, me)"
    using tag_walk_seq [OF ok(1)] ok(2) by simp
  show ?thesis
    using assms(2-) ok(3)
    by (simp add: pmm_init_def walk loop free_regions_def boot_layout_def Let_def ram_top_def
        split del: if_split)
qed

lemma boot_layout_fields [simp]:
  "bitmap (boot_layout s mmap ms me b) = b"
  "total_frames (boot_layout s mmap ms me b) = ram_top (ram s) mmap div FRAME_SIZE"
  "bitmap_size (boot_layout s mmap ms me b) = (ram_top (ram s) mmap div FRAME_SIZE + 7) div 8"
  "module_start (boot_layout s mmap ms me b) = ms" "module_end (boot_layout s mmap ms me b) = me"
  "ram (boot_layout s mmap ms me b) = ram s" "bitmap_phys (boot_layout s mmap ms me b) = bitmap_phys s"
  by (simp_all add: boot_layout_def)

text \<open>Up to the end of pass 2: bitmap placed and filled, available regions freed.\<close>

lemma boot_freed:
  assumes ok: "boot_info_ok (ram s) kend info tags mmap ms me"
    and T: "T = unat (ram_top (ram s) mmap) div 4096"
    and bsize: "bsize = (ram_top (ram s) mmap div FRAME_SIZE + 7) div 8"
  obtains b s1 s3 where
    "place_bitmap kend info (info + ucast (load32 (ram s) info)) ms me bsize = Some b"
    "fill_bitmap (boot_layout s mmap ms me b) = Some s1"
    "fold (\<lambda>e so. Option.bind so (free_region e)) (mmap_entries (ram s) mmap)
      (Some (s1\<lparr>used_frames := total_frames s1\<rparr>)) = Some s3"
    "pmm_inv s3" "same_layout (boot_layout s mmap ms me b) s3"
    "used_set s3 = {..<T} - {f. \<exists>e \<in> set (mmap_entries (ram s) mmap). in_region (ram s) e f}"
    "unat kend \<le> unat b" "unat b + unat bsize < 2 ^ 46" "unat b + unat bsize + 4096 \<le> T * 4096"
    "apart (unat info) (unat info + unat (load32 (ram s) info)) (unat b) (unat b + unat bsize)"
    "me \<noteq> 0 \<longrightarrow> apart (unat ms) (unat me) (unat b) (unat b + unat bsize)"
    "low me" "unat me \<le> T * 4096" "0 < T"
proof -
  define stop where "stop = info + ucast (load32 (ram s) info)"
  obtain b where b: "place_bitmap kend info stop ms me bsize = Some b"
    "T \<le> 8 * unat bsize" "unat kend \<le> unat b"
    "unat b + unat bsize < 2 ^ 46" "unat b + unat bsize + 4096 \<le> T * 4096"
    "apart (unat info) (unat stop) (unat b) (unat b + unat bsize)"
    "me \<noteq> 0 \<longrightarrow> apart (unat ms) (unat me) (unat b) (unat b + unat bsize)"
    "low (ram_top (ram s) mmap)" "low me" "unat me \<le> T * 4096" "0 < T"
    using boot_place [OF ok stop_def T bsize] by metis
  have st: "unat stop = unat info + unat (load32 (ram s) info)"
    using ok unfolding stop_def by (subst unat_add_nowrap) (auto simp: boot_info_ok_def Let_def)
  let ?s0 = "boot_layout s mmap ms me b"
  have s0: "unat (total_frames ?s0) = T" "bitmap_size ?s0 = bsize"
    using unat_total_of_top(1) [OF b(8)] by (simp_all add: T bsize)
  obtain s1 where s1: "fill_bitmap ?s0 = Some s1"
    "pmm_inv (s1\<lparr>used_frames := total_frames s1\<rparr>)"
    "used_set (s1\<lparr>used_frames := total_frames s1\<rparr>) = {..<T}"
    "same_layout ?s0 (s1\<lparr>used_frames := total_frames s1\<rparr>)"
    using pmm_init_filled [OF b(4), of ?s0] b(2) s0 by auto
  obtain s3 where s3: "fold (\<lambda>e so. Option.bind so (free_region e)) (mmap_entries (ram s) mmap)
      (Some (s1\<lparr>used_frames := total_frames s1\<rparr>)) = Some s3" "pmm_inv s3" "same_layout ?s0 s3"
    "used_set s3 = {..<T} - {f. \<exists>e \<in> set (mmap_entries (ram s) mmap). in_region (ram s) e f}"
    using boot_regions_freed [OF ok refl refl _ _ s1(4,2)] b(4,6) s0 s1(3) by (auto simp: stop_def)
  show ?thesis
    by (rule that [OF b(1) [unfolded stop_def] s1(1) s3 b(3-5) b(6) [unfolded st] b(7,9-11)])
qed

lemma pmm_init_result:
  assumes ok: "boot_info_ok (ram s) kend info tags mmap ms me"
    and "module_start s = 0" "module_end s = 0"
  shows "\<exists>s'. pmm_init kend info s = Some s' \<and> pmm_inv s' \<and> bitmap_phys s' = bitmap_phys s \<and>
    unat (bitmap s') + unat (bitmap_size s') < 2 ^ 46 \<and>
    total_frames s' = ram_top (ram s) mmap div FRAME_SIZE \<and>
    unat kend \<le> unat (bitmap s') \<and>
    apart (unat info) (unat info + unat (load32 (ram s) info))
      (unat (bitmap s')) (unat (bitmap s') + unat (bitmap_size s')) \<and>
    (me \<noteq> 0 \<longrightarrow> apart (unat ms) (unat me)
      (unat (bitmap s')) (unat (bitmap s') + unat (bitmap_size s'))) \<and>
    (\<forall>a. \<not> a - bitmap s' < bitmap_size s' \<longrightarrow> ram s' a = ram s a) \<and>
    {..<unat (total_frames s')} - used_set s' =
      {f. (\<exists>e \<in> set (mmap_entries (ram s) mmap). in_region (ram s) e f) \<and>
        f < unat (total_frames s') \<and> f \<noteq> 0 \<and>
        unat (bitmap s') + unat (bitmap_size s') \<le> f * 4096 \<and>
        \<not> (unat ms div 4096 \<le> f \<and> f * 4096 < unat me)}"
proof -
  define T where "T = unat (ram_top (ram s) mmap) div 4096"
  define bsize where "bsize = (ram_top (ram s) mmap div FRAME_SIZE + 7) div 8"
  obtain b s1 s3 where
    p: "place_bitmap kend info (info + ucast (load32 (ram s) info)) ms me bsize = Some b"
      "fill_bitmap (boot_layout s mmap ms me b) = Some s1"
      "fold (\<lambda>e so. Option.bind so (free_region e)) (mmap_entries (ram s) mmap)
        (Some (s1\<lparr>used_frames := total_frames s1\<rparr>)) = Some s3"
    and s3: "pmm_inv s3" "same_layout (boot_layout s mmap ms me b) s3"
      "used_set s3 = {..<T} - {f. \<exists>e \<in> set (mmap_entries (ram s) mmap). in_region (ram s) e f}"
    and b: "unat kend \<le> unat b" "unat b + unat bsize < 2 ^ 46" "unat b + unat bsize + 4096 \<le> T * 4096"
      "apart (unat info) (unat info + unat (load32 (ram s) info)) (unat b) (unat b + unat bsize)"
      "me \<noteq> 0 \<longrightarrow> apart (unat ms) (unat me) (unat b) (unat b + unat bsize)"
      "low me" "unat me \<le> T * 4096" "0 < T"
    by (rule boot_freed [OF ok T_def bsize_def])
  have bb: "unat (b + bsize) = unat b + unat bsize" using b(2) by (intro unat_add_nowrap) simp
  have TT: "unat (ram_top (ram s) mmap div FRAME_SIZE) = T"
    by (simp add: T_def unat_div FRAME_SIZE_def)
  have r: "bitmap s3 = b" "bitmap_size s3 = bsize" "unat (total_frames s3) = T"
    "module_start s3 = ms" "module_end s3 = me"
    using same_layout_fields [OF s3(2)] TT by (simp_all add: bsize_def)
  have pre: "0 < unat (total_frames s3)"
    "unat (bitmap s3 + bitmap_size s3) + 4096 \<le> unat (total_frames s3) * 4096"
    "low (bitmap s3 + bitmap_size s3)"
    "unat (module_end s3) \<le> unat (total_frames s3) * 4096" "low (module_end s3)"
    using b bb by (simp_all add: r)
  obtain s4 s5 where q:
      "reserve_range 0 (ALIGN_UP (bitmap s3 + bitmap_size s3) FRAME_SIZE) (mark_used 0 s3) = Some s4"
      "(if module_end s4 \<noteq> 0
        then reserve_range (ALIGN_DOWN (module_start s4) FRAME_SIZE) (module_end s4) s4
        else Some s4) = Some s5"
    and s5: "pmm_inv s5" "same_layout s3 s5"
      "used_set s5 = used_set s3 \<union> {f. f = 0 \<or> f * 4096 < unat (bitmap s3 + bitmap_size s3)} \<union>
         {f. unat (module_start s3) div 4096 \<le> f \<and> f * 4096 < unat (module_end s3)}"
    by (rule pmm_init_reserve [OF s3(1) pre])
  have l5: "same_layout (boot_layout s mmap ms me b) s5"
    using s3(2) s5(2) by (rule same_layout_trans)
  have r5: "bitmap s5 = b" "bitmap_size s5 = bsize" "bitmap_phys s5 = bitmap_phys s"
    "total_frames s5 = ram_top (ram s) mmap div FRAME_SIZE"
    using same_layout_fields [OF l5] by (simp_all add: bsize_def)
  have "ram s5 a = ram s a" if "\<not> a - b < bsize" for a
    using same_layout_outside [OF l5, of a] that kaddr_low [of b] b(2) by (simp add: bsize_def)
  moreover have "{..<T} - used_set s5 =
      {f. (\<exists>e \<in> set (mmap_entries (ram s) mmap). in_region (ram s) e f) \<and> f < T \<and> f \<noteq> 0 \<and>
        unat b + unat bsize \<le> f * 4096 \<and> \<not> (unat ms div 4096 \<le> f \<and> f * 4096 < unat me)}"
    by (auto simp: s5(3) s3(3) r bb)
  moreover have "pmm_init kend info s = Some s5"
    by (rule pmm_init_compose [OF ok assms(2,3) p(1) [unfolded bsize_def] p(2,3) q])
  ultimately show ?thesis
    using s5(1) r5 b(1,2,4,5) TT by (intro exI [of _ s5]) simp
qed

text \<open>
  C1. In a well-formed boot environment \<open>pmm_init\<close> returns. The bitmap it places overlaps
  neither the kernel image, nor the Multiboot2 structure it still has to read, nor the boot
  module, and no byte outside the bitmap changes. The counter of used frames is exact, and the
  free frames are precisely the frames that lie wholly inside an available region, above the end
  of the bitmap and outside the module.
\<close>

theorem pmm_init_correct:
  assumes ok: "boot_info_ok (ram s) kend info tags mmap ms me"
    and "module_start s = 0" "module_end s = 0"
  shows "\<exists>s'. pmm_init kend info s = Some s' \<and> pmm_inv s' \<and>
    total_frames s' = ram_top (ram s) mmap div FRAME_SIZE \<and>
    unat kend \<le> unat (bitmap s') \<and>
    apart (unat info) (unat info + unat (load32 (ram s) info))
      (unat (bitmap s')) (unat (bitmap s') + unat (bitmap_size s')) \<and>
    (me \<noteq> 0 \<longrightarrow> apart (unat ms) (unat me)
      (unat (bitmap s')) (unat (bitmap s') + unat (bitmap_size s'))) \<and>
    (\<forall>a. \<not> a - bitmap s' < bitmap_size s' \<longrightarrow> ram s' a = ram s a) \<and>
    {..<unat (total_frames s')} - used_set s' =
      {f. (\<exists>e \<in> set (mmap_entries (ram s) mmap). in_region (ram s) e f) \<and>
        f < unat (total_frames s') \<and> f \<noteq> 0 \<and>
        unat (bitmap s') + unat (bitmap_size s') \<le> f * 4096 \<and>
        \<not> (unat ms div 4096 \<le> f \<and> f * 4096 < unat me)}"
  using pmm_init_result [OF assms] by blast

lemma below_not_inside:
  assumes "unat x < unat b" "unat b + unat n < 2 ^ 64"
  shows "\<not> x - b < (n :: u64)"
proof
  assume lt: "x - b < n"
  have "unat (b + (x - b)) = unat b + unat (x - b)"
    using lt assms(2) by (intro unat_add_nowrap) (simp add: word_less_nat_alt)
  then show False using assms(1) by simp
qed

text \<open>
  An example boot environment: a Multiboot2 structure at 2 MB with one available region
  (1 MB to 8 MB), a boot module at 3 MB, and a kernel that ends at 1.5 MB.
\<close>

definition boot_example :: memory where
  "boot_example a =
     (let i = unat (a - 0x200000);
          bs = [72,0,0,0, 0,0,0,0,
                6,0,0,0, 40,0,0,0, 24,0,0,0, 0,0,0,0,
                0,0,0x10,0,0,0,0,0, 0,0,0x70,0,0,0,0,0, 1,0,0,0, 0,0,0,0,
                3,0,0,0, 16,0,0,0, 0,0,0x30,0, 0,0x10,0x30,0,
                0,0,0,0, 8,0,0,0] :: u8 list
      in if i < length bs then bs ! i else 0)"

definition boot_statics :: pmm_state where
  "boot_statics = \<lparr>ram = boot_example, bitmap = 0, bitmap_phys = 0, total_frames = 0,
     used_frames = 0, bitmap_size = 0, module_start = 0, module_end = 0\<rparr>"

lemma boot_example_loads:
  "load32 boot_example 0x200000 = 72" "load32 boot_example 0x200008 = 6"
  "load32 boot_example 0x20000C = 40" "load32 boot_example 0x200010 = 24"
  "load64 boot_example 0x200018 = 0x100000" "load64 boot_example 0x200020 = 0x700000"
  "load32 boot_example 0x200028 = 1" "load32 boot_example 0x200030 = 3"
  "load32 boot_example 0x200034 = 16" "load32 boot_example 0x200038 = 0x300000"
  "load32 boot_example 0x20003C = 0x301000"
  "load32 boot_example 0x200040 = 0" "load32 boot_example 0x200044 = 8"
  by (simp_all add: boot_example_def load32_def load64_def)

lemma boot_example_ok:
  "boot_info_ok boot_example 0x180000 0x200000 [0x200008, 0x200030] 0x200008 0x300000 0x301000"
  by (simp add: boot_info_ok_def ram_top_def mmap_entries_def mb2_tag_mmap_at_def mb2_tag_at_def
      mb2_mmap_entry_at_def boot_example_loads tag_advance_def tag_effect_def mb2_tag_module_at_def
      max_region_def region_end_def Let_def)

lemma boot_statics_simps [simp]:
  "ram boot_statics = boot_example" "module_start boot_statics = 0" "module_end boot_statics = 0"
  "bitmap_phys boot_statics = 0"
  by (simp_all add: boot_statics_def)

lemma boot_example_top: "ram_top boot_example 0x200008 = 0x800000"
  by (simp add: ram_top_def mmap_entries_def mb2_tag_mmap_at_def mb2_mmap_entry_at_def
      boot_example_loads max_region_def region_end_def)

theorem pmm_init_correct_witness:
  "\<exists>s'. pmm_init 0x180000 0x200000 boot_statics = Some s' \<and> pmm_inv s' \<and>
     total_frames s' = 2048 \<and> 0x180000 \<le> unat (bitmap s')"
  using pmm_init_correct [of boot_statics "0x180000" "0x200000" "[0x200008, 0x200030]"
      "0x200008" "0x300000" "0x301000"]
  by (auto simp: boot_example_ok boot_example_top FRAME_SIZE_def)

text \<open>
  C4. The switch to the direct map loses the bitmap: \<open>bitmap_phys\<close>, which \<open>pmm_use_hhdm\<close>
  reads, is assigned nowhere. After \<open>pmm_init\<close> from zeroed static variables the bitmap
  pointer designates physical address 0, and whether a frame counts as used is read from the bytes
  that happened to lie there before boot instead of from the bitmap that was built.
\<close>

theorem pmm_use_hhdm_loses_bitmap:
  assumes "boot_info_ok (ram s) kend info tags mmap ms me"
    and "module_start s = 0" "module_end s = 0" "bitmap_phys s = 0"
  shows "\<exists>s'. pmm_init kend info s = Some s' \<and> unat kend \<le> unat (bitmap s') \<and>
    kaddr (bitmap (pmm_use_hhdm s')) = 0 \<and>
    (\<forall>f. unat f div 8 < unat kend \<longrightarrow>
       bitmap_test (pmm_use_hhdm s') f = bit (ram s (f div 8)) (unat (f mod 8)))"
proof -
  obtain s' where s': "pmm_init kend info s = Some s'" "bitmap_phys s' = 0"
    "unat kend \<le> unat (bitmap s')" "unat (bitmap s') + unat (bitmap_size s') < 2 ^ 46"
    "\<forall>a. \<not> a - bitmap s' < bitmap_size s' \<longrightarrow> ram s' a = ram s a"
    using pmm_init_result [OF assms(1-3)] assms(4) by auto
  have kend: "unat kend < 2 ^ 46" using assms(1) by (simp add: boot_info_ok_def Let_def)
  have bm: "bitmap (pmm_use_hhdm s') = phys_to_virt 0"
    by (simp add: pmm_use_hhdm_def s'(2))
  have k0: "kaddr (phys_to_virt 0) = 0" by (simp add: kaddr_phys_to_virt)
  have "bitmap_test (pmm_use_hhdm s') f = bit (ram s (f div 8)) (unat (f mod 8))"
    if f: "unat f div 8 < unat kend" for f
  proof -
    have "kaddr (phys_to_virt 0 + f div 8) = f div 8"
      using kaddr_add [of "phys_to_virt 0" "f div 8"] f kend k0 by (simp add: unat_div)
    moreover have "ram s' (f div 8) = ram s (f div 8)"
      using s'(3-5) below_not_inside [of "f div 8" "bitmap s'" "bitmap_size s'"] f
      by (simp add: unat_div)
    ultimately show ?thesis
      by (simp add: bitmap_test_bit bm_byte_def bm) (simp add: pmm_use_hhdm_def)
  qed
  then show ?thesis using s'(1,3) bm k0 by auto
qed

text \<open>In the example the frame at 4 KB, reserved by \<open>pmm_init\<close>, counts as free afterwards.\<close>

theorem pmm_use_hhdm_loses_bitmap_witness:
  "\<exists>s'. pmm_init 0x180000 0x200000 boot_statics = Some s' \<and> 0x180000 \<le> unat (bitmap s') \<and>
     kaddr (bitmap (pmm_use_hhdm s')) = 0 \<and> \<not> bitmap_test (pmm_use_hhdm s') 1"
  using pmm_use_hhdm_loses_bitmap [of boot_statics "0x180000" "0x200000" "[0x200008, 0x200030]"
      "0x200008" "0x300000" "0x301000"]
  by (auto simp: boot_example_ok) (auto simp: boot_example_def)

end
