(* ===== verification/Vmm.thy ===== *)
theory Vmm
  imports Pmm
begin

text \<open>
  The virtual memory manager, \<^verbatim>\<open>kernel/mm/vmm.c\<close>: four-level x86-64 page tables kept in
  physical frames. The state adds the file's static variables and the register CR3 to the
  allocator's state. There is no TLB in the model, so \<open>invlpg\<close> has no effect. \<open>None\<close> is a
  loop that never ends; progress messages are left out.
\<close>

record vmm_state = pmm_state +
  kernel_pml4 :: u64
  vmm_active :: bool
  hhdm_end :: u64
  cr3 :: u64

section \<open>Entries and indices\<close>

definition PAGE_PRESENT :: u64 where
  "PAGE_PRESENT = 1"

definition PAGE_WRITABLE :: u64 where
  "PAGE_WRITABLE = 2"

definition PAGE_USER :: u64 where
  "PAGE_USER = 4"

definition PAGE_HUGE :: u64 where
  "PAGE_HUGE = 0x80"

definition PML4_INDEX :: "u64 \<Rightarrow> u64" where
  "PML4_INDEX v = drop_bit 39 v AND 0x1FF"

definition PDPT_INDEX :: "u64 \<Rightarrow> u64" where
  "PDPT_INDEX v = drop_bit 30 v AND 0x1FF"

definition PD_INDEX :: "u64 \<Rightarrow> u64" where
  "PD_INDEX v = drop_bit 21 v AND 0x1FF"

definition PT_INDEX :: "u64 \<Rightarrow> u64" where
  "PT_INDEX v = drop_bit 12 v AND 0x1FF"

definition ENTRY_ADDR :: "u64 \<Rightarrow> u64" where
  "ENTRY_ADDR e = e AND 0x000FFFFFFFFFF000"

section \<open>Table access\<close>

definition table :: "'a vmm_state_scheme \<Rightarrow> u64 \<Rightarrow> u64" where
  "table s phys = (if vmm_active s then phys + HHDM_OFFSET else phys)"

text \<open>\<open>table(phys)[i]\<close> read and written.\<close>

definition table_get :: "'a vmm_state_scheme \<Rightarrow> u64 \<Rightarrow> u64 \<Rightarrow> u64" where
  "table_get s phys i = load64 (ram s) (kaddr (table s phys + 8 * i))"

definition table_set :: "u64 \<Rightarrow> u64 \<Rightarrow> u64 \<Rightarrow> 'a vmm_state_scheme \<Rightarrow> 'a vmm_state_scheme" where
  "table_set phys i v s = s\<lparr>ram := store64 (ram s) (kaddr (table s phys + 8 * i)) v\<rparr>"

definition zero_table :: "u64 \<Rightarrow> 'a vmm_state_scheme \<Rightarrow> 'a vmm_state_scheme" where
  "zero_table phys s = fold (\<lambda>i. table_set phys (of_nat i) 0) [0..<512] s"

definition next_level ::
  "u64 \<Rightarrow> u64 \<Rightarrow> bool \<Rightarrow> 'a vmm_state_scheme \<Rightarrow> u64 \<times> 'a vmm_state_scheme" where
  "next_level table_phys index create s =
     (if table_get s table_phys index AND PAGE_PRESENT = 0 then
        if \<not> create then (0, s)
        else
          let (frame, s) = pmm_alloc_frame s;
              s = zero_table frame s;
              s = table_set table_phys index
                    (frame OR PAGE_PRESENT OR PAGE_WRITABLE OR PAGE_USER) s
          in (ENTRY_ADDR (table_get s table_phys index), s)
      else (ENTRY_ADDR (table_get s table_phys index), s))"

section \<open>Mapping\<close>

definition map_huge ::
  "u64 \<Rightarrow> u64 \<Rightarrow> u64 \<Rightarrow> 'a vmm_state_scheme \<Rightarrow> 'a vmm_state_scheme" where
  "map_huge virt phys flags s =
     (let (pdpt, s) = next_level (kernel_pml4 s) (PML4_INDEX virt) True s;
          (pd, s) = next_level pdpt (PDPT_INDEX virt) True s
      in table_set pd (PD_INDEX virt) (phys OR flags OR PAGE_HUGE) s)"

definition vmm_map_page_in ::
  "u64 \<Rightarrow> u64 \<Rightarrow> u64 \<Rightarrow> u64 \<Rightarrow> 'a vmm_state_scheme \<Rightarrow> 'a vmm_state_scheme" where
  "vmm_map_page_in pml4 virt phys flags s =
     (let (pdpt, s) = next_level pml4 (PML4_INDEX virt) True s;
          (pd, s) = next_level pdpt (PDPT_INDEX virt) True s;
          (pt, s) = next_level pd (PD_INDEX virt) True s
      in table_set pt (PT_INDEX virt) ((phys AND NOT 0xFFF) OR flags OR PAGE_PRESENT) s)"

definition vmm_map_page ::
  "u64 \<Rightarrow> u64 \<Rightarrow> u64 \<Rightarrow> 'a vmm_state_scheme \<Rightarrow> 'a vmm_state_scheme" where
  "vmm_map_page virt phys flags s = vmm_map_page_in (kernel_pml4 s) virt phys flags s"

definition vmm_unmap_page_in ::
  "u64 \<Rightarrow> u64 \<Rightarrow> 'a vmm_state_scheme \<Rightarrow> 'a vmm_state_scheme" where
  "vmm_unmap_page_in pml4 virt s =
     (let (pdpt, s) = next_level pml4 (PML4_INDEX virt) False s in
      if pdpt = 0 then s else
      let (pd, s) = next_level pdpt (PDPT_INDEX virt) False s in
      if pd = 0 then s else
      let (pt, s) = next_level pd (PD_INDEX virt) False s in
      if pt = 0 then s else table_set pt (PT_INDEX virt) 0 s)"

definition vmm_unmap_page :: "u64 \<Rightarrow> 'a vmm_state_scheme \<Rightarrow> 'a vmm_state_scheme" where
  "vmm_unmap_page virt s = vmm_unmap_page_in (kernel_pml4 s) virt s"

definition vmm_get_phys_in :: "u64 \<Rightarrow> u64 \<Rightarrow> 'a vmm_state_scheme \<Rightarrow> u64" where
  "vmm_get_phys_in pml4 virt s =
     (let pdpt = fst (next_level pml4 (PML4_INDEX virt) False s) in
      if pdpt = 0 then 0 else
      let pd = fst (next_level pdpt (PDPT_INDEX virt) False s) in
      if pd = 0 then 0 else
      let pd_entry = table_get s pd (PD_INDEX virt) in
      if pd_entry AND PAGE_PRESENT = 0 then 0
      else if pd_entry AND PAGE_HUGE \<noteq> 0 then ENTRY_ADDR pd_entry + (virt AND 0x1FFFFF)
      else
        let pt_entry = table_get s (ENTRY_ADDR pd_entry) (PT_INDEX virt) in
        if pt_entry AND PAGE_PRESENT = 0 then 0
        else ENTRY_ADDR pt_entry + (virt AND 0xFFF))"

definition vmm_get_phys :: "u64 \<Rightarrow> 'a vmm_state_scheme \<Rightarrow> u64" where
  "vmm_get_phys virt s = vmm_get_phys_in (kernel_pml4 s) virt s"

definition vmm_kernel_pml4 :: "'a vmm_state_scheme \<Rightarrow> u64" where
  "vmm_kernel_pml4 s = kernel_pml4 s"

section \<open>Start-up\<close>

definition TWO_MB :: u64 where
  "TWO_MB = 0x200000"

text \<open>
  \<open>vmm_init\<close>: identity map of 4 GB, the kernel image in 4 KB pages, the direct map, then the
  switch of CR3. \<open>kernel_phys_end\<close> is the linker symbol.
\<close>

definition vmm_init :: "u64 \<Rightarrow> 'a vmm_state_scheme \<Rightarrow> 'a vmm_state_scheme option" where
  "vmm_init kernel_phys_end s = do {
     let (frame, s) = pmm_alloc_frame s;
     let s = zero_table frame (s\<lparr>kernel_pml4 := frame\<rparr>);
     s \<leftarrow> for_step (\<lambda>a. a < 0x100000000) TWO_MB 0
            (\<lambda>a. map_huge a a (PAGE_PRESENT OR PAGE_WRITABLE)) s;
     let ksize = kernel_phys_end - KERNEL_PHYS_BASE;
     s \<leftarrow> for_step (\<lambda>off. off < ksize) 0x1000 0
            (\<lambda>off. vmm_map_page (KERNEL_VIRT_BASE + off) (KERNEL_PHYS_BASE + off)
                     (PAGE_PRESENT OR PAGE_WRITABLE)) s;
     let max_phys = (pmm_total_frames s * 4096 + TWO_MB - 1) AND NOT (TWO_MB - 1);
     s \<leftarrow> for_step (\<lambda>a. a < max_phys) TWO_MB 0
            (\<lambda>a. map_huge (HHDM_OFFSET + a) a (PAGE_PRESENT OR PAGE_WRITABLE)) s;
     Some (s\<lparr>hhdm_end := max_phys, cr3 := kernel_pml4 s, vmm_active := True\<rparr>)
   }"

definition vmm_map_mmio ::
  "u64 \<Rightarrow> u64 \<Rightarrow> 'a vmm_state_scheme \<Rightarrow> (u64 \<times> 'a vmm_state_scheme) option" where
  "vmm_map_mmio phys sz s = do {
     let start = phys AND NOT 0xFFF;
     let stop = (phys + sz + 0xFFF) AND NOT 0xFFF;
     s \<leftarrow> for_step (\<lambda>a. a < stop) 0x1000 start
            (\<lambda>a s. if a < hhdm_end s then s
                   else vmm_map_page (HHDM_OFFSET + a) a (PAGE_PRESENT OR PAGE_WRITABLE) s) s;
     Some (phys_to_virt phys, s)
   }"

section \<open>Address spaces\<close>

definition vmm_create_address_space :: "'a vmm_state_scheme \<Rightarrow> u64 \<times> 'a vmm_state_scheme" where
  "vmm_create_address_space s =
     (let (new_pml4, s) = pmm_alloc_frame s;
          s = zero_table new_pml4 s;
          s = fold (\<lambda>i s. table_set new_pml4 (of_nat i) (table_get s (kernel_pml4 s) (of_nat i)) s)
                [256..<512] s
      in (new_pml4, s))"

definition vmm_switch_address_space :: "u64 \<Rightarrow> 'a vmm_state_scheme \<Rightarrow> 'a vmm_state_scheme" where
  "vmm_switch_address_space pml4_phys s = s\<lparr>cr3 := pml4_phys\<rparr>"

text \<open>One page of \<open>vmm_user_range_ok\<close>, and the loop over the pages.\<close>

definition page_user_ok :: "'a vmm_state_scheme \<Rightarrow> u64 \<Rightarrow> u64 \<Rightarrow> u64 \<Rightarrow> bool" where
  "page_user_ok s pml4 need page =
     (let e = table_get s pml4 (PML4_INDEX page) in
      if e AND need \<noteq> need then False else
      let e = table_get s (ENTRY_ADDR e) (PDPT_INDEX page) in
      if e AND need \<noteq> need then False else
      if e AND PAGE_HUGE \<noteq> 0 then True else
      let e = table_get s (ENTRY_ADDR e) (PD_INDEX page) in
      if e AND need \<noteq> need then False else
      if e AND PAGE_HUGE \<noteq> 0 then True else
      let e = table_get s (ENTRY_ADDR e) (PT_INDEX page) in
      e AND need = need)"

definition user_pages_ok :: "'a vmm_state_scheme \<Rightarrow> u64 \<Rightarrow> u64 \<Rightarrow> u64 \<Rightarrow> u64 \<Rightarrow> bool option" where
  "user_pages_ok s pml4 need stop start =
     map_option (\<lambda>page. \<not> page < stop)
       (while_option (\<lambda>page. page < stop \<and> page_user_ok s pml4 need page)
          (\<lambda>page. page + 0x1000) start)"

definition vmm_user_range_ok ::
  "u64 \<Rightarrow> u64 \<Rightarrow> u64 \<Rightarrow> bool \<Rightarrow> 'a vmm_state_scheme \<Rightarrow> bool option" where
  "vmm_user_range_ok pml4 va len write s =
     (if len = 0 then Some True else
      let stop = va + len in
      if stop < va then Some False else
      if stop > USER_SPACE_END then Some False else
      let need = PAGE_PRESENT OR PAGE_USER OR (if write then PAGE_WRITABLE else 0) in
      user_pages_ok s pml4 need stop (va AND NOT 0xFFF))"

text \<open>
  \<open>vmm_destroy_address_space\<close>, one definition per loop. Each returns the number of frames
  freed so far with the state.
\<close>

definition free_counted :: "u64 \<Rightarrow> u64 \<times> 'a vmm_state_scheme \<Rightarrow> u64 \<times> 'a vmm_state_scheme" where
  "free_counted frame = (\<lambda>(freed, s). (freed + 1, pmm_free_frame frame s))"

definition destroy_pt :: "u64 \<Rightarrow> u64 \<times> 'a vmm_state_scheme \<Rightarrow> u64 \<times> 'a vmm_state_scheme" where
  "destroy_pt pt = fold (\<lambda>m (freed, s).
     let e = table_get s pt (of_nat m) in
     if e AND PAGE_PRESENT = 0 then (freed, s)
     else free_counted (ENTRY_ADDR e) (freed, s)) [0..<512]"

definition destroy_pd :: "u64 \<Rightarrow> u64 \<times> 'a vmm_state_scheme \<Rightarrow> u64 \<times> 'a vmm_state_scheme" where
  "destroy_pd pd = fold (\<lambda>k (freed, s).
     let e = table_get s pd (of_nat k) in
     if e AND PAGE_PRESENT = 0 \<or> e AND PAGE_HUGE \<noteq> 0 then (freed, s)
     else free_counted (ENTRY_ADDR e) (destroy_pt (ENTRY_ADDR e) (freed, s))) [0..<512]"

definition destroy_pdpt :: "u64 \<Rightarrow> u64 \<times> 'a vmm_state_scheme \<Rightarrow> u64 \<times> 'a vmm_state_scheme" where
  "destroy_pdpt pdpt = fold (\<lambda>j (freed, s).
     let e = table_get s pdpt (of_nat j) in
     if e AND PAGE_PRESENT = 0 \<or> e AND PAGE_HUGE \<noteq> 0 then (freed, s)
     else free_counted (ENTRY_ADDR e) (destroy_pd (ENTRY_ADDR e) (freed, s))) [0..<512]"

definition destroy_pml4 :: "u64 \<Rightarrow> u64 \<times> 'a vmm_state_scheme \<Rightarrow> u64 \<times> 'a vmm_state_scheme" where
  "destroy_pml4 pml4 = fold (\<lambda>i (freed, s).
     let e = table_get s pml4 (of_nat i) in
     if e AND PAGE_PRESENT = 0 then (freed, s)
     else let (freed, s) = free_counted (ENTRY_ADDR e) (destroy_pdpt (ENTRY_ADDR e) (freed, s))
          in (freed, table_set pml4 (of_nat i) 0 s)) [0..<256]"

definition vmm_destroy_address_space ::
  "u64 \<Rightarrow> 'a vmm_state_scheme \<Rightarrow> u64 \<times> 'a vmm_state_scheme" where
  "vmm_destroy_address_space pml4 s =
     (if pml4 = kernel_pml4 s \<or> pml4 = cr3 s AND 0x000FFFFFFFFFF000 then (0, s)
      else free_counted pml4 (destroy_pml4 pml4 (0, s)))"

section \<open>Tables in memory\<close>

text \<open>A table frame: page aligned, allocated, not frame 0, and apart from the bitmap.\<close>

definition table_frame :: "'a pmm_state_scheme \<Rightarrow> u64 \<Rightarrow> bool" where
  "table_frame s t \<longleftrightarrow> t \<noteq> 0 \<and> unat t mod 4096 = 0 \<and> unat t div 4096 \<in> used_set s \<and>
     (\<forall>k < 4096. \<not> t + k - kaddr (bitmap s) < bitmap_size s)"

text \<open>
  The allocator as the page tables need it: consistent, RAM inside the direct map, and the
  bitmap's own bytes in frames that are in use, so that no frame handed out overlaps it.
\<close>

definition mem_ok :: "'a pmm_state_scheme \<Rightarrow> bool" where
  "mem_ok s \<longleftrightarrow> pmm_inv s \<and> unat (total_frames s) * 4096 \<le> 2 ^ 47 \<and>
     (\<forall>a. a - kaddr (bitmap s) < bitmap_size s \<longrightarrow> unat a div 4096 \<in> used_set s)"

lemma table_frame_bound:
  assumes "mem_ok s" "table_frame s t"
  shows "unat t + 4096 \<le> 2 ^ 47"
proof -
  have "unat t div 4096 < unat (total_frames s)"
    using assms(2) used_set_bound by (auto simp: table_frame_def)
  then have "Suc (unat t div 4096) * 4096 \<le> unat (total_frames s) * 4096"
    by (intro mult_le_mono1) simp
  moreover have "unat t div 4096 * 4096 = unat t"
    using assms(2) by (auto simp: table_frame_def)
  ultimately show ?thesis using assms(1) by (simp add: mem_ok_def)
qed

lemma slot_offset: "i < 512 \<Longrightarrow> unat (8 * i) = 8 * unat (i::u64)"
  using unat_mult_nowrap [of 8 i] by (simp add: word_less_nat_alt)

text \<open>Whether through the identity map or the direct map, entry \<open>i\<close> lies at \<open>t + 8 * i\<close>.\<close>

lemma slot_addr:
  assumes "unat t + 4096 \<le> 2 ^ 47" "i < 512"
  shows "kaddr (table s t + 8 * i) = t + 8 * i" "unat (t + 8 * i) = unat t + 8 * unat i"
proof -
  have i: "unat (8 * i) < 4096" using slot_offset [OF assms(2)] assms(2) by (simp add: word_less_nat_alt)
  have "kaddr (table s t) = t"
    using assms(1) kaddr_phys_to_virt [of t] kaddr_low [of t]
    by (simp add: table_def phys_to_virt_def)
  then show "kaddr (table s t + 8 * i) = t + 8 * i" using assms(1) i by (simp add: kaddr_add)
  have "unat t + unat (8 * i) < 18446744073709551616" using assms(1) i by simp
  then show "unat (t + 8 * i) = unat t + 8 * unat i"
    using unat_add_nowrap [of t "8 * i"] slot_offset [OF assms(2)] by simp
qed

lemma slot_aligned:
  "\<lbrakk>unat (t::u64) + 4096 \<le> 2 ^ 47; unat t mod 4096 = 0; i < 512\<rbrakk> \<Longrightarrow> aligned8 (t + 8 * i)"
proof -
  assume "unat t + 4096 \<le> 2 ^ 47" "unat t mod 4096 = 0" "i < 512"
  moreover from this(2) have "unat t mod 8 = 0" using mod_mod_cancel [of 8 4096 "unat t"] by simp
  ultimately show ?thesis by (simp add: aligned8_def slot_addr(2))
qed

lemma slot_eq_iff:
  fixes t t' :: u64
  assumes "unat t + 4096 \<le> 2 ^ 47" "unat t mod 4096 = 0" "i < 512"
    "unat t' + 4096 \<le> 2 ^ 47" "unat t' mod 4096 = 0" "i' < 512"
  shows "t + 8 * i = t' + 8 * i' \<longleftrightarrow> t = t' \<and> i = i'"
proof
  assume "t + 8 * i = t' + 8 * i'"
  then have eq: "unat t + 8 * unat i = unat t' + 8 * unat i'"
    using slot_addr(2) [OF assms(1,3)] slot_addr(2) [OF assms(4,6)] by simp
  have d: "unat t = 4096 * (unat t div 4096)" "unat t' = 4096 * (unat t' div 4096)"
    using assms(2,5) by auto
  moreover have "8 * unat i < 4096" "8 * unat i' < 4096"
    using assms(3,6) by (simp_all add: word_less_nat_alt)
  ultimately have "unat t div 4096 = unat t' div 4096"
    using eq page_split [of "8 * unat i" "8 * unat i'"] by metis
  with d eq show "t = t' \<and> i = i'" by (simp add: word_unat_eq_iff)
qed simp

text \<open>Inside a table frame.\<close>

lemma slot_bytes:
  fixes t :: u64
  assumes "unat t + 4096 \<le> 2 ^ 47" "i < 512" "k < 8"
  shows "\<exists>l < 4096. t + 8 * i + k = t + l"
proof -
  have "unat (8 * i + k) = 8 * unat i + unat k"
    using slot_offset [OF assms(2)] assms(2,3)
    by (subst unat_add_nowrap) (simp_all add: word_less_nat_alt)
  then have "8 * i + k < 4096" using assms(2,3) by (simp add: word_less_nat_alt)
  then show ?thesis by (intro exI [of _ "8 * i + k"]) (simp add: add.assoc)
qed

text \<open>Where a table lies, whether or not its frame is still allocated.\<close>

definition table_loc :: "'a pmm_state_scheme \<Rightarrow> u64 \<Rightarrow> bool" where
  "table_loc s t \<longleftrightarrow> unat t mod 4096 = 0 \<and> unat t + 4096 \<le> 2 ^ 47 \<and>
     (\<forall>k < 4096. \<not> t + k - kaddr (bitmap s) < bitmap_size s)"

lemma table_frame_loc: "\<lbrakk>mem_ok s; table_frame s t\<rbrakk> \<Longrightarrow> table_loc s t"
  using table_frame_bound [of s t] by (simp add: table_loc_def table_frame_def)

lemma table_get_set_loc:
  assumes "table_loc s t" "table_loc s t'" "i < 512" "i' < 512"
  shows "table_get (table_set t i v s) t' i' = (if t = t' \<and> i = i' then v else table_get s t' i')"
proof -
  have b: "unat t + 4096 \<le> 2 ^ 47" "unat t' + 4096 \<le> 2 ^ 47"
    and m: "unat t mod 4096 = 0" "unat t' mod 4096 = 0"
    using assms(1,2) by (simp_all add: table_loc_def)
  have "table (table_set t i v s) t' = table s t'" by (simp add: table_def table_set_def)
  moreover have "t + 8 * i = t' + 8 * i' \<longleftrightarrow> t = t' \<and> i = i'"
    by (rule slot_eq_iff [OF b(1) m(1) assms(3) b(2) m(2) assms(4)])
  ultimately show ?thesis
    using slot_aligned [OF b(1) m(1) assms(3)] slot_aligned [OF b(2) m(2) assms(4)]
    by (auto simp: table_get_def table_set_def slot_addr(1) [OF b(1) assms(3)]
        slot_addr(1) [OF b(2) assms(4)] load64_store64_other)
qed

lemma table_get_set:
  assumes "mem_ok s" "table_frame s t" "table_frame s t'" "i < 512" "i' < 512"
  shows "table_get (table_set t i v s) t' i' = (if t = t' \<and> i = i' then v else table_get s t' i')"
  using assms by (intro table_get_set_loc table_frame_loc)

lemma table_set_fields [simp]:
  "bitmap (table_set t i v s) = bitmap s" "bitmap_size (table_set t i v s) = bitmap_size s"
  "total_frames (table_set t i v s) = total_frames s"
  "used_frames (table_set t i v s) = used_frames s"
  "bitmap_phys (table_set t i v s) = bitmap_phys s"
  "kernel_pml4 (table_set t i v s) = kernel_pml4 s" "vmm_active (table_set t i v s) = vmm_active s"
  "hhdm_end (table_set t i v s) = hhdm_end s" "cr3 (table_set t i v s) = cr3 s"
  by (simp_all add: table_set_def)

text \<open>What the allocator knows depends on the bytes of the bitmap only.\<close>

lemma used_set_cong:
  assumes "bm_ok s" "bitmap s' = bitmap s" "total_frames s' = total_frames s"
    and "\<And>a. a - kaddr (bitmap s) < bitmap_size s \<Longrightarrow> ram s' a = ram s a"
  shows "used_set s' = used_set s"
proof -
  have "bitmap_test s' (of_nat f) = bitmap_test s (of_nat f)" if "f < unat (total_frames s)" for f
  proof -
    have "of_nat f < total_frames s" by (rule frame_of_nat(1) [OF that])
    then have "ram s' (bm_byte s (of_nat f)) = ram s (bm_byte s (of_nat f))"
      using assms(1,4) bm_byte_inside by blast
    then show ?thesis by (simp add: bitmap_test_def bm_byte_def assms(2))
  qed
  then show ?thesis by (auto simp: used_set_def assms(3))
qed

lemma table_set_outside:
  fixes t a :: u64
  assumes b: "unat t + 4096 \<le> 2 ^ 47" and i: "i < 512" and H: "\<forall>k < 4096. a \<noteq> t + k"
  shows "ram (table_set t i v s) a = ram s a"
proof -
  have "\<not> a - (t + 8 * i) < 8"
  proof
    assume "a - (t + 8 * i) < 8"
    from slot_bytes [OF b i this] show False using H by auto
  qed
  then show ?thesis
    by (simp add: table_set_def slot_addr(1) [OF b i] store64_outside)
qed

lemma table_set_used_loc:
  assumes "bm_ok s" "table_loc s t" "i < 512"
  shows "used_set (table_set t i v s) = used_set s"
proof (rule used_set_cong [OF assms(1)])
  show "ram (table_set t i v s) a = ram s a" if "a - kaddr (bitmap s) < bitmap_size s" for a
    using that assms(2,3) by (intro table_set_outside) (auto simp: table_loc_def)
qed simp_all

lemma table_set_used:
  assumes "mem_ok s" "table_frame s t" "i < 512"
  shows "used_set (table_set t i v s) = used_set s"
  using assms by (intro table_set_used_loc table_frame_loc) (simp_all add: mem_ok_def pmm_inv_def)

lemma table_set_ok [simp]:
  assumes "mem_ok s" "table_frame s t" "i < 512"
  shows "mem_ok (table_set t i v s)" "table_frame (table_set t i v s) = table_frame s"
proof -
  note u = table_set_used [OF assms]
  show "mem_ok (table_set t i v s)"
    using assms(1) u by (simp add: mem_ok_def pmm_inv_def bm_ok_def)
  show "table_frame (table_set t i v s) = table_frame s"
    using u by (simp add: fun_eq_iff table_frame_def)
qed

end
