(* ===== verification/VmmMap.thy ===== *)
theory VmmMap
  imports Vmm "HOL-Library.Sublist"
begin

text \<open>
  Correctness of the page-table operations of \<^verbatim>\<open>kernel/mm/vmm.c\<close>: the tables of an address
  space form a tree of distinct frames; mapping a page changes the translation of that page and of
  no other, and unmapping removes it; a new address space shares the kernel half.
\<close>

text \<open>Loops over the 512 entries of a table stay folded.\<close>

declare upt_rec_numeral [simp del]

section \<open>Fresh frames\<close>

text \<open>Everything that changed lies in the bitmap, the used-frame counter or the frames \<open>T\<close>.\<close>

definition touches :: "u64 set \<Rightarrow> 'a pmm_state_scheme \<Rightarrow> 'a pmm_state_scheme \<Rightarrow> bool" where
  "touches T s s' \<longleftrightarrow>
     bitmap s' = bitmap s \<and> bitmap_phys s' = bitmap_phys s \<and> total_frames s' = total_frames s \<and>
     bitmap_size s' = bitmap_size s \<and> module_start s' = module_start s \<and>
     module_end s' = module_end s \<and> pmm_state.more s' = pmm_state.more s \<and>
     (\<forall>a. \<not> a - kaddr (bitmap s) < bitmap_size s \<longrightarrow> (\<forall>t \<in> T. \<forall>k < 4096. a \<noteq> t + k) \<longrightarrow>
        ram s' a = ram s a)"

lemma touches_refl [simp]: "touches T s s"
  by (simp add: touches_def)

lemma touches_trans: "\<lbrakk>touches T s s'; touches U s' s''\<rbrakk> \<Longrightarrow> touches (T \<union> U) s s''"
  by (simp add: touches_def)

lemma touches_mono: "\<lbrakk>touches T s s'; T \<subseteq> U\<rbrakk> \<Longrightarrow> touches U s s'"
  by (auto simp: touches_def)

lemma same_layout_touches: "same_layout s s' \<Longrightarrow> touches T s s'"
  by (simp add: same_layout_def touches_def)

lemma touches_table_set:
  fixes s :: "'a vmm_state_scheme"
  assumes "mem_ok s" "table_frame s t" "i < 512"
  shows "touches {t} s (table_set t i v s)"
  using table_set_outside [OF table_frame_bound [OF assms(1,2)] assms(3)]
  by (auto simp: touches_def) (simp_all add: table_set_def)

lemma touches_vmm:
  fixes s :: "'a vmm_state_scheme"
  assumes "touches T s s'"
  shows "kernel_pml4 s' = kernel_pml4 s" "vmm_active s' = vmm_active s"
    "hhdm_end s' = hhdm_end s" "cr3 s' = cr3 s" "table s' = table s"
proof -
  have "pmm_state.more s' = pmm_state.more s" using assms by (simp add: touches_def)
  then show "kernel_pml4 s' = kernel_pml4 s" "vmm_active s' = vmm_active s"
    "hhdm_end s' = hhdm_end s" "cr3 s' = cr3 s"
    by (cases s, cases s', simp)+
  then show "table s' = table s" by (simp add: table_def fun_eq_iff)
qed

lemma table_get_untouched_loc:
  fixes s :: "'a vmm_state_scheme"
  assumes "table_loc s t" "i < 512" "touches T s s'"
    and "\<And>u k l. \<lbrakk>u \<in> T; k < 4096; l < 4096\<rbrakk> \<Longrightarrow> u + k \<noteq> t + l"
  shows "table_get s' t i = table_get s t i"
proof -
  have b: "unat t + 4096 \<le> 2 ^ 47" using assms(1) by (simp add: table_loc_def)
  have "load64 (ram s') (t + 8 * i) = load64 (ram s) (t + 8 * i)"
  proof (rule load64_cong)
    fix k :: u64 assume "k < 8"
    then obtain l where l: "l < 4096" "t + 8 * i + k = t + l" using slot_bytes [OF b assms(2)] by blast
    then have "\<not> t + l - kaddr (bitmap s) < bitmap_size s" using assms(1) by (simp add: table_loc_def)
    then show "ram s' (t + 8 * i + k) = ram s (t + 8 * i + k)"
      using assms(3,4) l unfolding touches_def by metis
  qed
  then show ?thesis
    by (simp add: table_get_def touches_vmm(5) [OF assms(3)] slot_addr(1) [OF b assms(2)])
qed

lemma table_get_untouched:
  fixes s :: "'a vmm_state_scheme"
  assumes "mem_ok s" "table_frame s t" "i < 512" "touches T s s'"
    and "\<And>u k l. \<lbrakk>u \<in> T; k < 4096; l < 4096\<rbrakk> \<Longrightarrow> u + k \<noteq> t + l"
  shows "table_get s' t i = table_get s t i"
  by (rule table_get_untouched_loc [OF table_frame_loc [OF assms(1,2)] assms(3-5)])

lemma frame_div:
  assumes "unat (t::u64) mod 4096 = 0" "unat t + 4096 \<le> 2 ^ 47" "k < 4096"
  shows "unat (t + k) div 4096 = unat t div 4096"
proof -
  have k: "unat k < 4096" using assms(3) by (simp add: word_less_nat_alt)
  have "unat (t + k) = unat t + unat k" using assms(2) k by (intro unat_add_nowrap) simp
  moreover obtain q where "unat t = 4096 * q" using assms(1) by auto
  ultimately show ?thesis using k by simp
qed

lemma frames_disjoint:
  assumes "unat (t::u64) mod 4096 = 0" "unat t + 4096 \<le> 2 ^ 47"
    "unat (u::u64) mod 4096 = 0" "unat u + 4096 \<le> 2 ^ 47" "t \<noteq> u" "k < 4096" "l < 4096"
  shows "t + k \<noteq> u + l"
proof
  assume "t + k = u + l"
  then have "unat t div 4096 = unat u div 4096"
    using frame_div [OF assms(1,2,6)] frame_div [OF assms(3,4,7)] by simp
  then show False
    using assms(1,3,5) nat_eq_div_mod [of "unat t" "unat u" 4096] by (simp add: word_unat_eq_iff)
qed

text \<open>An allocated frame is a table frame, different from all that were one before.\<close>

lemma alloc_table_frame:
  fixes s :: "'a vmm_state_scheme"
  assumes "mem_ok s" "pmm_alloc_frame s = (f, s')" "f \<noteq> 0"
  shows "mem_ok s'" "table_frame s' f" "table_frame s t \<Longrightarrow> table_frame s' t \<and> t \<noteq> f"
    "touches {} s s'" "used_set s' = insert (unat f div 4096) (used_set s)"
    "unat f div 4096 \<notin> used_set s"
proof -
  have inv: "pmm_inv s" using assms(1) by (simp add: mem_ok_def)
  obtain n where n: "n < unat (total_frames s)" "n \<notin> used_set s" "unat f = n * 4096"
    "used_set s' = insert n (used_set s)"
    using pmm.alloc_fresh [OF inv assms(2,3)] by auto
  have l: "same_layout s s'" by (rule same_layout_alloc [OF inv assms(2)])
  note lf = same_layout_fields [OF l]
  show "used_set s' = insert (unat f div 4096) (used_set s)" using n by simp
  show nu: "unat f div 4096 \<notin> used_set s" using n by simp
  show "touches {} s s'" using l by (rule same_layout_touches)
  show "mem_ok s'"
    using assms(1) lf n(4) pmm.alloc_inv [OF inv assms(2)] by (simp add: mem_ok_def)
  have "Suc n * 4096 \<le> unat (total_frames s) * 4096" using n(1) by (intro mult_le_mono1) simp
  then have fb: "unat f + 4096 \<le> 2 ^ 47" using assms(1) n(3) by (simp add: mem_ok_def)
  have "\<not> f + k - kaddr (bitmap s) < bitmap_size s" if "k < 4096" for k
    using assms(1) nu frame_div [OF _ fb that] n(3) by (auto simp: mem_ok_def)
  then show "table_frame s' f" using assms(3) n lf by (simp add: table_frame_def)
  show "table_frame s' t \<and> t \<noteq> f" if "table_frame s t"
    using that lf n by (auto simp: table_frame_def)
qed

lemma fold_table_set:
  fixes s :: "'a vmm_state_scheme"
  assumes step: "\<And>s j v i. \<lbrakk>Q s; mem_ok s; table_frame s t; j < 512; i < 512\<rbrakk> \<Longrightarrow>
      Q (table_set t j v s) \<and> g i (table_set t j v s) = g i s"
    and "Q s" "mem_ok s" "table_frame s t" "\<And>i. i \<in> set js \<Longrightarrow> i < 512"
    and "s' = fold (\<lambda>i s. table_set t (of_nat i) (g i s) s) js s"
  shows "mem_ok s' \<and> table_frame s' = table_frame s \<and> used_set s' = used_set s \<and> touches {t} s s' \<and>
     (\<forall>u j. table_frame s u \<longrightarrow> j < 512 \<longrightarrow>
        table_get s' u j = (if u = t \<and> unat j \<in> set js then g (unat j) s else table_get s u j))"
  using assms(2-6)
proof (induction js arbitrary: s)
  case (Cons i js)
  let ?s1 = "table_set t (of_nat i) (g i s) s"
  have i: "(of_nat i :: u64) < 512" "unat (of_nat i :: u64) = i"
    using Cons.prems(4) [of i] by (simp_all add: word_less_nat_alt unat_of_nat)
  note s1 = table_set_ok [OF Cons.prems(2,3) i(1), of "g i s"] table_set_used [OF Cons.prems(2,3) i(1), of "g i s"]
    touches_table_set [OF Cons.prems(2,3) i(1), of "g i s"]
  note q = step [OF Cons.prems(1-3) i(1), of _ "g i s"]
  have q1: "Q ?s1" using q [of 0] by simp
  have IH: "mem_ok s' \<and> table_frame s' = table_frame ?s1 \<and> used_set s' = used_set ?s1 \<and> touches {t} ?s1 s' \<and>
     (\<forall>u j. table_frame ?s1 u \<longrightarrow> j < 512 \<longrightarrow>
        table_get s' u j = (if u = t \<and> unat j \<in> set js then g (unat j) ?s1 else table_get ?s1 u j))"
    by (rule Cons.IH) (use Cons.prems s1 q1 in auto)
  have "table_get ?s1 u j = (if u = t \<and> unat j = i then g i s else table_get s u j)"
    if "table_frame s u" "j < 512" for u j
    using table_get_set [OF Cons.prems(2,3) that(1) i(1) that(2)] i(2) by (auto simp: word_unat_eq_iff)
  moreover have "g (unat j) ?s1 = g (unat j) s" if "j < 512" for j :: u64
    using q [of "unat j"] that by (simp add: word_less_nat_alt)
  ultimately show ?case using IH s1 touches_trans [OF s1(4), of "{t}" s'] by auto
qed simp

lemma zero_table_correct:
  fixes s :: "'a vmm_state_scheme"
  assumes "mem_ok s" "table_frame s t"
  shows "mem_ok (zero_table t s)" "table_frame (zero_table t s) = table_frame s"
    "used_set (zero_table t s) = used_set s" "touches {t} s (zero_table t s)"
    "\<lbrakk>table_frame s u; j < 512\<rbrakk> \<Longrightarrow>
      table_get (zero_table t s) u j = (if u = t then 0 else table_get s u j)"
proof -
  note * = fold_table_set [where Q = "\<lambda>_. True" and g = "\<lambda>_ _. 0" and js = "[0..<512]",
      OF _ _ assms _ zero_table_def [of t s]]
  show "mem_ok (zero_table t s)" "table_frame (zero_table t s) = table_frame s"
    "used_set (zero_table t s) = used_set s" "touches {t} s (zero_table t s)" using * by simp_all
  show "table_get (zero_table t s) u j = (if u = t then 0 else table_get s u j)"
    if "table_frame s u" "j < 512" using that * by (simp add: word_less_nat_alt)
qed

section \<open>The tree of tables\<close>

text \<open>The table a list of indices leads to; a 2 MB or 1 GB page ends the descent.\<close>

fun walk :: "'a vmm_state_scheme \<Rightarrow> u64 \<Rightarrow> u64 list \<Rightarrow> u64 option" where
  "walk s t [] = Some t"
| "walk s t (i # p) =
     (let e = table_get s t i in
      if e AND PAGE_PRESENT = 0 \<or> e AND PAGE_HUGE \<noteq> 0 then None else walk s (ENTRY_ADDR e) p)"

abbreviation idx :: "u64 list \<Rightarrow> bool" where
  "idx p \<equiv> \<forall>i \<in> set p. i < 512"

text \<open>
  The tables of an address space: every table reached is a table frame, no table is reached
  along two paths, and the top two levels hold no large pages.
\<close>

definition pt_ok :: "'a vmm_state_scheme \<Rightarrow> u64 \<Rightarrow> bool" where
  "pt_ok s pml4 \<longleftrightarrow> mem_ok s \<and>
     (\<forall>p t. idx p \<longrightarrow> length p \<le> 3 \<longrightarrow> walk s pml4 p = Some t \<longrightarrow> table_frame s t) \<and>
     (\<forall>p q t. idx p \<longrightarrow> idx q \<longrightarrow> length p \<le> 3 \<longrightarrow> length q \<le> 3 \<longrightarrow>
        walk s pml4 p = Some t \<longrightarrow> walk s pml4 q = Some t \<longrightarrow> p = q) \<and>
     (\<forall>p t i. idx p \<longrightarrow> length p \<le> 1 \<longrightarrow> walk s pml4 p = Some t \<longrightarrow> i < 512 \<longrightarrow>
        table_get s t i AND PAGE_HUGE = 0)"

lemma pt_okD:
  assumes "pt_ok s pml4"
  shows "mem_ok s"
    "\<lbrakk>idx p; length p \<le> 3; walk s pml4 p = Some t\<rbrakk> \<Longrightarrow> table_frame s t"
    "\<lbrakk>idx p; idx q; length p \<le> 3; length q \<le> 3; walk s pml4 p = Some t; walk s pml4 q = Some t\<rbrakk> \<Longrightarrow> p = q"
    "\<lbrakk>idx p; length p \<le> 1; walk s pml4 p = Some t; i < 512\<rbrakk> \<Longrightarrow> table_get s t i AND PAGE_HUGE = 0"
  using assms unfolding pt_ok_def by blast+

lemma walk_snoc:
  "walk s t (p @ [i]) = (case walk s t p of None \<Rightarrow> None | Some u \<Rightarrow>
     let e = table_get s u i in
     if e AND PAGE_PRESENT = 0 \<or> e AND PAGE_HUGE \<noteq> 0 then None else Some (ENTRY_ADDR e))"
  by (induction p arbitrary: t) (auto simp: Let_def)

declare walk.simps(2) [simp del]

lemma walk_prefix_None: "\<lbrakk>walk s t p = None; prefix p q\<rbrakk> \<Longrightarrow> walk s t q = None"
proof (induction q rule: rev_induct)
  case (snoc i q)
  then show ?case by (cases "prefix p q") (auto simp: walk_snoc)
qed simp

lemma entry_flag_bits:
  assumes "unat (f::u64) mod 4096 = 0" "unat f + 4096 \<le> 2 ^ 47"
  shows "ENTRY_ADDR (f OR PAGE_PRESENT OR PAGE_WRITABLE OR PAGE_USER) = f"
    "(f OR PAGE_PRESENT OR PAGE_WRITABLE OR PAGE_USER) AND PAGE_PRESENT \<noteq> 0"
    "(f OR PAGE_PRESENT OR PAGE_WRITABLE OR PAGE_USER) AND PAGE_HUGE = 0"
proof -
  define m where "m = (0x000FFFFFFFFFF000 :: u64)"
  have m: "m = push_bit 12 (mask 40)" by (simp add: m_def mask_eq_exp_minus_1)
  have lo: "\<not> bit f n" if "n < 12" for n
  proof -
    have "take_bit 12 (unat f) = 0" using assms(1) by (simp add: take_bit_eq_mod)
    then have "\<not> bit (take_bit 12 (unat f)) n" by simp
    then show ?thesis using that by (simp add: bit_take_bit_iff bit_unsigned_iff)
  qed
  have hi: "\<not> bit f n" if "52 \<le> n" for n
  proof -
    have "unat f < 2 ^ n" using assms(2) power_increasing [OF that, of "2::nat"] by simp
    then have "drop_bit n (unat f) = 0" by (simp add: drop_bit_eq_div)
    then have "\<not> bit (drop_bit n (unat f)) 0" by simp
    then show ?thesis by (auto simp: bit_drop_bit_eq bit_unsigned_iff)
  qed
  have rng: "12 \<le> n \<and> n < 52" if "bit f n" for n using that lo hi by (meson leI)
  have fm: "f AND m = f" by (rule bit_word_eqI) (auto simp: m bit_simps dest: rng)
  show "ENTRY_ADDR (f OR PAGE_PRESENT OR PAGE_WRITABLE OR PAGE_USER) = f"
    using fm by (simp add: ENTRY_ADDR_def PAGE_PRESENT_def PAGE_WRITABLE_def PAGE_USER_def
        bit.conj_disj_distrib2 m_def)
  show "(f OR PAGE_PRESENT OR PAGE_WRITABLE OR PAGE_USER) AND PAGE_PRESENT \<noteq> 0"
    by (simp add: PAGE_PRESENT_def PAGE_WRITABLE_def PAGE_USER_def and_one_eq
        flip: bit_iff_and_drop_bit_eq_1 bit_0 odd_iff_mod_2_eq_one) (simp add: bit_simps flip: bit_0)
  have "f AND PAGE_HUGE = 0" using lo [of 7] and_exp_eq_0_iff_not_bit [of f 7] by (simp add: PAGE_HUGE_def)
  then show "(f OR PAGE_PRESENT OR PAGE_WRITABLE OR PAGE_USER) AND PAGE_HUGE = 0"
    by (simp add: PAGE_PRESENT_def PAGE_WRITABLE_def PAGE_USER_def PAGE_HUGE_def bit.conj_disj_distrib2)
qed

text \<open>Entering an empty table \<open>f\<close> at index \<open>i\<close> of the table at path \<open>p\<close>.\<close>

definition new_table :: "u64 \<Rightarrow> u64 \<Rightarrow> u64 \<Rightarrow> 'a vmm_state_scheme \<Rightarrow> 'a vmm_state_scheme" where
  "new_table t i f s = table_set t i (f OR PAGE_PRESENT OR PAGE_WRITABLE OR PAGE_USER) (zero_table f s)"

lemma new_table_correct:
  fixes s :: "'a vmm_state_scheme"
  assumes "mem_ok s" "pmm_alloc_frame s = (f, s0)" "f \<noteq> 0" "table_frame s t" "i < 512"
  defines "s' \<equiv> new_table t i f s0"
  shows "mem_ok s'" "table_frame s' f" "\<not> table_frame s f" "table_frame s u \<Longrightarrow> table_frame s' u"
    "touches {t, f} s s'" "used_set s' = insert (unat f div 4096) (used_set s)"
    "\<lbrakk>table_frame s u; j < 512\<rbrakk> \<Longrightarrow> table_get s' u j =
       (if u = t \<and> j = i then f OR PAGE_PRESENT OR PAGE_WRITABLE OR PAGE_USER else table_get s u j)"
    "j < 512 \<Longrightarrow> table_get s' f j = 0" "unat f div 4096 \<notin> used_set s"
proof -
  note a = alloc_table_frame [OF assms(1-3)]
  note z = zero_table_correct [OF a(1,2)]
  have t: "table_frame (zero_table f s0) t" "t \<noteq> f" using a(3) [OF assms(4)] z(2) by simp_all
  note b = table_set_ok [OF z(1) t(1) assms(5)] table_set_used [OF z(1) t(1) assms(5)]
  show "mem_ok s'" using b(1) by (simp add: s'_def new_table_def)
  show "table_frame s' f" using b(2) z(2) a(2) by (simp add: s'_def new_table_def)
  show "\<not> table_frame s f" using a(3) by blast
  show "table_frame s' u" if "table_frame s u" using b(2) z(2) a(3) [OF that] by (simp add: s'_def new_table_def)
  have "touches ({} \<union> {f} \<union> {t}) s s'"
    unfolding s'_def new_table_def
    by (rule touches_trans [OF touches_trans [OF a(4) z(4)] touches_table_set [OF z(1) t(1) assms(5)]])
  then show "touches {t, f} s s'" by (rule touches_mono) auto
  show "used_set s' = insert (unat f div 4096) (used_set s)" using b(3) z(3) a(5) by (simp add: s'_def new_table_def)
  show "unat f div 4096 \<notin> used_set s" by (rule a(6))
  have get: "table_get s' u j = (if u = t \<and> j = i then f OR PAGE_PRESENT OR PAGE_WRITABLE OR PAGE_USER
      else if u = f then 0 else table_get s0 u j)" if "table_frame s0 u" "j < 512" for u j
    using table_get_set [OF z(1) t(1) _ assms(5) that(2), of u] z(2) z(5) [OF that] that(1) t(2)
    by (auto simp: s'_def new_table_def)
  show "table_get s' f j = 0" if "j < 512" using get [OF a(2) that] t(2) by auto
  show "table_get s' u j = (if u = t \<and> j = i then f OR PAGE_PRESENT OR PAGE_WRITABLE OR PAGE_USER
      else table_get s u j)" if "table_frame s u" "j < 512"
    using get [of u j] that a(3) [OF that(1)] table_get_untouched [OF assms(1) that a(4)] by auto
qed

text \<open>The context shared by the lemmas on a new table at the end of an existing path.\<close>

lemma new_table_walk:
  fixes s :: "'a vmm_state_scheme"
  assumes ok: "pt_ok s pml4" and p: "idx p" "length p \<le> 2" "walk s pml4 p = Some t" "i < 512"
    and al: "pmm_alloc_frame s = (f, s0)" "f \<noteq> 0"
    and q: "idx q" "length q \<le> 3"
  shows "walk (new_table t i f s0) pml4 q =
    (if q = p @ [i] then Some f else if strict_prefix (p @ [i]) q then None else walk s pml4 q)"
  using q
proof (induction q rule: rev_induct)
  case Nil
  then show ?case by simp
next
  case (snoc j q)
  note d = pt_okD [OF ok]
  have tf: "table_frame s t" using d(2) [OF p(1) _ p(3)] p(2) by simp
  note n = new_table_correct [OF d(1) al tf p(4)]
  have fb: "unat f mod 4096 = 0" "unat f + 4096 \<le> 2 ^ 47"
    using n(2) table_frame_bound [OF n(1,2)] by (simp_all add: table_frame_def)
  have IH: "walk (new_table t i f s0) pml4 q =
    (if q = p @ [i] then Some f else if strict_prefix (p @ [i]) q then None else walk s pml4 q)"
    and j: "j < 512" and iq: "idx q" "length q \<le> 3" using snoc by auto
  consider "q = p @ [i]" | "strict_prefix (p @ [i]) q" | "\<not> prefix (p @ [i]) q" by (auto simp: prefix_order.less_le)
  then show ?case
  proof cases
    case 1
    have "walk (new_table t i f s0) pml4 (q @ [j]) = None"
      using IH 1 n(8) [OF j] by (simp only: walk_snoc) simp
    moreover have "strict_prefix (p @ [i]) (q @ [j])" "q @ [j] \<noteq> p @ [i]" using 1 by (auto simp: strict_prefix_def)
    ultimately show ?thesis by simp
  next
    case 2
    then show ?thesis using IH by (auto simp: walk_snoc strict_prefix_def)
  next
    case 3
    show ?thesis
    proof (cases "walk s pml4 q")
      case None
      then show ?thesis using IH 3 p(3) by (auto simp: walk_snoc strict_prefix_def)
    next
      case (Some u)
      have uf: "table_frame s u" by (rule d(2) [OF iq Some])
      have "u = t \<longleftrightarrow> q = p" using d(3) [OF iq(1) p(1) iq(2) _ Some] p(2,3) Some by auto
      then show ?thesis
        using IH 3 Some n(7) [OF uf j] entry_flag_bits [OF fb] by (auto simp: walk_snoc strict_prefix_def Let_def)
    qed
  qed
qed

lemma new_table_pt_ok:
  fixes s :: "'a vmm_state_scheme"
  assumes ok: "pt_ok s pml4" and p: "idx p" "length p \<le> 2" "walk s pml4 p = Some t" "i < 512"
    and al: "pmm_alloc_frame s = (f, s0)" "f \<noteq> 0"
  shows "pt_ok (new_table t i f s0) pml4"
proof -
  let ?s = "new_table t i f s0"
  note d = pt_okD [OF ok]
  have tf: "table_frame s t" using d(2) [OF p(1) _ p(3)] p(2) by simp
  note n = new_table_correct [OF d(1) al tf p(4)] and w = new_table_walk [OF ok p al]
  have fb: "unat f mod 4096 = 0" "unat f + 4096 \<le> 2 ^ 47"
    using n(2) table_frame_bound [OF n(1,2)] by (simp_all add: table_frame_def)
  have cases: "q = p @ [i] \<and> u = f \<or> q \<noteq> p @ [i] \<and> u \<noteq> f \<and> walk s pml4 q = Some u \<and> table_frame s u"
    if "idx q" "length q \<le> 3" "walk ?s pml4 q = Some u" for q u
    using w [OF that(1,2)] that d(2) n(3) by (auto split: if_splits)
  show ?thesis
    unfolding pt_ok_def
  proof (intro conjI allI impI)
    show "mem_ok ?s" by (rule n(1))
    show "table_frame ?s u" if "idx q" "length q \<le> 3" "walk ?s pml4 q = Some u" for q u
      using cases [OF that] n(2,4) by auto
    show "q = q'" if "idx q" "idx q'" "length q \<le> 3" "length q' \<le> 3"
      "walk ?s pml4 q = Some u" "walk ?s pml4 q' = Some u" for q q' u
      using cases [OF that(1,3,5)] cases [OF that(2,4,6)] d(3) that by auto
    show "table_get ?s u j AND PAGE_HUGE = 0"
      if "idx q" "length q \<le> 1" "walk ?s pml4 q = Some u" "j < 512" for q u j
      using cases [OF that(1) _ that(3)] that(2,4) n(7) [of u j] n(8) d(4) [OF that(1,2) _ that(4)]
        entry_flag_bits(3) [OF fb] by auto
  qed
qed

text \<open>
  What an address space maps at four indices: nothing, a 4 KB page \<open>(False, e)\<close> or a 2 MB
  page \<open>(True, e)\<close>, with the entry \<open>e\<close>.
\<close>

definition leaf ::
  "'a vmm_state_scheme \<Rightarrow> u64 \<Rightarrow> u64 \<Rightarrow> u64 \<Rightarrow> u64 \<Rightarrow> u64 \<Rightarrow> (bool \<times> u64) option" where
  "leaf s pml4 a b c d = (case walk s pml4 [a, b, c] of
      Some pt \<Rightarrow> let e = table_get s pt d in if e AND PAGE_PRESENT = 0 then None else Some (False, e)
    | None \<Rightarrow> (case walk s pml4 [a, b] of None \<Rightarrow> None | Some pd \<Rightarrow>
        let e = table_get s pd c in if e AND PAGE_PRESENT = 0 then None else Some (True, e)))"

lemma new_table_leaf:
  fixes s :: "'a vmm_state_scheme"
  assumes ok: "pt_ok s pml4" and p: "idx p" "length p \<le> 2" "walk s pml4 p = Some t" "i < 512"
    and al: "pmm_alloc_frame s = (f, s0)" "f \<noteq> 0"
    and absent: "table_get s t i AND PAGE_PRESENT = 0"
    and x: "a < 512" "b < 512" "c < 512" "e < 512"
  shows "leaf (new_table t i f s0) pml4 a b c e = leaf s pml4 a b c e"
proof -
  let ?s = "new_table t i f s0"
  note d = pt_okD [OF ok]
  have tf: "table_frame s t" using d(2) [OF p(1) _ p(3)] p(2) by simp
  note n = new_table_correct [OF d(1) al tf p(4)] and w = new_table_walk [OF ok p al]
  have i2: "idx [a, b]" "length [a, b] \<le> 3" and i3: "idx [a, b, c]" "length [a, b, c] \<le> 3" using x by auto
  have none: "walk s pml4 q = None" if "prefix (p @ [i]) q" for q
  proof (rule walk_prefix_None [OF _ that])
    show "walk s pml4 (p @ [i]) = None" using p(3) absent by (simp add: walk_snoc)
  qed
  consider "[a, b, c] = p @ [i]" | "prefix (p @ [i]) [a, b]" | "\<not> prefix (p @ [i]) [a, b, c]"
    using prefix_snoc [of "p @ [i]" "[a, b]" c] by auto
  then show ?thesis
  proof cases
    case 1
    then have pp: "p = [a, b]" "i = c" by auto
    have "walk ?s pml4 [a, b, c] = Some f" using w [OF i3] by (simp add: pp)
    then have "leaf ?s pml4 a b c e = None" using n(8) [OF x(4)] by (simp add: leaf_def)
    moreover have "walk s pml4 [a, b, c] = None" by (rule none) (simp add: pp)
    then have "leaf s pml4 a b c e = None"
      using p(3) absent by (simp add: leaf_def pp)
    ultimately show ?thesis by simp
  next
    case 2
    then have len: "length (p @ [i]) \<le> 2" using prefix_length_le [OF 2] by simp
    have st: "strict_prefix (p @ [i]) [a, b, c]"
      using prefix_order.trans [OF 2, of "[a, b, c]"] len by (auto simp: strict_prefix_def)
    then have "[a, b, c] \<noteq> p @ [i]" by (auto simp: strict_prefix_def)
    then have w3: "walk ?s pml4 [a, b, c] = None" using w [OF i3] st by simp
    have w2: "walk ?s pml4 [a, b] = Some f \<or> walk ?s pml4 [a, b] = None"
      using w [OF i2] 2 by (auto simp: strict_prefix_def)
    have "walk s pml4 [a, b, c] = None" using st by (intro none) (simp add: strict_prefix_def)
    then have "leaf s pml4 a b c e = None" using none [OF 2] by (simp add: leaf_def)
    moreover have "leaf ?s pml4 a b c e = None"
      using w2 w3 n(8) [OF x(3)] by (auto simp: leaf_def)
    ultimately show ?thesis by simp
  next
    case 3
    then have np: "\<not> prefix (p @ [i]) [a, b]" using prefix_snoc [of "p @ [i]" "[a, b]" c] by auto
    have w3: "walk ?s pml4 [a, b, c] = walk s pml4 [a, b, c]"
      using w [OF i3] 3 by (auto simp: strict_prefix_def)
    have w2: "walk ?s pml4 [a, b] = walk s pml4 [a, b]"
      using w [OF i2] np by (auto simp: strict_prefix_def)
    have "table_get ?s pt e = table_get s pt e" if pt: "walk s pml4 [a, b, c] = Some pt" for pt
    proof -
      have "pt \<noteq> t" using d(3) [OF i3(1) p(1) i3(2) _ pt] p(2,3) by auto
      then show ?thesis using n(7) [OF d(2) [OF i3 pt] x(4)] by simp
    qed
    moreover have "table_get ?s pd c = table_get s pd c" if pd: "walk s pml4 [a, b] = Some pd" for pd
    proof -
      have "pd = t \<Longrightarrow> p = [a, b]" using d(3) [OF i2(1) p(1) i2(2) _ pd] p(2,3) by auto
      then have "\<not> (pd = t \<and> c = i)" using 3 by auto
      then show ?thesis using n(7) [OF d(2) [OF i2 pd] x(3)] by auto
    qed
    ultimately show ?thesis using w2 w3 by (auto simp: leaf_def split: option.split)
  qed
qed

section \<open>Descending with creation\<close>

text \<open>Frames above frame 0 that are not in use.\<close>

definition free_frames :: "'a pmm_state_scheme \<Rightarrow> nat" where
  "free_frames s = card ({1..<unat (total_frames s)} - used_set s)"

lemma free_frames_alloc:
  assumes "pmm_inv s" "0 < free_frames s"
  shows "fst (pmm_alloc_frame s) \<noteq> 0"
proof -
  obtain n where "n \<in> {1..<unat (total_frames s)} - used_set s"
    using assms(2) unfolding free_frames_def by (metis all_not_in_conv card.empty less_irrefl)
  then show ?thesis using pmm.alloc_succeeds [OF assms(1), of n] by auto
qed

text \<open>
  \<open>next_level\<close> with \<open>create\<close>: it reaches the table below, changes no translation, and
  uses at most one frame, which was free.
\<close>

lemma next_level_create:
  fixes s :: "'a vmm_state_scheme"
  assumes ok: "pt_ok s pml4" and p: "idx p" "length p \<le> 2" "walk s pml4 p = Some t" "i < 512"
    and fr: "0 < free_frames s"
    and huge: "table_get s t i AND PAGE_PRESENT \<noteq> 0 \<Longrightarrow> table_get s t i AND PAGE_HUGE = 0"
    and r: "next_level t i True s = (t', s')"
  shows "pt_ok s' pml4" "walk s' pml4 (p @ [i]) = Some t'"
    "\<lbrakk>a < 512; b < 512; c < 512; e < 512\<rbrakk> \<Longrightarrow> leaf s' pml4 a b c e = leaf s pml4 a b c e"
    "free_frames s \<le> Suc (free_frames s')" "used_set s \<subseteq> used_set s'"
    "\<exists>T. touches T s s' \<and> (\<forall>u \<in> T. u = t \<or> unat u div 4096 \<notin> used_set s)"
proof -
  note d = pt_okD [OF ok]
  have tf: "table_frame s t" using d(2) [OF p(1) _ p(3)] p(2) by simp
  have "pt_ok s' pml4 \<and> walk s' pml4 (p @ [i]) = Some t' \<and>
    (\<forall>a b c e. a < 512 \<longrightarrow> b < 512 \<longrightarrow> c < 512 \<longrightarrow> e < 512 \<longrightarrow> leaf s' pml4 a b c e = leaf s pml4 a b c e) \<and>
    free_frames s \<le> Suc (free_frames s') \<and> used_set s \<subseteq> used_set s' \<and>
    (\<exists>T. touches T s s' \<and> (\<forall>u \<in> T. u = t \<or> unat u div 4096 \<notin> used_set s))"
  proof (cases "table_get s t i AND PAGE_PRESENT = 0")
    case False
    then have "s' = s" "t' = ENTRY_ADDR (table_get s t i)" using r by (auto simp: next_level_def)
    moreover have "touches {} s s" by simp
    ultimately show ?thesis using ok p(3) False huge by (auto simp: walk_snoc)
  next
    case True
    obtain f s0 where al: "pmm_alloc_frame s = (f, s0)" by (cases "pmm_alloc_frame s")
    have f0: "f \<noteq> 0" using free_frames_alloc [OF _ fr] al d(1) by (simp add: mem_ok_def)
    note n = new_table_correct [OF d(1) al f0 tf p(4)]
    have fb: "unat f mod 4096 = 0" "unat f + 4096 \<le> 2 ^ 47"
      using n(2) table_frame_bound [OF n(1,2)] by (simp_all add: table_frame_def)
    have s': "s' = new_table t i f s0" "t' = f"
      using r True al n(7) [OF tf p(4)] entry_flag_bits(1) [OF fb]
      by (auto simp: next_level_def new_table_def)
    have "walk s' pml4 (p @ [i]) = Some t'"
      using new_table_walk [OF ok p al f0, of "p @ [i]"] p(1,2,4) by (simp add: s')
    moreover have "free_frames s \<le> Suc (free_frames s')"
    proof -
      have "total_frames s' = total_frames s" using n(5) by (simp add: s' touches_def)
      then have "{1..<unat (total_frames s)} - used_set s
          \<subseteq> insert (unat f div 4096) ({1..<unat (total_frames s')} - used_set s')"
        using n(6) by (auto simp: s')
      from card_mono [OF _ this] show ?thesis
        unfolding free_frames_def by (simp add: card_insert_if split: if_splits)
    qed
    moreover have "used_set s \<subseteq> used_set s'" using n(6) by (auto simp: s')
    ultimately show ?thesis
      using new_table_pt_ok [OF ok p al f0] new_table_leaf [OF ok p al f0 True] n(5,9)
      by (auto simp: s' intro!: exI [of _ "{t, f}"])
  qed
  then show "pt_ok s' pml4" "walk s' pml4 (p @ [i]) = Some t'"
    "\<lbrakk>a < 512; b < 512; c < 512; e < 512\<rbrakk> \<Longrightarrow> leaf s' pml4 a b c e = leaf s pml4 a b c e"
    "free_frames s \<le> Suc (free_frames s')" "used_set s \<subseteq> used_set s'"
    "\<exists>T. touches T s s' \<and> (\<forall>u \<in> T. u = t \<or> unat u div 4096 \<notin> used_set s)"
    by blast+
qed

section \<open>Writing a leaf entry\<close>

lemma leaf_write:
  fixes s :: "'a vmm_state_scheme" and v :: u64
  assumes ok: "pt_ok s pml4" and x: "a < 512" "b < 512" "c < 512" "d < 512"
    and pt: "walk s pml4 [a, b, c] = Some pt"
  defines "s' \<equiv> table_set pt d v s"
  shows "pt_ok s' pml4"
    "\<lbrakk>a' < 512; b' < 512; c' < 512; d' < 512\<rbrakk> \<Longrightarrow> leaf s' pml4 a' b' c' d' =
      (if (a', b', c', d') = (a, b, c, d) then if v AND PAGE_PRESENT = 0 then None else Some (False, v)
       else leaf s pml4 a' b' c' d')"
    "touches {pt} s s'" "used_set s' = used_set s"
proof -
  note o = pt_okD [OF ok]
  have ix: "idx [a, b, c]" "length [a, b, c] \<le> 3" using x by auto
  have pf: "table_frame s pt" by (rule o(2) [OF ix pt])
  note set = table_get_set [OF o(1) pf _ x(4), where v = v, folded s'_def]
  show "touches {pt} s s'" unfolding s'_def by (rule touches_table_set [OF o(1) pf x(4)])
  show "used_set s' = used_set s" unfolding s'_def by (rule table_set_used [OF o(1) pf x(4)])
  have mem: "mem_ok s'" "table_frame s' = table_frame s"
    unfolding s'_def by (rule table_set_ok [OF o(1) pf x(4)])+
  have upper: "table_get s' u j = table_get s u j"
    if "idx q" "length q \<le> 2" "walk s pml4 q = Some u" "j < 512" for q u j
  proof -
    have "u \<noteq> pt" using o(3) [OF that(1) ix(1) _ ix(2) that(3)] that(2) pt by auto
    moreover have "table_frame s u" using o(2) [OF that(1) _ that(3)] that(2) by simp
    ultimately show ?thesis using set [of u j] that(4) by simp
  qed
  have w: "walk s' pml4 q = walk s pml4 q" if "idx q" "length q \<le> 3" for q
    using that
  proof (induction q rule: rev_induct)
    case (snoc j q)
    then have IH: "walk s' pml4 q = walk s pml4 q" and q: "idx q" "length q \<le> 2" "j < 512" by simp_all
    show ?case
    proof (cases "walk s pml4 q")
      case (Some u)
      then show ?thesis using IH upper [OF q(1,2) Some q(3)] by (simp add: walk_snoc)
    qed (simp add: walk_snoc IH)
  qed simp
  show "pt_ok s' pml4"
    unfolding pt_ok_def
  proof (intro conjI allI impI)
    show "table_frame s' t" if "idx q" "length q \<le> 3" "walk s' pml4 q = Some t" for q t
      using o(2) [OF that(1,2)] w [OF that(1,2)] that(3) mem(2) by simp
    show "q = q'" if "idx q" "idx q'" "length q \<le> 3" "length q' \<le> 3"
      "walk s' pml4 q = Some t" "walk s' pml4 q' = Some t" for q q' t
      using that w [OF that(1,3)] w [OF that(2,4)] by (intro o(3) [of q q' t]) simp_all
    show "table_get s' t j AND PAGE_HUGE = 0"
      if "idx q" "length q \<le> 1" "walk s' pml4 q = Some t" "j < 512" for q t j
      using o(4) [OF that(1,2) _ that(4), of t] w [OF that(1)] upper [OF that(1) _ _ that(4), of t] that(2,3)
      by simp
  qed (rule mem)
  show "leaf s' pml4 a' b' c' d' =
      (if (a', b', c', d') = (a, b, c, d) then if v AND PAGE_PRESENT = 0 then None else Some (False, v)
       else leaf s pml4 a' b' c' d')"
    if x': "a' < 512" "b' < 512" "c' < 512" "d' < 512"
  proof -
    have i': "idx [a', b', c']" "length [a', b', c'] \<le> 3" "idx [a', b']" "length [a', b'] \<le> 2"
      using x' by simp_all
    note w3 = w [OF i'(1,2)]
    have w2: "walk s' pml4 [a', b'] = walk s pml4 [a', b']" using i' by (intro w) simp_all
    show ?thesis
    proof (cases "walk s pml4 [a', b', c']")
      case None
      have ne: "(a', b', c', d') \<noteq> (a, b, c, d)" using None pt by auto
      show ?thesis
      proof (cases "walk s pml4 [a', b']")
        case pd: (Some pd)
        have "table_get s' pd c' = table_get s pd c'" by (rule upper [OF i'(3,4) pd x'(3)])
        then show ?thesis unfolding if_not_P [OF ne] leaf_def w3 w2 None pd by simp
      qed (unfold if_not_P [OF ne] leaf_def w3 w2 None, simp)
    next
      case (Some pt')
      have eq: "pt = pt' \<longleftrightarrow> a' = a \<and> b' = b \<and> c' = c"
        using o(3) [OF i'(1) ix(1) i'(2) ix(2) Some] pt Some by auto
      have "table_get s' pt' d' = (if pt = pt' \<and> d = d' then v else table_get s pt' d')"
        by (rule set [OF o(2) [OF i'(1,2) Some] x'(4)])
      moreover have "(pt = pt' \<and> d = d') = ((a', b', c', d') = (a, b, c, d))" using eq by auto
      ultimately have "table_get s' pt' d' =
          (if (a', b', c', d') = (a, b, c, d) then v else table_get s pt' d')" by simp
      then show ?thesis unfolding leaf_def w3 Some option.case
        by (cases "(a', b', c', d') = (a, b, c, d)") (simp_all only: if_True if_False Let_def simp_thms)
    qed
  qed
qed

section \<open>Translation\<close>

lemma index_less [simp]:
  "PML4_INDEX v < 512" "PDPT_INDEX v < 512" "PD_INDEX v < 512" "PT_INDEX v < 512"
proof -
  have "x AND 0x1FF < 512" for x :: u64
    using unat_and_mask [of x 9] by (simp add: mask_eq_exp_minus_1 word_less_nat_alt)
  then show "PML4_INDEX v < 512" "PDPT_INDEX v < 512" "PD_INDEX v < 512" "PT_INDEX v < 512"
    by (simp_all add: PML4_INDEX_def PDPT_INDEX_def PD_INDEX_def PT_INDEX_def)
qed

definition page_addr :: "u64 \<Rightarrow> (bool \<times> u64) option \<Rightarrow> u64" where
  "page_addr v l = (case l of None \<Rightarrow> 0
     | Some (huge, e) \<Rightarrow> ENTRY_ADDR e + (if huge then v AND 0x1FFFFF else v AND 0xFFF))"

abbreviation leaf_of :: "'a vmm_state_scheme \<Rightarrow> u64 \<Rightarrow> u64 \<Rightarrow> (bool \<times> u64) option" where
  "leaf_of s pml4 v \<equiv> leaf s pml4 (PML4_INDEX v) (PDPT_INDEX v) (PD_INDEX v) (PT_INDEX v)"

lemma walk_next_level:
  assumes "pt_ok s pml4" "idx p" "length p \<le> 2" "walk s pml4 p = Some t" "i < 512"
    and h: "table_get s t i AND PAGE_PRESENT \<noteq> 0 \<Longrightarrow> table_get s t i AND PAGE_HUGE = 0"
  shows "walk s pml4 (p @ [i]) = (if fst (next_level t i False s) = 0 then None
    else Some (fst (next_level t i False s)))" "snd (next_level t i False s) = s"
proof -
  have "table_frame s u" if "walk s pml4 (p @ [i]) = Some u" for u
    using pt_okD(2) [OF assms(1) _ _ that] assms(2,3,5) by simp
  then have "ENTRY_ADDR (table_get s t i) \<noteq> 0" if "table_get s t i AND PAGE_PRESENT \<noteq> 0"
    using that h assms(4) by (simp add: walk_snoc table_frame_def)
  then show "walk s pml4 (p @ [i]) = (if fst (next_level t i False s) = 0 then None
    else Some (fst (next_level t i False s)))" "snd (next_level t i False s) = s"
    using h assms(4) by (auto simp: walk_snoc next_level_def)
qed

text \<open>The first two levels of a descent that creates nothing.\<close>

lemma walk_upper:
  assumes ok: "pt_ok s pml4" and i: "a < 512" "b < 512"
  shows "walk s pml4 [a] = (if fst (next_level pml4 a False s) = 0 then None
      else Some (fst (next_level pml4 a False s)))" "snd (next_level pml4 a False s) = s"
    "walk s pml4 [a] = Some pdpt \<Longrightarrow> walk s pml4 [a, b] =
      (if fst (next_level pdpt b False s) = 0 then None else Some (fst (next_level pdpt b False s)))"
    "walk s pml4 [a] = Some pdpt \<Longrightarrow> snd (next_level pdpt b False s) = s"
proof -
  have "table_get s pml4 a AND PAGE_HUGE = 0" using pt_okD(4) [OF ok, of "[]"] i by simp
  then show "walk s pml4 [a] = (if fst (next_level pml4 a False s) = 0 then None
      else Some (fst (next_level pml4 a False s)))" "snd (next_level pml4 a False s) = s"
    using walk_next_level [OF ok, of "[]" pml4 a] i by simp_all
  have "table_get s pdpt b AND PAGE_HUGE = 0" if "walk s pml4 [a] = Some pdpt"
    using pt_okD(4) [OF ok _ _ that] i by simp
  then show "walk s pml4 [a] = Some pdpt \<Longrightarrow> walk s pml4 [a, b] =
      (if fst (next_level pdpt b False s) = 0 then None else Some (fst (next_level pdpt b False s)))"
    "walk s pml4 [a] = Some pdpt \<Longrightarrow> snd (next_level pdpt b False s) = s"
    using walk_next_level [OF ok, of "[a]" pdpt b] i by simp_all
qed

lemma get_phys_leaf:
  assumes "pt_ok s pml4"
  shows "vmm_get_phys_in pml4 v s = page_addr v (leaf_of s pml4 v)"
proof -
  let ?a = "PML4_INDEX v" and ?b = "PDPT_INDEX v" and ?c = "PD_INDEX v"
  have w1: "walk s pml4 [?a] = (if fst (next_level pml4 ?a False s) = 0 then None
      else Some (fst (next_level pml4 ?a False s)))"
    by (rule walk_upper(1) [OF assms, of _ 0]) simp_all
  show ?thesis
  proof (cases "walk s pml4 [?a]")
    case None
    then show ?thesis
      using w1 walk_prefix_None [OF None, of "[?a, ?b]"] walk_prefix_None [OF None, of "[?a, ?b, ?c]"]
      by (simp add: vmm_get_phys_in_def leaf_def page_addr_def split: if_splits)
  next
    case (Some pdpt)
    have w2: "walk s pml4 [?a, ?b] = (if fst (next_level pdpt ?b False s) = 0 then None
        else Some (fst (next_level pdpt ?b False s)))"
      by (rule walk_upper(3) [OF assms _ _ Some]) simp_all
    have p1: "fst (next_level pml4 ?a False s) = pdpt" "pdpt \<noteq> 0" using w1 Some by (auto split: if_splits)
    show ?thesis
    proof (cases "walk s pml4 [?a, ?b]")
      case None
      then show ?thesis
        using p1 w2 walk_prefix_None [OF None, of "[?a, ?b, ?c]"]
        by (simp add: vmm_get_phys_in_def leaf_def page_addr_def split: if_splits)
    next
      case pd: (Some pd)
      have "walk s pml4 ([?a, ?b] @ [?c]) = (let e = table_get s pd ?c in
         if e AND PAGE_PRESENT = 0 \<or> e AND PAGE_HUGE \<noteq> 0 then None else Some (ENTRY_ADDR e))"
        using pd by (simp only: walk_snoc) simp
      then show ?thesis
        using p1 w2 pd by (auto simp: vmm_get_phys_in_def leaf_def page_addr_def Let_def split: if_splits)
    qed
  qed
qed

lemma index_eq_page:
  assumes "PML4_INDEX v = PML4_INDEX w" "PDPT_INDEX v = PDPT_INDEX w" "PD_INDEX v = PD_INDEX w"
    "PT_INDEX v = PT_INDEX w"
  shows "v AND 0xFFFFFFFFF000 = w AND 0xFFFFFFFFF000"
proof -
  have m: "(0x1FF :: u64) = mask 9" "(0xFFFFFFFFF000 :: u64) = push_bit 12 (mask 36)"
    by (simp_all add: mask_eq_exp_minus_1)
  have part: "bit v n = bit w n" if "drop_bit k v AND mask 9 = drop_bit k w AND mask 9" "k \<le> n" "n < k + 9" for k n
  proof -
    have "bit (drop_bit k v AND mask 9) (n - k) = bit (drop_bit k w AND mask 9) (n - k)" using that(1) by simp
    then show ?thesis using that(2,3) by (auto simp: bit_simps)
  qed
  have "bit v n = bit w n" if "12 \<le> n" "n < 48" for n
    using part [of 12 n] part [of 21 n] part [of 30 n] part [of 39 n] assms that
    unfolding PML4_INDEX_def PDPT_INDEX_def PD_INDEX_def PT_INDEX_def m
    by (cases "n < 21"; cases "n < 30"; cases "n < 39") simp_all
  then show ?thesis by (intro bit_word_eqI) (auto simp: m bit_simps)
qed

lemma map_entry_bits:
  fixes phys flags :: u64
  assumes "ENTRY_ADDR flags = 0"
  shows "ENTRY_ADDR ((phys AND NOT 0xFFF) OR flags OR PAGE_PRESENT) = ENTRY_ADDR phys"
    "((phys AND NOT 0xFFF) OR flags OR PAGE_PRESENT) AND PAGE_PRESENT \<noteq> 0"
proof -
  define m :: u64 where "m = 0x000FFFFFFFFFF000"
  have m: "m = push_bit 12 (mask 40)" by (simp add: m_def mask_eq_exp_minus_1)
  have f: "flags AND m = 0" using assms by (simp add: ENTRY_ADDR_def m_def)
  have "(phys AND NOT (mask 12)) AND m = phys AND m"
    by (rule bit_word_eqI) (auto simp: m bit_simps)
  then have p: "(phys AND NOT 0xFFF) AND m = phys AND m" by (simp add: mask_eq_exp_minus_1)
  have "PAGE_PRESENT AND m = 0" by (simp add: PAGE_PRESENT_def m_def)
  with f p show "ENTRY_ADDR ((phys AND NOT 0xFFF) OR flags OR PAGE_PRESENT) = ENTRY_ADDR phys"
    unfolding ENTRY_ADDR_def m_def [symmetric] by (simp only: bit.conj_disj_distrib2 or.right_neutral)
  show "((phys AND NOT 0xFFF) OR flags OR PAGE_PRESENT) AND PAGE_PRESENT \<noteq> 0"
  proof
    assume "((phys AND NOT 0xFFF) OR flags OR PAGE_PRESENT) AND PAGE_PRESENT = 0"
    then have "\<not> bit (((phys AND NOT 0xFFF) OR flags OR PAGE_PRESENT) AND PAGE_PRESENT) 0" by simp
    then show False unfolding PAGE_PRESENT_def by (simp only: bit_and_iff bit_or_iff bit_1_iff) simp
  qed
qed

section \<open>Mapping a page\<close>

text \<open>The descent shared by the mapping operations: its first two levels, and all three.\<close>

lemma descend_levels:
  fixes s :: "'a vmm_state_scheme"
  assumes ok: "pt_ok s pml4" and fr: "3 \<le> free_frames s"
    and n1: "next_level pml4 (PML4_INDEX virt) True s = (pdpt, s1)"
    and n2: "next_level pdpt (PDPT_INDEX virt) True s1 = (pd, s2)"
  shows "pt_ok s1 pml4" "walk s1 pml4 [PML4_INDEX virt] = Some pdpt" "0 < free_frames s1"
    "pt_ok s2 pml4" "walk s2 pml4 [PML4_INDEX virt, PDPT_INDEX virt] = Some pd" "0 < free_frames s2"
    "\<lbrakk>a < 512; b < 512; c < 512; e < 512\<rbrakk> \<Longrightarrow> leaf s2 pml4 a b c e = leaf s pml4 a b c e"
    "free_frames s \<le> free_frames s2 + 2" "used_set s \<subseteq> used_set s2"
proof -
  let ?a = "PML4_INDEX virt" and ?b = "PDPT_INDEX virt"
  have w0: "walk s pml4 [] = Some pml4" by simp
  have h1: "table_get s pml4 ?a AND PAGE_HUGE = 0" using pt_okD(4) [OF ok _ _ w0] by simp
  have f1: "0 < free_frames s" using fr by simp
  note l1 = next_level_create [OF ok _ _ w0 index_less(1) f1 h1 n1, simplified]
  have h2: "table_get s1 pdpt ?b AND PAGE_HUGE = 0" using pt_okD(4) [OF l1(1) _ _ l1(2)] by simp
  show f2: "0 < free_frames s1" using fr l1(4) by simp
  note l2 = next_level_create [OF l1(1) _ _ l1(2) index_less(2) f2 h2 n2, simplified]
  show "pt_ok s1 pml4" "walk s1 pml4 [?a] = Some pdpt" "pt_ok s2 pml4" "walk s2 pml4 [?a, ?b] = Some pd"
    using l1(1,2) l2(1,2) by simp_all
  show "0 < free_frames s2" "free_frames s \<le> free_frames s2 + 2" "used_set s \<subseteq> used_set s2"
    using fr l1(4,5) l2(4,5) by auto
  show "leaf s2 pml4 a b c e = leaf s pml4 a b c e" if "a < 512" "b < 512" "c < 512" "e < 512"
    using l1(3) l2(3) that by simp
qed

lemma descend:
  fixes s :: "'a vmm_state_scheme"
  assumes ok: "pt_ok s pml4" and fr: "3 \<le> free_frames s"
    and huge: "\<And>e. leaf_of s pml4 virt \<noteq> Some (True, e)"
    and n1: "next_level pml4 (PML4_INDEX virt) True s = (pdpt, s1)"
    and n2: "next_level pdpt (PDPT_INDEX virt) True s1 = (pd, s2)"
    and n3: "next_level pd (PD_INDEX virt) True s2 = (pt, s3)"
  shows "pt_ok s3 pml4" "walk s3 pml4 [PML4_INDEX virt, PDPT_INDEX virt, PD_INDEX virt] = Some pt"
    "\<lbrakk>a < 512; b < 512; c < 512; e < 512\<rbrakk> \<Longrightarrow> leaf s3 pml4 a b c e = leaf s pml4 a b c e"
    "free_frames s \<le> free_frames s3 + 3" "used_set s \<subseteq> used_set s3"
proof -
  let ?a = "PML4_INDEX virt" and ?b = "PDPT_INDEX virt" and ?c = "PD_INDEX virt"
  note l2 = descend_levels [OF ok fr n1 n2]
  have h3: "table_get s2 pd ?c AND PAGE_HUGE = 0" if present: "table_get s2 pd ?c AND PAGE_PRESENT \<noteq> 0"
  proof (rule ccontr)
    assume "table_get s2 pd ?c AND PAGE_HUGE \<noteq> 0"
    then have "walk s2 pml4 ([?a, ?b] @ [?c]) = None" using l2(5) by (simp only: walk_snoc) simp
    then have "leaf_of s2 pml4 virt = Some (True, table_get s2 pd ?c)"
      using present l2(5) by (simp add: leaf_def Let_def)
    then show False using huge l2(7) by simp
  qed
  note l3 = next_level_create [OF l2(4) _ _ l2(5) index_less(3) l2(6) h3 n3, simplified]
  show "pt_ok s3 pml4" "walk s3 pml4 [?a, ?b, ?c] = Some pt" by (rule l3(1), rule l3(2))
  show "leaf s3 pml4 a b c e = leaf s pml4 a b c e" if "a < 512" "b < 512" "c < 512" "e < 512"
    using l2(7) l3(3) that by simp
  show "free_frames s \<le> free_frames s3 + 3" using l2(8) l3(4) by simp
  show "used_set s \<subseteq> used_set s3" using l2(9) l3(5) by blast
qed

lemma map_page_result:
  fixes s :: "'a vmm_state_scheme"
  assumes "pt_ok s pml4" "3 \<le> free_frames s" "\<And>e. leaf_of s pml4 virt \<noteq> Some (True, e)"
    and "ENTRY_ADDR flags = 0" "vmm_map_page_in pml4 virt phys flags s = s'"
  shows "pt_ok s' pml4 \<and>
    leaf_of s' pml4 virt = Some (False, (phys AND NOT 0xFFF) OR flags OR PAGE_PRESENT) \<and>
    vmm_get_phys_in pml4 virt s' = ENTRY_ADDR phys + (virt AND 0xFFF) \<and>
    (\<forall>v. v AND 0xFFFFFFFFF000 \<noteq> virt AND 0xFFFFFFFFF000 \<longrightarrow>
       leaf_of s' pml4 v = leaf_of s pml4 v \<and> vmm_get_phys_in pml4 v s' = vmm_get_phys_in pml4 v s) \<and>
    used_set s \<subseteq> used_set s' \<and> free_frames s \<le> free_frames s' + 3"
proof -
  obtain pdpt s1 where n1: "next_level pml4 (PML4_INDEX virt) True s = (pdpt, s1)" by fastforce
  obtain pd s2 where n2: "next_level pdpt (PDPT_INDEX virt) True s1 = (pd, s2)" by fastforce
  obtain pt s3 where n3: "next_level pd (PD_INDEX virt) True s2 = (pt, s3)" by fastforce
  note d = descend [OF assms(1-3) n1 n2 n3]
  let ?v = "(phys AND NOT 0xFFF) OR flags OR PAGE_PRESENT"
  have s'_def: "s' = table_set pt (PT_INDEX virt) ?v s3"
    using assms(5) by (simp add: vmm_map_page_in_def n1 n2 n3)
  note w = leaf_write [OF d(1) index_less(1-4) [of virt] d(2), where v = ?v, folded s'_def]
  note bits = map_entry_bits [OF assms(4), of phys]
  have here: "leaf_of s' pml4 virt = Some (False, ?v)" using w(2) bits(2) by simp
  have there: "leaf_of s' pml4 v = leaf_of s pml4 v" if "v AND 0xFFFFFFFFF000 \<noteq> virt AND 0xFFFFFFFFF000" for v
    using w(2) d(3) index_eq_page [of v virt] that by auto
  have tot: "total_frames s' = total_frames s3" by (simp add: s'_def)
  show ?thesis
    using w(1) here there bits(1) get_phys_leaf [OF w(1)] get_phys_leaf [OF assms(1)] d(4,5) w(4) tot
    by (simp add: page_addr_def free_frames_def)
qed

text \<open>
  C5. Mapping a page. With three free frames, in a well-formed address space where no 2 MB page
  covers the address, \<open>vmm_map_page_in\<close> makes the page translate to the given frame with the given
  flags, leaves the translation of every other page as it was, keeps the address space
  well formed, releases no frame and takes at most three.
\<close>

theorem vmm_map_page_in_correct:
  fixes s :: "'a vmm_state_scheme"
  assumes "pt_ok s pml4" "3 \<le> free_frames s" "\<And>e. leaf_of s pml4 virt \<noteq> Some (True, e)"
    and "ENTRY_ADDR flags = 0" "vmm_map_page_in pml4 virt phys flags s = s'"
  shows "pt_ok s' pml4 \<and>
    leaf_of s' pml4 virt = Some (False, (phys AND NOT 0xFFF) OR flags OR PAGE_PRESENT) \<and>
    vmm_get_phys_in pml4 virt s' = ENTRY_ADDR phys + (virt AND 0xFFF) \<and>
    (\<forall>v. v AND 0xFFFFFFFFF000 \<noteq> virt AND 0xFFFFFFFFF000 \<longrightarrow>
       leaf_of s' pml4 v = leaf_of s pml4 v \<and> vmm_get_phys_in pml4 v s' = vmm_get_phys_in pml4 v s) \<and>
    used_set s \<subseteq> used_set s' \<and> free_frames s \<le> free_frames s' + 3"
  using assms by (rule map_page_result)

lemma unmap_walk:
  fixes s :: "'a vmm_state_scheme"
  assumes ok: "pt_ok s pml4" and huge: "\<And>e. leaf_of s pml4 virt \<noteq> Some (True, e)"
  shows "vmm_unmap_page_in pml4 virt s =
    (case walk s pml4 [PML4_INDEX virt, PDPT_INDEX virt, PD_INDEX virt] of
       None \<Rightarrow> s | Some pt \<Rightarrow> table_set pt (PT_INDEX virt) 0 s)"
proof -
  let ?a = "PML4_INDEX virt" and ?b = "PDPT_INDEX virt" and ?c = "PD_INDEX virt"
  note u = walk_upper [OF ok index_less(1,2) [of virt]]
  have pair: "next_level t i False s = (fst (next_level t i False s), s)" for t i
    by (simp add: next_level_def)
  show ?thesis
  proof (cases "walk s pml4 [?a]")
    case None
    then show ?thesis using u(1) pair [of pml4 ?a] walk_prefix_None [OF None, of "[?a, ?b, ?c]"]
      by (simp add: vmm_unmap_page_in_def split: if_splits prod.split)
  next
    case (Some pdpt)
    then have p1: "next_level pml4 ?a False s = (pdpt, s)" "pdpt \<noteq> 0"
      using u(1) pair [of pml4 ?a] by (auto split: if_splits)
    show ?thesis
    proof (cases "walk s pml4 [?a, ?b]")
      case None
      then have "next_level pdpt ?b False s = (0, s)"
        using u(3) [OF Some] pair [of pdpt ?b] by (auto split: if_splits)
      then show ?thesis using p1 walk_prefix_None [OF None, of "[?a, ?b, ?c]"]
        by (simp add: vmm_unmap_page_in_def)
    next
      case pd: (Some pd)
      then have p2: "next_level pdpt ?b False s = (pd, s)" "pd \<noteq> 0"
        using u(3) [OF Some] pair [of pdpt ?b] by (auto split: if_splits)
      have "table_get s pd ?c AND PAGE_HUGE = 0" if present: "table_get s pd ?c AND PAGE_PRESENT \<noteq> 0"
      proof (rule ccontr)
        assume "table_get s pd ?c AND PAGE_HUGE \<noteq> 0"
        then have "walk s pml4 ([?a, ?b] @ [?c]) = None" using pd by (simp only: walk_snoc) simp
        then show False
          using huge [of "table_get s pd ?c"] present pd by (simp add: leaf_def Let_def)
      qed
      then have "walk s pml4 ([?a, ?b] @ [?c]) = (if fst (next_level pd ?c False s) = 0 then None
          else Some (fst (next_level pd ?c False s)))"
        using walk_next_level(1) [OF ok _ _ pd, of ?c] by simp
      then show ?thesis using p1 p2 pair [of pd ?c]
        by (cases "next_level pd ?c False s") (simp add: vmm_unmap_page_in_def)
    qed
  qed
qed

text \<open>
  Unmapping a page. In a well-formed address space where no 2 MB page covers the address,
  \<open>vmm_unmap_page_in\<close> makes it translate to nothing (0) and leaves every other page and the
  allocator as they were.
\<close>

theorem vmm_unmap_page_in_correct:
  fixes s :: "'a vmm_state_scheme"
  assumes "pt_ok s pml4" "\<And>e. leaf_of s pml4 virt \<noteq> Some (True, e)"
    and "vmm_unmap_page_in pml4 virt s = s'"
  shows "pt_ok s' pml4 \<and> vmm_get_phys_in pml4 virt s' = 0 \<and>
    (\<forall>v. v AND 0xFFFFFFFFF000 \<noteq> virt AND 0xFFFFFFFFF000 \<longrightarrow>
       vmm_get_phys_in pml4 v s' = vmm_get_phys_in pml4 v s) \<and> used_set s' = used_set s"
proof -
  let ?a = "PML4_INDEX virt" and ?b = "PDPT_INDEX virt" and ?c = "PD_INDEX virt"
  note u = unmap_walk [OF assms(1,2), unfolded assms(3)]
  show ?thesis
  proof (cases "walk s pml4 [?a, ?b, ?c]")
    case (Some pt)
    note w = leaf_write [OF assms(1) index_less(1-4) [of virt] Some, where v = 0]
    have s'_def: "s' = table_set pt (PT_INDEX virt) 0 s" using u Some by simp
    note w = w [folded s'_def]
    have "leaf_of s' pml4 virt = None" using w(2) by simp
    moreover have "leaf_of s' pml4 v = leaf_of s pml4 v" if "v AND 0xFFFFFFFFF000 \<noteq> virt AND 0xFFFFFFFFF000" for v
      using w(2) index_eq_page [of v virt] that by auto
    ultimately show ?thesis
      using w(1,4) get_phys_leaf [OF w(1)] get_phys_leaf [OF assms(1)] by (simp add: page_addr_def)
  next
    case None
    have "leaf_of s pml4 virt = None \<or> (\<exists>e. leaf_of s pml4 virt = Some (True, e))"
      using None by (simp add: leaf_def Let_def split: option.split)
    then have "leaf_of s pml4 virt = None" using assms(2) by blast
    then show ?thesis using u None assms(1) get_phys_leaf [OF assms(1)] by (simp add: page_addr_def)
  qed
qed

section \<open>Creating an address space\<close>

text \<open>Copying the entries of one table to another.\<close>

lemma copy_entries:
  fixes s :: "'a vmm_state_scheme"
  assumes "mem_ok s" "table_frame s t" "table_frame s (kernel_pml4 s)" "kernel_pml4 s \<noteq> t"
    and "s' = fold (\<lambda>i s. table_set t (of_nat i) (table_get s (kernel_pml4 s) (of_nat i)) s) [256..<512] s"
  shows "mem_ok s'" "table_frame s' = table_frame s" "used_set s' = used_set s" "touches {t} s s'"
    "\<lbrakk>table_frame s u; j < 512\<rbrakk> \<Longrightarrow> table_get s' u j =
       (if u = t \<and> 256 \<le> j then table_get s (kernel_pml4 s) j else table_get s u j)"
proof -
  have step: "(table_frame (table_set t j v s) (kernel_pml4 (table_set t j v s)) \<and>
        kernel_pml4 (table_set t j v s) \<noteq> t) \<and>
      table_get (table_set t j v s) (kernel_pml4 (table_set t j v s)) (of_nat i) =
        table_get s (kernel_pml4 s) (of_nat i)"
    if "table_frame s (kernel_pml4 s) \<and> kernel_pml4 s \<noteq> t" "mem_ok s" "table_frame s t" "j < 512" "i < 512"
    for s :: "'a vmm_state_scheme" and j v i
    using that table_get_set [OF that(2,3) _ that(4), of "kernel_pml4 s" "of_nat i"]
    by (auto simp: word_less_nat_alt unat_of_nat)
  have Q: "table_frame s (kernel_pml4 s) \<and> kernel_pml4 s \<noteq> t" using assms(3,4) by simp
  note * = fold_table_set [where Q = "\<lambda>s. table_frame s (kernel_pml4 s) \<and> kernel_pml4 s \<noteq> t" and
      g = "\<lambda>i s. table_get s (kernel_pml4 s) (of_nat i)" and js = "[256..<512]",
      OF step Q assms(1,2) _ assms(5)]
  show "mem_ok s'" "table_frame s' = table_frame s" "used_set s' = used_set s" "touches {t} s s'"
    using * by simp_all
  show "table_get s' u j = (if u = t \<and> 256 \<le> j then table_get s (kernel_pml4 s) j else table_get s u j)"
    if "table_frame s u" "j < 512"
    using * that by (auto simp: word_less_nat_alt word_le_nat_alt)
qed

lemma create_tables:
  fixes s :: "'a vmm_state_scheme"
  assumes "mem_ok s" "table_frame s (kernel_pml4 s)" "0 < free_frames s"
    and r: "vmm_create_address_space s = (new, s')"
  shows "mem_ok s'" "table_frame s' new" "\<not> table_frame s new" "table_frame s u \<Longrightarrow> table_frame s' u"
    "used_set s' = insert (unat new div 4096) (used_set s)" "unat new div 4096 \<notin> used_set s"
    "touches {new} s s'" "table_frame s u \<Longrightarrow> j < 512 \<Longrightarrow> table_get s' u j = table_get s u j"
    "j < 512 \<Longrightarrow> table_get s' new j = (if 256 \<le> j then table_get s (kernel_pml4 s) j else 0)"
proof -
  obtain f s0 where al: "pmm_alloc_frame s = (f, s0)" by (cases "pmm_alloc_frame s")
  have f0: "f \<noteq> 0" using free_frames_alloc [OF _ assms(3)] al assms(1) by (simp add: mem_ok_def)
  note a = alloc_table_frame [OF assms(1) al f0]
  note z = zero_table_correct [OF a(1,2)]
  have k: "kernel_pml4 (zero_table f s0) = kernel_pml4 s"
    using touches_vmm(1) [OF a(4)] touches_vmm(1) [OF z(4)] by simp
  have kf: "table_frame s0 (kernel_pml4 s)" "kernel_pml4 s \<noteq> f" using a(3) [OF assms(2)] by simp_all
  have new: "new = f" and s': "s' = fold (\<lambda>i s. table_set f (of_nat i)
      (table_get s (kernel_pml4 s) (of_nat i)) s) [256..<512] (zero_table f s0)"
    using r al by (auto simp: vmm_create_address_space_def Let_def)
  have pre: "table_frame (zero_table f s0) f" "table_frame (zero_table f s0) (kernel_pml4 (zero_table f s0))"
    "kernel_pml4 (zero_table f s0) \<noteq> f" using z(2) a(2) kf k by simp_all
  note c = copy_entries [OF z(1) pre s']
  show "mem_ok s'" "table_frame s' new" using c(1,2) z(2) a(2) new by simp_all
  show "\<not> table_frame s new" "table_frame s u \<Longrightarrow> table_frame s' u" using a(3) c(2) z(2) new by auto
  show "used_set s' = insert (unat new div 4096) (used_set s)" "unat new div 4096 \<notin> used_set s"
    using c(3) z(3) a(5,6) new by simp_all
  have "touches ({} \<union> {f} \<union> {f}) s s'" by (rule touches_trans [OF touches_trans [OF a(4) z(4)] c(4)])
  then show "touches {new} s s'" using new by (auto elim: touches_mono)
  have old: "table_get s0 u j = table_get s u j" if "table_frame s u" "j < 512" for u j
    by (rule table_get_untouched [OF assms(1) that a(4)]) simp
  have get: "table_get s' u j = (if u = f then if 256 \<le> j then table_get s0 (kernel_pml4 s) j else 0
      else table_get s0 u j)" if "table_frame s0 u" "j < 512" for u j
    using c(5) [of u j] z(2) z(5) [OF that] z(5) [OF kf(1) that(2)] kf(2) that k by auto
  show "table_get s' u j = table_get s u j" if "table_frame s u" "j < 512"
    using get [of u j] a(3) [OF that(1)] old [OF that] that(2) by simp
  show "table_get s' new j = (if 256 \<le> j then table_get s (kernel_pml4 s) j else 0)" if "j < 512"
    using get [OF a(2) that] old [OF assms(2) that] new by simp
qed

lemma walk_untouched:
  fixes s :: "'a vmm_state_scheme"
  assumes "\<And>u j. \<lbrakk>table_frame s u; j < 512\<rbrakk> \<Longrightarrow> table_get s' u j = table_get s u j"
    and "pt_ok s pml4" "idx p" "length p \<le> 3"
  shows "walk s' pml4 p = walk s pml4 p"
  using assms(3,4)
proof (induction p rule: rev_induct)
  case (snoc j p)
  show ?case
  proof (cases "walk s pml4 p")
    case (Some u)
    then have "table_frame s u" using pt_okD(2) [OF assms(2) _ _ Some] snoc.prems by simp
    then show ?thesis using Some snoc assms(1) by (simp add: walk_snoc)
  next
    case None
    then show ?thesis using snoc by (simp add: walk_snoc)
  qed
qed simp

text \<open>In the new address space the kernel half leads where it leads in the kernel's.\<close>

lemma create_walk:
  fixes s :: "'a vmm_state_scheme"
  assumes ok: "pt_ok s (kernel_pml4 s)" and fr: "0 < free_frames s"
    and r: "vmm_create_address_space s = (new, s')"
    and p: "idx p" "length p \<le> 3"
  shows "walk s' new p = (case p of [] \<Rightarrow> Some new
    | a # _ \<Rightarrow> if a < 256 then None else walk s (kernel_pml4 s) p)"
proof (cases p)
  case (Cons a q)
  have kf: "table_frame s (kernel_pml4 s)" using pt_okD(2) [OF ok, of "[]"] by simp
  note c = create_tables [OF pt_okD(1) [OF ok] kf fr r]
  have a: "a < 512" using p Cons by simp
  show ?thesis
  proof (cases "a < 256")
    case True
    then have "table_get s' new a = 0" using c(9) [OF a] by (simp add: word_le_nat_alt word_less_nat_alt)
    then show ?thesis using True Cons by (simp add: walk.simps)
  next
    case False
    then have "table_get s' new a = table_get s (kernel_pml4 s) a" using c(9) [OF a] by (simp add: not_less)
    also have "\<dots> = table_get s' (kernel_pml4 s) a" using c(8) [OF kf a] by simp
    finally have "walk s' new p = walk s' (kernel_pml4 s) p" by (simp add: Cons walk.simps)
    also have "\<dots> = walk s (kernel_pml4 s) p" by (rule walk_untouched [OF c(8) ok p])
    finally show ?thesis using False Cons by simp
  qed
qed simp

lemma create_pt_ok:
  fixes s :: "'a vmm_state_scheme"
  assumes ok: "pt_ok s (kernel_pml4 s)" and fr: "0 < free_frames s"
    and r: "vmm_create_address_space s = (new, s')"
  shows "pt_ok s' new"
proof -
  note d = pt_okD [OF ok] and w = create_walk [OF ok fr r]
  have kf: "table_frame s (kernel_pml4 s)" using d(2) [of "[]"] by simp
  note c = create_tables [OF d(1) kf fr r]
  have cases: "p = [] \<and> t = new \<or> p \<noteq> [] \<and> t \<noteq> new \<and> walk s (kernel_pml4 s) p = Some t \<and> table_frame s t"
    if "idx p" "length p \<le> 3" "walk s' new p = Some t" for p t
    using w [OF that(1,2)] that(3) d(2) [OF that(1,2), of t] c(3)
    by (cases p) (auto split: if_splits)
  show ?thesis
    unfolding pt_ok_def
  proof (intro conjI allI impI)
    show "mem_ok s'" by (rule c(1))
    show "table_frame s' t" if "idx p" "length p \<le> 3" "walk s' new p = Some t" for p t
      using cases [OF that] c(2,4) by auto
    show "p = q" if "idx p" "idx q" "length p \<le> 3" "length q \<le> 3"
      "walk s' new p = Some t" "walk s' new q = Some t" for p q t
      using cases [OF that(1,3,5)] cases [OF that(2,4,6)] d(3) [OF that(1-4), of t] by auto
    show "table_get s' t i AND PAGE_HUGE = 0"
      if "idx p" "length p \<le> 1" "walk s' new p = Some t" "i < 512" for p t i
      using cases [OF that(1) _ that(3)] that(2,4) c(8) [of t i] c(9) [OF that(4)]
        d(4) [OF that(1,2) _ that(4), of t] d(4) [of "[]" "kernel_pml4 s" i] by auto
  qed
qed

lemma create_result:
  fixes s :: "'a vmm_state_scheme"
  assumes "pt_ok s (kernel_pml4 s)" "0 < free_frames s" "vmm_create_address_space s = (new, s')"
  shows "pt_ok s' new \<and> unat new div 4096 \<notin> used_set s \<and>
    used_set s' = insert (unat new div 4096) (used_set s) \<and>
    (\<forall>v. PML4_INDEX v < 256 \<longrightarrow> vmm_get_phys_in new v s' = 0) \<and>
    (\<forall>v. \<not> PML4_INDEX v < 256 \<longrightarrow>
       vmm_get_phys_in new v s' = vmm_get_phys_in (kernel_pml4 s) v s)"
proof -
  note w = create_walk [OF assms] and d = pt_okD [OF assms(1)]
  have kf: "table_frame s (kernel_pml4 s)" using d(2) [of "[]"] by simp
  note c = create_tables [OF d(1) kf assms(2,3)]
  have user: "leaf_of s' new v = None" if "PML4_INDEX v < 256" for v
    using w [of "[PML4_INDEX v, PDPT_INDEX v, PD_INDEX v]"] w [of "[PML4_INDEX v, PDPT_INDEX v]"] that
    by (simp add: leaf_def)
  have kern: "leaf_of s' new v = leaf_of s (kernel_pml4 s) v" if "\<not> PML4_INDEX v < 256" for v
  proof -
    let ?p = "[PML4_INDEX v, PDPT_INDEX v]" and ?q = "[PML4_INDEX v, PDPT_INDEX v, PD_INDEX v]"
    have same: "table_get s' t j = table_get s t j" if "walk s (kernel_pml4 s) q = Some t" "q = ?p \<or> q = ?q" "j < 512"
      for q t j
      using c(8) [OF d(2) [OF _ _ that(1)] that(3)] that(2) by auto
    show ?thesis using w [of ?q] w [of ?p] that
      by (auto simp: leaf_def same [of ?p] same [of ?q] split: option.split)
  qed
  have ok: "pt_ok s' new" by (rule create_pt_ok [OF assms])
  show ?thesis
    using ok c(5,6) user kern get_phys_leaf [OF ok] get_phys_leaf [OF assms(1)] by (simp add: page_addr_def)
qed

text \<open>
  A new address space. \<open>vmm_create_address_space\<close> takes one free frame for the top-level
  table; the new space is well formed, maps nothing in the user half, and translates every address
  of the kernel half as the kernel's own tables do. The kernel's space is unchanged.
\<close>

theorem vmm_create_address_space_correct:
  fixes s :: "'a vmm_state_scheme"
  assumes "pt_ok s (kernel_pml4 s)" "0 < free_frames s" "vmm_create_address_space s = (new, s')"
  shows "pt_ok s' new \<and> unat new div 4096 \<notin> used_set s \<and>
    used_set s' = insert (unat new div 4096) (used_set s) \<and>
    (\<forall>v. PML4_INDEX v < 256 \<longrightarrow> vmm_get_phys_in new v s' = 0) \<and>
    (\<forall>v. \<not> PML4_INDEX v < 256 \<longrightarrow>
       vmm_get_phys_in new v s' = vmm_get_phys_in (kernel_pml4 s) v s)"
  using assms by (rule create_result)

section \<open>A small machine\<close>

text \<open>
  Sixteen frames, of which 0 to 3 and 6 are in use; the bitmap is in frame 1 and an empty
  top-level table in frame 2.
\<close>

definition vmm_example :: vmm_state where
  "vmm_example = \<lparr>ram = (\<lambda>_. 0)(0x1000 := 0x4F), bitmap = 0x1000, bitmap_phys = 0x1000,
     total_frames = 16, used_frames = 5, bitmap_size = 2, module_start = 0, module_end = 0,
     kernel_pml4 = 0x2000, vmm_active = True, hhdm_end = 0x200000, cr3 = 0x2000\<rparr>"

lemma vmm_example_used: "used_set vmm_example = {0, 1, 2, 3, 6}"
  by (rule used_set_sixteen) (simp_all add: vmm_example_def)

lemma bitmap_bytes_example: "a - 0x1000 < 2 \<longleftrightarrow> a = 0x1000 \<or> a = (0x1001 :: u64)"
proof
  assume "a - 0x1000 < 2"
  then have "unat (a - 0x1000) = 0 \<or> unat (a - 0x1000) = 1" unfolding word_less_nat_alt by simp linarith
  then have "a - 0x1000 = 0 \<or> a - 0x1000 = 1" by (simp add: word_unat_eq_iff)
  then show "a = 0x1000 \<or> a = 0x1001" by (auto simp: diff_eq_eq)
qed auto

lemma vmm_example_mem_ok: "mem_ok vmm_example"
proof -
  have "kaddr 0x1000 = 0x1000" by (simp add: kaddr_def HHDM_OFFSET_def)
  then show ?thesis
    unfolding mem_ok_def pmm_inv_def vmm_example_used
    by (auto simp: bm_ok_def vmm_example_def bitmap_bytes_example)
qed

lemma vmm_example_pml4: "table_frame vmm_example 0x2000"
proof -
  have k: "kaddr 0x1000 = 0x1000" by (simp add: kaddr_def HHDM_OFFSET_def)
  have "\<not> 0x2000 + k - 0x1000 < (2 :: u64)" if "k < 4096" for k :: u64
  proof -
    have "unat (0x1000 + k) = 0x1000 + unat k"
      using that by (subst unat_add_nowrap) (simp_all add: word_less_nat_alt)
    then show ?thesis by (simp add: word_less_nat_alt algebra_simps)
  qed
  then show ?thesis unfolding table_frame_def vmm_example_used by (simp add: vmm_example_def k)
qed

lemma pt_ok_empty:
  assumes "mem_ok s" "table_frame s pml4" "\<And>i. i < 512 \<Longrightarrow> table_get s pml4 i = 0"
  shows "pt_ok s pml4"
proof -
  have "walk s pml4 p = (if p = [] then Some pml4 else None)" if "idx p" for p
    using that assms(3) by (cases p) (simp_all add: walk.simps)
  then show ?thesis using assms unfolding pt_ok_def by auto
qed

lemma vmm_example_entries:
  assumes i: "i < 512"
  shows "table_get vmm_example 0x2000 i = 0"
proof -
  have "unat (0x2000 :: u64) + 4096 \<le> 2 ^ 47" by simp
  note a = slot_addr [OF this i]
  have "ram vmm_example (0x2000 + 8 * i + k) = 0" if "k < 8" for k
  proof -
    have "unat (0x2000 + 8 * i + k) = 0x2000 + 8 * unat i + unat k"
      using a(2) i that by (subst unat_add_nowrap) (simp_all add: word_less_nat_alt)
    then have "0x2000 + 8 * i + k \<noteq> 0x1000" by (auto simp: word_unat_eq_iff)
    then show ?thesis by (simp add: vmm_example_def)
  qed
  then have "load64 (ram vmm_example) (0x2000 + 8 * i) = load64 (\<lambda>_. 0) (0x2000 + 8 * i)"
    by (rule load64_cong)
  then show ?thesis by (simp add: table_get_def a(1)) (simp add: load64_def)
qed

lemma vmm_example_pt_ok: "pt_ok vmm_example 0x2000"
  by (rule pt_ok_empty [OF vmm_example_mem_ok vmm_example_pml4 vmm_example_entries])

lemma vmm_example_free: "3 \<le> free_frames vmm_example"
proof -
  have "{4, 5, 7} \<subseteq> {1..<unat (total_frames vmm_example)} - used_set vmm_example"
    unfolding vmm_example_used by (simp add: vmm_example_def)
  from card_mono [OF _ this] show ?thesis by (simp add: free_frames_def)
qed

lemma vmm_example_leaf: "leaf_of vmm_example 0x2000 v = None"
  by (simp add: leaf_def walk.simps vmm_example_entries)

theorem vmm_map_page_in_correct_witness:
  "\<exists>s'. vmm_map_page_in 0x2000 0x400000 0x5000 (PAGE_WRITABLE OR PAGE_USER) vmm_example = s' \<and>
     pt_ok s' 0x2000 \<and> vmm_get_phys_in 0x2000 0x400000 s' = 0x5000"
proof -
  have "ENTRY_ADDR (PAGE_WRITABLE OR PAGE_USER) = 0" "ENTRY_ADDR 0x5000 = 0x5000"
    by (simp_all add: ENTRY_ADDR_def PAGE_WRITABLE_def PAGE_USER_def)
  moreover have "leaf_of vmm_example 0x2000 0x400000 \<noteq> Some (True, e)" for e
    unfolding vmm_example_leaf by simp
  ultimately show ?thesis
    using vmm_map_page_in_correct [OF vmm_example_pt_ok vmm_example_free _ _ refl, of "0x400000"
        "PAGE_WRITABLE OR PAGE_USER" "0x5000"] by simp
qed

theorem vmm_unmap_page_in_correct_witness:
  "\<exists>(s :: vmm_state) s'. vmm_get_phys_in 0x2000 0x400000 s = 0x5000 \<and>
     vmm_unmap_page_in 0x2000 0x400000 s = s' \<and> vmm_get_phys_in 0x2000 0x400000 s' = 0"
proof -
  have e: "ENTRY_ADDR PAGE_WRITABLE = 0" "ENTRY_ADDR 0x5000 = 0x5000"
    by (simp_all add: ENTRY_ADDR_def PAGE_WRITABLE_def)
  define s where "s = vmm_map_page_in 0x2000 0x400000 0x5000 PAGE_WRITABLE vmm_example"
  have "leaf_of vmm_example 0x2000 0x400000 \<noteq> Some (True, e)" for e
    unfolding vmm_example_leaf by simp
  note s = map_page_result [OF vmm_example_pt_ok vmm_example_free this e(1) s_def [symmetric]]
  have "leaf_of s 0x2000 0x400000 \<noteq> Some (True, e)" for e using s by simp
  moreover have "pt_ok s 0x2000" using s by simp
  ultimately have "vmm_get_phys_in 0x2000 0x400000 (vmm_unmap_page_in 0x2000 0x400000 s) = 0"
    using vmm_unmap_page_in_correct [OF _ _ refl, of s "0x2000" "0x400000"] by simp
  moreover have "vmm_get_phys_in 0x2000 0x400000 s = 0x5000" using s e(2) by simp
  ultimately show ?thesis by blast
qed

theorem vmm_create_address_space_correct_witness:
  "\<exists>new s'. vmm_create_address_space vmm_example = (new, s') \<and> pt_ok s' new \<and>
     vmm_get_phys_in new 0x400000 s' = 0"
proof -
  obtain new s' where r: "vmm_create_address_space vmm_example = (new, s')" by fastforce
  have "kernel_pml4 vmm_example = 0x2000" by (simp add: vmm_example_def)
  moreover have "PML4_INDEX 0x400000 < 256" by (simp add: PML4_INDEX_def)
  ultimately show ?thesis
    using vmm_create_address_space_correct [OF _ _ r] vmm_example_pt_ok vmm_example_free r by auto
qed

section \<open>The rest of the state\<close>

text \<open>The page-table operations change physical memory and the frame counter, nothing else.\<close>

lemma fold_more: "(\<And>x s. pmm_state.more (f x s) = pmm_state.more s) \<Longrightarrow> pmm_state.more (fold f xs s) = pmm_state.more s"
  by (induction xs arbitrary: s) auto

lemma pmm_more [simp]:
  "pmm_state.more (mark_used f s) = pmm_state.more s" "pmm_state.more (mark_free f s) = pmm_state.more s"
  "pmm_state.more (pmm_free_frame a s) = pmm_state.more s"
  "pmm_state.more (snd (pmm_alloc_frame s)) = pmm_state.more s"
  by (auto simp: mark_used_def mark_free_def pmm_free_frame_def pmm_alloc_frame_def bitmap_set_def bitmap_clear_def
      Let_def split: option.split)

lemma table_set_more [simp]:
  "pmm_state.more (table_set t i v s) = pmm_state.more (s :: 'a vmm_state_scheme)"
  by (simp add: table_set_def)

lemma zero_table_more [simp]: "pmm_state.more (zero_table t s) = pmm_state.more (s :: 'a vmm_state_scheme)"
  unfolding zero_table_def by (rule fold_more) simp

lemma alloc_more: "pmm_alloc_frame s = (f, t) \<Longrightarrow> pmm_state.more t = pmm_state.more s"
  using pmm_more(4) [of s] by simp

lemma next_level_more [simp]:
  "pmm_state.more (snd (next_level t i c s)) = pmm_state.more (s :: 'a vmm_state_scheme)"
  by (auto simp: next_level_def Let_def alloc_more split: prod.split)

lemma map_page_more [simp]:
  "pmm_state.more (vmm_map_page_in pml4 v p f s) = pmm_state.more (s :: 'a vmm_state_scheme)"
  by (simp add: vmm_map_page_in_def Let_def case_prod_beta)

text \<open>Page tables do not depend on the components that extend the state.\<close>

lemma vmm_truncate [simp]:
  "table_get (vmm_state.truncate s) = table_get s" "used_set (vmm_state.truncate s) = used_set s"
  "total_frames (vmm_state.truncate s) = total_frames s" "kernel_pml4 (vmm_state.truncate s) = kernel_pml4 s"
  "mem_ok (vmm_state.truncate s) = mem_ok s" "table_frame (vmm_state.truncate s) = table_frame s"
proof -
  show 1: "table_get (vmm_state.truncate s) = table_get s" "total_frames (vmm_state.truncate s) = total_frames s"
    "kernel_pml4 (vmm_state.truncate s) = kernel_pml4 s"
    by (simp_all add: vmm_state.truncate_def table_get_def table_def fun_eq_iff)
  have b: "bitmap_test (vmm_state.truncate s) = bitmap_test s"
    by (simp add: vmm_state.truncate_def bitmap_test_def bm_byte_def fun_eq_iff)
  show u: "used_set (vmm_state.truncate s) = used_set s" by (simp add: used_set_def b 1)
  have f: "bitmap (vmm_state.truncate s) = bitmap s" "bitmap_size (vmm_state.truncate s) = bitmap_size s"
    "used_frames (vmm_state.truncate s) = used_frames s" by (simp_all add: vmm_state.truncate_def)
  show "mem_ok (vmm_state.truncate s) = mem_ok s" by (simp add: mem_ok_def pmm_inv_def bm_ok_def u f 1)
  show "table_frame (vmm_state.truncate s) = table_frame s" by (simp add: table_frame_def u f fun_eq_iff)
qed

lemma walk_truncate [simp]: "walk (vmm_state.truncate s) t p = walk s t p"
  by (induction p arbitrary: t) (simp_all add: walk.simps Let_def)

lemma pt_ok_truncate [simp]: "pt_ok (vmm_state.truncate s) p = pt_ok s p"
  by (simp add: pt_ok_def)

lemma leaf_truncate [simp]: "leaf (vmm_state.truncate s) p a b c d = leaf s p a b c d"
  by (auto simp: leaf_def split: option.split)

lemma vmm_cong:
  assumes "vmm_state.truncate s' = vmm_state.truncate s"
  shows "pt_ok s' p = pt_ok s p" "free_frames s' = free_frames s" "kernel_pml4 s' = kernel_pml4 s"
    "used_set s' = used_set s"
  using pt_ok_truncate [of s p] pt_ok_truncate [of s' p] vmm_truncate [of s] vmm_truncate [of s'] assms
  by (simp_all add: free_frames_def)

end
