(* ===== verification/VmmDestroy.thy ===== *)
theory VmmDestroy
  imports VmmMap
begin

text \<open>
  Tearing an address space down, \<open>vmm_destroy_address_space\<close> of \<^verbatim>\<open>kernel/mm/vmm.c\<close>: the
  frames it frees are the tables and pages of the user half and the top-level table.
\<close>

section \<open>Frames of a subtree\<close>

text \<open>
  Count and state after \<open>c\<close> calls of \<open>pmm_free_frame\<close> have freed the frames \<open>F\<close> of \<open>s0\<close>. The
  top-level table may have been written, but not at the indices from \<open>n\<close> on.
\<close>

definition freed_from ::
  "'a vmm_state_scheme \<Rightarrow> u64 \<Rightarrow> nat \<Rightarrow> nat set \<Rightarrow> nat \<Rightarrow> u64 \<times> 'a vmm_state_scheme \<Rightarrow> bool" where
  "freed_from s0 pml4 n F c = (\<lambda>(freed, s). freed = of_nat c \<and>
     touches {pml4} s0 s \<and> pmm_inv s \<and> used_set s = used_set s0 - F \<and>
     (\<forall>i < 512. n \<le> unat i \<longrightarrow> table_get s pml4 i = table_get s0 pml4 i))"

abbreviation frame_no :: "u64 \<Rightarrow> nat" where
  "frame_no a \<equiv> unat a div 4096"

abbreviation in_ram :: "'a vmm_state_scheme \<Rightarrow> u64 \<Rightarrow> bool" where
  "in_ram s a \<equiv> unat a < unat (total_frames s) * 4096"

lemma table_loc_touches: "touches T s0 s \<Longrightarrow> table_loc s t = table_loc s0 t"
  by (simp add: touches_def table_loc_def)

lemma free_counted_freed:
  assumes "table_loc s0 pml4" "freed_from s0 pml4 n F c x" "in_ram s0 a"
  shows "freed_from s0 pml4 n (insert (frame_no a) F) (Suc c) (free_counted a x)"
proof -
  obtain r s where x: "x = (r, s)" by (cases x)
  have s: "touches {pml4} s0 s" "pmm_inv s" "used_set s = used_set s0 - F"
    "\<forall>i < 512. n \<le> unat i \<longrightarrow> table_get s pml4 i = table_get s0 pml4 i" "r = of_nat c"
    using assms(2) by (simp_all add: x freed_from_def)
  have tf: "total_frames s = total_frames s0" using s(1) by (simp add: touches_def)
  then have lt: "unat a < unat (total_frames s) * 4096" using assms(3) by simp
  then have "a div FRAME_SIZE < total_frames s"
    by (simp add: word_less_nat_alt unat_div FRAME_SIZE_def less_mult_imp_div_less)
  then have l: "same_layout s (pmm_free_frame a s)"
    using s(2) by (simp add: pmm_free_frame_def same_layout_mark pmm_inv_def)
  then have "touches ({pml4} \<union> {}) s0 (pmm_free_frame a s)"
    using touches_trans [OF s(1) same_layout_touches] by blast
  moreover have "table_get (pmm_free_frame a s) pml4 i = table_get s pml4 i" if "i < 512" for i
    using table_get_untouched_loc [OF _ that same_layout_touches [OF l, of "{}"]] assms(1)
      table_loc_touches [OF s(1)] by simp
  ultimately show ?thesis
    using pmm.free_inv [OF s(2) lt] pmm.free_used [OF s(2) lt] s(3-5)
    by (auto simp: x free_counted_def freed_from_def)
qed

lemma freed_table_get:
  assumes "table_loc s0 pml4" "freed_from s0 pml4 n F c (r, s)" "table_loc s0 t" "t \<noteq> pml4" "i < 512"
  shows "table_get s t i = table_get s0 t i"
proof (rule table_get_untouched_loc [OF assms(3,5)])
  show "touches {pml4} s0 s" using assms(2) by (simp add: freed_from_def)
  show "u + k \<noteq> t + l" if "u \<in> {pml4}" "k < 4096" "l < 4096" for u k l
    using that assms(1,3,4) frames_disjoint [of pml4 t k l] by (auto simp: table_loc_def)
qed

lemma clear_entry_freed:
  assumes "table_loc s0 pml4" "freed_from s0 pml4 n F c (r, s)" "n < 512"
  shows "freed_from s0 pml4 (Suc n) F c (r, table_set pml4 (of_nat n) 0 s)"
proof -
  have s: "touches {pml4} s0 s" "pmm_inv s" using assms(2) by (simp_all add: freed_from_def)
  have loc: "table_loc s pml4" using assms(1) table_loc_touches [OF s(1)] by simp
  have n: "(of_nat n :: u64) < 512" "unat (of_nat n :: u64) = n"
    using assms(3) by (simp_all add: word_less_nat_alt unat_of_nat)
  have u: "used_set (table_set pml4 (of_nat n) 0 s) = used_set s"
    using s(2) by (intro table_set_used_loc [OF _ loc n(1)]) (simp add: pmm_inv_def)
  have "ram (table_set pml4 (of_nat n) 0 s) a = ram s a" if "\<forall>k < 4096. a \<noteq> pml4 + k" for a
    using loc that by (intro table_set_outside n(1)) (simp_all add: table_loc_def)
  then have "touches {pml4} s (table_set pml4 (of_nat n) 0 s)"
    by (auto simp: touches_def) (simp_all add: table_set_def)
  then have t: "touches {pml4} s0 (table_set pml4 (of_nat n) 0 s)" using touches_trans [OF s(1)] by fastforce
  have "table_get (table_set pml4 (of_nat n) 0 s) pml4 i = table_get s pml4 i" if "i < 512" "Suc n \<le> unat i" for i
    using table_get_set_loc [OF loc loc n(1) that(1)] that(2) n(2) by auto
  then show ?thesis using assms(2) u t by (auto simp: freed_from_def pmm_inv_def bm_ok_def)
qed

text \<open>What each level of the loop frees.\<close>

definition pt_frames :: "'a vmm_state_scheme \<Rightarrow> u64 \<Rightarrow> nat \<Rightarrow> nat set" where
  "pt_frames s pt m =
     (let e = table_get s pt (of_nat m) in if e AND PAGE_PRESENT = 0 then {} else {frame_no (ENTRY_ADDR e)})"

definition sub_frames ::
  "(u64 \<Rightarrow> nat \<Rightarrow> nat set) \<Rightarrow> 'a vmm_state_scheme \<Rightarrow> u64 \<Rightarrow> nat \<Rightarrow> nat set" where
  "sub_frames G s t k =
     (let e = table_get s t (of_nat k) in
      if e AND PAGE_PRESENT = 0 \<or> e AND PAGE_HUGE \<noteq> 0 then {}
      else insert (frame_no (ENTRY_ADDR e)) (\<Union>m < 512. G (ENTRY_ADDR e) m))"

text \<open>How many frees each level of the loop makes.\<close>

definition pt_count :: "'a vmm_state_scheme \<Rightarrow> u64 \<Rightarrow> nat \<Rightarrow> nat" where
  "pt_count s pt m = (if table_get s pt (of_nat m) AND PAGE_PRESENT = 0 then 0 else 1)"

definition sub_count ::
  "(u64 \<Rightarrow> nat \<Rightarrow> nat) \<Rightarrow> 'a vmm_state_scheme \<Rightarrow> u64 \<Rightarrow> nat \<Rightarrow> nat" where
  "sub_count C s t k =
     (let e = table_get s t (of_nat k) in
      if e AND PAGE_PRESENT = 0 \<or> e AND PAGE_HUGE \<noteq> 0 then 0
      else Suc (\<Sum>m < 512. C (ENTRY_ADDR e) m))"

lemma of_nat_less_512: "m < 512 \<Longrightarrow> (of_nat m :: u64) < 512"
  by (simp add: word_less_nat_alt unat_of_nat)

lemma destroy_pt_freed:
  fixes s0 :: "'a vmm_state_scheme"
  assumes ok: "table_loc s0 pml4" "table_loc s0 pt" "pt \<noteq> pml4"
    and ram: "\<And>m. m < 512 \<Longrightarrow> table_get s0 pt (of_nat m) AND PAGE_PRESENT \<noteq> 0 \<Longrightarrow>
      in_ram s0 (ENTRY_ADDR (table_get s0 pt (of_nat m)))"
    and x: "freed_from s0 pml4 n F c x"
  shows "freed_from s0 pml4 n (F \<union> (\<Union>m < 512. pt_frames s0 pt m)) (c + (\<Sum>m < 512. pt_count s0 pt m)) (destroy_pt pt x)"
  unfolding destroy_pt_def
proof (rule fold_upt_inv [where P = "\<lambda>k y. freed_from s0 pml4 n (F \<union> (\<Union>m < k. pt_frames s0 pt m)) (c + (\<Sum>m < k. pt_count s0 pt m)) y"])
  show "freed_from s0 pml4 n (F \<union> (\<Union>m < 0. pt_frames s0 pt m)) (c + (\<Sum>m < 0. pt_count s0 pt m)) x" using x by simp
  fix k :: nat and y :: "u64 \<times> 'a vmm_state_scheme"
  assume k: "k < 512" and y: "freed_from s0 pml4 n (F \<union> (\<Union>m < k. pt_frames s0 pt m)) (c + (\<Sum>m < k. pt_count s0 pt m)) y"
  obtain r s where ns: "y = (r, s)" by (cases y)
  have e: "table_get s pt (of_nat k) = table_get s0 pt (of_nat k)"
    by (rule freed_table_get [OF ok(1) y [unfolded ns] ok(2,3) of_nat_less_512 [OF k]])
  have "(\<Union>m < Suc k. pt_frames s0 pt m) = (\<Union>m < k. pt_frames s0 pt m) \<union> pt_frames s0 pt k"
    by (auto simp: less_Suc_eq)
  then show "freed_from s0 pml4 n (F \<union> (\<Union>m < Suc k. pt_frames s0 pt m)) (c + (\<Sum>m < Suc k. pt_count s0 pt m))
     (case y of (freed, s) \<Rightarrow> let e = table_get s pt (of_nat k) in
        if e AND PAGE_PRESENT = 0 then (freed, s) else free_counted (ENTRY_ADDR e) (freed, s))"
    using y ram [OF k] free_counted_freed [OF ok(1) y, of "ENTRY_ADDR (table_get s0 pt (of_nat k))"]
    by (auto simp: ns e pt_frames_def pt_count_def Let_def)
qed

text \<open>The two middle levels run the same loop around the level below, \<open>D\<close>.\<close>

lemma destroy_sub_freed:
  fixes s0 :: "'a vmm_state_scheme"
  assumes ok: "table_loc s0 pml4" "table_loc s0 t" "t \<noteq> pml4"
    and ram: "\<And>k u. \<lbrakk>k < 512; walk s0 t [of_nat k] = Some u\<rbrakk> \<Longrightarrow> in_ram s0 u"
    and sub: "\<And>k u F c x. \<lbrakk>k < 512; walk s0 t [of_nat k] = Some u; freed_from s0 pml4 n F c x\<rbrakk> \<Longrightarrow>
      freed_from s0 pml4 n (F \<union> (\<Union>m < 512. G u m)) (c + (\<Sum>m < 512. C u m)) (D u x)"
    and x: "freed_from s0 pml4 n F c x"
  shows "freed_from s0 pml4 n (F \<union> (\<Union>k < 512. sub_frames G s0 t k)) (c + (\<Sum>k < 512. sub_count C s0 t k))
    (fold (\<lambda>k (freed, s). let e = table_get s t (of_nat k) in
       if e AND PAGE_PRESENT = 0 \<or> e AND PAGE_HUGE \<noteq> 0 then (freed, s)
       else free_counted (ENTRY_ADDR e) (D (ENTRY_ADDR e) (freed, s))) [0..<512] x)"
proof (rule fold_upt_inv [where P = "\<lambda>k y. freed_from s0 pml4 n (F \<union> (\<Union>m < k. sub_frames G s0 t m)) (c + (\<Sum>m < k. sub_count C s0 t m)) y"])
  show "freed_from s0 pml4 n (F \<union> (\<Union>m < 0. sub_frames G s0 t m)) (c + (\<Sum>m < 0. sub_count C s0 t m)) x" using x by simp
  fix k :: nat and y :: "u64 \<times> 'a vmm_state_scheme"
  let ?F = "F \<union> (\<Union>m < k. sub_frames G s0 t m)" and ?c = "c + (\<Sum>m < k. sub_count C s0 t m)"
  assume k: "k < 512" and y: "freed_from s0 pml4 n ?F ?c y"
  obtain r s where ns: "y = (r, s)" by (cases y)
  define e where "e = table_get s0 t (of_nat k)"
  have e: "table_get s t (of_nat k) = e"
    using freed_table_get [OF ok(1) y [unfolded ns] ok(2,3) of_nat_less_512 [OF k]] by (simp add: e_def)
  have Suc: "F \<union> (\<Union>m < Suc k. sub_frames G s0 t m) = ?F \<union> sub_frames G s0 t k"
    by (auto simp: less_Suc_eq)
  show "freed_from s0 pml4 n (F \<union> (\<Union>m < Suc k. sub_frames G s0 t m)) (c + (\<Sum>m < Suc k. sub_count C s0 t m))
     (case y of (freed, s) \<Rightarrow> let e = table_get s t (of_nat k) in
        if e AND PAGE_PRESENT = 0 \<or> e AND PAGE_HUGE \<noteq> 0 then (freed, s)
        else free_counted (ENTRY_ADDR e) (D (ENTRY_ADDR e) (freed, s)))"
  proof (cases "e AND PAGE_PRESENT = 0 \<or> e AND PAGE_HUGE \<noteq> 0")
    case True
    then show ?thesis using y unfolding Suc by (simp add: ns e sub_frames_def sub_count_def e_def [symmetric])
  next
    case False
    then have w: "walk s0 t [of_nat k] = Some (ENTRY_ADDR e)" by (simp add: walk.simps e_def)
    have "freed_from s0 pml4 n (insert (frame_no (ENTRY_ADDR e)) (?F \<union> (\<Union>m < 512. G (ENTRY_ADDR e) m)))
        (Suc (?c + (\<Sum>m < 512. C (ENTRY_ADDR e) m))) (free_counted (ENTRY_ADDR e) (D (ENTRY_ADDR e) y))"
      by (rule free_counted_freed [OF ok(1) sub [OF k w y] ram [OF k w]])
    moreover have "insert (frame_no (ENTRY_ADDR e)) (?F \<union> (\<Union>m < 512. G (ENTRY_ADDR e) m)) = ?F \<union> sub_frames G s0 t k"
      using False by (auto simp: sub_frames_def e_def [symmetric])
    moreover have "Suc (?c + (\<Sum>m < 512. C (ENTRY_ADDR e) m)) = c + (\<Sum>m < Suc k. sub_count C s0 t m)"
      using False by (simp add: sub_count_def e_def [symmetric])
    ultimately show ?thesis using False unfolding Suc by (simp add: ns e)
  qed
qed

section \<open>The top level\<close>

lemma destroy_pml4_freed:
  fixes s0 :: "'a vmm_state_scheme"
  assumes ok: "table_loc s0 pml4" "pmm_inv s0"
    and nohuge: "\<And>i. i < 256 \<Longrightarrow> table_get s0 pml4 (of_nat i) AND PAGE_HUGE = 0"
    and ram: "\<And>k u. \<lbrakk>k < 256; walk s0 pml4 [of_nat k] = Some u\<rbrakk> \<Longrightarrow> in_ram s0 u"
    and sub: "\<And>k u n F c x. \<lbrakk>k < 256; walk s0 pml4 [of_nat k] = Some u; freed_from s0 pml4 n F c x\<rbrakk> \<Longrightarrow>
      freed_from s0 pml4 n (F \<union> (\<Union>m < 512. G u m)) (c + (\<Sum>m < 512. C u m)) (destroy_pdpt u x)"
  shows "freed_from s0 pml4 256 (\<Union>k < 256. sub_frames G s0 pml4 k) (\<Sum>k < 256. sub_count C s0 pml4 k)
    (destroy_pml4 pml4 (0, s0))"
  unfolding destroy_pml4_def
proof (rule fold_upt_inv [where P = "\<lambda>k y. freed_from s0 pml4 k (\<Union>m < k. sub_frames G s0 pml4 m) (\<Sum>m < k. sub_count C s0 pml4 m) y"])
  show "freed_from s0 pml4 0 (\<Union>m < 0. sub_frames G s0 pml4 m) (\<Sum>m < 0. sub_count C s0 pml4 m) (0, s0)"
    using ok(2) by (simp add: freed_from_def)
  fix k :: nat and y :: "u64 \<times> 'a vmm_state_scheme"
  let ?F = "\<Union>m < k. sub_frames G s0 pml4 m" and ?c = "\<Sum>m < k. sub_count C s0 pml4 m"
  assume k: "k < 256" and y: "freed_from s0 pml4 k ?F ?c y"
  obtain r s where ns: "y = (r, s)" by (cases y)
  define e where "e = table_get s0 pml4 (of_nat k)"
  have k5: "k < 512" "(of_nat k :: u64) < 512" "unat (of_nat k :: u64) = k"
    using k by (simp_all add: word_less_nat_alt unat_of_nat)
  have e: "table_get s pml4 (of_nat k) = e" using y k5 by (simp add: freed_from_def ns e_def)
  have Suc: "(\<Union>m < Suc k. sub_frames G s0 pml4 m) = ?F \<union> sub_frames G s0 pml4 k"
    by (auto simp: less_Suc_eq)
  show "freed_from s0 pml4 (Suc k) (\<Union>m < Suc k. sub_frames G s0 pml4 m) (\<Sum>m < Suc k. sub_count C s0 pml4 m)
      (case y of (freed, s) \<Rightarrow> let e = table_get s pml4 (of_nat k) in
       if e AND PAGE_PRESENT = 0 then (freed, s)
       else let (freed, s) = free_counted (ENTRY_ADDR e) (destroy_pdpt (ENTRY_ADDR e) (freed, s))
            in (freed, table_set pml4 (of_nat k) 0 s))"
  proof (cases "e AND PAGE_PRESENT = 0")
    case True
    then show ?thesis using y unfolding Suc by (simp add: ns e sub_frames_def sub_count_def e_def [symmetric] freed_from_def)
  next
    case False
    then have w: "walk s0 pml4 [of_nat k] = Some (ENTRY_ADDR e)"
      using nohuge [OF k] by (simp add: walk.simps e_def)
    obtain c' s' where y': "free_counted (ENTRY_ADDR e) (destroy_pdpt (ENTRY_ADDR e) y) = (c', s')" by fastforce
    have "freed_from s0 pml4 k (insert (frame_no (ENTRY_ADDR e)) (?F \<union> (\<Union>m < 512. G (ENTRY_ADDR e) m)))
        (Suc (?c + (\<Sum>m < 512. C (ENTRY_ADDR e) m))) (c', s')"
      using free_counted_freed [OF ok(1) sub [OF k w y] ram [OF k w]] y' by simp
    moreover have "insert (frame_no (ENTRY_ADDR e)) (?F \<union> (\<Union>m < 512. G (ENTRY_ADDR e) m)) = ?F \<union> sub_frames G s0 pml4 k"
      using False nohuge [OF k] by (auto simp: sub_frames_def e_def [symmetric])
    moreover have "Suc (?c + (\<Sum>m < 512. C (ENTRY_ADDR e) m)) = (\<Sum>m < Suc k. sub_count C s0 pml4 m)"
      using False nohuge [OF k] by (simp add: sub_count_def e_def [symmetric])
    ultimately show ?thesis
      using clear_entry_freed [OF ok(1) _ k5(1)] False y' unfolding Suc by (simp add: ns e)
  qed
qed

text \<open>
  The frames an address space owns: its tables reached through the user half, the top-level table
  itself, and the 4 KB pages mapped in the user half.
\<close>

definition owned_frames :: "'a vmm_state_scheme \<Rightarrow> u64 \<Rightarrow> nat set" where
  "owned_frames s pml4 =
     {frame_no t |t p. idx p \<and> length p \<le> 3 \<and> (p \<noteq> [] \<longrightarrow> hd p < 256) \<and> walk s pml4 p = Some t} \<union>
     {frame_no (ENTRY_ADDR e) |e a b c d. a < 256 \<and> b < 512 \<and> c < 512 \<and> d < 512 \<and>
        leaf s pml4 a b c d = Some (False, e)}"

lemma walk_Cons: "walk s t (i # p) = Option.bind (walk s t [i]) (\<lambda>u. walk s u p)"
  by (simp add: walk.simps Let_def)

lemma ex_index: "(\<exists>k < 512. P (of_nat k)) \<longleftrightarrow> (\<exists>i < 512. P (i :: u64))"
proof
  assume "\<exists>i < 512. P (i :: u64)"
  then obtain i :: u64 where "i < 512" "P i" by blast
  then show "\<exists>k < 512. P (of_nat k)"
    by (intro exI [of _ "unat i"]) (simp add: word_less_nat_alt)
qed (auto dest: of_nat_less_512)

lemma ex_index_user: "(\<exists>k < 256. P (of_nat k)) \<longleftrightarrow> (\<exists>i < 256. P (i :: u64))"
proof
  assume "\<exists>i < 256. P (i :: u64)"
  then obtain i :: u64 where "i < 256" "P i" by blast
  then show "\<exists>k < 256. P (of_nat k)"
    by (intro exI [of _ "unat i"]) (simp add: word_less_nat_alt)
next
  assume "\<exists>k < 256. P (of_nat k)"
  then obtain k where "k < 256" "P (of_nat k)" by blast
  then show "\<exists>i < 256. P (i :: u64)"
    by (intro exI [of _ "of_nat k"]) (simp add: word_less_nat_alt unat_of_nat)
qed

lemma in_sub_frames:
  "x \<in> sub_frames G s t k \<longleftrightarrow>
     (\<exists>u. walk s t [of_nat k] = Some u \<and> (x = frame_no u \<or> x \<in> (\<Union>m < 512. G u m)))"
  by (auto simp: sub_frames_def walk.simps Let_def)

lemma in_pt_frames:
  "x \<in> (\<Union>m < 512. pt_frames s pt m) \<longleftrightarrow>
     (\<exists>d < 512. table_get s pt d AND PAGE_PRESENT \<noteq> 0 \<and> x = frame_no (ENTRY_ADDR (table_get s pt d)))"
  unfolding ex_index [symmetric] by (auto simp: pt_frames_def Let_def split: if_splits)

lemma leaf_small:
  "leaf s pml4 a b c d = Some (False, e) \<longleftrightarrow>
     (\<exists>pt. walk s pml4 [a, b, c] = Some pt \<and> table_get s pt d AND PAGE_PRESENT \<noteq> 0 \<and> e = table_get s pt d)"
  by (auto simp: leaf_def Let_def split: option.splits)

text \<open>The nested loops visit exactly the owned frames.\<close>

lemma owned_frames_loops:
  "owned_frames s pml4 = insert (frame_no pml4)
     (\<Union>i < 256. sub_frames (sub_frames (sub_frames (pt_frames s) s) s) s pml4 i)" (is "?L = ?R")
proof -
  have lt: "a < 512" if "a < 256" for a :: u64 using that by (simp add: word_less_nat_alt)
  have short: "p = [] \<or> (\<exists>a. p = [a]) \<or> (\<exists>a b. p = [a, b]) \<or> (\<exists>a b c. p = [a, b, c])"
    if "length p \<le> 3" for p :: "u64 list"
    using that by (auto simp: numeral_3_eq_3 le_Suc_eq length_Suc_conv)
  have mem: "x \<in> (\<Union>k < 512. sub_frames G s t k) \<longleftrightarrow>
      (\<exists>i < 512. \<exists>u. walk s t [i] = Some u \<and> (x = frame_no u \<or> x \<in> (\<Union>m < 512. G u m)))" for x G t
    unfolding ex_index [symmetric] by (auto simp: in_sub_frames)
  have top: "x \<in> (\<Union>k < 256. sub_frames G s t k) \<longleftrightarrow>
      (\<exists>i < 256. \<exists>u. walk s t [i] = Some u \<and> (x = frame_no u \<or> x \<in> (\<Union>m < 512. G u m)))" for x G t
    unfolding ex_index_user [symmetric] by (auto simp: in_sub_frames)
  have two: "walk s pml4 [a, b] = Some u \<longleftrightarrow> (\<exists>v. walk s pml4 [a] = Some v \<and> walk s v [b] = Some u)" for a b u
    by (subst walk_Cons) (simp add: bind_eq_Some_conv)
  have three: "walk s pml4 [a, b, c] = Some u \<longleftrightarrow>
      (\<exists>v w. walk s pml4 [a] = Some v \<and> walk s v [b] = Some w \<and> walk s w [c] = Some u)" for a b c u
    by (subst walk_Cons, subst walk_Cons) (auto simp: bind_eq_Some_conv)
  have paths: "(\<exists>t p. x = frame_no t \<and> idx p \<and> length p \<le> 3 \<and> (p \<noteq> [] \<longrightarrow> hd p < 256) \<and> walk s pml4 p = Some t) \<longleftrightarrow>
      x = frame_no pml4 \<or> (\<exists>a < 256. \<exists>t. walk s pml4 [a] = Some t \<and> x = frame_no t) \<or>
      (\<exists>a < 256. \<exists>b < 512. \<exists>t. walk s pml4 [a, b] = Some t \<and> x = frame_no t) \<or>
      (\<exists>a < 256. \<exists>b < 512. \<exists>c < 512. \<exists>t. walk s pml4 [a, b, c] = Some t \<and> x = frame_no t)"
    (is "?P x \<longleftrightarrow> ?Q x") for x
  proof
    assume "?P x"
    then obtain t p where tp: "x = frame_no t" "idx p" "length p \<le> 3" "p \<noteq> [] \<longrightarrow> hd p < 256" "walk s pml4 p = Some t"
      by blast
    from short [OF tp(3)] show "?Q x" using tp(1,2,4,5)
      by (elim disjE exE; simp; blast)
  next
    have give: "?P x" if "walk s pml4 p = Some t" "x = frame_no t" "idx p" "length p \<le> 3" "p \<noteq> [] \<longrightarrow> hd p < 256" for p t
      using that by blast
    assume "?Q x"
    then consider "x = frame_no pml4"
      | a t where "a < 256" "walk s pml4 [a] = Some t" "x = frame_no t"
      | a b t where "a < 256" "b < 512" "walk s pml4 [a, b] = Some t" "x = frame_no t"
      | a b c t where "a < 256" "b < 512" "c < 512" "walk s pml4 [a, b, c] = Some t" "x = frame_no t"
      by blast
    then show "?P x"
    proof cases
      case 1
      then show ?thesis by (intro give [of "[]"]) simp_all
    next
      case (2 a t)
      then show ?thesis by (intro give [of "[a]"]) (simp_all add: lt)
    next
      case (3 a b t)
      then show ?thesis by (intro give [of "[a, b]"]) (simp_all add: lt)
    next
      case (4 a b c t)
      then show ?thesis by (intro give [of "[a, b, c]"]) (simp_all add: lt)
    qed
  qed
  have "x \<in> ?L \<longleftrightarrow> x \<in> ?R" for x
    unfolding owned_frames_def insert_iff top mem in_pt_frames leaf_small Un_iff mem_Collect_eq paths two three
    by (rule iffI; elim disjE exE conjE; blast)
  then show ?thesis by blast
qed

text \<open>The user pages of an address space lie in RAM.\<close>

definition pages_in_ram :: "'a vmm_state_scheme \<Rightarrow> u64 \<Rightarrow> bool" where
  "pages_in_ram s pml4 \<longleftrightarrow> (\<forall>a b c d e. a < 256 \<longrightarrow> b < 512 \<longrightarrow> c < 512 \<longrightarrow> d < 512 \<longrightarrow>
     leaf s pml4 a b c d = Some (False, e) \<longrightarrow> in_ram s (ENTRY_ADDR e))"

lemma tree_locs:
  assumes "pt_ok s pml4" "idx p" "length p \<le> 3" "walk s pml4 p = Some t"
  shows "table_loc s t" "in_ram s t" "p \<noteq> [] \<Longrightarrow> t \<noteq> pml4"
proof -
  have tf: "table_frame s t" by (rule pt_okD(2) [OF assms])
  then show "table_loc s t" using pt_okD(1) [OF assms(1)] by (intro table_frame_loc)
  have "frame_no t < unat (total_frames s)" using tf used_set_bound by (auto simp: table_frame_def)
  then have "Suc (frame_no t) * 4096 \<le> unat (total_frames s) * 4096" by (intro mult_le_mono1) simp
  then show "in_ram s t" using tf by (auto simp: table_frame_def)
  show "t \<noteq> pml4" if "p \<noteq> []" using pt_okD(3) [OF assms(1,2), of "[]" t] assms(3,4) that by auto
qed

lemma walk_append: "\<lbrakk>walk s pml4 p = Some t; walk s t [i] = Some u\<rbrakk> \<Longrightarrow> walk s pml4 (p @ [i]) = Some u"
  by (simp add: walk_snoc walk.simps Let_def split: if_splits)

lemma user_index: "a < 256 \<Longrightarrow> (a :: u64) < 512"
  by (simp add: word_less_nat_alt)

lemma destroy_pt_walk:
  assumes ok: "pt_ok s pml4" "pages_in_ram s pml4"
    and w: "walk s pml4 [a, b, c] = Some pt" and i: "a < 256" "b < 512" "c < 512"
    and x: "freed_from s pml4 n F k x"
  shows "freed_from s pml4 n (F \<union> (\<Union>m < 512. pt_frames s pt m)) (k + (\<Sum>m < 512. pt_count s pt m)) (destroy_pt pt x)"
proof (rule destroy_pt_freed [OF _ _ _ _ x])
  show "table_loc s pml4" using tree_locs(1) [OF ok(1), of "[]"] by simp
  show "table_loc s pt" "pt \<noteq> pml4" using tree_locs(1,3) [OF ok(1) _ _ w] i user_index by auto
  show "in_ram s (ENTRY_ADDR (table_get s pt (of_nat m)))"
    if "m < 512" "table_get s pt (of_nat m) AND PAGE_PRESENT \<noteq> 0" for m
  proof -
    have "leaf s pml4 a b c (of_nat m) = Some (False, table_get s pt (of_nat m))"
      using w that(2) by (simp add: leaf_small)
    then show ?thesis using ok(2) i of_nat_less_512 [OF that(1)] unfolding pages_in_ram_def by blast
  qed
qed

lemma destroy_pd_walk:
  assumes ok: "pt_ok s pml4" "pages_in_ram s pml4"
    and w: "walk s pml4 [a, b] = Some pd" and i: "a < 256" "b < 512"
    and x: "freed_from s pml4 n F k x"
  shows "freed_from s pml4 n (F \<union> (\<Union>m < 512. sub_frames (pt_frames s) s pd m)) (k + (\<Sum>m < 512. sub_count (pt_count s) s pd m)) (destroy_pd pd x)"
  unfolding destroy_pd_def
proof (rule destroy_sub_freed [OF _ _ _ _ _ x])
  show "table_loc s pml4" using tree_locs(1) [OF ok(1), of "[]"] by simp
  show "table_loc s pd" "pd \<noteq> pml4" using tree_locs(1,3) [OF ok(1) _ _ w] i user_index by auto
  fix k u assume k: "k < (512 :: nat)" and u: "walk s pd [of_nat k] = Some u"
  have w': "walk s pml4 [a, b, of_nat k] = Some u" using walk_append [OF w u] by simp
  then show "in_ram s u" using tree_locs(2) [OF ok(1) _ _ w'] i user_index of_nat_less_512 [OF k] by simp
  show "freed_from s pml4 n (F \<union> (\<Union>m < 512. pt_frames s u m)) (l + (\<Sum>m < 512. pt_count s u m)) (destroy_pt u x)"
    if "freed_from s pml4 n F l x" for F l x
    by (rule destroy_pt_walk [OF ok w' i of_nat_less_512 [OF k] that])
qed

lemma destroy_pdpt_walk:
  assumes ok: "pt_ok s pml4" "pages_in_ram s pml4"
    and w: "walk s pml4 [a] = Some t" and i: "a < 256"
    and x: "freed_from s pml4 n F k x"
  shows "freed_from s pml4 n (F \<union> (\<Union>m < 512. sub_frames (sub_frames (pt_frames s) s) s t m)) (k + (\<Sum>m < 512. sub_count (sub_count (pt_count s) s) s t m)) (destroy_pdpt t x)"
  unfolding destroy_pdpt_def
proof (rule destroy_sub_freed [OF _ _ _ _ _ x])
  show "table_loc s pml4" using tree_locs(1) [OF ok(1), of "[]"] by simp
  show "table_loc s t" "t \<noteq> pml4" using tree_locs(1,3) [OF ok(1) _ _ w] i user_index by auto
  fix k u assume k: "k < (512 :: nat)" and u: "walk s t [of_nat k] = Some u"
  have w': "walk s pml4 [a, of_nat k] = Some u" using walk_append [OF w u] by simp
  then show "in_ram s u" using tree_locs(2) [OF ok(1) _ _ w'] i user_index of_nat_less_512 [OF k] by simp
  show "freed_from s pml4 n (F \<union> (\<Union>m < 512. sub_frames (pt_frames s) s u m)) (l + (\<Sum>m < 512. sub_count (pt_count s) s u m)) (destroy_pd u x)"
    if "freed_from s pml4 n F l x" for F l x
    by (rule destroy_pd_walk [OF ok w' i of_nat_less_512 [OF k] that])
qed

text \<open>
  The entries of an address space that lead to these frames: the path of table indices, three for a
  table and four for a page, with the frame it ends in.
\<close>

definition owned_entries :: "'a vmm_state_scheme \<Rightarrow> u64 \<Rightarrow> (u64 list \<times> nat) set" where
  "owned_entries s pml4 =
     {(p, frame_no t) |t p. idx p \<and> length p \<le> 3 \<and> (p \<noteq> [] \<longrightarrow> hd p < 256) \<and> walk s pml4 p = Some t} \<union>
     {([a, b, c, d], frame_no (ENTRY_ADDR e)) |e a b c d. a < 256 \<and> b < 512 \<and> c < 512 \<and> d < 512 \<and>
        leaf s pml4 a b c d = Some (False, e)}"

lemma in_owned_entries:
  "(p, x) \<in> owned_entries s pml4 \<longleftrightarrow>
     (\<exists>t. x = frame_no t \<and> idx p \<and> length p \<le> 3 \<and> (p \<noteq> [] \<longrightarrow> hd p < 256) \<and> walk s pml4 p = Some t) \<or>
     (\<exists>e a b c d. p = [a, b, c, d] \<and> x = frame_no (ENTRY_ADDR e) \<and> a < 256 \<and> b < 512 \<and> c < 512 \<and> d < 512 \<and>
       leaf s pml4 a b c d = Some (False, e))"
  unfolding owned_entries_def by blast

lemma owned_frames_entries: "owned_frames s pml4 = snd ` owned_entries s pml4"
proof -
  have "x \<in> snd ` owned_entries s pml4 \<longleftrightarrow> (\<exists>p. (p, x) \<in> owned_entries s pml4)" for x by force
  then show ?thesis unfolding in_owned_entries owned_frames_def by blast
qed

text \<open>The entries below a table, level by level as the loops visit them.\<close>

definition pt_entries :: "'a vmm_state_scheme \<Rightarrow> u64 \<Rightarrow> nat \<Rightarrow> (u64 list \<times> nat) set" where
  "pt_entries s pt m =
     (let e = table_get s pt (of_nat m) in
      if e AND PAGE_PRESENT = 0 then {} else {([of_nat m], frame_no (ENTRY_ADDR e))})"

definition sub_entries ::
  "(u64 \<Rightarrow> nat \<Rightarrow> (u64 list \<times> nat) set) \<Rightarrow> 'a vmm_state_scheme \<Rightarrow> u64 \<Rightarrow> nat \<Rightarrow> (u64 list \<times> nat) set" where
  "sub_entries E s t k =
     (case walk s t [of_nat k] of None \<Rightarrow> {}
      | Some u \<Rightarrow> insert ([of_nat k], frame_no u) (apfst (Cons (of_nat k)) ` (\<Union>m < 512. E u m)))"

text \<open>A level whose entries start with their own index and are counted by \<open>C\<close>.\<close>

definition counted ::
  "(u64 \<Rightarrow> nat \<Rightarrow> (u64 list \<times> nat) set) \<Rightarrow> (u64 \<Rightarrow> nat \<Rightarrow> nat) \<Rightarrow> bool" where
  "counted E C \<longleftrightarrow> (\<forall>t k. finite (E t k) \<and> card (E t k) = C t k \<and> (\<forall>(p, x) \<in> E t k. p \<noteq> [] \<and> hd p = of_nat k))"

lemma counted_union:
  assumes "counted E C" "n \<le> 512"
  shows "finite (\<Union>m < n. E t m)" "card (\<Union>m < n. E t m) = (\<Sum>m < n. C t m)"
proof -
  have fin: "finite (E t m)" "card (E t m) = C t m" for m using assms(1) by (simp_all add: counted_def)
  have hd: "hd p = of_nat m" if "(p, x) \<in> E t m" for p x m using assms(1) that unfolding counted_def by blast
  have "E t i \<inter> E t j = {}" if "i < n" "j < n" "i \<noteq> j" for i j
  proof -
    have "unat (of_nat i :: u64) = i" "unat (of_nat j :: u64) = j"
      using that assms(2) by (simp_all add: unat_of_nat)
    then have "(of_nat i :: u64) \<noteq> of_nat j" using that(3) by metis
    then have "z \<notin> E t i \<inter> E t j" for z using hd [of "fst z" "snd z" i] hd [of "fst z" "snd z" j] by auto
    then show ?thesis by blast
  qed
  then have "card (\<Union>m < n. E t m) = (\<Sum>m < n. card (E t m))" using fin(1) by (intro card_UN_disjoint) auto
  then show "finite (\<Union>m < n. E t m)" "card (\<Union>m < n. E t m) = (\<Sum>m < n. C t m)" using fin by simp_all
qed

lemma counted_pt: "counted (pt_entries s) (pt_count s)"
  by (simp add: counted_def pt_entries_def pt_count_def Let_def)

lemma counted_sub:
  assumes "counted E C"
  shows "counted (sub_entries E s) (sub_count C s)"
proof -
  have ne: "p \<noteq> []" if "(p, x) \<in> E t k" for p x t k using assms that unfolding counted_def by blast
  have "inj_on (apfst (Cons i)) A" for i :: u64 and A :: "(u64 list \<times> nat) set" by (rule inj_onI) auto
  moreover have "([i], x) \<notin> apfst (Cons i) ` (\<Union>m < 512. E u m)" for i x u using ne [of "[]"] by auto
  ultimately have "card (insert ([of_nat k], frame_no u) (apfst (Cons (of_nat k)) ` (\<Union>m < 512. E u m))) =
      Suc (\<Sum>m < 512. C u m)" for k u
    using counted_union [OF assms, of 512 u] by (simp add: card_image)
  moreover have "finite (\<Union>m < 512. E u m)" for u by (rule counted_union(1) [OF assms]) simp
  ultimately show ?thesis
    by (auto simp: counted_def sub_entries_def sub_count_def walk.simps Let_def split: option.splits)
qed

lemma in_sub_entries:
  "(p, x) \<in> (\<Union>k < n. sub_entries E s t k) \<longleftrightarrow>
     (\<exists>k < n. \<exists>u. walk s t [of_nat k] = Some u \<and>
        (p = [of_nat k] \<and> x = frame_no u \<or> (\<exists>q. p = of_nat k # q \<and> (q, x) \<in> (\<Union>m < 512. E u m))))"
  by (fastforce simp: sub_entries_def image_iff split: option.splits)

lemma in_pt_entries:
  "(p, x) \<in> (\<Union>m < 512. pt_entries s pt m) \<longleftrightarrow>
     (\<exists>d < 512. p = [d] \<and> table_get s pt d AND PAGE_PRESENT \<noteq> 0 \<and> x = frame_no (ENTRY_ADDR (table_get s pt d)))"
  unfolding ex_index [symmetric] by (auto simp: pt_entries_def Let_def split: if_splits)

lemma owned_entries_loops:
  "owned_entries s pml4 = insert ([], frame_no pml4)
     (\<Union>i < 256. sub_entries (sub_entries (sub_entries (pt_entries s) s) s) s pml4 i)" (is "?L = ?R")
proof -
  have lt: "a < 512" if "a < 256" for a :: u64 using that by (simp add: word_less_nat_alt)
  have mem: "(p, x) \<in> (\<Union>k < 512. sub_entries E s t k) \<longleftrightarrow>
      (\<exists>i < 512. \<exists>u. walk s t [i] = Some u \<and> (p = [i] \<and> x = frame_no u \<or> (\<exists>q. p = i # q \<and> (q, x) \<in> (\<Union>m < 512. E u m))))"
    for p x E t
    unfolding ex_index [symmetric] by (rule in_sub_entries)
  have top: "(p, x) \<in> (\<Union>k < 256. sub_entries E s t k) \<longleftrightarrow>
      (\<exists>i < 256. \<exists>u. walk s t [i] = Some u \<and> (p = [i] \<and> x = frame_no u \<or> (\<exists>q. p = i # q \<and> (q, x) \<in> (\<Union>m < 512. E u m))))"
    for p x E t
    unfolding ex_index_user [symmetric] by (rule in_sub_entries)
  have two: "walk s pml4 [a, b] = Some u \<longleftrightarrow> (\<exists>v. walk s pml4 [a] = Some v \<and> walk s v [b] = Some u)" for a b u
    by (subst walk_Cons) (simp add: bind_eq_Some_conv)
  have three: "walk s pml4 [a, b, c] = Some u \<longleftrightarrow>
      (\<exists>v w. walk s pml4 [a] = Some v \<and> walk s v [b] = Some w \<and> walk s w [c] = Some u)" for a b c u
    by (subst walk_Cons, subst walk_Cons) (auto simp: bind_eq_Some_conv)
  have "(p, x) \<in> ?L \<longleftrightarrow> (p, x) \<in> ?R" for p x
  proof -
    consider "p = []" | a where "p = [a]" | a b where "p = [a, b]" | a b c where "p = [a, b, c]"
      | a b c d where "p = [a, b, c, d]" | a b c d e q where "p = a # b # c # d # e # q"
      by (metis neq_Nil_conv)
    then show ?thesis
    proof cases
      case 1
      then show ?thesis unfolding in_owned_entries insert_iff top by simp
    next
      case (2 a)
      then show ?thesis unfolding in_owned_entries insert_iff top mem by (auto simp: lt)
    next
      case (3 a b)
      then show ?thesis unfolding in_owned_entries insert_iff top mem by (auto simp: lt two)
    next
      case (4 a b c)
      then show ?thesis unfolding in_owned_entries insert_iff top mem in_pt_entries by (auto simp: lt three) blast
    next
      case (5 a b c d)
      then show ?thesis unfolding in_owned_entries insert_iff top mem in_pt_entries by (auto simp: lt three leaf_small) blast
    next
      case 6
      then show ?thesis unfolding in_owned_entries insert_iff top mem in_pt_entries by auto
    qed
  qed
  then show ?thesis by (auto simp del: insert_iff)
qed

lemma card_owned_entries:
  "card (owned_entries s pml4) =
     Suc (\<Sum>i < 256. sub_count (sub_count (sub_count (pt_count s) s) s) s pml4 i)"
proof -
  let ?E = "sub_entries (sub_entries (sub_entries (pt_entries s) s) s) s"
  have c: "counted ?E (sub_count (sub_count (sub_count (pt_count s) s) s) s)"
    by (intro counted_sub counted_pt)
  have "([], x) \<notin> (\<Union>i < 256. ?E pml4 i)" for x unfolding in_sub_entries by simp
  then show ?thesis using counted_union [OF c, of 256 pml4] by (simp add: owned_entries_loops)
qed

lemma sum_bound: "(\<And>m. m < n \<Longrightarrow> f m \<le> (b :: nat)) \<Longrightarrow> (\<Sum>m < n. f m) \<le> n * b"
  using sum_bounded_above [of "{..<n}" f b] by simp

text \<open>There are fewer than $2^{37}$ entries, so the count does not wrap.\<close>

lemma card_owned_entries_bound: "card (owned_entries s pml4) < 2 ^ 64"
proof -
  have step: "sub_count C s t k \<le> Suc (512 * b)" if "\<And>t k. C t k \<le> b" for C b t k
    using sum_bound [of 512 "\<lambda>m. C (ENTRY_ADDR (table_get s t (of_nat k))) m" b] that
    by (simp add: sub_count_def Let_def)
  have "pt_count s t k \<le> 1" for t k by (simp add: pt_count_def)
  from step [OF step [OF step [OF this]]]
  have "(\<Sum>i < 256. sub_count (sub_count (sub_count (pt_count s) s) s) s pml4 i) \<le>
      256 * Suc (512 * Suc (512 * Suc (512 * 1)))" by (intro sum_bound)
  then show ?thesis unfolding card_owned_entries by simp
qed

lemma destroy_result:
  fixes s :: "'a vmm_state_scheme"
  assumes ok: "pt_ok s pml4" "pages_in_ram s pml4"
    and acc: "pml4 \<noteq> kernel_pml4 s" "pml4 \<noteq> cr3 s AND 0x000FFFFFFFFFF000"
    and r: "vmm_destroy_address_space pml4 s = (freed, s')"
  shows "freed_from s pml4 256 (owned_frames s pml4) (card (owned_entries s pml4)) (freed, s')"
proof -
  have i256: "(of_nat k :: u64) < 256" if "k < 256" for k using that by (simp add: word_less_nat_alt unat_of_nat)
  have root: "table_loc s pml4" "in_ram s pml4"
    using tree_locs(1,2) [OF ok(1), of "[]"] by simp_all
  have "freed_from s pml4 256 (\<Union>k < 256. sub_frames (sub_frames (sub_frames (pt_frames s) s) s) s pml4 k)
      (\<Sum>k < 256. sub_count (sub_count (sub_count (pt_count s) s) s) s pml4 k) (destroy_pml4 pml4 (0, s))"
  proof (rule destroy_pml4_freed [OF root(1)])
    show "pmm_inv s" using pt_okD(1) [OF ok(1)] by (simp add: mem_ok_def)
    show "table_get s pml4 (of_nat i) AND PAGE_HUGE = 0" if "i < 256" for i
      using pt_okD(4) [OF ok(1), of "[]" pml4 "of_nat i"] user_index [OF i256 [OF that]] by simp
    show "in_ram s u" if "k < 256" "walk s pml4 [of_nat k] = Some u" for k u
      using tree_locs(2) [OF ok(1) _ _ that(2)] user_index [OF i256 [OF that(1)]] by simp
  qed (rule destroy_pdpt_walk [OF ok], assumption, rule i256, assumption+)
  from free_counted_freed [OF root(1) this root(2)] show ?thesis
    using acc r by (simp add: vmm_destroy_address_space_def owned_frames_loops card_owned_entries)
qed

text \<open>
  C6. Tearing down. The address space of the kernel and the one loaded in CR3 are refused and nothing
  changes. Any other well-formed address space whose user pages lie in RAM loses exactly the frames
  it owns: afterwards the frames in use are those in use before, less the tables and pages of its
  user half and its top-level table. The returned number is the number of entries that lead to them,
  the frames counted once for each time they are entered, so it is the number of the owned frames
  whenever no frame is entered twice. The kernel half and all memory outside the
  bitmap and the top-level table are untouched.
\<close>

theorem vmm_destroy_address_space_correct:
  fixes s :: "'a vmm_state_scheme"
  assumes "pt_ok s pml4" "pages_in_ram s pml4" "vmm_destroy_address_space pml4 s = (freed, s')"
  shows "if pml4 = kernel_pml4 s \<or> pml4 = cr3 s AND 0x000FFFFFFFFFF000 then freed = 0 \<and> s' = s
    else pmm_inv s' \<and> used_set s' = used_set s - owned_frames s pml4 \<and> touches {pml4} s s' \<and>
      unat freed = card (owned_entries s pml4) \<and>
      (inj_on snd (owned_entries s pml4) \<longrightarrow> unat freed = card (owned_frames s pml4)) \<and>
      (\<forall>i < 512. 256 \<le> i \<longrightarrow> table_get s' pml4 i = table_get s pml4 i)"
proof (cases "pml4 = kernel_pml4 s \<or> pml4 = cr3 s AND 0x000FFFFFFFFFF000")
  case True
  then show ?thesis using assms(3) by (auto simp: vmm_destroy_address_space_def)
next
  case False
  then have d: "freed_from s pml4 256 (owned_frames s pml4) (card (owned_entries s pml4)) (freed, s')"
    using destroy_result [OF assms(1,2) _ _ assms(3)] by simp
  then have "unat freed = card (owned_entries s pml4)"
    using card_owned_entries_bound [of s pml4] by (simp add: freed_from_def unat_of_nat)
  then show ?thesis
    using False d by (simp add: freed_from_def word_le_nat_alt owned_frames_entries card_image)
qed

text \<open>The small machine with the kernel's tables elsewhere, so that frame 2 may be given up.\<close>

theorem vmm_destroy_address_space_correct_witness:
  "\<exists>freed s'. vmm_destroy_address_space 0x2000
      (vmm_example\<lparr>kernel_pml4 := 0x3000, cr3 := 0x3000\<rparr>) = (freed, s') \<and> used_set s' = {0, 1, 3, 6} \<and> freed = 1"
proof -
  let ?s = "vmm_example\<lparr>kernel_pml4 := 0x3000, cr3 := 0x3000\<rparr>"
  have same: "used_set ?s = used_set vmm_example" "table_get ?s = table_get vmm_example"
    by (simp_all add: used_set_def bitmap_test_def bm_byte_def table_get_def table_def fun_eq_iff)
  have m: "mem_ok ?s" using vmm_example_mem_ok
    unfolding mem_ok_def pmm_inv_def same by (simp add: bm_ok_def)
  have f: "table_frame ?s 0x2000" using vmm_example_pml4 unfolding table_frame_def same by simp
  have ok: "pt_ok ?s 0x2000" by (rule pt_ok_empty [OF m f]) (simp only: same vmm_example_entries)
  have w: "walk ?s 0x2000 p = (if p = [] then Some 0x2000 else None)" if "idx p" for p
    using that vmm_example_entries by (cases p) (simp_all add: walk.simps same)
  have l: "leaf ?s 0x2000 a b c d = None" if "a < 256" "b < 512" "c < 512" for a b c d
    using w [of "[a, b, c]"] w [of "[a, b]"] that user_index by (simp add: leaf_def)
  have pages: "pages_in_ram ?s 0x2000" by (simp add: pages_in_ram_def l)
  have o: "owned_frames ?s 0x2000 = {2}"
  proof -
    have "{frame_no t |t p. idx p \<and> length p \<le> 3 \<and> (p \<noteq> [] \<longrightarrow> hd p < 256) \<and> walk ?s 0x2000 p = Some t} = {2}"
      by (auto simp: w split: if_splits) (intro exI [of _ "0x2000"] conjI exI [of _ "[]"], simp_all)
    then show ?thesis unfolding owned_frames_def by (auto simp: l)
  qed
  have en: "owned_entries ?s 0x2000 = {([], 2)}"
  proof -
    have "{(p, frame_no t) |t p. idx p \<and> length p \<le> 3 \<and> (p \<noteq> [] \<longrightarrow> hd p < 256) \<and> walk ?s 0x2000 p = Some t} = {([], 2)}"
      by (auto simp: w split: if_splits)
    then show ?thesis unfolding owned_entries_def by (auto simp: l)
  qed
  obtain freed s' where r: "vmm_destroy_address_space 0x2000 ?s = (freed, s')" by fastforce
  from vmm_destroy_address_space_correct [OF ok pages r]
  have "used_set s' = {0, 1, 3, 6}" "unat freed = 1" unfolding o en same vmm_example_used by auto
  then show ?thesis using r by (metis unat_1 unsigned_word_eqI)
qed

end
