(* ===== verification/Font.thy ===== *)
theory Font
  imports Prelude
begin

text \<open>The 8x16 bitmap font, \<^verbatim>\<open>kernel/gfx/font8x16.c\<close> with \<^verbatim>\<open>kernel/gfx/font.h\<close>: one list of 16 rows per printable character.\<close>

definition FONT_W :: int where
  "FONT_W = 8"

definition FONT_H :: int where
  "FONT_H = 16"

definition FONT_FIRST :: int where
  "FONT_FIRST = 0x20"

definition FONT_LAST :: int where
  "FONT_LAST = 0x7E"

definition FONT_GLYPHS :: int where
  "FONT_GLYPHS = FONT_LAST - FONT_FIRST + 1"

definition font8x16 :: "u8 list list" where
  "font8x16 = [[0, 0, 0, 0, 0, 0, 0, 0, 0, 0, 0, 0, 0, 0, 0, 0],
     [0, 0, 24, 24, 24, 24, 24, 24, 24, 0, 24, 24, 0, 0, 0, 0],
     [0, 102, 102, 102, 102, 0, 0, 0, 0, 0, 0, 0, 0, 0, 0, 0],
     [0, 0, 108, 108, 254, 108, 108, 108, 108, 254, 108, 108, 0, 0, 0, 0],
     [0, 16, 126, 208, 208, 208, 124, 22, 22, 22, 22, 252, 16, 0, 0, 0],
     [0, 0, 6, 102, 108, 12, 24, 24, 48, 54, 102, 96, 0, 0, 0, 0],
     [0, 0, 56, 108, 108, 108, 56, 112, 218, 204, 204, 122, 0, 0, 0, 0],
     [0, 24, 24, 24, 24, 0, 0, 0, 0, 0, 0, 0, 0, 0, 0, 0],
     [0, 14, 24, 48, 48, 96, 96, 96, 96, 48, 48, 24, 14, 0, 0, 0],
     [0, 112, 24, 12, 12, 6, 6, 6, 6, 12, 12, 24, 112, 0, 0, 0],
     [0, 0, 0, 0, 102, 60, 24, 255, 24, 60, 102, 0, 0, 0, 0, 0],
     [0, 0, 0, 0, 0, 24, 24, 126, 24, 24, 0, 0, 0, 0, 0, 0],
     [0, 0, 0, 0, 0, 0, 0, 0, 0, 0, 24, 24, 48, 0, 0, 0],
     [0, 0, 0, 0, 0, 0, 0, 126, 0, 0, 0, 0, 0, 0, 0, 0],
     [0, 0, 0, 0, 0, 0, 0, 0, 0, 0, 24, 24, 0, 0, 0, 0],
     [0, 6, 6, 12, 12, 24, 24, 48, 48, 96, 96, 192, 192, 0, 0, 0],
     [0, 0, 124, 198, 198, 206, 222, 246, 230, 198, 198, 124, 0, 0, 0, 0],
     [0, 0, 24, 56, 120, 88, 24, 24, 24, 24, 24, 126, 0, 0, 0, 0],
     [0, 0, 124, 198, 6, 6, 12, 24, 48, 96, 198, 254, 0, 0, 0, 0],
     [0, 0, 124, 198, 6, 6, 60, 6, 6, 6, 198, 124, 0, 0, 0, 0],
     [0, 0, 192, 192, 204, 204, 204, 204, 254, 12, 12, 12, 0, 0, 0, 0],
     [0, 0, 254, 198, 192, 192, 252, 6, 6, 6, 198, 124, 0, 0, 0, 0],
     [0, 0, 124, 198, 192, 192, 252, 198, 198, 198, 198, 124, 0, 0, 0, 0],
     [0, 0, 254, 198, 6, 6, 12, 24, 48, 48, 48, 48, 0, 0, 0, 0],
     [0, 0, 124, 198, 198, 198, 124, 198, 198, 198, 198, 124, 0, 0, 0, 0],
     [0, 0, 124, 198, 198, 198, 198, 126, 6, 6, 198, 124, 0, 0, 0, 0],
     [0, 0, 0, 0, 0, 24, 24, 0, 0, 0, 24, 24, 0, 0, 0, 0],
     [0, 0, 0, 0, 0, 24, 24, 0, 0, 0, 24, 24, 48, 0, 0, 0],
     [0, 0, 6, 12, 24, 48, 96, 96, 48, 24, 12, 6, 0, 0, 0, 0],
     [0, 0, 0, 0, 0, 126, 0, 0, 126, 0, 0, 0, 0, 0, 0, 0],
     [0, 0, 96, 48, 24, 12, 6, 6, 12, 24, 48, 96, 0, 0, 0, 0],
     [0, 0, 124, 198, 6, 12, 24, 48, 48, 0, 48, 48, 0, 0, 0, 0],
     [0, 0, 0, 124, 194, 218, 218, 218, 218, 222, 192, 124, 0, 0, 0, 0],
     [0, 0, 124, 198, 198, 198, 254, 198, 198, 198, 198, 198, 0, 0, 0, 0],
     [0, 0, 252, 198, 198, 198, 252, 198, 198, 198, 198, 252, 0, 0, 0, 0],
     [0, 0, 126, 192, 192, 192, 192, 192, 192, 192, 192, 126, 0, 0, 0, 0],
     [0, 0, 252, 198, 198, 198, 198, 198, 198, 198, 198, 252, 0, 0, 0, 0],
     [0, 0, 126, 192, 192, 192, 248, 192, 192, 192, 192, 126, 0, 0, 0, 0],
     [0, 0, 126, 192, 192, 192, 248, 192, 192, 192, 192, 192, 0, 0, 0, 0],
     [0, 0, 126, 192, 192, 192, 222, 198, 198, 198, 198, 126, 0, 0, 0, 0],
     [0, 0, 198, 198, 198, 198, 254, 198, 198, 198, 198, 198, 0, 0, 0, 0],
     [0, 0, 126, 24, 24, 24, 24, 24, 24, 24, 24, 126, 0, 0, 0, 0],
     [0, 0, 126, 24, 24, 24, 24, 24, 24, 24, 24, 240, 0, 0, 0, 0],
     [0, 0, 198, 198, 198, 204, 248, 204, 198, 198, 198, 198, 0, 0, 0, 0],
     [0, 0, 192, 192, 192, 192, 192, 192, 192, 192, 192, 126, 0, 0, 0, 0],
     [0, 0, 198, 238, 254, 214, 198, 198, 198, 198, 198, 198, 0, 0, 0, 0],
     [0, 0, 198, 198, 230, 230, 214, 214, 206, 206, 198, 198, 0, 0, 0, 0],
     [0, 0, 124, 198, 198, 198, 198, 198, 198, 198, 198, 124, 0, 0, 0, 0],
     [0, 0, 252, 198, 198, 198, 252, 192, 192, 192, 192, 192, 0, 0, 0, 0],
     [0, 0, 124, 198, 198, 198, 198, 198, 198, 214, 214, 124, 24, 12, 0, 0],
     [0, 0, 252, 198, 198, 198, 252, 198, 198, 198, 198, 198, 0, 0, 0, 0],
     [0, 0, 126, 192, 192, 192, 124, 6, 6, 6, 6, 252, 0, 0, 0, 0],
     [0, 0, 255, 24, 24, 24, 24, 24, 24, 24, 24, 24, 0, 0, 0, 0],
     [0, 0, 198, 198, 198, 198, 198, 198, 198, 198, 198, 126, 0, 0, 0, 0],
     [0, 0, 198, 198, 198, 198, 198, 198, 198, 108, 56, 16, 0, 0, 0, 0],
     [0, 0, 198, 198, 198, 198, 198, 198, 214, 254, 238, 198, 0, 0, 0, 0],
     [0, 0, 198, 198, 198, 108, 56, 108, 198, 198, 198, 198, 0, 0, 0, 0],
     [0, 0, 198, 198, 198, 198, 126, 6, 6, 6, 6, 252, 0, 0, 0, 0],
     [0, 0, 254, 6, 6, 12, 24, 48, 96, 192, 192, 254, 0, 0, 0, 0],
     [0, 62, 48, 48, 48, 48, 48, 48, 48, 48, 48, 48, 62, 0, 0, 0],
     [0, 192, 192, 96, 96, 48, 48, 24, 24, 12, 12, 6, 6, 0, 0, 0],
     [0, 124, 12, 12, 12, 12, 12, 12, 12, 12, 12, 12, 124, 0, 0, 0],
     [0, 16, 56, 108, 198, 0, 0, 0, 0, 0, 0, 0, 0, 0, 0, 0],
     [0, 0, 0, 0, 0, 0, 0, 0, 0, 0, 0, 0, 0, 0, 254, 0],
     [0, 48, 24, 12, 0, 0, 0, 0, 0, 0, 0, 0, 0, 0, 0, 0],
     [0, 0, 0, 0, 0, 124, 6, 126, 198, 198, 198, 126, 0, 0, 0, 0],
     [0, 0, 192, 192, 192, 252, 198, 198, 198, 198, 198, 252, 0, 0, 0, 0],
     [0, 0, 0, 0, 0, 126, 192, 192, 192, 192, 192, 126, 0, 0, 0, 0],
     [0, 0, 6, 6, 6, 126, 198, 198, 198, 198, 198, 126, 0, 0, 0, 0],
     [0, 0, 0, 0, 0, 126, 198, 198, 254, 192, 192, 126, 0, 0, 0, 0],
     [0, 0, 30, 48, 48, 48, 124, 48, 48, 48, 48, 48, 0, 0, 0, 0],
     [0, 0, 0, 0, 0, 126, 198, 198, 198, 198, 198, 124, 6, 6, 252, 0],
     [0, 0, 192, 192, 192, 252, 198, 198, 198, 198, 198, 198, 0, 0, 0, 0],
     [0, 0, 24, 24, 0, 56, 24, 24, 24, 24, 24, 28, 0, 0, 0, 0],
     [0, 0, 24, 24, 0, 24, 24, 24, 24, 24, 24, 24, 24, 24, 112, 0],
     [0, 0, 192, 192, 192, 204, 216, 240, 240, 216, 204, 198, 0, 0, 0, 0],
     [0, 0, 48, 48, 48, 48, 48, 48, 48, 48, 48, 28, 0, 0, 0, 0],
     [0, 0, 0, 0, 0, 236, 214, 214, 214, 214, 198, 198, 0, 0, 0, 0],
     [0, 0, 0, 0, 0, 252, 198, 198, 198, 198, 198, 198, 0, 0, 0, 0],
     [0, 0, 0, 0, 0, 124, 198, 198, 198, 198, 198, 124, 0, 0, 0, 0],
     [0, 0, 0, 0, 0, 252, 198, 198, 198, 198, 198, 252, 192, 192, 192, 0],
     [0, 0, 0, 0, 0, 126, 198, 198, 198, 198, 198, 126, 6, 6, 6, 0],
     [0, 0, 0, 0, 0, 126, 198, 192, 192, 192, 192, 192, 0, 0, 0, 0],
     [0, 0, 0, 0, 0, 126, 192, 192, 124, 6, 6, 252, 0, 0, 0, 0],
     [0, 0, 48, 48, 48, 124, 48, 48, 48, 48, 48, 30, 0, 0, 0, 0],
     [0, 0, 0, 0, 0, 198, 198, 198, 198, 198, 198, 126, 0, 0, 0, 0],
     [0, 0, 0, 0, 0, 198, 198, 198, 198, 108, 56, 16, 0, 0, 0, 0],
     [0, 0, 0, 0, 0, 198, 198, 214, 214, 214, 214, 110, 0, 0, 0, 0],
     [0, 0, 0, 0, 0, 198, 108, 56, 56, 108, 198, 198, 0, 0, 0, 0],
     [0, 0, 0, 0, 0, 198, 198, 198, 198, 198, 198, 126, 6, 6, 252, 0],
     [0, 0, 0, 0, 0, 254, 6, 12, 24, 48, 96, 254, 0, 0, 0, 0],
     [0, 14, 24, 24, 24, 24, 112, 112, 24, 24, 24, 24, 14, 0, 0, 0],
     [0, 24, 24, 24, 24, 24, 24, 24, 24, 24, 24, 24, 24, 0, 0, 0],
     [0, 112, 24, 24, 24, 24, 14, 14, 24, 24, 24, 24, 112, 0, 0, 0],
     [0, 0, 0, 0, 0, 0, 50, 126, 76, 0, 0, 0, 0, 0, 0, 0]]"

lemma font8x16_shape: "int (length font8x16) = FONT_GLYPHS" "\<forall>g \<in> set font8x16. length g = 16"
  by (simp_all add: font8x16_def FONT_GLYPHS_def FONT_FIRST_def FONT_LAST_def)

end
