(* ===== verification/Bootinfo.thy ===== *)
theory Bootinfo
  imports PmmInit
begin

text \<open>
  The boot information kept by \<^verbatim>\<open>kernel/bootinfo.c\<close>: the framebuffer tag of the Multiboot2 structure. The
  structure is read before paging is set up, at physical addresses. Its own \<open>mb2_tag\<close> has the
  layout of the one in \<^verbatim>\<open>pmm.c\<close>.
\<close>

record boot_framebuffer =
  fb_addr :: u64
  fb_pitch :: u32
  fb_width :: u32
  fb_height :: u32
  fb_bpp :: u8
  fb_type :: u8
  red_pos :: u8
  red_size :: u8
  green_pos :: u8
  green_size :: u8
  blue_pos :: u8
  blue_size :: u8

record bootinfo_state =
  boot_fb :: boot_framebuffer
  have_fb :: bool

text \<open>The framebuffer tag, field by field at its packed offsets.\<close>

record mb2_tag_framebuffer = mb2_tag +
  tfb_addr :: u64
  tfb_pitch :: u32
  tfb_width :: u32
  tfb_height :: u32
  tfb_bpp :: u8
  tfb_type :: u8
  tfb_reserved :: u16
  tfb_red_pos :: u8
  tfb_red_size :: u8
  tfb_green_pos :: u8
  tfb_green_size :: u8
  tfb_blue_pos :: u8
  tfb_blue_size :: u8

definition mb2_tag_framebuffer_at :: "memory \<Rightarrow> u64 \<Rightarrow> mb2_tag_framebuffer" where
  "mb2_tag_framebuffer_at m p =
     \<lparr>tag_type = load32 m p, tag_size = load32 m (p + 4), tfb_addr = load64 m (p + 8), tfb_pitch = load32 m (p + 16),
      tfb_width = load32 m (p + 20), tfb_height = load32 m (p + 24), tfb_bpp = m (p + 28), tfb_type = m (p + 29),
      tfb_reserved = load16 m (p + 30), tfb_red_pos = m (p + 32), tfb_red_size = m (p + 33),
      tfb_green_pos = m (p + 34), tfb_green_size = m (p + 35), tfb_blue_pos = m (p + 36), tfb_blue_size = m (p + 37)\<rparr>"

definition fb_tag :: "memory \<Rightarrow> u64 \<Rightarrow> bootinfo_state \<Rightarrow> bootinfo_state" where
  "fb_tag m p b =
     (if tag_type (mb2_tag_at m p) = 8 then
        let t = mb2_tag_framebuffer_at m p;
            f = (boot_fb b)\<lparr>fb_addr := tfb_addr t, fb_pitch := tfb_pitch t, fb_width := tfb_width t,
                  fb_height := tfb_height t, fb_bpp := tfb_bpp t, fb_type := tfb_type t\<rparr>;
            f = (if tfb_type t = 1
                 then f\<lparr>red_pos := tfb_red_pos t, red_size := tfb_red_size t, green_pos := tfb_green_pos t,
                        green_size := tfb_green_size t, blue_pos := tfb_blue_pos t, blue_size := tfb_blue_size t\<rparr>
                 else f)
        in b\<lparr>boot_fb := f, have_fb := True\<rparr>
      else b)"

text \<open>\<open>(tag->size + 7) & ~7u\<close>, all in 32 bits.\<close>

definition fb_advance :: "memory \<Rightarrow> u64 \<Rightarrow> u64" where
  "fb_advance m p = ucast ((tag_size (mb2_tag_at m p) + 7) AND NOT (7 :: u32))"

definition bootinfo_init :: "memory \<Rightarrow> u64 \<Rightarrow> bootinfo_state \<Rightarrow> bootinfo_state option" where
  "bootinfo_init m mb2_info b =
     (let total_size = load32 m mb2_info; endp = mb2_info + ucast total_size in
      map_option snd (while_option (\<lambda>(p, b). p < endp \<and> tag_type (mb2_tag_at m p) \<noteq> 0)
        (\<lambda>(p, b). (p + fb_advance m p, fb_tag m p b)) (mb2_info + 8, b)))"

definition bootinfo_framebuffer :: "bootinfo_state \<Rightarrow> boot_framebuffer option" where
  "bootinfo_framebuffer b = (if have_fb b then Some (boot_fb b) else None)"

end
