(* ===== verification/Gfx.thy ===== *)
theory Gfx
  imports Vmm Font Bootinfo
begin

text \<open>
  Drawing, \<^verbatim>\<open>kernel/gfx/gfx.c\<close>. The back buffer and the framebuffer are bytes of physical memory reached
  through the direct map. Coordinates are values of a C \<open>int\<close>: every sum and difference of them goes through
  \<open>cint\<close>, which keeps 32 bits, as the processor does. (C leaves signed overflow undefined, so where
  \<open>cint\<close> is not the identity the model is one possible behaviour.) Interrupt flags and messages are left out.
\<close>

record gfx_state = vmm_state +
  gready :: bool
  scrW :: int
  scrH :: int
  pitch :: u32
  bytespp :: int
  front :: u64
  backbuf :: u64
  cur_on :: bool
  cur_x :: int
  cur_y :: int

definition cint :: "int \<Rightarrow> int" where
  "cint v = signed_take_bit 31 v"

definition RGB :: "u32 \<Rightarrow> u32 \<Rightarrow> u32 \<Rightarrow> u32" where
  "RGB r g b = push_bit 16 r OR push_bit 8 g OR b"

definition CUR_W :: int where
  "CUR_W = 11"

definition CUR_H :: int where
  "CUR_H = 17"

definition cursor_shape :: "string list" where
  "cursor_shape =
    [''X          '',
     ''XX         '',
     ''X.X        '',
     ''X..X       '',
     ''X...X      '',
     ''X....X     '',
     ''X.....X    '',
     ''X......X   '',
     ''X.......X  '',
     ''X........X '',
     ''X.....XXXXX'',
     ''X..X..X    '',
     ''X.X X..X   '',
     ''XX  X..X   '',
     ''X    X..X  '',
     ''     X..X  '',
     ''      XX   '']"

definition gfx_ready :: "'a gfx_state_scheme \<Rightarrow> bool" where
  "gfx_ready s = gready s"

definition gfx_width :: "'a gfx_state_scheme \<Rightarrow> int" where
  "gfx_width s = scrW s"

definition gfx_height :: "'a gfx_state_scheme \<Rightarrow> int" where
  "gfx_height s = scrH s"

section \<open>Start-up\<close>

text \<open>\<open>True\<close> is the return value 0. The casts of width and height to \<open>int\<close> keep the sign bit.\<close>

definition gfx_init :: "boot_framebuffer option \<Rightarrow> 'a gfx_state_scheme \<Rightarrow> (bool \<times> 'a gfx_state_scheme) option" where
  "gfx_init fbo s =
     (case fbo of None \<Rightarrow> Some (False, s)
      | Some fb \<Rightarrow>
          if fb_type fb \<noteq> 1 \<or> (fb_bpp fb \<noteq> 32 \<and> fb_bpp fb \<noteq> 24) then Some (False, s)
          else do {
            let s = s\<lparr>scrW := sint (fb_width fb), scrH := sint (fb_height fb), pitch := fb_pitch fb,
                      bytespp := uint (fb_bpp fb div 8)\<rparr>;
            (v, s) \<leftarrow> vmm_map_mmio (fb_addr fb) (ucast (pitch s) * of_int (scrH s)) s;
            let s = s\<lparr>front := v\<rparr>;
            let bytes = of_int (scrW s) * of_int (scrH s) * 4;
            let frames = (bytes + FRAME_SIZE - 1) div FRAME_SIZE;
            let (phys, s) = pmm_alloc_contig frames s;
            if phys = 0 then Some (False, s)
            else Some (True, s\<lparr>backbuf := phys_to_virt phys, gready := True\<rparr>)
          })"

section \<open>The back buffer\<close>

text \<open>\<open>back[(uint64_t)y * W + x]\<close>, with the index scaled to bytes.\<close>

definition back_addr :: "'a gfx_state_scheme \<Rightarrow> int \<Rightarrow> int \<Rightarrow> u64" where
  "back_addr s x y = kaddr (backbuf s + 4 * (of_int y * of_int (scrW s) + of_int x))"

definition back_get :: "'a gfx_state_scheme \<Rightarrow> int \<Rightarrow> int \<Rightarrow> u32" where
  "back_get s x y = load32 (ram s) (back_addr s x y)"

definition back_set :: "int \<Rightarrow> int \<Rightarrow> u32 \<Rightarrow> 'a gfx_state_scheme \<Rightarrow> 'a gfx_state_scheme" where
  "back_set x y c s = s\<lparr>ram := store32 (ram s) (back_addr s x y) c\<rparr>"

definition clip :: "'a gfx_state_scheme \<Rightarrow> int \<Rightarrow> int \<Rightarrow> int \<Rightarrow> int \<Rightarrow> (int \<times> int \<times> int \<times> int) option" where
  "clip s x y w h =
     (let (x, w) = (if x < 0 then (0, cint (w + x)) else (x, w));
          (y, h) = (if y < 0 then (0, cint (h + y)) else (y, h));
          w = (if cint (x + w) > scrW s then cint (scrW s - x) else w);
          h = (if cint (y + h) > scrH s then cint (scrH s - y) else h)
      in if w > 0 \<and> h > 0 then Some (x, y, w, h) else None)"

definition fill_row :: "int \<Rightarrow> int \<Rightarrow> u32 \<Rightarrow> int \<Rightarrow> 'a gfx_state_scheme \<Rightarrow> 'a gfx_state_scheme" where
  "fill_row x w color row = fold (\<lambda>i. back_set (x + i) row color) [0..w - 1]"

definition gfx_fill_rect :: "int \<Rightarrow> int \<Rightarrow> int \<Rightarrow> int \<Rightarrow> u32 \<Rightarrow> 'a gfx_state_scheme \<Rightarrow> 'a gfx_state_scheme" where
  "gfx_fill_rect x y w h color s =
     (if \<not> gready s then s else case clip s x y w h of None \<Rightarrow> s
      | Some (x, y, w, h) \<Rightarrow> fold (fill_row x w color) [y..cint (y + h) - 1] s)"

text \<open>\<open>char\<close> is signed.\<close>

definition schar :: "char \<Rightarrow> int" where
  "schar c = (if of_char c \<ge> (128 :: int) then of_char c - 256 else of_char c)"

definition draw_row :: "int \<Rightarrow> int \<Rightarrow> u8 \<Rightarrow> u32 \<Rightarrow> u32 \<Rightarrow> 'a gfx_state_scheme \<Rightarrow> 'a gfx_state_scheme" where
  "draw_row x py bits fg bg = fold (\<lambda>col s.
     let px = cint (x + col) in
     if px < 0 \<or> px \<ge> scrW s then s
     else back_set px py (if bits AND drop_bit (nat col) 0x80 \<noteq> 0 then fg else bg) s) [0..FONT_W - 1]"

definition gfx_draw_char :: "int \<Rightarrow> int \<Rightarrow> char \<Rightarrow> u32 \<Rightarrow> u32 \<Rightarrow> 'a gfx_state_scheme \<Rightarrow> 'a gfx_state_scheme" where
  "gfx_draw_char x y c fg bg s =
     (if \<not> gready s then s
      else let c = (if schar c < FONT_FIRST \<or> schar c > FONT_LAST then CHR ''?'' else c);
               glyph = font8x16 ! nat (schar c - FONT_FIRST)
           in fold (\<lambda>row s. let py = cint (y + row) in
                if py < 0 \<or> py \<ge> scrH s then s else draw_row x py (glyph ! nat row) fg bg s) [0..FONT_H - 1] s)"

fun gfx_draw_text :: "int \<Rightarrow> int \<Rightarrow> string \<Rightarrow> u32 \<Rightarrow> u32 \<Rightarrow> 'a gfx_state_scheme \<Rightarrow> 'a gfx_state_scheme" where
  "gfx_draw_text x y [] fg bg s = s"
| "gfx_draw_text x y (c # cs) fg bg s = gfx_draw_text (cint (x + FONT_W)) y cs fg bg (gfx_draw_char x y c fg bg s)"

definition copy_row :: "int \<Rightarrow> int \<Rightarrow> int \<Rightarrow> int \<Rightarrow> 'a gfx_state_scheme \<Rightarrow> 'a gfx_state_scheme" where
  "copy_row x w dy row = fold (\<lambda>i s. back_set (x + i) row (back_get s (x + i) (cint (row + dy))) s) [0..w - 1]"

definition gfx_scroll_up :: "int \<Rightarrow> int \<Rightarrow> int \<Rightarrow> int \<Rightarrow> int \<Rightarrow> u32 \<Rightarrow> 'a gfx_state_scheme \<Rightarrow> 'a gfx_state_scheme" where
  "gfx_scroll_up x y w h dy bg s =
     (if \<not> gready s then s else case clip s x y w h of None \<Rightarrow> s
      | Some (x, y, w, h) \<Rightarrow>
          if dy \<ge> h then gfx_fill_rect x y w h bg s
          else let top = cint (cint (y + h) - dy)
               in gfx_fill_rect x top w dy bg (fold (copy_row x w dy) [y..top - 1] s))"

section \<open>The screen\<close>

definition store_byte :: "u64 \<Rightarrow> u8 \<Rightarrow> 'a gfx_state_scheme \<Rightarrow> 'a gfx_state_scheme" where
  "store_byte v b s = s\<lparr>ram := (ram s)(kaddr v := b)\<rparr>"

text \<open>One pixel of the framebuffer: 4 bytes, or 3 with blue first.\<close>

definition front_pixel :: "int \<Rightarrow> int \<Rightarrow> u32 \<Rightarrow> 'a gfx_state_scheme \<Rightarrow> 'a gfx_state_scheme" where
  "front_pixel x y c s =
     (let line = front s + of_int y * ucast (pitch s) in
      if bytespp s = 4 then s\<lparr>ram := store32 (ram s) (kaddr (line + 4 * of_int x)) c\<rparr>
      else let p = line + of_int x * 3 in
        store_byte (p + 2) (ucast (drop_bit 16 c)) (store_byte (p + 1) (ucast (drop_bit 8 c)) (store_byte p (ucast c) s)))"

definition overlay_pixel :: "int \<Rightarrow> int \<Rightarrow> 'a gfx_state_scheme \<Rightarrow> 'a gfx_state_scheme" where
  "overlay_pixel py px s =
     (let c = cursor_shape ! nat (py - cur_y s) ! nat (px - cur_x s) in
      if c = CHR ''X'' then front_pixel px py (RGB 0x00 0x00 0x00) s
      else if c = CHR ''.'' then front_pixel px py (RGB 0xFF 0xFF 0xFF) s
      else s)"

definition overlay_cursor :: "int \<Rightarrow> int \<Rightarrow> int \<Rightarrow> int \<Rightarrow> 'a gfx_state_scheme \<Rightarrow> 'a gfx_state_scheme" where
  "overlay_cursor x y w h s =
     (if \<not> cur_on s then s
      else let x0 = (if x > cur_x s then x else cur_x s);
               y0 = (if y > cur_y s then y else cur_y s);
               x1 = (if cint (x + w) < cint (cur_x s + CUR_W) then cint (x + w) else cint (cur_x s + CUR_W));
               y1 = (if cint (y + h) < cint (cur_y s + CUR_H) then cint (y + h) else cint (cur_y s + CUR_H))
           in fold (\<lambda>py. fold (overlay_pixel py) [x0..x1 - 1]) [y0..y1 - 1] s)"

text \<open>The inner loops write the pixels \<open>front_pixel\<close> writes, from the back buffer.\<close>

definition present_row :: "int \<Rightarrow> int \<Rightarrow> int \<Rightarrow> 'a gfx_state_scheme \<Rightarrow> 'a gfx_state_scheme" where
  "present_row x w row = fold (\<lambda>i s. front_pixel (x + i) row (back_get s (x + i) row) s) [0..w - 1]"

definition gfx_present :: "int \<Rightarrow> int \<Rightarrow> int \<Rightarrow> int \<Rightarrow> 'a gfx_state_scheme \<Rightarrow> 'a gfx_state_scheme" where
  "gfx_present x y w h s =
     (if \<not> gready s then s else case clip s x y w h of None \<Rightarrow> s
      | Some (x, y, w, h) \<Rightarrow> overlay_cursor x y w h (fold (present_row x w) [y..cint (y + h) - 1] s))"

definition gfx_cursor_set :: "int \<Rightarrow> int \<Rightarrow> 'a gfx_state_scheme \<Rightarrow> 'a gfx_state_scheme" where
  "gfx_cursor_set x y s =
     (if \<not> gready s then s
      else let ox = cur_x s; oy = cur_y s; was_on = cur_on s;
               s = s\<lparr>cur_x := x, cur_y := y, cur_on := True\<rparr>;
               s = (if was_on then gfx_present ox oy CUR_W CUR_H s else s)
           in gfx_present x y CUR_W CUR_H s)"

end
