(* ===== verification/Canvas.thy ===== *)
theory Canvas
  imports Main
begin

text \<open>
  A rectangular array of cells behind a getter and a setter: what the drawing code relies on of the
  back buffer, the framebuffer and the text screen. Loops that paint cells, and loops that move rows up, are analysed
  once, here.
\<close>

locale canvas =
  fixes ok :: "'s \<Rightarrow> bool"
    and inside :: "int \<Rightarrow> int \<Rightarrow> bool"
    and get :: "'s \<Rightarrow> int \<Rightarrow> int \<Rightarrow> 'c"
    and set_cell :: "int \<Rightarrow> int \<Rightarrow> 'c \<Rightarrow> 's \<Rightarrow> 's"
  assumes ok_set: "\<lbrakk>ok s; inside x y\<rbrakk> \<Longrightarrow> ok (set_cell x y c s)"
    and get_set: "\<lbrakk>ok s; inside x y; inside x' y'\<rbrakk> \<Longrightarrow>
      get (set_cell x y c s) x' y' = (if x' = x \<and> y' = y then c else get s x' y')"
begin

text \<open>A step paints the cells of a region with a picture and leaves every other cell alone.\<close>

definition paints :: "('s \<Rightarrow> 's) \<Rightarrow> (int \<times> int) set \<Rightarrow> (int \<Rightarrow> int \<Rightarrow> 'c) \<Rightarrow> bool" where
  "paints f A v \<longleftrightarrow> (\<forall>s. ok s \<longrightarrow> ok (f s) \<and>
     (\<forall>x y. inside x y \<longrightarrow> get (f s) x y = (if (x, y) \<in> A then v x y else get s x y)))"

lemma paintsD:
  assumes "paints f A v" "ok s"
  shows "ok (f s)" and "inside x y \<Longrightarrow> get (f s) x y = (if (x, y) \<in> A then v x y else get s x y)"
  using assms by (auto simp: paints_def)

lemma paints_set: "\<lbrakk>inside x y; v x y = c\<rbrakk> \<Longrightarrow> paints (set_cell x y c) {(x, y)} v"
  by (auto simp: paints_def ok_set get_set)

lemma paints_skip: "paints (\<lambda>s. s) {} v"
  by (simp add: paints_def)

lemma paints_comp: "\<lbrakk>paints f A v; paints g B v\<rbrakk> \<Longrightarrow> paints (\<lambda>s. g (f s)) (A \<union> B) v"
  by (simp add: paints_def)

lemma paints_fold: "(\<And>i. i \<in> set ks \<Longrightarrow> paints (f i) (A i) v) \<Longrightarrow> paints (fold f ks) (\<Union>i \<in> set ks. A i) v"
proof (induction ks)
  case Nil
  show ?case by (simp add: paints_def)
next
  case (Cons i js)
  then have "paints (\<lambda>s. fold f js (f i s)) (A i \<union> (\<Union>i \<in> set js. A i)) v"
    by (intro paints_comp) auto
  then show ?case by (simp add: paints_def)
qed

lemma paints_cong: "\<lbrakk>paints f A v; \<And>s. ok s \<Longrightarrow> g s = f s; A = B\<rbrakk> \<Longrightarrow> paints g B v"
  by (simp add: paints_def)

section \<open>Moving rows up\<close>

lemma copy_cells:
  assumes "ok s" "dy \<noteq> 0" and "\<And>i. i \<in> set ks \<Longrightarrow> inside (x + i) row \<and> inside (x + i) (row + dy)"
  shows "ok (fold (\<lambda>i s. set_cell (x + i) row (get s (x + i) (row + dy)) s) ks s) \<and>
    (\<forall>x' y'. inside x' y' \<longrightarrow> get (fold (\<lambda>i s. set_cell (x + i) row (get s (x + i) (row + dy)) s) ks s) x' y' =
       (if y' = row \<and> (\<exists>i \<in> set ks. x' = x + i) then get s x' (row + dy) else get s x' y'))"
  using assms(1,3)
proof (induction ks arbitrary: s)
  case (Cons i js)
  let ?s = "set_cell (x + i) row (get s (x + i) (row + dy)) s"
  have i: "inside (x + i) row" "inside (x + i) (row + dy)" using Cons.prems by auto
  have s: "ok ?s" using Cons.prems i ok_set by simp
  have set: "inside x' y' \<Longrightarrow> get ?s x' y' = (if x' = x + i \<and> y' = row then get s (x + i) (row + dy) else get s x' y')" for x' y'
    using get_set [OF Cons.prems(1) i(1)] by simp
  have js: "\<And>j. j \<in> set js \<Longrightarrow> inside (x + j) row \<and> inside (x + j) (row + dy)" using Cons.prems(2) by simp
  have keep: "get ?s (x + j) (row + dy) = get s (x + j) (row + dy)" if "j \<in> set js" for j
    using set [of "x + j" "row + dy"] js [OF that] assms(2) by simp
  show ?case using Cons.IH [OF s js] set keep by auto
qed simp

lemma scroll_rows:
  assumes "ok s" "0 < dy" and "\<And>r i. \<lbrakk>y \<le> r; r < y + int n + dy; i \<in> set ks\<rbrakk> \<Longrightarrow> inside (x + i) r"
  shows "ok (fold (\<lambda>row. fold (\<lambda>i s. set_cell (x + i) row (get s (x + i) (row + dy)) s) ks) [y..y + int n - 1] s) \<and>
    (\<forall>x' y'. inside x' y' \<longrightarrow>
       get (fold (\<lambda>row. fold (\<lambda>i s. set_cell (x + i) row (get s (x + i) (row + dy)) s) ks) [y..y + int n - 1] s) x' y' =
       (if y \<le> y' \<and> y' < y + int n \<and> (\<exists>i \<in> set ks. x' = x + i) then get s x' (y' + dy) else get s x' y'))"
  using assms(3)
proof (induction n)
  case (Suc n)
  let ?row = "\<lambda>row. fold (\<lambda>i s. set_cell (x + i) row (get s (x + i) (row + dy)) s) ks"
  let ?t = "fold ?row [y..y + int n - 1] s"
  have rows: "[y..y + int (Suc n) - 1] = [y..y + int n - 1] @ [y + int n]"
    using upto_rec2 [of y "y + int n"] by (simp add: algebra_simps)
  have "\<And>r i. \<lbrakk>y \<le> r; r < y + int n + dy; i \<in> set ks\<rbrakk> \<Longrightarrow> inside (x + i) r"
    using Suc.prems by simp
  note t = Suc.IH [OF this]
  have here: "inside (x + i) (y + int n) \<and> inside (x + i) (y + int n + dy)" if "i \<in> set ks" for i
    using that Suc.prems assms(2) by simp
  have src: "get ?t (x + i) (y + int n + dy) = get s (x + i) (y + int n + dy)" if "i \<in> set ks" for i
    using t here [OF that] assms(2) by simp
  have dy: "dy \<noteq> 0" using assms(2) by simp
  note cp = copy_cells [OF conjunct1 [OF t] dy here]
  have last: "get (?row (y + int n) ?t) x' y' =
      (if y \<le> y' \<and> y' < y + int (Suc n) \<and> (\<exists>i \<in> set ks. x' = x + i) then get s x' (y' + dy) else get s x' y')"
    if "inside x' y'" for x' y'
  proof (cases "y' = y + int n")
    case True
    then show ?thesis using cp t src that by auto
  next
    case False
    then have "get (?row (y + int n) ?t) x' y' = get ?t x' y'" using cp that by simp
    moreover have "y' < y + int (Suc n) \<longleftrightarrow> y' < y + int n" using False by auto
    ultimately show ?thesis using conjunct2 [OF t] that by simp
  qed
  show ?case unfolding rows fold_append comp_apply fold.simps id_apply using cp last by blast
qed (auto simp: assms(1))

end

end
