(* ===== verification/GfxSpec.thy ===== *)
theory GfxSpec
  imports Gfx Canvas
begin

text \<open>
  The back buffer as a canvas: the drawing operations change exactly the pixels of the part of
  their rectangle that is on the screen, and nothing else in memory.
\<close>

section \<open>The back buffer\<close>

text \<open>A screen of a size the index arithmetic can hold, with a buffer of all its pixels inside the direct map.\<close>

definition screen_ok :: "'a gfx_state_scheme \<Rightarrow> bool" where
  "screen_ok s \<longleftrightarrow> gready s \<and> 0 < scrW s \<and> 0 < scrH s \<and> scrW s < 1073741824 \<and> scrH s < 1073741824 \<and>
     unat (kaddr (backbuf s)) + 4 * nat (scrW s * scrH s) < 140737488355328"

definition on_screen :: "'a gfx_state_scheme \<Rightarrow> int \<Rightarrow> int \<Rightarrow> bool" where
  "on_screen s x y \<longleftrightarrow> 0 \<le> x \<and> x < scrW s \<and> 0 \<le> y \<and> y < scrH s"

text \<open>The physical bytes of the back buffer.\<close>

definition back_bytes :: "'a gfx_state_scheme \<Rightarrow> u64 set" where
  "back_bytes s = {a. unat (kaddr (backbuf s)) \<le> unat a \<and>
     unat a < unat (kaddr (backbuf s)) + 4 * nat (scrW s * scrH s)}"

text \<open>The states drawing can lead to from \<open>s\<close>: other pixels, and nothing else.\<close>

definition redrawn :: "'a gfx_state_scheme \<Rightarrow> 'a gfx_state_scheme \<Rightarrow> bool" where
  "redrawn s t \<longleftrightarrow> t = s\<lparr>ram := ram t\<rparr> \<and> (\<forall>a. a \<notin> back_bytes s \<longrightarrow> ram t a = ram s a)"

lemma redrawn_refl: "redrawn s s"
  by (simp add: redrawn_def)

lemma redrawn_fields:
  assumes "redrawn s t"
  shows "scrW t = scrW s" "scrH t = scrH s" "backbuf t = backbuf s" "gready t = gready s"
    and "back_addr t = back_addr s" "clip t = clip s"
proof -
  obtain m where "t = s\<lparr>ram := m\<rparr>" using assms by (auto simp: redrawn_def)
  then show "scrW t = scrW s" "scrH t = scrH s" "backbuf t = backbuf s" "gready t = gready s"
    "back_addr t = back_addr s" "clip t = clip s" by (simp_all add: back_addr_def clip_def fun_eq_iff)
qed

abbreviation pix :: "'a gfx_state_scheme \<Rightarrow> int \<Rightarrow> int \<Rightarrow> nat" where
  "pix s x y \<equiv> nat (y * scrW s + x)"

lemma pixel_index:
  assumes "on_screen s x y"
  shows "0 \<le> y * scrW s + x" and "pix s x y < nat (scrW s * scrH s)"
proof -
  show ge: "0 \<le> y * scrW s + x" using assms by (simp add: on_screen_def)
  have "y * scrW s + scrW s \<le> scrH s * scrW s"
    using assms mult_right_mono [of "y + 1" "scrH s" "scrW s"] by (simp add: on_screen_def algebra_simps)
  then have "y * scrW s + x < scrW s * scrH s" using assms by (simp add: on_screen_def algebra_simps)
  then show "pix s x y < nat (scrW s * scrH s)" using ge by simp
qed

lemma pixel_index_inj:
  assumes "on_screen s x y" "on_screen s x' y'" "pix s x y = pix s x' y'"
  shows "x = x' \<and> y = y'"
proof -
  have eq: "y * scrW s + x = y' * scrW s + x'"
    using assms(3) pixel_index(1) [OF assms(1)] pixel_index(1) [OF assms(2)] by simp
  have "y = (y * scrW s + x) div scrW s" "y' = (y' * scrW s + x') div scrW s"
    using assms(1,2) by (simp_all add: on_screen_def)
  then have "y = y'" using eq by metis
  then show ?thesis using eq by simp
qed

lemma unat_back_addr:
  assumes "screen_ok s" "on_screen s x y"
  shows "unat (back_addr s x y) = unat (kaddr (backbuf s)) + 4 * pix s x y"
proof -
  have w: "4 * (of_int y * of_int (scrW s) + of_int x) = (of_nat (4 * pix s x y) :: u64)"
    using pixel_index(1) [OF assms(2)] by (simp add: algebra_simps)
  have lt: "unat (kaddr (backbuf s)) + 4 * pix s x y < 140737488355328"
    using pixel_index(2) [OF assms(2)] assms(1) unfolding screen_ok_def by linarith
  then have n: "unat (of_nat (4 * pix s x y) :: u64) = 4 * pix s x y"
    by (intro unat_of_nat_small) linarith
  show ?thesis unfolding back_addr_def w using n lt by (subst unat_kaddr_add) simp_all
qed

lemma store32_bytes:
  assumes "unat a + 4 \<le> 18446744073709551616"
  shows "store32 m a v x = (if unat a \<le> unat x \<and> unat x < unat a + 4 then ucast (drop_bit (8 * (unat x - unat a)) v) else m x)"
proof (cases "unat a \<le> unat x")
  case True
  then have "unat (x - a) = unat x - unat a" by (simp add: unat_sub word_le_nat_alt)
  then show ?thesis using True by (auto simp: store32_def word_less_nat_alt)
next
  case False
  have "\<not> x - a < 4"
  proof
    assume "x - a < 4"
    then have "unat (x - a) < 4" by (simp add: word_less_nat_alt)
    moreover have "unat (a + (x - a)) = unat a + unat (x - a)"
      using calculation assms by (intro unat_add_nowrap) linarith
    ultimately show False using False by simp
  qed
  then show ?thesis using False by (simp add: store32_def)
qed

lemma load32_store32_other:
  assumes "unat a + 4 \<le> 18446744073709551616" "unat b + 4 \<le> 18446744073709551616"
    and "unat a + 4 \<le> unat b \<or> unat b + 4 \<le> unat a"
  shows "load32 (store32 m a v) b = load32 m b"
proof (rule load32_cong)
  fix k :: u64
  assume "k < 4"
  then have "unat k < 4" by (simp add: word_less_nat_alt)
  then have "unat (b + k) = unat b + unat k" using assms(2) by (intro unat_add_nowrap) linarith
  then show "store32 m a v (b + k) = m (b + k)"
    using assms \<open>unat k < 4\<close> by (auto simp: store32_bytes)
qed

lemma back_get_set:
  assumes "screen_ok s" "on_screen s x y" "on_screen s x' y'"
  shows "back_get (back_set x y c s) x' y' = (if x' = x \<and> y' = y then c else back_get s x' y')"
proof -
  have a: "back_addr (back_set x y c s) x' y' = back_addr s x' y'"
    by (simp add: back_set_def back_addr_def)
  show ?thesis
  proof (cases "x' = x \<and> y' = y")
    case True
    then show ?thesis using a by (simp add: back_get_def back_set_def)
  next
    case False
    have ne: "pix s x y < pix s x' y' \<or> pix s x' y' < pix s x y" using False pixel_index_inj [OF assms(2,3)] by force
    note u = unat_back_addr [OF assms(1,2)] unat_back_addr [OF assms(1,3)]
    note le = pixel_index(2) [OF assms(2)] pixel_index(2) [OF assms(3)]
    have "unat (kaddr (backbuf s)) + 4 * nat (scrW s * scrH s) < 140737488355328" using assms(1) by (simp add: screen_ok_def)
    then have "unat (back_addr s x y) + 4 \<le> 18446744073709551616" "unat (back_addr s x' y') + 4 \<le> 18446744073709551616"
      using u le by linarith+
    moreover have "unat (back_addr s x y) + 4 \<le> unat (back_addr s x' y') \<or> unat (back_addr s x' y') + 4 \<le> unat (back_addr s x y)"
      using ne u by (elim disjE) linarith+
    ultimately have "load32 (store32 (ram s) (back_addr s x y) c) (back_addr s x' y') = load32 (ram s) (back_addr s x' y')"
      by (intro load32_store32_other)
    then show ?thesis using False a by (auto simp: back_get_def back_set_def)
  qed
qed

lemma redrawn_back_set:
  assumes "screen_ok s" "redrawn s t" "on_screen s x y"
  shows "redrawn s (back_set x y c t)"
proof -
  have eq: "t = s\<lparr>ram := ram t\<rparr>" using assms(2) by (simp add: redrawn_def)
  have ad: "back_addr t x y = back_addr s x y" using redrawn_fields [OF assms(2)] by simp
  have "back_set x y c t = s\<lparr>ram := ram (back_set x y c t)\<rparr>" by (subst (1) eq) (simp add: back_set_def back_addr_def redrawn_fields [OF assms(2)])
  moreover have "store32 (ram t) (back_addr s x y) c a = ram t a" if "a \<notin> back_bytes s" for a
  proof -
    note u = unat_back_addr [OF assms(1,3)]
    note b = pixel_index(2) [OF assms(3)]
    have top: "unat (kaddr (backbuf s)) + 4 * nat (scrW s * scrH s) < 140737488355328" using assms(1) by (simp add: screen_ok_def)
    have "unat (back_addr s x y) + 4 \<le> 18446744073709551616" using u b top by linarith
    moreover have "\<not> (unat (back_addr s x y) \<le> unat a \<and> unat a < unat (back_addr s x y) + 4)"
      using that u b top unfolding back_bytes_def mem_Collect_eq by linarith
    ultimately show ?thesis by (auto simp: store32_bytes)
  qed
  ultimately show ?thesis using assms(2) by (simp add: redrawn_def back_set_def ad)
qed

interpretation bb: canvas "\<lambda>t. screen_ok s \<and> redrawn s t" "on_screen s" back_get back_set
  for s :: "'a gfx_state_scheme"
proof
  fix t :: "'a gfx_state_scheme" and x y c
  assume t: "screen_ok s \<and> redrawn s t" and i: "on_screen s x y"
  show "screen_ok s \<and> redrawn s (back_set x y c t)" using t i redrawn_back_set by blast
  fix x' y' assume i': "on_screen s x' y'"
  have "screen_ok t" "on_screen t = on_screen s"
    using t redrawn_fields [of s t] by (auto simp: screen_ok_def on_screen_def fun_eq_iff)
  then show "back_get (back_set x y c t) x' y' = (if x' = x \<and> y' = y then c else back_get t x' y')"
    using i i' by (intro back_get_set) simp_all
qed

section \<open>Clipping\<close>

abbreviation rect :: "int \<Rightarrow> int \<Rightarrow> int \<Rightarrow> int \<Rightarrow> (int \<times> int) set" where
  "rect x y w h \<equiv> {x..<x + w} \<times> {y..<y + h}"

abbreviation screen :: "'a gfx_state_scheme \<Rightarrow> (int \<times> int) set" where
  "screen s \<equiv> {(x, y). on_screen s x y}"

text \<open>Coordinates and sizes of which any two can be added without overflow.\<close>

definition coord :: "int \<Rightarrow> bool" where
  "coord v \<longleftrightarrow> - 1073741824 \<le> v \<and> v < 1073741824"

lemma cint_id: "- 2147483648 \<le> v \<Longrightarrow> v < 2147483648 \<Longrightarrow> cint v = v"
  unfolding cint_def by (rule signed_take_bit_int_eq_self) simp_all

lemma cint_coord: "coord a \<Longrightarrow> coord b \<Longrightarrow> cint (a + b) = a + b" "coord a \<Longrightarrow> coord b \<Longrightarrow> cint (a - b) = a - b"
  by (auto simp: coord_def intro!: cint_id)

text \<open>No sum that clipping such a rectangle computes overflows.\<close>

lemma clip_no_overflow:
  assumes "coord x" "coord y" "coord w" "coord h" "screen_ok s"
  shows "clip s x y w h =
     (let (x, w) = (if x < 0 then (0, w + x) else (x, w));
          (y, h) = (if y < 0 then (0, h + y) else (y, h));
          w = (if x + w > scrW s then scrW s - x else w);
          h = (if y + h > scrH s then scrH s - y else h)
      in if w > 0 \<and> h > 0 then Some (x, y, w, h) else None)"
proof -
  have z: "coord 0" by (simp add: coord_def)
  have s: "coord (scrW s)" "coord (scrH s)" using assms(5) by (simp_all add: screen_ok_def coord_def)
  have "cint (scrW s) = scrW s" "cint (scrH s) = scrH s" using cint_coord(1) [OF z s(1)] cint_coord(1) [OF z s(2)] by simp_all
  then show ?thesis unfolding clip_def by (simp add: cint_coord assms s Let_def)
qed

text \<open>
  Clipping gives the part of the rectangle that is on the screen, and nothing when there is none.
\<close>

lemma clip_exact:
  assumes "coord x" "coord y" "coord w" "coord h" "screen_ok s"
  shows "clip s x y w h = Some (x', y', w', h') \<Longrightarrow>
      rect x' y' w' h' = rect x y w h \<inter> screen s \<and> 0 < w' \<and> 0 < h' \<and> y' + h' = min (y + h) (scrH s)"
    "clip s x y w h = None \<Longrightarrow> rect x y w h \<inter> screen s = {}"
  unfolding clip_no_overflow [OF assms] by (auto simp: on_screen_def Let_def split: if_splits)

lemma clip_coord:
  assumes "rect x y w h = A \<inter> screen s" "0 < w" "0 < h" "screen_ok s"
  shows "0 \<le> x \<and> x + w \<le> scrW s \<and> 0 \<le> y \<and> y + h \<le> scrH s" and "coord x" "coord y" "coord w" "coord h"
proof -
  have "(x, y) \<in> rect x y w h" "(x + w - 1, y + h - 1) \<in> rect x y w h" using assms(2,3) by simp_all
  then have "on_screen s x y" "on_screen s (x + w - 1) (y + h - 1)" unfolding assms(1) by simp_all
  then show b: "0 \<le> x \<and> x + w \<le> scrW s \<and> 0 \<le> y \<and> y + h \<le> scrH s" by (simp add: on_screen_def)
  show "coord x" "coord y" "coord w" "coord h" using b assms(2-4) by (simp_all add: coord_def screen_ok_def)
qed

text \<open>
  Without the bound it fails: a rectangle as wide as an \<open>int\<close> allows, from the second column on, is not clipped at all.
\<close>

lemma clip_overflow:
  assumes "screen_ok s"
  shows "clip s 1 0 2147483647 1 = Some (1, 0, 2147483647, 1)"
proof -
  have "cint 2147483648 = - 2147483648" by (simp add: cint_def)
  moreover have "cint 1 = 1" by (rule cint_id) simp_all
  ultimately show ?thesis using assms by (simp add: clip_def screen_ok_def)
qed

lemma rect_on_screen: "rect x y w h \<subseteq> screen s \<Longrightarrow> 0 \<le> i \<Longrightarrow> i < w \<Longrightarrow> y \<le> r \<Longrightarrow> r < y + h \<Longrightarrow> on_screen s (x + i) r"
  by (auto dest!: subsetD [where c = "(x + i, r)"])

lemma ex_shift: "(\<exists>i \<in> {0..w - 1}. a = x + i) \<longleftrightarrow> x \<le> a \<and> a < x + (w::int)"
  using bexI [of "\<lambda>i. a = x + i" "a - x" "{0..w - 1}"] by auto

lemma fill_rows_paints:
  assumes "rect x y w h \<subseteq> screen s"
  shows "bb.paints s (fold (fill_row x w color) [y..y + h - 1]) (rect x y w h) (\<lambda>_ _. color)"
proof -
  have "bb.paints s (fill_row x w color row) (\<Union>i \<in> set [0..w - 1]. {(x + i, row)}) (\<lambda>_ _. color)"
    if "row \<in> set [y..y + h - 1]" for row
    unfolding fill_row_def using that rect_on_screen [OF assms]
    by (intro bb.paints_fold bb.paints_set) auto
  then have "bb.paints s (fold (fill_row x w color) [y..y + h - 1])
      (\<Union>row \<in> set [y..y + h - 1]. \<Union>i \<in> set [0..w - 1]. {(x + i, row)}) (\<lambda>_ _. color)"
    by (rule bb.paints_fold)
  moreover have "(\<Union>row \<in> set [y..y + h - 1]. \<Union>i \<in> set [0..w - 1]. {(x + i, row)}) = rect x y w h"
    by (auto simp: ex_shift)
  ultimately show ?thesis by simp
qed

lemma fill_rect_paints:
  assumes "coord x" "coord y" "coord w" "coord h" "screen_ok s"
  shows "bb.paints s (gfx_fill_rect x y w h color) (rect x y w h \<inter> screen s) (\<lambda>_ _. color)"
proof (cases "clip s x y w h")
  case None
  then have "rect x y w h \<inter> screen s = {}" by (rule clip_exact(2) [OF assms])
  moreover have "gfx_fill_rect x y w h color t = t" if "redrawn s t" for t
    using None redrawn_fields [OF that] by (simp add: gfx_fill_rect_def)
  ultimately show ?thesis using bb.paints_cong [OF bb.paints_skip] by blast
next
  case (Some c)
  obtain x' y' w' h' where c: "c = (x', y', w', h')" by (cases c)
  note e = clip_exact(1) [OF assms Some [unfolded c]]
  have ci: "cint (y' + h') = y' + h'" using clip_coord(3,5) [OF conjunct1 [OF e]] e assms(5) by (intro cint_coord(1)) simp_all
  have "gfx_fill_rect x y w h color t = fold (fill_row x' w' color) [y'..y' + h' - 1] t" if "screen_ok s \<and> redrawn s t" for t
    using Some c that redrawn_fields [of s t] by (simp add: gfx_fill_rect_def screen_ok_def ci)
  moreover have "bb.paints s (fold (fill_row x' w' color) [y'..y' + h' - 1]) (rect x' y' w' h') (\<lambda>_ _. color)"
    using e by (intro fill_rows_paints) auto
  ultimately show ?thesis using e bb.paints_cong by blast
qed

section \<open>Text\<close>

abbreviation glyph_of :: "char \<Rightarrow> u8 list" where
  "glyph_of c \<equiv> font8x16 ! nat (schar (if schar c < FONT_FIRST \<or> schar c > FONT_LAST then CHR ''?'' else c) - FONT_FIRST)"

text \<open>The picture of a character whose cell starts at \<open>(x, y)\<close>: bit 7 of a row is its leftmost pixel.\<close>

definition glyph_pixel :: "int \<Rightarrow> int \<Rightarrow> char \<Rightarrow> u32 \<Rightarrow> u32 \<Rightarrow> int \<Rightarrow> int \<Rightarrow> u32" where
  "glyph_pixel x y c fg bg px py = (if bit (glyph_of c ! nat (py - y)) (7 - nat (px - x)) then fg else bg)"

lemma mask_column: "col < 8 \<Longrightarrow> (bits::u8) AND drop_bit col 0x80 \<noteq> 0 \<longleftrightarrow> bit bits (7 - col)"
proof -
  assume "col < 8"
  then consider "col = 0" | "col = 1" | "col = 2" | "col = 3" | "col = 4" | "col = 5" | "col = 6" | "col = 7" by linarith
  then have "drop_bit col (0x80 :: u8) = 2 ^ (7 - col)" by cases simp_all
  then show ?thesis by (simp add: and_exp_eq_0_iff_not_bit)
qed

lemma fold_cong_inv:
  "(\<And>i t. i \<in> set is \<Longrightarrow> P t \<Longrightarrow> f i t = g i t \<and> P (g i t)) \<Longrightarrow> P t \<Longrightarrow> fold f is t = fold g is t"
  by (induction "is" arbitrary: t) auto

lemma paints_if: "(P \<Longrightarrow> bb.paints s f A v) \<Longrightarrow> bb.paints s (\<lambda>t. if P then f t else t) (if P then A else {}) v"
  using bb.paints_skip by auto

lemma draw_row_paints:
  assumes "0 \<le> py" "py < scrH s" "coord x" and v: "\<And>col. 0 \<le> col \<Longrightarrow> col < 8 \<Longrightarrow> v (x + col) py = (if bit bits (7 - nat col) then fg else bg)"
  shows "bb.paints s (draw_row x py bits fg bg) ({x..<x + 8} \<times> {py} \<inter> screen s) v"
proof -
  let ?f = "\<lambda>col t. if 0 \<le> x + col \<and> x + col < scrW s
      then back_set (x + col) py (if bits AND drop_bit (nat col) 0x80 \<noteq> 0 then fg else bg) t else t"
  let ?A = "\<lambda>col. if 0 \<le> x + col \<and> x + col < scrW s then {(x + col, py)} else {}"
  have "bb.paints s (?f col) (?A col) v" if "col \<in> set [0..FONT_W - 1]" for col
  proof (rule paints_if, rule bb.paints_set)
    assume "0 \<le> x + col \<and> x + col < scrW s"
    then show "on_screen s (x + col) py" using assms by (simp add: on_screen_def)
    show "v (x + col) py = (if bits AND drop_bit (nat col) 0x80 \<noteq> 0 then fg else bg)"
      using that v [of col] by (subst mask_column) (simp_all add: FONT_W_def nat_less_iff)
  qed
  then have p: "bb.paints s (fold ?f [0..FONT_W - 1]) (\<Union>col \<in> set [0..FONT_W - 1]. ?A col) v"
    by (rule bb.paints_fold)
  have A: "(\<Union>col \<in> set [0..FONT_W - 1]. ?A col) = {x..<x + 8} \<times> {py} \<inter> screen s"
  proof (intro set_eqI iffI; clarify)
    fix a b assume "a \<in> {x..<x + 8}" "on_screen s a py"
    then have "a - x \<in> set [0..FONT_W - 1]" "(a, py) \<in> ?A (a - x)" by (simp_all add: FONT_W_def on_screen_def)
    then show "(a, py) \<in> (\<Union>col \<in> set [0..FONT_W - 1]. ?A col)" by (rule UN_I)
  qed (use assms(1,2) in \<open>auto simp: FONT_W_def on_screen_def split: if_splits\<close>)
  have ci: "cint (x + col) = x + col" if "col \<in> set [0..FONT_W - 1]" for col
    using that assms(3) by (intro cint_coord(1)) (simp_all add: coord_def FONT_W_def)
  have f: "draw_row x py bits fg bg t = fold ?f [0..FONT_W - 1] t" if "screen_ok s \<and> redrawn s t" for t
    unfolding draw_row_def using redrawn_fields(1) [of s t] that
    by (intro fold_cong_inv [where P = "\<lambda>t. scrW t = scrW s"]) (auto simp: ci Let_def back_set_def not_less not_le)
  show ?thesis by (rule bb.paints_cong [OF p f A])
qed

lemma draw_char_paints:
  assumes "coord x" "coord y"
  shows "bb.paints s (gfx_draw_char x y c fg bg) (rect x y 8 16 \<inter> screen s) (glyph_pixel x y c fg bg)"
proof -
  let ?f = "\<lambda>row t. if 0 \<le> y + row \<and> y + row < scrH s then draw_row x (y + row) (glyph_of c ! nat row) fg bg t else t"
  let ?A = "\<lambda>row. if 0 \<le> y + row \<and> y + row < scrH s then {x..<x + 8} \<times> {y + row} \<inter> screen s else {}"
  have "bb.paints s (?f row) (?A row) (glyph_pixel x y c fg bg)" if "row \<in> set [0..FONT_H - 1]" for row
    using that assms(1) by (intro paints_if draw_row_paints) (auto simp: glyph_pixel_def)
  then have p: "bb.paints s (fold ?f [0..FONT_H - 1]) (\<Union>row \<in> set [0..FONT_H - 1]. ?A row) (glyph_pixel x y c fg bg)"
    by (rule bb.paints_fold)
  have A: "(\<Union>row \<in> set [0..FONT_H - 1]. ?A row) = rect x y 8 16 \<inter> screen s"
  proof (intro set_eqI iffI; clarify)
    fix a b assume "a \<in> {x..<x + 8}" "b \<in> {y..<y + 16}" "on_screen s a b"
    then have "b - y \<in> set [0..FONT_H - 1]" "(a, b) \<in> ?A (b - y)" by (simp_all add: FONT_H_def on_screen_def)
    then show "(a, b) \<in> (\<Union>row \<in> set [0..FONT_H - 1]. ?A row)" by (rule UN_I)
  qed (auto simp: FONT_H_def split: if_splits)
  have ci: "cint (y + row) = y + row" if "row \<in> set [0..FONT_H - 1]" for row
    using that assms(2) by (intro cint_coord(1)) (simp_all add: coord_def FONT_H_def)
  have f: "gfx_draw_char x y c fg bg t = fold ?f [0..FONT_H - 1] t" if "screen_ok s \<and> redrawn s t" for t
  proof -
    have H: "scrH (draw_row x py b fg bg t) = scrH t" for py b and t :: "'a gfx_state_scheme"
      unfolding draw_row_def
      by (rule fold_invariant [where P = "\<lambda>u. scrH u = scrH t" and Q = "\<lambda>_. True"]) (auto simp: Let_def back_set_def)
    have "gready t" using that redrawn_fields [of s t] by (simp add: screen_ok_def)
    then show ?thesis unfolding gfx_draw_char_def Let_def using redrawn_fields(2) [of s t] that
      by (simp only: simp_thms if_False) (intro fold_cong_inv [where P = "\<lambda>t. scrH t = scrH s"], auto simp: ci H not_less not_le)
  qed
  show ?thesis by (rule bb.paints_cong [OF p f A])
qed

section \<open>Scrolling\<close>

lemma copy_rows_redraw:
  assumes "screen_ok s \<and> redrawn s t" "0 < dy" "dy < h" "rect x y w h \<subseteq> screen s" "0 \<le> y" "y + h \<le> scrH s"
  shows "(screen_ok s \<and> redrawn s (fold (copy_row x w dy) [y..y + h - dy - 1] t)) \<and>
    (\<forall>px py. on_screen s px py \<longrightarrow> back_get (fold (copy_row x w dy) [y..y + h - dy - 1] t) px py =
       (if (px, py) \<in> rect x y w (h - dy) then back_get t px (py + dy) else back_get t px py))"
proof -
  have n: "int (nat (h - dy)) = h - dy" using assms(3) by simp
  have ci: "cint (row + dy) = row + dy" if "row \<in> set [y..y + h - dy - 1]" for row
    using that assms(1,2,5,6) by (intro cint_id) (simp_all add: screen_ok_def)
  have eq: "fold (copy_row x w dy) [y..y + h - dy - 1] t = fold (\<lambda>row. fold (\<lambda>i s. back_set (x + i) row
      (back_get s (x + i) (row + dy)) s) [0..w - 1]) [y..y + h - dy - 1] t"
    by (rule fold_cong) (simp_all add: copy_row_def ci)
  have "on_screen s (x + i) r" if "y \<le> r" "r < y + int (nat (h - dy)) + dy" "i \<in> set [0..w - 1]" for r i
    using that rect_on_screen [OF assms(4), of i r] unfolding n by simp
  from bb.scroll_rows [OF assms(1,2), where n = "nat (h - dy)" and ks = "[0..w - 1]" and x = x and y = y, OF this]
  show ?thesis unfolding n set_upto ex_shift eq by (auto simp: add_diff_eq)
qed

lemma scroll_up_redraws:
  assumes "screen_ok s \<and> redrawn s t" "0 < dy" "coord x" "coord y" "coord w" "coord h"
  shows "(screen_ok s \<and> redrawn s (gfx_scroll_up x y w h dy bg t)) \<and>
    (\<forall>px py. on_screen s px py \<longrightarrow> back_get (gfx_scroll_up x y w h dy bg t) px py =
      (if (px, py) \<in> rect x y w h then
         if py + dy < min (y + h) (scrH s) then back_get t px (py + dy) else bg
       else back_get t px py))"
proof (cases "clip s x y w h")
  case None
  then have "gfx_scroll_up x y w h dy bg t = t" using assms redrawn_fields [of s t] by (simp add: gfx_scroll_up_def)
  moreover have "(px, py) \<notin> rect x y w h" if "on_screen s px py" for px py
    using clip_exact(2) [OF assms(3-6) conjunct1 [OF assms(1)] None] that by blast
  ultimately show ?thesis using assms(1) by auto
next
  case (Some c)
  obtain x' y' w' h' where c: "c = (x', y', w', h')" by (cases c)
  note e = clip_exact(1) [OF assms(3-6) conjunct1 [OF assms(1)] Some [unfolded c]]
  have co: "0 \<le> x' \<and> x' + w' \<le> scrW s \<and> 0 \<le> y' \<and> y' + h' \<le> scrH s" "coord x'" "coord y'" "coord w'" "coord h'"
    using clip_coord [OF conjunct1 [OF e]] e assms(1) by simp_all
  have ci: "cint (y' + h') = y' + h'" by (rule cint_coord(1) [OF co(3,5)])
  have top: "cint (y' + h' - dy) = y' + h' - dy" "coord (y' + h' - dy)" "coord dy" if "dy < h'"
    using that co assms(1,2) by (auto simp: coord_def screen_ok_def intro: cint_id)
  have scroll: "gfx_scroll_up x y w h dy bg t = (if dy \<ge> h' then gfx_fill_rect x' y' w' h' bg t
      else gfx_fill_rect x' (y' + h' - dy) w' dy bg (fold (copy_row x' w' dy) [y'..y' + h' - dy - 1] t))"
    using Some c assms(1) redrawn_fields [of s t] by (simp add: gfx_scroll_up_def screen_ok_def ci top Let_def)
  have ins: "(px, py) \<in> rect x y w h \<longleftrightarrow> (px, py) \<in> rect x' y' w' h'" if "on_screen s px py" for px py
    unfolding conjunct1 [OF e] using that by simp
  have ends: "y' + h' = min (y + h) (scrH s)" using e by simp
  show ?thesis
  proof (cases "dy \<ge> h'")
    case True
    note fill = bb.paintsD [OF fill_rect_paints [OF co(2-5) conjunct1 [OF assms(1)], of bg] assms(1)]
    have "\<not> py + dy < min (y + h) (scrH s)" if "(px, py) \<in> rect x' y' w' h'" for px py
      using that True unfolding ends [symmetric] by simp
    then show ?thesis using True scroll ins e fill by auto
  next
    case False
    then have dy: "dy < h'" by simp
    let ?u = "fold (copy_row x' w' dy) [y'..y' + h' - dy - 1] t"
    have sub: "rect x' y' w' h' \<subseteq> screen s" using e by blast
    have cp: "(screen_ok s \<and> redrawn s ?u) \<and> (\<forall>px py. on_screen s px py \<longrightarrow> back_get ?u px py =
        (if (px, py) \<in> rect x' y' w' (h' - dy) then back_get t px (py + dy) else back_get t px py))"
      using co(1) by (intro copy_rows_redraw [OF assms(1,2) dy sub]) simp_all
    have fill: "(screen_ok s \<and> redrawn s (gfx_scroll_up x y w h dy bg t))" "on_screen s px py \<Longrightarrow>
        back_get (gfx_scroll_up x y w h dy bg t) px py =
          (if (px, py) \<in> rect x' (y' + h' - dy) w' dy then bg else back_get ?u px py)" for px py
      using bb.paintsD [OF fill_rect_paints [OF co(2) top(2) [OF dy] co(4) top(3) [OF dy] conjunct1 [OF assms(1)], of bg]
          conjunct1 [OF cp]] scroll False by auto
    have "py + dy < min (y + h) (scrH s) \<longleftrightarrow> py < y' + h' - dy" for py unfolding ends [symmetric] by auto
    moreover have "y' \<le> y' + h' - dy" using False by simp
    ultimately show ?thesis using fill cp ins assms(2) by auto
  qed
qed

text \<open>
  C30. Drawing on a screen that is set up and less than $2^{30}$ pixels wide and high, with coordinates and sizes from
  $-2^{30}$ to below $2^{30}$: filling a rectangle, drawing a character and scrolling a rectangle
  up by \<open>dy > 0\<close> rows leave, at every pixel of the screen, exactly the picture they should: the colour, the glyph's
  foreground and background, the pixel \<open>dy\<close> rows below or the background in the
  freed rows, inside the rectangle, and what was there before outside it, however far the
  rectangle reaches over the edges. No byte of memory outside the back buffer changes. The arithmetic is that of
  a 32-bit \<open>int\<close>; for rectangles beyond these bounds clipping can overflow (\<open>clip_overflow\<close>).
\<close>

theorem gfx_drawing_correct:
  assumes "screen_ok s" and "on_screen s px py" and "coord x" "coord y" "coord w" "coord h"
  shows "(redrawn s (gfx_fill_rect x y w h color s) \<and>
      back_get (gfx_fill_rect x y w h color s) px py = (if (px, py) \<in> rect x y w h then color else back_get s px py)) \<and>
    (redrawn s (gfx_draw_char x y c fg bg s) \<and>
      back_get (gfx_draw_char x y c fg bg s) px py = (if (px, py) \<in> rect x y 8 16 then glyph_pixel x y c fg bg px py else back_get s px py)) \<and>
    (0 < dy \<longrightarrow> redrawn s (gfx_scroll_up x y w h dy bg s) \<and>
      back_get (gfx_scroll_up x y w h dy bg s) px py =
        (if (px, py) \<in> rect x y w h then
           if py + dy < min (y + h) (scrH s) then back_get s px (py + dy) else bg
         else back_get s px py))"
proof (intro conjI impI)
  have ok: "screen_ok s \<and> redrawn s s" using assms(1) by (simp add: redrawn_refl)
  note fill = bb.paintsD [OF fill_rect_paints [OF assms(3-6) assms(1), of color] ok]
  show "redrawn s (gfx_fill_rect x y w h color s)" using fill(1) by blast
  show "back_get (gfx_fill_rect x y w h color s) px py = (if (px, py) \<in> rect x y w h then color else back_get s px py)"
    using fill(2) [OF assms(2)] assms(2) by simp
  note draw = bb.paintsD [OF draw_char_paints [OF assms(3,4), of s c fg bg] ok]
  show "redrawn s (gfx_draw_char x y c fg bg s)" using draw(1) by blast
  show "back_get (gfx_draw_char x y c fg bg s) px py = (if (px, py) \<in> rect x y 8 16 then glyph_pixel x y c fg bg px py else back_get s px py)"
    using draw(2) [OF assms(2)] assms(2) by simp
  assume d: "0 < dy"
  note sc = scroll_up_redraws [OF ok d assms(3-6), of bg]
  show "redrawn s (gfx_scroll_up x y w h dy bg s)" using sc by blast
  show "back_get (gfx_scroll_up x y w h dy bg s) px py =
        (if (px, py) \<in> rect x y w h then
           if py + dy < min (y + h) (scrH s) then back_get s px (py + dy) else bg
         else back_get s px py)" using sc assms(2) by blast
qed

definition gfx_example :: gfx_state where
  "gfx_example = \<lparr>ram = (\<lambda>_. 0), bitmap = 0x1000, bitmap_phys = 0x1000, total_frames = 0, used_frames = 0, bitmap_size = 0,
     module_start = 0, module_end = 0, kernel_pml4 = 0x2000, vmm_active = True, hhdm_end = 0x1000000, cr3 = 0x2000,
     gready = True, scrW = 64, scrH = 48, pitch = 256, bytespp = 4,
     front = 0xFFFF8000FD000000, backbuf = 0xFFFF800000400000, cur_on = False, cur_x = 0, cur_y = 0\<rparr>"

theorem gfx_drawing_correct_witness:
  "back_get (gfx_fill_rect (- 3) 5 10 10 0xFF0000 gfx_example) 2 7 = 0xFF0000 \<and>
   back_get (gfx_fill_rect (- 3) 5 10 10 0xFF0000 gfx_example) 8 7 = 0 \<and>
   back_get (gfx_draw_char 0 0 CHR ''!'' 0xFFFFFF 0x101010 gfx_example) 3 2 = 0xFFFFFF \<and>
   back_get (gfx_scroll_up 0 0 64 48 16 0x202020 gfx_example) 5 40 = 0x202020"
proof -
  have ok: "screen_ok gfx_example" by (simp add: screen_ok_def gfx_example_def kaddr_def HHDM_OFFSET_def virt_to_phys_hhdm_def)
  have on: "on_screen gfx_example 2 7" "on_screen gfx_example 8 7" "on_screen gfx_example 3 2" "on_screen gfx_example 5 40"
    by (simp_all add: on_screen_def gfx_example_def)
  have z: "back_get gfx_example 8 7 = 0" by (simp add: back_get_def gfx_example_def load32_def)
  have g: "glyph_pixel 0 0 CHR ''!'' 0xFFFFFF 0x101010 3 2 = 0xFFFFFF"
    by (simp add: glyph_pixel_def schar_def FONT_FIRST_def FONT_LAST_def font8x16_def)
  have co: "coord (- 3)" "coord 0" "coord 5" "coord 10" "coord 48" "coord 64" by (simp_all add: coord_def)
  show ?thesis
    using gfx_drawing_correct [OF ok on(1) co(1,3,4,4), of "0xFF0000"] gfx_drawing_correct [OF ok on(2) co(1,3,4,4), of "0xFF0000"]
      gfx_drawing_correct [OF ok on(3) co(2,2,2,2), where c = "CHR ''!''" and fg = "0xFFFFFF" and bg = "0x101010"]
      gfx_drawing_correct [OF ok on(4) co(2,2,6,5), where dy = 16 and bg = "0x202020"] z g
    by (simp add: gfx_example_def)
qed

end
