(* ===== verification/Fbcon.thy ===== *)
theory Fbcon
  imports GfxSpec
begin

text \<open>
  The console on the framebuffer, \<^verbatim>\<open>kernel/gfx/fbcon.c\<close>: a grid of character cells inside a rectangle of the
  screen, with a cursor drawn as an underline. Interrupt flags are left out.
\<close>

record fbcon_state = gfx_state +
  active :: bool
  con_ox :: int
  con_oy :: int
  cols :: int
  rows :: int
  con_cx :: int
  con_cy :: int
  con_fg :: u32
  con_bg :: u32

definition fbcon_active :: "'a fbcon_state_scheme \<Rightarrow> bool" where
  "fbcon_active s = active s"

definition present_cell :: "int \<Rightarrow> int \<Rightarrow> 'a fbcon_state_scheme \<Rightarrow> 'a fbcon_state_scheme" where
  "present_cell c r s = gfx_present (con_ox s + c * FONT_W) (con_oy s + r * FONT_H) FONT_W FONT_H s"

definition draw_cursor :: "bool \<Rightarrow> 'a fbcon_state_scheme \<Rightarrow> 'a fbcon_state_scheme" where
  "draw_cursor on s =
     (let s = gfx_fill_rect (con_ox s + con_cx s * FONT_W) (con_oy s + con_cy s * FONT_H + FONT_H - 2) FONT_W 2
                (if on then con_fg s else con_bg s) s
      in present_cell (con_cx s) (con_cy s) s)"

text \<open>\<open>w / FONT_W\<close> cuts towards zero.\<close>

definition fbcon_init ::
  "int \<Rightarrow> int \<Rightarrow> int \<Rightarrow> int \<Rightarrow> u32 \<Rightarrow> u32 \<Rightarrow> 'a fbcon_state_scheme \<Rightarrow> 'a fbcon_state_scheme" where
  "fbcon_init x y w h fore bgc s =
     (let s = s\<lparr>con_ox := x, con_oy := y, cols := sgn w * (\<bar>w\<bar> div FONT_W), rows := sgn h * (\<bar>h\<bar> div FONT_H),
                con_fg := fore, con_bg := bgc, con_cx := 0, con_cy := 0\<rparr>;
          s = gfx_fill_rect (con_ox s) (con_oy s) (cols s * FONT_W) (rows s * FONT_H) (con_bg s) s;
          s = s\<lparr>active := True\<rparr>
      in draw_cursor True s)"

definition newline :: "'a fbcon_state_scheme \<Rightarrow> 'a fbcon_state_scheme" where
  "newline s =
     (let s = s\<lparr>con_cx := 0, con_cy := con_cy s + 1\<rparr> in
      if con_cy s \<ge> rows s then
        let s = gfx_scroll_up (con_ox s) (con_oy s) (cols s * FONT_W) (rows s * FONT_H) FONT_H (con_bg s) s;
            s = gfx_present (con_ox s) (con_oy s) (cols s * FONT_W) (rows s * FONT_H) s
        in s\<lparr>con_cy := rows s - 1\<rparr>
      else s)"

definition fbcon_putc :: "char \<Rightarrow> 'a fbcon_state_scheme \<Rightarrow> 'a fbcon_state_scheme" where
  "fbcon_putc c s =
     (if \<not> active s then s
      else
        let s = draw_cursor False s;
            s = (if c = CHR 0x0A then newline s
                 else if c = CHR 0x0D then s\<lparr>con_cx := 0\<rparr>
                 else if c = CHR 0x08 then (if con_cx s > 0 then s\<lparr>con_cx := con_cx s - 1\<rparr> else s)
                 else if c = CHR 0x09 then
                   (let s = s\<lparr>con_cx := (con_cx s + 4) AND NOT 3\<rparr> in if con_cx s \<ge> cols s then newline s else s)
                 else
                   (let s = gfx_draw_char (con_ox s + con_cx s * FONT_W) (con_oy s + con_cy s * FONT_H) c (con_fg s) (con_bg s) s;
                        s = present_cell (con_cx s) (con_cy s) s;
                        s = s\<lparr>con_cx := con_cx s + 1\<rparr>
                    in if con_cx s \<ge> cols s then newline s else s))
        in draw_cursor True s)"

definition fbcon_clear :: "'a fbcon_state_scheme \<Rightarrow> 'a fbcon_state_scheme" where
  "fbcon_clear s =
     (if \<not> active s then s
      else
        let s = gfx_fill_rect (con_ox s) (con_oy s) (cols s * FONT_W) (rows s * FONT_H) (con_bg s) s;
            s = gfx_present (con_ox s) (con_oy s) (cols s * FONT_W) (rows s * FONT_H) s
        in draw_cursor True (s\<lparr>con_cx := 0, con_cy := 0\<rparr>))"

fun write_cells :: "string \<Rightarrow> int \<Rightarrow> int \<Rightarrow> 'a fbcon_state_scheme \<Rightarrow> 'a fbcon_state_scheme" where
  "write_cells [] row col s = s"
| "write_cells (c # cs) row col s =
     (if col < cols s then
        write_cells cs row (col + 1)
          (present_cell col row (gfx_draw_char (con_ox s + col * FONT_W) (con_oy s + row * FONT_H) c (con_fg s) (con_bg s) s))
      else s)"

definition fbcon_write_at :: "string \<Rightarrow> int \<Rightarrow> int \<Rightarrow> 'a fbcon_state_scheme \<Rightarrow> 'a fbcon_state_scheme" where
  "fbcon_write_at str row col s =
     (if \<not> active s \<or> row < 0 \<or> row \<ge> rows s then s else write_cells str row col s)"

end
