(* ===== verification/Ports.thy ===== *)
theory Ports
  imports Prelude
begin

text \<open>
  Port input and output, \<^verbatim>\<open>kernel/arch/x86_64/io.h\<close>. The hardware behind the ports is a parameter: a
  record of its responses, which thread its state \<open>'hw\<close>. Nothing is assumed of them.
\<close>

record 'hw ports =
  p_inb :: "u16 \<Rightarrow> 'hw \<Rightarrow> u8 \<times> 'hw"
  p_outb :: "u16 \<Rightarrow> u8 \<Rightarrow> 'hw \<Rightarrow> 'hw"
  p_inw :: "u16 \<Rightarrow> 'hw \<Rightarrow> u16 \<times> 'hw"
  p_outw :: "u16 \<Rightarrow> u16 \<Rightarrow> 'hw \<Rightarrow> 'hw"

definition inb :: "'hw ports \<Rightarrow> u16 \<Rightarrow> 'hw \<Rightarrow> u8 \<times> 'hw" where
  "inb P port h = p_inb P port h"

definition outb :: "'hw ports \<Rightarrow> u16 \<Rightarrow> u8 \<Rightarrow> 'hw \<Rightarrow> 'hw" where
  "outb P port val h = p_outb P port val h"

text \<open>\<open>rep insw\<close> and \<open>rep outsw\<close>: a block of words through one port, as the bytes in memory.\<close>

fun insw :: "'hw ports \<Rightarrow> u16 \<Rightarrow> nat \<Rightarrow> 'hw \<Rightarrow> u8 list \<times> 'hw" where
  "insw P port 0 h = ([], h)"
| "insw P port (Suc n) h =
     (let (w, h) = p_inw P port h; (bs, h) = insw P port n h
      in (ucast w # ucast (drop_bit 8 w) # bs, h))"

fun outsw :: "'hw ports \<Rightarrow> u16 \<Rightarrow> u8 list \<Rightarrow> 'hw \<Rightarrow> 'hw" where
  "outsw P port (lo # hi # bs) h = outsw P port bs (p_outw P port (ucast lo OR push_bit 8 (ucast hi)) h)"
| "outsw P port _ h = h"

lemma insw_length: "length (fst (insw P port n h)) = 2 * n"
  by (induction n arbitrary: h) (auto simp: case_prod_beta)

text \<open>
  A recording of the bytes written, wrapped around any hardware: the log grows with every \<open>outb\<close>,
  everything else is passed through.
\<close>

definition recording :: "'hw ports \<Rightarrow> ('hw \<times> (u16 \<times> u8) list) ports" where
  "recording P = \<lparr>p_inb = (\<lambda>port (h, l). case p_inb P port h of (v, h) \<Rightarrow> (v, (h, l))),
     p_outb = (\<lambda>port v (h, l). (p_outb P port v h, l @ [(port, v)])),
     p_inw = (\<lambda>port (h, l). case p_inw P port h of (v, h) \<Rightarrow> (v, (h, l))),
     p_outw = (\<lambda>port v (h, l). (p_outw P port v h, l))\<rparr>"

lemma recording_outputs [simp]:
  "snd (p_outb (recording P) port v h) = snd h @ [(port, v)]"
  "snd (snd (p_inb (recording P) port h)) = snd h"
  "snd (snd (p_inw (recording P) port h)) = snd h"
  "snd (p_outw (recording P) port w h) = snd h"
  by (simp_all add: recording_def case_prod_beta)

end
