(* ===== verification/Console.thy ===== *)
theory Console
  imports Fbcon Ports
begin

text \<open>
  Text output: the VGA text screen (\<^verbatim>\<open>kernel/drivers/vga.c\<close>), the serial port (\<^verbatim>\<open>kernel/drivers/serial.c\<close>) and
  \<^verbatim>\<open>kernel/kprintf.c\<close> with the kernel log. A wait for the serial port that never ends is \<open>None\<close>.
\<close>

section \<open>The text screen\<close>

definition VGA_MEM :: u64 where
  "VGA_MEM = 0xB8000 + HHDM_OFFSET"

definition VGA_WIDTH :: int where
  "VGA_WIDTH = 80"

definition VGA_HEIGHT :: int where
  "VGA_HEIGHT = 25"

definition VGA_COLOR :: u16 where
  "VGA_COLOR = 0x0F"

record 'hw vga_state = fbcon_state +
  vga_ready :: bool
  cursor_row :: int
  cursor_col :: int
  vga_hw :: 'hw

definition vga_enable :: "('hw, 'a) vga_state_scheme \<Rightarrow> ('hw, 'a) vga_state_scheme" where
  "vga_enable s = s\<lparr>vga_ready := True\<rparr>"

text \<open>\<open>(uint16_t)c\<close> widens the signed \<open>char\<close> with its sign.\<close>

definition vga_entry :: "char \<Rightarrow> u16" where
  "vga_entry c = of_int (schar c) OR push_bit 8 VGA_COLOR"

text \<open>\<open>VGA_MEM[i]\<close> read and written.\<close>

definition vga_get :: "int \<Rightarrow> ('hw, 'a) vga_state_scheme \<Rightarrow> u16" where
  "vga_get i s = load16 (ram s) (kaddr (VGA_MEM + 2 * of_int i))"

definition vga_set :: "int \<Rightarrow> u16 \<Rightarrow> ('hw, 'a) vga_state_scheme \<Rightarrow> ('hw, 'a) vga_state_scheme" where
  "vga_set i v s =
     (let a = kaddr (VGA_MEM + 2 * of_int i) in s\<lparr>ram := (ram s)(a := ucast v, a + 1 := ucast (drop_bit 8 v))\<rparr>)"

definition vga_update_hw_cursor :: "'hw ports \<Rightarrow> ('hw, 'a) vga_state_scheme \<Rightarrow> ('hw, 'a) vga_state_scheme" where
  "vga_update_hw_cursor P s =
     (let pos = of_int (cursor_row s * VGA_WIDTH + cursor_col s) :: u16;
          h = outb P 0x3D4 14 (vga_hw s);
          h = outb P 0x3D5 (ucast (drop_bit 8 pos)) h;
          h = outb P 0x3D4 15 h
      in s\<lparr>vga_hw := outb P 0x3D5 (ucast (pos AND 0xFF)) h\<rparr>)"

definition vga_clear :: "'hw ports \<Rightarrow> ('hw, 'a) vga_state_scheme \<Rightarrow> ('hw, 'a) vga_state_scheme" where
  "vga_clear P s =
     (if fbcon_active s then fbcon_clear s
      else if \<not> vga_ready s then s
      else let s = fold (\<lambda>i. vga_set i (vga_entry CHR '' '')) [0..VGA_WIDTH * VGA_HEIGHT - 1] s
           in vga_update_hw_cursor P (s\<lparr>cursor_row := 0, cursor_col := 0\<rparr>))"

fun vga_write :: "int \<Rightarrow> string \<Rightarrow> ('hw, 'a) vga_state_scheme \<Rightarrow> ('hw, 'a) vga_state_scheme" where
  "vga_write off [] s = s"
| "vga_write off (c # cs) s = vga_write (off + 1) cs (vga_set off (vga_entry c) s)"

definition vga_print_at :: "string \<Rightarrow> int \<Rightarrow> int \<Rightarrow> ('hw, 'a) vga_state_scheme \<Rightarrow> ('hw, 'a) vga_state_scheme" where
  "vga_print_at str row col s =
     (if fbcon_active s then fbcon_write_at str row col s else vga_write (row * VGA_WIDTH + col) str s)"

definition vga_scroll :: "('hw, 'a) vga_state_scheme \<Rightarrow> ('hw, 'a) vga_state_scheme" where
  "vga_scroll s =
     (let s = fold (\<lambda>r. fold (\<lambda>c s. vga_set ((r - 1) * VGA_WIDTH + c) (vga_get (r * VGA_WIDTH + c) s) s)
                [0..VGA_WIDTH - 1]) [1..VGA_HEIGHT - 1] s;
          s = fold (\<lambda>c. vga_set ((VGA_HEIGHT - 1) * VGA_WIDTH + c) (vga_entry CHR '' '')) [0..VGA_WIDTH - 1] s
      in s\<lparr>cursor_row := VGA_HEIGHT - 1, cursor_col := 0\<rparr>)"

text \<open>The next cell, or the next line at the end of this one.\<close>

definition vga_wrap :: "('hw, 'a) vga_state_scheme \<Rightarrow> ('hw, 'a) vga_state_scheme" where
  "vga_wrap s = (if cursor_col s \<ge> VGA_WIDTH then s\<lparr>cursor_col := 0, cursor_row := cursor_row s + 1\<rparr> else s)"

definition vga_putc :: "'hw ports \<Rightarrow> char \<Rightarrow> ('hw, 'a) vga_state_scheme \<Rightarrow> ('hw, 'a) vga_state_scheme" where
  "vga_putc P ch s =
     (if fbcon_active s then fbcon_putc ch s
      else if \<not> vga_ready s then s
      else
        let s = (if ch = CHR 0x0A then s\<lparr>cursor_col := 0, cursor_row := cursor_row s + 1\<rparr>
                 else if ch = CHR 0x0D then s\<lparr>cursor_col := 0\<rparr>
                 else if ch = CHR 0x08 then
                   (if cursor_col s > 0 then
                      let s = s\<lparr>cursor_col := cursor_col s - 1\<rparr>
                      in vga_set (cursor_row s * VGA_WIDTH + cursor_col s) (vga_entry CHR '' '') s
                    else s)
                 else if ch = CHR 0x09 then vga_wrap (s\<lparr>cursor_col := (cursor_col s + 4) AND NOT 3\<rparr>)
                 else
                   (let s = vga_set (cursor_row s * VGA_WIDTH + cursor_col s) (vga_entry ch) s
                    in vga_wrap (s\<lparr>cursor_col := cursor_col s + 1\<rparr>)));
            s = (if cursor_row s \<ge> VGA_HEIGHT then vga_scroll s else s)
        in vga_update_hw_cursor P s)"

definition vga_print :: "'hw ports \<Rightarrow> string \<Rightarrow> ('hw, 'a) vga_state_scheme \<Rightarrow> ('hw, 'a) vga_state_scheme" where
  "vga_print P str s = fold (vga_putc P) str s"

section \<open>The serial port\<close>

definition COM1 :: u16 where
  "COM1 = 0x3F8"

definition serial_init :: "'hw ports \<Rightarrow> 'hw \<Rightarrow> 'hw" where
  "serial_init P h =
     (let h = outb P (COM1 + 1) 0x00 h;
          h = outb P (COM1 + 3) 0x80 h;
          h = outb P (COM1 + 0) 0x03 h;
          h = outb P (COM1 + 1) 0x00 h;
          h = outb P (COM1 + 3) 0x03 h;
          h = outb P (COM1 + 2) 0xC7 h
      in outb P (COM1 + 4) 0x08 h)"

definition is_transmit_empty :: "'hw ports \<Rightarrow> 'hw \<Rightarrow> bool \<times> 'hw" where
  "is_transmit_empty P h = (let (v, h) = inb P (COM1 + 5) h in (v AND 0x20 \<noteq> 0, h))"

partial_function (option) wait_transmit :: "'hw ports \<Rightarrow> 'hw \<Rightarrow> 'hw option" where
  "wait_transmit P h = (let (e, h) = is_transmit_empty P h in if e then Some h else wait_transmit P h)"

definition serial_send :: "'hw ports \<Rightarrow> u8 \<Rightarrow> 'hw \<Rightarrow> 'hw option" where
  "serial_send P b h = map_option (outb P COM1 b) (wait_transmit P h)"

definition serial_write_char :: "'hw ports \<Rightarrow> char \<Rightarrow> 'hw \<Rightarrow> 'hw option" where
  "serial_write_char P c h = do {
     h \<leftarrow> (if c = CHR 0x0A then serial_send P 0x0D h else Some h);
     serial_send P (of_char c) h
   }"

fun serial_write_string :: "'hw ports \<Rightarrow> string \<Rightarrow> 'hw \<Rightarrow> 'hw option" where
  "serial_write_string P [] h = Some h"
| "serial_write_string P (c # cs) h = do { h \<leftarrow> serial_write_char P c h; serial_write_string P cs h }"

section \<open>Numbers\<close>

definition digit :: "nat \<Rightarrow> char" where
  "digit n = ''0123456789abcdef'' ! n"

text \<open>The digits in the order they are generated, lowest first.\<close>

function rev_digits :: "u64 \<Rightarrow> u64 \<Rightarrow> string" where
  "rev_digits v base = (if v > 0 \<and> base > 1 then digit (unat (v mod base)) # rev_digits (v div base) base else [])"
  by pat_completeness auto
termination
  by (relation "measure (\<lambda>(v, base). unat v)") (auto simp: word_less_nat_alt unat_div)

declare rev_digits.simps [simp del]

definition print_uint :: "u64 \<Rightarrow> u64 \<Rightarrow> string" where
  "print_uint v base = (if v = 0 then ''0'' else rev (rev_digits v base))"

text \<open>\<open>-value\<close> is formed in 64 bits.\<close>

definition print_int :: "u64 \<Rightarrow> string" where
  "print_int v = (if sint v < 0 then CHR ''-'' # print_uint (- v) 10 else print_uint v 10)"

end
