(* ===== verification/Kprintf.thy ===== *)
theory Kprintf
  imports Console
begin

text \<open>
  Formatted output and the kernel log, \<^verbatim>\<open>kernel/kprintf.c\<close>. Every character goes to the log, the serial port and the
  screen. A format string that reads an argument that is not there or has the other type, or that ends in a percent
  sign, has no defined meaning: its value is \<open>None\<close>.
\<close>

definition KLOG_SIZE :: u64 where
  "KLOG_SIZE = 16384"

record 'hw console_state = "'hw vga_state" +
  klog_buf :: string
  klog_total :: u64

definition out_char :: "'hw ports \<Rightarrow> char \<Rightarrow> ('hw, 'a) vga_state_scheme \<Rightarrow> ('hw, 'a) vga_state_scheme option" where
  "out_char P c s = map_option (\<lambda>h. vga_putc P c (s\<lparr>vga_hw := h\<rparr>)) (serial_write_char P c (vga_hw s))"

text \<open>The two lines that record a character.\<close>

definition klog_put :: "char \<Rightarrow> ('hw, 'a) console_state_scheme \<Rightarrow> ('hw, 'a) console_state_scheme" where
  "klog_put c s = s\<lparr>klog_buf := (klog_buf s)[unat (klog_total s mod KLOG_SIZE) := c], klog_total := klog_total s + 1\<rparr>"

definition emit_char :: "'hw ports \<Rightarrow> char \<Rightarrow> ('hw, 'a) console_state_scheme \<Rightarrow> ('hw, 'a) console_state_scheme option" where
  "emit_char P c s = out_char P c (klog_put c s)"

fun console_write :: "'hw ports \<Rightarrow> string \<Rightarrow> ('hw, 'a) console_state_scheme \<Rightarrow> ('hw, 'a) console_state_scheme option" where
  "console_write P [] s = Some s"
| "console_write P (c # cs) s = do { s \<leftarrow> out_char P c s; console_write P cs s }"

definition klog_wrapped :: "('hw, 'a) console_state_scheme \<Rightarrow> bool" where
  "klog_wrapped s \<longleftrightarrow> klog_total s > KLOG_SIZE"

text \<open>Skip what is left of a line whose beginning has been overwritten.\<close>

function skip_line :: "string \<Rightarrow> u64 \<Rightarrow> u64 \<Rightarrow> u64 \<times> u64" where
  "skip_line buf start count =
     (if count > 0 \<and> buf ! unat (start mod KLOG_SIZE) \<noteq> CHR 0x0A then skip_line buf (start + 1) (count - 1)
      else (start, count))"
  by pat_completeness auto
termination
  by (relation "measure (\<lambda>(buf, start, count). unat count)") (auto simp: word_less_nat_alt unat_gt_0 measure_unat)

declare skip_line.simps [simp del]

definition klog_range :: "('hw, 'a) console_state_scheme \<Rightarrow> u32 \<Rightarrow> u64 \<times> u64" where
  "klog_range s mx =
     (let total = klog_total s;
          count = (if total < KLOG_SIZE then total else KLOG_SIZE);
          start = total - count;
          (start, count) = (if total > KLOG_SIZE then
               let (start, count) = skip_line (klog_buf s) start count
               in if count > 0 then (start + 1, count - 1) else (start, count)
             else (start, count))
      in if count > ucast mx then (start + (count - ucast mx), ucast mx) else (start, count))"

text \<open>The bytes copied to \<open>dst\<close>; the return value is their number.\<close>

definition klog_snapshot :: "('hw, 'a) console_state_scheme \<Rightarrow> u32 \<Rightarrow> string" where
  "klog_snapshot s mx =
     (let (start, count) = klog_range s mx
      in map (\<lambda>i. klog_buf s ! unat ((start + of_nat i) mod KLOG_SIZE)) [0..<unat count])"

fun emit_str :: "'hw ports \<Rightarrow> string \<Rightarrow> ('hw, 'a) console_state_scheme \<Rightarrow> ('hw, 'a) console_state_scheme option" where
  "emit_str P [] s = Some s"
| "emit_str P (c # cs) s = do { s \<leftarrow> emit_char P c s; emit_str P cs s }"

text \<open>
  An argument: a string, or a register's worth of bits of which \<open>va_arg\<close> takes the low half as a signed
  or unsigned \<open>int\<close>, or all of them as a pointer.
\<close>

datatype arg = Str string | Num u64

fun convert :: "char \<Rightarrow> arg list \<Rightarrow> (string \<times> arg list) option" where
  "convert c args =
     (if c = CHR ''s'' then (case args of Str x # as \<Rightarrow> Some (x, as) | _ \<Rightarrow> None)
      else if c = CHR ''d'' then (case args of Num v # as \<Rightarrow> Some (print_int (of_int (sint (ucast v :: u32))), as) | _ \<Rightarrow> None)
      else if c = CHR ''x'' then (case args of Num v # as \<Rightarrow> Some (print_uint (ucast (ucast v :: u32)) 16, as) | _ \<Rightarrow> None)
      else if c = CHR ''c'' then (case args of Num v # as \<Rightarrow> Some ([char_of (unat v mod 256)], as) | _ \<Rightarrow> None)
      else if c = CHR ''p'' then (case args of Num v # as \<Rightarrow> Some (''0x'' @ print_uint v 16, as) | _ \<Rightarrow> None)
      else if c = CHR ''%'' then Some (''%'', args)
      else Some ([CHR ''%'', c], args))"

text \<open>The characters \<open>kprintf\<close> emits, in order.\<close>

fun kformat :: "string \<Rightarrow> arg list \<Rightarrow> string option" where
  "kformat [] args = Some []"
| "kformat [c] args = (if c = CHR ''%'' then None else Some [c])"
| "kformat (c # d # cs) args =
     (if c \<noteq> CHR ''%'' then map_option (Cons c) (kformat (d # cs) args)
      else do { (out, args) \<leftarrow> convert d args; rest \<leftarrow> kformat cs args; Some (out @ rest) })"

definition kprintf :: "'hw ports \<Rightarrow> string \<Rightarrow> arg list \<Rightarrow> ('hw, 'a) console_state_scheme \<Rightarrow> ('hw, 'a) console_state_scheme option" where
  "kprintf P fmt args s = do { out \<leftarrow> kformat fmt args; emit_str P out s }"

end
