(* ===== verification/KprintfSpec.thy ===== *)
theory KprintfSpec
  imports Kprintf
begin

text \<open>
  What is printed and what is remembered: printed numbers read back as the number and fit the buffer
  they are built in; the log holds the end of everything printed.
\<close>

section \<open>Numbers\<close>

text \<open>The number a string of digits stands for.\<close>

definition digit_value :: "char \<Rightarrow> nat" where
  "digit_value c = length (takeWhile (\<lambda>d. d \<noteq> c) ''0123456789abcdef'')"

definition digits_value :: "nat \<Rightarrow> string \<Rightarrow> nat" where
  "digits_value base ds = foldl (\<lambda>n d. n * base + digit_value d) 0 ds"

lemma index_nth: "\<lbrakk>distinct xs; n < length xs\<rbrakk> \<Longrightarrow> length (takeWhile (\<lambda>d. d \<noteq> xs ! n) xs) = n"
proof (induction xs arbitrary: n)
  case (Cons x xs)
  then show ?case by (cases n) auto
qed simp

lemma digit_value_digit: "n < 16 \<Longrightarrow> digit_value (digit n) = n"
  unfolding digit_value_def digit_def by (rule index_nth) simp_all

lemma digit_chars: "n < 16 \<Longrightarrow> digit n \<in> set ''0123456789abcdef''"
  unfolding digit_def by (rule nth_mem) simp

lemma digits_value_snoc: "digits_value base (ds @ [d]) = digits_value base ds * base + digit_value d"
  by (simp add: digits_value_def)

lemma rev_digits_step:
  "v = 0 \<Longrightarrow> rev_digits v base = []"
  "v \<noteq> 0 \<Longrightarrow> 1 < unat base \<Longrightarrow> rev_digits v base = digit (unat v mod unat base) # rev_digits (v div base) base"
  by (subst rev_digits.simps, simp)
    (subst rev_digits.simps, simp add: word_less_nat_alt unat_gt_0 unat_mod)

lemma rev_digits_value:
  assumes "1 < unat base" "unat base \<le> 16"
  shows "digits_value (unat base) (rev (rev_digits v base)) = unat v"
proof (induction "unat v" arbitrary: v rule: less_induct)
  case less
  show ?case
  proof (cases "v = 0")
    case True
    then show ?thesis by (simp add: rev_digits_step digits_value_def)
  next
    case False
    have "unat (v div base) < unat v" using False assms(1) by (simp add: unat_div unat_gt_0)
    note ih = less.hyps [OF this]
    have "digit_value (digit (unat v mod unat base)) = unat v mod unat base"
      using assms by (intro digit_value_digit) (simp add: mod_less_divisor [THEN order.strict_trans2])
    then show ?thesis using False assms(1) ih
      by (simp add: rev_digits_step digits_value_snoc unat_div)
  qed
qed

lemma rev_digits_chars:
  assumes "1 < unat base" "unat base \<le> 16"
  shows "set (rev_digits v base) \<subseteq> set ''0123456789abcdef''"
proof (induction "unat v" arbitrary: v rule: less_induct)
  case less
  show ?case
  proof (cases "v = 0")
    case False
    have "unat (v div base) < unat v" using False assms(1) by (simp add: unat_div unat_gt_0)
    note ih = less.hyps [OF this]
    have "digit (unat v mod unat base) \<in> set ''0123456789abcdef''"
      using assms by (intro digit_chars) (simp add: mod_less_divisor [THEN order.strict_trans2])
    then show ?thesis using False assms(1) ih unfolding rev_digits_step(2) [OF False assms(1)] by simp
  qed (simp add: rev_digits_step)
qed

lemma rev_digits_length: "1 < unat base \<Longrightarrow> unat v < unat base ^ k \<Longrightarrow> length (rev_digits v base) \<le> k"
proof (induction k arbitrary: v)
  case 0
  then have "v = 0" by (simp add: unat_eq_zero)
  then show ?case by (simp add: rev_digits_step)
next
  case (Suc k)
  show ?case
  proof (cases "v = 0")
    case False
    have "unat (v div base) < unat base ^ k"
      using Suc.prems by (simp add: unat_div less_mult_imp_div_less mult.commute)
    then show ?thesis using Suc False by (simp add: rev_digits_step)
  qed (simp add: rev_digits_step)
qed

lemma print_uint_value:
  assumes "1 < unat base" "unat base \<le> 16"
  shows "digits_value (unat base) (print_uint v base) = unat v"
  using rev_digits_value [OF assms, of v] digit_value_digit [of 0]
  by (simp add: print_uint_def digits_value_def digit_def)

lemma rev_digits_top:
  assumes "1 < unat base" "unat base \<le> 16" "v \<noteq> 0"
  shows "rev_digits v base \<noteq> [] \<and> last (rev_digits v base) \<noteq> CHR ''0''"
  using assms(3)
proof (induction "unat v" arbitrary: v rule: less_induct)
  case less
  note step = rev_digits_step(2) [OF less.prems assms(1)]
  show ?case
  proof (cases "v div base = 0")
    case True
    then have lt: "unat v < unat base" using assms(1) by (simp flip: unat_eq_zero add: unat_div div_eq_0_iff)
    have "digit (unat v) \<noteq> digit 0"
    proof
      assume "digit (unat v) = digit 0"
      then have "digit_value (digit (unat v)) = digit_value (digit 0)" by simp
      then have "unat v = 0" using lt assms(2) by (simp add: digit_value_digit)
      then show False using less.prems by (simp add: unat_eq_zero)
    qed
    then show ?thesis using step True lt by (simp add: rev_digits_step(1) digit_def)
  next
    case False
    have "unat (v div base) < unat v" using less.prems assms(1) by (simp add: unat_div unat_gt_0)
    from less.hyps [OF this False] show ?thesis using step by simp
  qed
qed

lemma print_uint_top: "1 < unat base \<Longrightarrow> unat base \<le> 16 \<Longrightarrow> v \<noteq> 0 \<Longrightarrow> hd (print_uint v base) \<noteq> CHR ''0''"
  using rev_digits_top [of base v] by (simp add: print_uint_def hd_rev)

lemma print_uint_length:
  "length (print_uint v 10) \<le> 20" "length (print_uint v 16) \<le> 16"
proof -
  have "unat v < 18446744073709551616" by (rule unat_lt_64)
  then have "unat v < unat (10::u64) ^ 20" "unat v < unat (16::u64) ^ 16" by (simp_all del: unat_lt_64)
  then show "length (print_uint v 10) \<le> 20" "length (print_uint v 16) \<le> 16"
    using rev_digits_length [of 10 v 20] rev_digits_length [of 16 v 16] by (simp_all add: print_uint_def)
qed

lemma sint_uint_64: "sint (v::u64) = uint v - (if bit v 63 then 2 ^ 64 else 0)"
proof -
  have "sint v = signed_take_bit 63 (uint v)" by (simp add: sint_uint)
  also have "\<dots> = take_bit 64 (uint v) - 2 ^ 64 * of_bool (bit (uint v) 63)"
    using signed_take_bit_eq_take_bit_minus [of 63 "uint v"] by simp
  also have "take_bit 64 (uint v) = uint v"
    using unsigned_less [of v, where ?'a = int] by (intro take_bit_int_eq_self) simp_all
  finally show ?thesis by (simp add: bit_uint_iff)
qed

lemma unat_neg_sint: "sint (v::u64) < 0 \<Longrightarrow> int (unat (- v)) = - sint v"
proof -
  assume n: "sint v < 0"
  then have "bit v 63" using sint_uint_64 [of v] by (auto split: if_splits)
  then have s: "sint v = uint v - 2 ^ 64" and "v \<noteq> 0" by (auto simp: sint_uint_64)
  have "uint v mod 2 ^ 64 = uint v" "uint v \<noteq> 0"
    using unsigned_less [of v, where ?'a = int] \<open>v \<noteq> 0\<close> by (simp_all add: uint_0_iff)
  then have "uint (- v) = 2 ^ 64 - uint v" by (simp add: uint_word_ariths zmod_zminus1_eq_if)
  then show ?thesis using s by simp
qed

section \<open>Formats\<close>

lemma kformat_text: "CHR ''%'' \<notin> set pre \<Longrightarrow> kformat (pre @ cs) args = map_option (append pre) (kformat cs args)"
proof (induction pre)
  case (Cons c pre)
  then have IH: "kformat (pre @ cs) args = map_option (append pre) (kformat cs args)" and c: "c \<noteq> CHR ''%''" by auto
  show ?case
  proof (cases "pre @ cs")
    case Nil
    then show ?thesis using c by simp
  next
    case (Cons d ds)
    then have "kformat ((c # pre) @ cs) args = map_option (Cons c) (kformat (pre @ cs) args)" using c by simp
    then show ?thesis using IH by (simp add: option.map_comp comp_def)
  qed
qed (cases "kformat cs args"; simp)

lemma sint_of_int_32: "sint (of_int (sint (x::u32)) :: u64) = sint x"
proof -
  have "- (2 ^ 31) \<le> sint x" "sint x < 2 ^ 31"
    using sint_greater_eq [of x] sint_less [of x] by simp_all
  then have "signed_take_bit 63 (sint x) = sint x" by (intro signed_take_bit_int_eq_self) simp_all
  then show ?thesis by (simp add: signed_scast_eq)
qed

lemma kformat_step:
  assumes "CHR ''%'' \<notin> set pre"
  shows "kformat (pre @ CHR ''%'' # c # post) as =
    (case convert c as of None \<Rightarrow> None | Some (out, args) \<Rightarrow> map_option (\<lambda>r. pre @ out @ r) (kformat post args))"
proof (cases "convert c as")
  case None
  then show ?thesis by (simp add: kformat_text [OF assms] del: convert.simps)
next
  case (Some p)
  then show ?thesis
    by (cases p; cases "kformat post (snd p)") (simp_all add: kformat_text [OF assms] del: convert.simps)
qed

lemma rev_digits_decimal: "set (rev_digits v 10) \<subseteq> set ''0123456789''"
proof (induction "unat v" arbitrary: v rule: less_induct)
  case less
  show ?case
  proof (cases "v = 0")
    case False
    then have "unat (v div 10) < unat v" by (simp add: unat_div unat_gt_0)
    note ih = less.hyps [OF this]
    have "digit n \<in> set ''0123456789''" if "n < 10" for n
    proof -
      have "''0123456789abcdef'' ! n = ''0123456789'' ! n"
        using that nth_append [of "''0123456789''" "''abcdef''" n] by simp
      then show ?thesis using that nth_mem [of n "''0123456789''"] by (simp add: digit_def)
    qed
    then have "digit (unat v mod 10) \<in> set ''0123456789''" by simp
    then show ?thesis using ih rev_digits_step(2) [OF False, of 10] by simp
  qed (simp add: rev_digits_step)
qed

lemma print_uint_chars: "set (print_uint v 16) \<subseteq> set ''0123456789abcdef''" "set (print_uint v 10) \<subseteq> set ''0123456789''"
proof -
  have "set (rev_digits v 16) \<subseteq> set ''0123456789abcdef''" by (rule rev_digits_chars) simp_all
  then show "set (print_uint v 16) \<subseteq> set ''0123456789abcdef''" "set (print_uint v 10) \<subseteq> set ''0123456789''"
    using rev_digits_decimal [of v] unfolding print_uint_def by auto
qed

text \<open>A numeral in base 16 or 10: digits only, no leading zero.\<close>

definition hex_numeral :: "string \<Rightarrow> nat \<Rightarrow> bool" where
  "hex_numeral ds n \<longleftrightarrow> set ds \<subseteq> set ''0123456789abcdef'' \<and> (ds = ''0'' \<or> hd ds \<noteq> CHR ''0'') \<and> digits_value 16 ds = n"

definition nat_numeral :: "string \<Rightarrow> nat \<Rightarrow> bool" where
  "nat_numeral ds n \<longleftrightarrow> set ds \<subseteq> set ''0123456789'' \<and> (ds = ''0'' \<or> hd ds \<noteq> CHR ''0'') \<and> digits_value 10 ds = n"

text \<open>A signed decimal numeral.\<close>

definition int_numeral :: "string \<Rightarrow> int \<Rightarrow> bool" where
  "int_numeral ds n \<longleftrightarrow> (if n < 0 then \<exists>es. ds = CHR ''-'' # es \<and> nat_numeral es (nat (- n)) else nat_numeral ds (nat n))"

lemma print_uint_numeral: "hex_numeral (print_uint v 16) (unat v)" "nat_numeral (print_uint v 10) (unat v)"
proof -
  have "print_uint v b = ''0'' \<or> hd (print_uint v b) \<noteq> CHR ''0''" if "1 < unat b" "unat b \<le> 16" for b
    using print_uint_top [OF that, of v] by (cases "v = 0") (simp_all add: print_uint_def)
  from this [of 16] this [of 10]
  show "hex_numeral (print_uint v 16) (unat v)" "nat_numeral (print_uint v 10) (unat v)"
    using print_uint_value [of 16 v] print_uint_value [of 10 v] print_uint_chars
    by (simp_all add: hex_numeral_def nat_numeral_def)
qed

lemma print_int_numeral: "int_numeral (print_int v) (sint v)"
proof (cases "sint v < 0")
  case True
  then have "nat (- sint v) = unat (- v)" using unat_neg_sint [OF True] by linarith
  then show ?thesis using True print_uint_numeral(2) [of "- v"] by (simp add: print_int_def int_numeral_def)
next
  case False
  then have "sint v = uint v" using sint_uint_64 [of v] unsigned_less [of v, where ?'a = int] by (auto split: if_splits)
  then show ?thesis using False print_uint_numeral(2) [of v] by (simp add: print_int_def int_numeral_def)
qed

lemma print_int_length: "length (print_int v) \<le> 21"
  using print_uint_length(1) [of "- v"] print_uint_length(1) [of v] by (simp add: print_int_def)

text \<open>
  C34. Formatted output, conversion by conversion: a format is text up to its first percent sign, the conversion
  there, and a rest that is formatted with the arguments that are left. Text is copied; \<open>%s\<close> inserts the string
  and \<open>%c\<close> the character of the low byte; \<open>%d\<close> inserts the decimal numeral of the low 32 bits read as a signed
  number (the most negative one included), \<open>%x\<close> the hexadecimal numeral of the low 32 bits and \<open>%p\<close> that of
  all 64 after \<open>0x\<close>, none with a leading zero and all short enough for the 32-byte buffer they are built in; \<open>%%\<close>
  inserts a percent sign, and any other character is inserted with its percent sign; these two consume no argument.
  The output is undefined exactly when the format ends in a percent sign, or a conversion that takes an
  argument finds none or one of the other type, or the rest is undefined.
\<close>

theorem kformat_correct:
  assumes "CHR ''%'' \<notin> set pre"
  shows "kformat pre args = Some pre \<and> kformat (pre @ ''%'') args = None \<and>
    kformat (pre @ ''%s'' @ post) (Str str # args) = map_option (\<lambda>r. pre @ str @ r) (kformat post args) \<and>
    kformat (pre @ ''%c'' @ post) (Num v # args) =
      map_option (\<lambda>r. pre @ char_of (unat v mod 256) # r) (kformat post args) \<and>
    (\<exists>d. kformat (pre @ ''%d'' @ post) (Num v # args) = map_option (\<lambda>r. pre @ d @ r) (kformat post args) \<and>
       int_numeral d (sint (ucast v :: u32)) \<and> length d \<le> 21) \<and>
    (\<exists>x. kformat (pre @ ''%x'' @ post) (Num v # args) = map_option (\<lambda>r. pre @ x @ r) (kformat post args) \<and>
       hex_numeral x (unat (ucast v :: u32)) \<and> length x \<le> 16) \<and>
    (\<exists>p. kformat (pre @ ''%p'' @ post) (Num v # args) = map_option (\<lambda>r. pre @ ''0x'' @ p @ r) (kformat post args) \<and>
       hex_numeral p (unat v) \<and> length p \<le> 16) \<and>
    kformat (pre @ ''%%'' @ post) args = map_option (\<lambda>r. pre @ CHR ''%'' # r) (kformat post args) \<and>
    (c \<notin> set ''sdxcp%'' \<longrightarrow>
       kformat (pre @ CHR ''%'' # c # post) args = map_option (\<lambda>r. pre @ CHR ''%'' # c # r) (kformat post args)) \<and>
    (c \<in> set ''sdxcp'' \<longrightarrow> kformat (pre @ CHR ''%'' # c # post) [] = None) \<and>
    (c \<in> set ''dxcp'' \<longrightarrow> kformat (pre @ CHR ''%'' # c # post) (Str str # args) = None) \<and>
    kformat (pre @ ''%s'' @ post) (Num v # args) = None"
proof (intro conjI impI)
  note step = kformat_step [OF assms]
  show "kformat pre args = Some pre" "kformat (pre @ ''%'') args = None"
    using kformat_text [OF assms, of "[]"] kformat_text [OF assms, of "''%''"] by simp_all
  show "kformat (pre @ ''%s'' @ post) (Str str # args) = map_option (\<lambda>r. pre @ str @ r) (kformat post args)"
    "kformat (pre @ ''%c'' @ post) (Num v # args) = map_option (\<lambda>r. pre @ char_of (unat v mod 256) # r) (kformat post args)"
    "kformat (pre @ ''%%'' @ post) args = map_option (\<lambda>r. pre @ CHR ''%'' # r) (kformat post args)"
    "kformat (pre @ ''%s'' @ post) (Num v # args) = None"
    by (simp_all add: step)
  show "kformat (pre @ CHR ''%'' # c # post) args = map_option (\<lambda>r. pre @ CHR ''%'' # c # r) (kformat post args)"
    if "c \<notin> set ''sdxcp%''" using that by (simp add: step)
  show "kformat (pre @ CHR ''%'' # c # post) [] = None" if "c \<in> set ''sdxcp''" using that by (auto simp: step)
  show "kformat (pre @ CHR ''%'' # c # post) (Str str # args) = None" if "c \<in> set ''dxcp''" using that by (auto simp: step)
  let ?v = "of_int (sint (ucast v :: u32)) :: u64" and ?x = "ucast (ucast v :: u32) :: u64"
  show "\<exists>d. kformat (pre @ ''%d'' @ post) (Num v # args) = map_option (\<lambda>r. pre @ d @ r) (kformat post args) \<and>
      int_numeral d (sint (ucast v :: u32)) \<and> length d \<le> 21"
    using print_int_numeral [of ?v] sint_of_int_32 [of "ucast v"] print_int_length [of ?v]
    by (intro exI [of _ "print_int ?v"]) (simp add: step)
  show "\<exists>x. kformat (pre @ ''%x'' @ post) (Num v # args) = map_option (\<lambda>r. pre @ x @ r) (kformat post args) \<and>
      hex_numeral x (unat (ucast v :: u32)) \<and> length x \<le> 16"
    using print_uint_numeral(1) [of ?x] print_uint_length(2) [of ?x]
    by (intro exI [of _ "print_uint ?x 16"]) (simp add: step)
  show "\<exists>p. kformat (pre @ ''%p'' @ post) (Num v # args) = map_option (\<lambda>r. pre @ ''0x'' @ p @ r) (kformat post args) \<and>
      hex_numeral p (unat v) \<and> length p \<le> 16"
    using print_uint_numeral(1) [of v] print_uint_length(2) [of v]
    by (intro exI [of _ "print_uint v 16"]) (simp add: step)
qed

theorem kformat_correct_witness:
  "\<exists>d. kformat ''lba=%d.'' [Num 0xFFFFFFF9] = Some (''lba='' @ d @ ''.'') \<and> int_numeral d (- 7)"
  using kformat_correct [of "''lba=''" "[]" "''.''" "[]" "0xFFFFFFF9"] by auto

section \<open>Output leaves the log alone\<close>

abbreviation klog :: "('hw, 'a) console_state_scheme \<Rightarrow> string \<times> u64" where
  "klog s \<equiv> (klog_buf s, klog_total s)"

named_theorems keeps \<open>output operations that leave the log alone\<close>

lemma fold_keeps: "(\<And>i t. k (f i t) = k t) \<Longrightarrow> k (fold f js s) = k s"
  by (induction js arbitrary: s) simp_all

lemma pixels_keep [keeps]:
  fixes s :: "('hw, 'a) console_state_scheme"
  shows "klog (back_set x y c s) = klog s" "klog (front_pixel x y c s) = klog s" "klog (overlay_pixel x y s) = klog s"
  by (simp_all add: back_set_def front_pixel_def store_byte_def overlay_pixel_def Let_def)

lemma rows_keep [keeps]:
  fixes s :: "('hw, 'a) console_state_scheme"
  shows "klog (fill_row x w c y s) = klog s" "klog (draw_row x y b fg bg s) = klog s"
    "klog (copy_row x w d y s) = klog s" "klog (present_row x w y s) = klog s"
  unfolding fill_row_def draw_row_def copy_row_def present_row_def
  by (rule fold_keeps, simp add: keeps Let_def del: prod.inject)+

lemma drawing_keeps [keeps]:
  fixes s :: "('hw, 'a) console_state_scheme"
  shows "klog (gfx_fill_rect x y w h c s) = klog s" "klog (gfx_draw_char x y ch fg bg s) = klog s"
    "klog (overlay_cursor x y w h s) = klog s"
  by (simp_all add: gfx_fill_rect_def gfx_draw_char_def overlay_cursor_def fold_keeps [where k = klog] keeps Let_def
      split: option.split del: prod.inject)

lemma screen_keeps [keeps]:
  fixes s :: "('hw, 'a) console_state_scheme"
  shows "klog (gfx_present x y w h s) = klog s" "klog (gfx_scroll_up x y w h d c s) = klog s"
  by (simp_all add: gfx_present_def gfx_scroll_up_def fold_keeps [where k = klog] keeps Let_def split: option.split del: prod.inject)

lemma fbcon_keeps [keeps]:
  fixes s :: "('hw, 'a) console_state_scheme"
  shows "klog (present_cell c r s) = klog s" "klog (draw_cursor b s) = klog s" "klog (newline s) = klog s"
  by (simp_all add: present_cell_def draw_cursor_def newline_def keeps Let_def del: prod.inject)

lemma fbcon_putc_keeps [keeps]:
  fixes s :: "('hw, 'a) console_state_scheme"
  shows "klog (fbcon_putc c s) = klog s"
  by (simp add: fbcon_putc_def keeps Let_def del: prod.inject)

lemma vga_keeps [keeps]:
  fixes s :: "('hw, 'a) console_state_scheme"
  shows "klog (vga_set i v s) = klog s" "klog (vga_update_hw_cursor P s) = klog s" "klog (vga_wrap s) = klog s"
  by (simp_all add: vga_set_def vga_update_hw_cursor_def vga_wrap_def Let_def)

lemma vga_scroll_keeps [keeps]:
  fixes s :: "('hw, 'a) console_state_scheme"
  shows "klog (vga_scroll s) = klog s"
  by (simp add: vga_scroll_def fold_keeps [where k = klog] keeps Let_def del: prod.inject)

lemma vga_putc_keeps [keeps]:
  fixes s :: "('hw, 'a) console_state_scheme"
  shows "klog (vga_putc P c s) = klog s"
  by (simp add: vga_putc_def keeps Let_def del: prod.inject)

section \<open>The log\<close>

text \<open>The ring buffer holds the end of \<open>log\<close>, everything ever printed.\<close>

definition klog_holds :: "('hw, 'a) console_state_scheme \<Rightarrow> string \<Rightarrow> bool" where
  "klog_holds s log \<longleftrightarrow> length (klog_buf s) = 16384 \<and> unat (klog_total s) = length log \<and>
     (\<forall>i. length log \<le> i + 16384 \<and> i < length log \<longrightarrow> klog_buf s ! (i mod 16384) = log ! i)"

lemma klog_holds_cong: "klog s = klog t \<Longrightarrow> klog_holds s log = klog_holds t log"
  by (simp add: klog_holds_def)

lemma klog_put_holds:
  assumes "klog_holds s log" "length log + 1 < 18446744073709551616"
  shows "klog_holds (klog_put c s) (log @ [c])"
proof -
  note h = assms(1) [unfolded klog_holds_def]
  let ?n = "length log"
  have t: "unat (klog_total s + 1) = Suc ?n" using h assms(2) by (simp add: unat_word_ariths)
  have m: "unat (klog_total s mod KLOG_SIZE) = ?n mod 16384" using h by (simp add: KLOG_SIZE_def unat_mod)
  have "((klog_buf s)[?n mod 16384 := c]) ! (i mod 16384) = (log @ [c]) ! i"
    if i: "Suc ?n \<le> i + 16384" "i < Suc ?n" for i
  proof (cases "i = ?n")
    case False
    then have "i < ?n" "?n \<le> i + 16384" using i by simp_all
    moreover have "?n mod 16384 \<noteq> i mod 16384"
    proof
      assume eq: "?n mod 16384 = i mod 16384"
      have "(?n - i) mod 16384 = 0" using eq \<open>i < ?n\<close> by (simp add: mod_eq_dvd_iff_nat [THEN iffD1] dvd_imp_mod_0)
      moreover have "0 < ?n - i" "?n - i < 16384" using \<open>i < ?n\<close> i(1) by simp_all
      ultimately show False by simp
    qed
    ultimately show ?thesis using h by (simp add: nth_append)
  qed (use h in simp)
  then show ?thesis using h t m by (simp add: klog_holds_def klog_put_def)
qed

lemma emit_char_holds:
  assumes "klog_holds s log" "length log + 1 < 18446744073709551616" "emit_char P c s = Some t"
  shows "klog_holds t (log @ [c])"
proof -
  obtain h where "t = vga_putc P c ((klog_put c s)\<lparr>vga_hw := h\<rparr>)"
    using assms(3) by (auto simp: emit_char_def out_char_def)
  then have "klog t = klog (klog_put c s)" by (simp add: keeps del: prod.inject)
  then show ?thesis using klog_put_holds [OF assms(1,2)] klog_holds_cong by blast
qed

lemma emit_str_holds:
  "\<lbrakk>klog_holds s log; length log + length out < 18446744073709551616; emit_str P out s = Some t\<rbrakk> \<Longrightarrow> klog_holds t (log @ out)"
proof (induction out arbitrary: s log)
  case (Cons c cs)
  then obtain u where u: "emit_char P c s = Some u" "emit_str P cs u = Some t" by (auto split: bind_splits)
  have "klog_holds u (log @ [c])" using Cons.prems u(1) by (intro emit_char_holds [of s log P c u]) simp_all
  then show ?case using Cons.IH [of u "log @ [c]"] Cons.prems u(2) by simp
qed simp

text \<open>A range of the log that the buffer still holds: from \<open>start\<close> to the end.\<close>

definition held :: "string \<Rightarrow> u64 \<times> u64 \<Rightarrow> bool" where
  "held log r \<longleftrightarrow> unat (fst r) + unat (snd r) = length log \<and> unat (snd r) \<le> 16384"

lemma held_char:
  assumes "klog_holds s log" "held log (start, count)" "i < unat count"
  shows "klog_buf s ! unat ((start + of_nat i) mod KLOG_SIZE) = log ! (unat start + i)"
proof -
  have n: "length log < 18446744073709551616"
    using assms(1) unat_lt_64 [of "klog_total s"] by (simp add: klog_holds_def del: unat_lt_64)
  have "unat start + i < 18446744073709551616" using n assms(2,3) by (simp add: held_def)
  then have "unat ((start + of_nat i) mod KLOG_SIZE) = (unat start + i) mod 16384"
    by (simp add: KLOG_SIZE_def unat_mod unat_add_of_nat)
  then show ?thesis using assms by (simp add: klog_holds_def held_def)
qed

lemma held_advance:
  assumes "held log (start, count)" "count > 0" "length log < 18446744073709551616"
  shows "held log (start + 1, count - 1)" "unat (start + 1) = Suc (unat start)" "unat (count - 1) = unat count - 1"
proof -
  have c: "0 < unat count" using assms(2) by (simp add: word_less_nat_alt)
  show u: "unat (start + 1) = Suc (unat start)"
    using assms(1,3) c by (subst unat_add_nowrap) (simp_all add: held_def)
  show v: "unat (count - 1) = unat count - 1" using c by (subst unat_sub) (simp_all add: word_le_nat_alt)
  show "held log (start + 1, count - 1)" using assms(1) c unfolding held_def fst_conv snd_conv u v by linarith
qed

lemma klog_length: "klog_holds s log \<Longrightarrow> length log < 18446744073709551616"
  using unat_lt_64 [of "klog_total s"] by (simp add: klog_holds_def del: unat_lt_64)

lemma skip_line_drops:
  assumes "klog_holds s log" "held log (start, count)" "skip_line (klog_buf s) start count = r"
  shows "held log r \<and> drop (unat (fst r)) log = dropWhile (\<lambda>c. c \<noteq> CHR 0x0A) (drop (unat start) log)"
  using assms(2,3)
proof (induction "unat count" arbitrary: start count rule: less_induct)
  case less
  show ?case
  proof (cases "count > 0")
    case True
    have at: "klog_buf s ! unat (start mod KLOG_SIZE) = log ! unat start"
      using held_char [OF assms(1) less.prems(1), of 0] True by (simp add: word_less_nat_alt)
    have lt: "unat start < length log" using less.prems(1) True by (simp add: held_def word_less_nat_alt)
    then have d: "drop (unat start) log = log ! unat start # drop (Suc (unat start)) log" by (simp add: Cons_nth_drop_Suc)
    note adv = held_advance [OF less.prems(1) True klog_length [OF assms(1)]]
    show ?thesis
    proof (cases "log ! unat start = CHR 0x0A")
      case nl: True
      then have "r = (start, count)" using less.prems(2) at by (subst (asm) skip_line.simps) simp
      then show ?thesis using less.prems(1) d nl by simp
    next
      case False
      then have "skip_line (klog_buf s) (start + 1) (count - 1) = r"
        using less.prems(2) at True by (subst (asm) skip_line.simps) simp
      moreover have "unat (count - 1) < unat count" using adv(3) True by (simp add: word_less_nat_alt)
      ultimately show ?thesis using less.hyps [OF _ adv(1)] adv(2) d False by simp
    qed
  next
    case False
    then have c: "unat count = 0" by (simp add: word_less_nat_alt)
    have "r = (start, count)" using less.prems(2) False by (subst (asm) skip_line.simps) simp
    then show ?thesis using less.prems(1) c by (simp add: held_def)
  qed
qed

text \<open>What a dump of the log starts from: all of it, or from the first whole line the buffer still holds.\<close>

definition shown :: "string \<Rightarrow> string" where
  "shown log =
     (if length log > 16384 then tl (dropWhile (\<lambda>c. c \<noteq> CHR 0x0A) (drop (length log - 16384) log)) else log)"

lemma klog_range_shown:
  assumes "klog_holds s log" "klog_range s mx = r"
  shows "held log r \<and> drop (unat (fst r)) log = drop (length (shown log) - unat mx) (shown log)"
proof -
  let ?total = "klog_total s" and ?n = "length log"
  let ?count = "if ?total < KLOG_SIZE then ?total else KLOG_SIZE"
  let ?start = "?total - ?count"
  have n: "unat ?total = ?n" using assms(1) by (simp add: klog_holds_def)
  have c: "unat ?count = min ?n 16384" using n by (simp add: KLOG_SIZE_def word_less_nat_alt)
  then have st: "unat ?start = ?n - 16384" using n by (subst unat_sub) (auto simp: word_le_nat_alt)
  have h: "held log (?start, ?count)" using c st by (simp add: held_def)
  define q where "q = (if ?total > KLOG_SIZE then
      let (start, count) = skip_line (klog_buf s) ?start ?count in if count > 0 then (start + 1, count - 1) else (start, count)
    else (?start, ?count))"
  have q: "held log q \<and> drop (unat (fst q)) log = shown log"
  proof (cases "?total > KLOG_SIZE")
    case True
    then have big: "?n > 16384" using n by (simp add: KLOG_SIZE_def word_less_nat_alt)
    obtain a b where ab: "skip_line (klog_buf s) ?start ?count = (a, b)" by (rule prod.exhaust)
    have sk: "held log (a, b)" "drop (unat a) log = dropWhile (\<lambda>c. c \<noteq> CHR 0x0A) (drop (?n - 16384) log)"
      using skip_line_drops [OF assms(1) h ab] st by simp_all
    show ?thesis
    proof (cases "b > 0")
      case b: True
      have "drop (Suc (unat a)) log = tl (drop (unat a) log)" by (simp add: drop_Suc drop_tl)
      then show ?thesis using True b ab big sk held_advance [OF sk(1) b klog_length [OF assms(1)]]
        by (simp add: q_def shown_def)
    next
      case False
      then have e: "drop (unat a) log = []" using sk(1) by (simp add: held_def word_less_nat_alt)
      have "shown log = []" by (simp only: shown_def big if_True sk(2) [symmetric] e list.sel)
      then show ?thesis using True False ab sk(1) e by (simp add: q_def)
    qed
  next
    case False
    then show ?thesis using n h st by (simp add: q_def shown_def KLOG_SIZE_def word_less_nat_alt)
  qed
  obtain a b where ab: "q = (a, b)" by (rule prod.exhaust)
  have len: "unat b = length (shown log)" using q ab unfolding held_def by (metis add_diff_cancel_left' fst_conv length_drop snd_conv)
  have r: "r = (if b > ucast mx then (a + (b - ucast mx), ucast mx) else (a, b))"
    using assms(2) unfolding klog_range_def Let_def q_def [unfolded Let_def, symmetric] ab by simp
  show ?thesis
  proof (cases "b > ucast mx")
    case True
    then have lt: "unat mx < unat b" by (simp add: word_less_nat_alt)
    have d: "unat (b - ucast mx) = unat b - unat mx" using lt by (subst unat_sub) (simp_all add: word_le_nat_alt)
    have le: "unat a + unat b = ?n" "unat b \<le> 16384" using q ab by (simp_all add: held_def)
    have u: "unat (a + (b - ucast mx)) = unat a + (unat b - unat mx)"
      using le lt klog_length [OF assms(1)] d by (subst unat_add_nowrap) simp_all
    have "drop (unat a + (unat b - unat mx)) log = drop (length (shown log) - unat mx) (shown log)"
      using conjunct2 [OF q] len drop_drop [of "unat b - unat mx" "unat a" log] by (simp add: ab add.commute)
    then show ?thesis using True r lt le u by (simp add: held_def)
  next
    case False
    then show ?thesis using r q ab len by (simp add: word_less_nat_alt not_less)
  qed
qed

text \<open>
  C35. The kernel log: after any sequence of characters has been printed from boot, \<open>klog_snapshot\<close> gives the end
  of everything printed: all of it while it fits, otherwise from the first whole line the 16 KB
  buffer still holds, cut to the last \<open>max\<close> bytes the caller can take. Nothing else that output does
  touches the log.
\<close>

theorem klog_snapshot_correct:
  assumes "klog_holds s log" and "length log + length out < 18446744073709551616" and "emit_str P out s = Some t"
  shows "klog_snapshot t mx = drop (length (shown (log @ out)) - unat mx) (shown (log @ out)) \<and> klog_holds t (log @ out)"
proof -
  have h: "klog_holds t (log @ out)" by (rule emit_str_holds [OF assms])
  obtain a b where r: "klog_range t mx = (a, b)" by (rule prod.exhaust)
  note k = klog_range_shown [OF h r]
  have "klog_snapshot t mx = map (\<lambda>i. (log @ out) ! (unat a + i)) [0..<unat b]"
    using held_char [OF h] k by (auto simp: klog_snapshot_def r)
  also have "\<dots> = drop (unat a) (log @ out)"
  proof -
    have "unat a + unat b = length (log @ out)" using k by (simp add: held_def)
    then show ?thesis by (intro nth_equalityI) (auto simp del: drop_append)
  qed
  finally show ?thesis using k h by simp
qed

text \<open>A console before the screen is set up, on a serial port that is always ready.\<close>

definition uart_ports :: "unit ports" where
  "uart_ports = \<lparr>p_inb = (\<lambda>port h. (0x20, h)), p_outb = (\<lambda>port v h. h), p_inw = (\<lambda>port h. (0, h)), p_outw = (\<lambda>port v h. h)\<rparr>"

definition console_boot :: "unit console_state" where
  "console_boot = \<lparr>ram = (\<lambda>_. 0), bitmap = 0, bitmap_phys = 0, total_frames = 0, used_frames = 0, bitmap_size = 0,
     module_start = 0, module_end = 0, kernel_pml4 = 0, vmm_active = False, hhdm_end = 0, cr3 = 0,
     gready = False, scrW = 0, scrH = 0, pitch = 0, bytespp = 0, front = 0, backbuf = 0, cur_on = False, cur_x = 0, cur_y = 0,
     active = False, con_ox = 0, con_oy = 0, cols = 0, rows = 0, con_cx = 0, con_cy = 0, con_fg = 0, con_bg = 0,
     vga_ready = False, cursor_row = 0, cursor_col = 0, vga_hw = (),
     klog_buf = replicate 16384 CHR 0x00, klog_total = 0\<rparr>"

lemma uart_out: "out_char uart_ports c s = Some (vga_putc uart_ports c s)"
proof -
  have "vga_putc uart_ports c (s\<lparr>vga_hw := ()\<rparr>) = vga_putc uart_ports c s" for c
    by (rule arg_cong [of _ _ "vga_putc uart_ports c"]) (cases s, simp)
  moreover
  have "wait_transmit uart_ports h = Some h" for h
    by (subst wait_transmit.simps) (simp add: is_transmit_empty_def inb_def uart_ports_def)
  ultimately show ?thesis by (simp add: out_char_def serial_write_char_def serial_send_def)
qed

theorem klog_snapshot_correct_witness:
  "\<exists>t. emit_str uart_ports ''RevinixOS'' console_boot = Some t \<and> klog_snapshot t 2 = ''OS''"
proof -
  have h: "klog_holds console_boot []" by (simp add: klog_holds_def console_boot_def)
  obtain t where t: "emit_str uart_ports ''RevinixOS'' console_boot = Some t"
    by (simp add: emit_char_def uart_out)
  show ?thesis using klog_snapshot_correct [OF h _ t, of 2] t by (simp add: shown_def)
qed

end
