(* ===== verification/UserAccess.thy ===== *)
theory UserAccess
  imports VmmMap KprintfSpec
begin

text \<open>
  User memory as the kernel sees it: the processor's page walk, the range check
  \<open>vmm_user_range_ok\<close> of \<^verbatim>\<open>kernel/mm/vmm.c\<close>, the copy routines of \<^verbatim>\<open>kernel/mm/uaccess.c\<close>
  and the system calls of \<^verbatim>\<open>kernel/syscall/syscall.c\<close>. \<open>None\<close> is a page fault taken in the
  kernel (or a loop without end); the theorems show that it does not happen.
\<close>

section \<open>The processor's page walk\<close>

text \<open>
  The x86-64 rule: at every level the entry must be present, allow user access for a Ring 3
  access, and be writable for a write. A set bit 7 at the second or third level ends the walk with a
  large page. A level is its index with the offset mask of the page it may map, 0 for none.
\<close>

fun mmu :: "'a vmm_state_scheme \<Rightarrow> bool \<Rightarrow> bool \<Rightarrow> u64 \<Rightarrow> u64 \<Rightarrow> (u64 \<times> u64) list \<Rightarrow> u64 option" where
  "mmu s user write v t [] = None"
| "mmu s user write v t ((i, m) # levels) =
     (let e = load64 (ram s) (t + 8 * i) in
      if \<not> bit e 0 \<or> user \<and> \<not> bit e 2 \<or> write \<and> \<not> bit e 1 then None
      else if levels = [] \<or> m \<noteq> 0 \<and> bit e 7 then Some (ENTRY_ADDR e AND NOT m OR (v AND m))
      else mmu s user write v (ENTRY_ADDR e) levels)"

definition mmu_levels :: "u64 \<Rightarrow> (u64 \<times> u64) list" where
  "mmu_levels v = [(PML4_INDEX v, 0), (PDPT_INDEX v, 0x3FFFFFFF), (PD_INDEX v, 0x1FFFFF), (PT_INDEX v, 0xFFF)]"

text \<open>The physical address an access to \<open>v\<close> reaches, \<open>None\<close> when it faults.\<close>

definition translate :: "'a vmm_state_scheme \<Rightarrow> u64 \<Rightarrow> bool \<Rightarrow> bool \<Rightarrow> u64 \<Rightarrow> u64 option" where
  "translate s pml4 user write v = mmu s user write v pml4 (mmu_levels v)"

section \<open>Copying from and to user memory\<close>

definition EFAULT :: int where
  "EFAULT = 14"

definition EINVAL :: int where
  "EINVAL = 22"

definition current_pml4 :: "'a vmm_state_scheme \<Rightarrow> u64" where
  "current_pml4 s = cr3 s AND 0x000FFFFFFFFFF000"

definition user_range_ok :: "u64 \<Rightarrow> u64 \<Rightarrow> bool \<Rightarrow> 'a vmm_state_scheme \<Rightarrow> bool option" where
  "user_range_ok uaddr n write s = vmm_user_range_ok (current_pml4 s) uaddr n write s"

text \<open>One byte read or written by the kernel through the page tables that are loaded.\<close>

definition kread :: "'a vmm_state_scheme \<Rightarrow> u64 \<Rightarrow> u8 option" where
  "kread s a = map_option (ram s) (translate s (current_pml4 s) False False a)"

definition kwrite :: "u64 \<Rightarrow> u8 \<Rightarrow> 'a vmm_state_scheme \<Rightarrow> 'a vmm_state_scheme option" where
  "kwrite a b s = map_option (\<lambda>p. s\<lparr>ram := (ram s)(p := b)\<rparr>) (translate s (current_pml4 s) False True a)"

text \<open>The copied bytes are the value; the kernel buffer they go to or come from is a list.\<close>

definition copy_from_user :: "u64 \<Rightarrow> u64 \<Rightarrow> 'a vmm_state_scheme \<Rightarrow> (int \<times> u8 list) option" where
  "copy_from_user user_src n s = do {
     ok \<leftarrow> vmm_user_range_ok (current_pml4 s) user_src n False s;
     if \<not> ok then Some (- EFAULT, [])
     else do {
       bs \<leftarrow> those (map (\<lambda>i. kread s (user_src + of_nat i)) [0..<unat n]);
       Some (0, bs)
     }
   }"

definition copy_to_user ::
  "u64 \<Rightarrow> u8 list \<Rightarrow> 'a vmm_state_scheme \<Rightarrow> (int \<times> 'a vmm_state_scheme) option" where
  "copy_to_user user_dst src s = do {
     ok \<leftarrow> vmm_user_range_ok (current_pml4 s) user_dst (of_nat (length src)) True s;
     if \<not> ok then Some (- EFAULT, s)
     else do {
       s \<leftarrow> fold (\<lambda>i so. Option.bind so (kwrite (user_dst + of_nat i) (src ! i))) [0..<length src] (Some s);
       Some (0, s)
     }
   }"

section \<open>System calls\<close>

definition WRITE_MAX :: u64 where
  "WRITE_MAX = 1024 * 1024"

definition WRITE_CHUNK :: u64 where
  "WRITE_CHUNK = 256"

text \<open>The chunk loop of \<open>sys_write\<close>; \<open>out\<close> is what has gone to the console so far.\<close>

definition chunk :: "u64 \<Rightarrow> u64 \<Rightarrow> u64" where
  "chunk count d = (if count - d > WRITE_CHUNK then WRITE_CHUNK else count - d)"

lemma chunk_bounds:
  assumes "d < count"
  shows "0 < unat (chunk count d)" "unat (chunk count d) \<le> unat count - unat d"
    "unat (d + chunk count d) = unat d + unat (chunk count d)"
proof -
  have s: "unat (count - d) = unat count - unat d" using assms by (simp add: unat_sub order_less_imp_le)
  have lt: "unat d < unat count" using assms by (simp add: word_less_nat_alt)
  show p: "0 < unat (chunk count d)" "unat (chunk count d) \<le> unat count - unat d"
    using s lt by (auto simp: chunk_def WRITE_CHUNK_def word_less_nat_alt)
  show "unat (d + chunk count d) = unat d + unat (chunk count d)"
    using p lt unat_lt_64 [of count] by (intro unat_add_nowrap) linarith
qed

lemma chunk_decreases:
  "d < count \<Longrightarrow> unat count - unat (d + chunk count d) < unat count - unat d"
  using chunk_bounds [of d count] by simp

function write_loop ::
  "u64 \<Rightarrow> u64 \<Rightarrow> u64 \<Rightarrow> u8 list \<Rightarrow> 'a vmm_state_scheme \<Rightarrow> (int \<times> u8 list) option" where
  "write_loop ubuf count d out s =
     (if d < count then
        Option.bind (copy_from_user (ubuf + d) (chunk count d) s) (\<lambda>(r, kbuf).
          if r \<noteq> 0 then Some (if d \<noteq> 0 then sint d else - EFAULT, out)
          else write_loop ubuf count (d + chunk count d) (out @ kbuf) s)
      else Some (sint d, out))"
  by pat_completeness auto
termination
  by (relation "measure (\<lambda>(ubuf, count, d, out, s). unat count - unat d)")
    (auto simp: chunk_decreases)

declare write_loop.simps [simp del]

definition sys_write :: "u64 \<Rightarrow> u64 \<Rightarrow> 'a vmm_state_scheme \<Rightarrow> (int \<times> u8 list) option" where
  "sys_write ubuf count s =
     (if count > WRITE_MAX then Some (- EINVAL, [])
      else do {
        ok \<leftarrow> user_range_ok ubuf count False s;
        if \<not> ok then Some (- EFAULT, []) else write_loop ubuf count 0 [] s
      })"

text \<open>The register snapshot the entry stub builds, \<open>struct interrupt_frame\<close>.\<close>

record interrupt_frame =
  r15 :: u64
  r14 :: u64
  r13 :: u64
  r12 :: u64
  r11 :: u64
  r10 :: u64
  r9 :: u64
  r8 :: u64
  rbp :: u64
  rdi :: u64
  rsi :: u64
  rdx :: u64
  rcx :: u64
  rbx :: u64
  rax :: u64
  int_no :: u64
  err_code :: u64
  rip :: u64
  cs :: u64
  rflags :: u64
  rsp :: u64
  ss :: u64

definition SYS_WRITE :: u64 where
  "SYS_WRITE = 1"

definition SYS_EXIT :: u64 where
  "SYS_EXIT = 2"

text \<open>
  How a system call ends, with the characters it has printed: back to the caller with a result, or in
  \<open>task_exit\<close>, which never returns.
\<close>

datatype syscall_end = Returns interrupt_frame string | TaskExit string

definition syscall_dispatch :: "interrupt_frame \<Rightarrow> 'a vmm_state_scheme \<Rightarrow> syscall_end option" where
  "syscall_dispatch frame s =
     (if rax frame = SYS_WRITE then do {
        (ret, out) \<leftarrow> sys_write (rdi frame) (rsi frame) s;
        Some (Returns (frame\<lparr>rax := word_of_int ret\<rparr>) (map (\<lambda>b. char_of (unat b)) out))
      }
      else if rax frame = SYS_EXIT then do {
        out \<leftarrow> kformat ([CHR 0x0A] @ ''[SYS_EXIT called by user program, code=%d]'' @ [CHR 0x0A]) [Num (rdi frame)];
        Some (TaskExit out)
      }
      else do {
        out \<leftarrow> kformat (''[unknown syscall %d]'' @ [CHR 0x0A]) [Num (rax frame)];
        Some (Returns (frame\<lparr>rax := word_of_int (- 1)\<rparr>) out)
      })"

section \<open>The range check\<close>

lemma and_all_iff: "x AND m = m \<longleftrightarrow> (\<forall>n. bit m n \<longrightarrow> bit x n)" for x m :: u64
proof
  show "\<forall>n. bit m n \<longrightarrow> bit x n" if "x AND m = m" using that by (metis bit_and_iff)
  show "x AND m = m" if "\<forall>n. bit m n \<longrightarrow> bit x n"
    using that by (intro bit_word_eqI) (auto simp: bit_and_iff)
qed

definition need_bits :: "bool \<Rightarrow> u64" where
  "need_bits write = PAGE_PRESENT OR PAGE_USER OR (if write then PAGE_WRITABLE else 0)"

lemma need_bits_iff: "e AND need_bits write = need_bits write \<longleftrightarrow> bit e 0 \<and> bit e 2 \<and> (write \<longrightarrow> bit e 1)"
proof -
  have b: "bit (need_bits write) n \<longleftrightarrow> n = 0 \<or> n = 2 \<or> write \<and> n = 1" for n
  proof -
    have "bit PAGE_PRESENT n \<longleftrightarrow> n = 0" "bit PAGE_USER n \<longleftrightarrow> n = 2" "bit PAGE_WRITABLE n \<longleftrightarrow> n = 1"
      using bit_exp_iff [where 'a = "64 word", of 0 n] bit_exp_iff [where 'a = "64 word", of 2 n]
        bit_exp_iff [where 'a = "64 word", of 1 n]
      by (auto simp: PAGE_PRESENT_def PAGE_USER_def PAGE_WRITABLE_def)
    then show ?thesis by (auto simp: need_bits_def bit_or_iff)
  qed
  show ?thesis unfolding and_all_iff by (auto simp: b)
qed

lemma flag_bits: "e AND PAGE_PRESENT = 0 \<longleftrightarrow> \<not> bit e 0" "e AND PAGE_HUGE = 0 \<longleftrightarrow> \<not> bit e 7"
  using and_exp_eq_0_iff_not_bit [of e 0] and_exp_eq_0_iff_not_bit [of e 7]
  by (simp_all add: PAGE_PRESENT_def PAGE_HUGE_def)

lemma kernel_load:
  assumes "unat t + 4096 \<le> 2 ^ 47" "i < 512"
  shows "table_get s t i = load64 (ram s) (t + 8 * i)"
  by (simp add: table_get_def slot_addr(1) [OF assms])

text \<open>In a well-formed address space the check of a page is the processor's rule.\<close>

lemma page_user_ok_mmu:
  assumes ok: "pt_ok s pml4"
  shows "page_user_ok s pml4 (need_bits write) v \<longleftrightarrow> translate s pml4 True write v \<noteq> None"
proof -
  note d = pt_okD [OF ok]
  have ld: "load64 (ram s) (t + 8 * i) = table_get s t i"
    if "idx p" "length p \<le> 3" "walk s pml4 p = Some t" "i < 512" for p t i
    by (rule kernel_load [OF table_frame_bound [OF d(1) d(2) [OF that(1-3)]] that(4), symmetric])
  define e1 where "e1 = table_get s pml4 (PML4_INDEX v)"
  define e2 where "e2 = table_get s (ENTRY_ADDR e1) (PDPT_INDEX v)"
  define e3 where "e3 = table_get s (ENTRY_ADDR e2) (PD_INDEX v)"
  define e4 where "e4 = table_get s (ENTRY_ADDR e3) (PT_INDEX v)"
  have h1: "\<not> bit e1 7" using d(4) [of "[]" pml4 "PML4_INDEX v"] by (simp add: flag_bits e1_def)
  have w1: "walk s pml4 [PML4_INDEX v] = Some (ENTRY_ADDR e1)" if "bit e1 0"
    using that h1 by (simp add: walk.simps flag_bits flip: e1_def)
  have h2: "\<not> bit e2 7" if "bit e1 0"
    using d(4) [OF _ _ w1 [OF that], of "PDPT_INDEX v"] by (simp add: flag_bits e2_def)
  have w2: "walk s pml4 [PML4_INDEX v, PDPT_INDEX v] = Some (ENTRY_ADDR e2)" if "bit e1 0" "bit e2 0"
    using that h1 h2 by (simp add: walk.simps flag_bits flip: e1_def e2_def)
  have w3: "walk s pml4 [PML4_INDEX v, PDPT_INDEX v, PD_INDEX v] = Some (ENTRY_ADDR e3)"
    if "bit e1 0" "bit e2 0" "bit e3 0" "\<not> bit e3 7"
    using that h1 h2 by (simp add: walk.simps flag_bits flip: e1_def e2_def e3_def)
  have l1: "load64 (ram s) (pml4 + 8 * PML4_INDEX v) = e1" using ld [of "[]"] by (simp add: e1_def)
  have l2: "load64 (ram s) (ENTRY_ADDR e1 + 8 * PDPT_INDEX v) = e2" if "bit e1 0"
    using ld [OF _ _ w1 [OF that]] by (simp add: e2_def)
  have l3: "load64 (ram s) (ENTRY_ADDR e2 + 8 * PD_INDEX v) = e3" if "bit e1 0" "bit e2 0"
    using ld [OF _ _ w2 [OF that]] by (simp add: e3_def)
  have l4: "load64 (ram s) (ENTRY_ADDR e3 + 8 * PT_INDEX v) = e4"
    if "bit e1 0" "bit e2 0" "bit e3 0" "\<not> bit e3 7"
    using ld [OF _ _ w3 [OF that]] by (simp add: e4_def)
  show ?thesis
    unfolding page_user_ok_def translate_def mmu_levels_def
    by (auto simp: need_bits_iff flag_bits h2 l1 l2 l3 l4 Let_def simp flip: e1_def e2_def e3_def e4_def)
qed

lemma index_page:
  "PML4_INDEX (v AND NOT 0xFFF) = PML4_INDEX v" "PDPT_INDEX (v AND NOT 0xFFF) = PDPT_INDEX v"
  "PD_INDEX (v AND NOT 0xFFF) = PD_INDEX v" "PT_INDEX (v AND NOT 0xFFF) = PT_INDEX v"
proof -
  have m: "drop_bit n (v AND NOT (mask 12)) = drop_bit n v" if "12 \<le> n" for n
    by (rule bit_word_eqI) (use that in \<open>auto simp: bit_simps dest: bit_imp_le_length\<close>)
  have "(0xFFF :: u64) = mask 12" by (simp add: mask_eq_exp_minus_1)
  then show "PML4_INDEX (v AND NOT 0xFFF) = PML4_INDEX v" "PDPT_INDEX (v AND NOT 0xFFF) = PDPT_INDEX v"
    "PD_INDEX (v AND NOT 0xFFF) = PD_INDEX v" "PT_INDEX (v AND NOT 0xFFF) = PT_INDEX v"
    unfolding PML4_INDEX_def PDPT_INDEX_def PD_INDEX_def PT_INDEX_def by (simp_all only: m)
qed

lemma page_user_ok_page: "page_user_ok s pml4 need (v AND NOT 0xFFF) = page_user_ok s pml4 need v"
  unfolding page_user_ok_def index_page ..

lemma page_user_ok_cong:
  assumes "unat v div 4096 = unat w div 4096"
  shows "page_user_ok s pml4 need v = page_user_ok s pml4 need w"
proof -
  have "unat (v AND - 4096) = unat (w AND - 4096)" using assms by (simp add: unat_page_mask)
  then have "v AND NOT 0xFFF = w AND NOT 0xFFF" by (simp add: word_unat_eq_iff)
  then show ?thesis using page_user_ok_page [of s pml4 need v] page_user_ok_page [of s pml4 need w] by metis
qed

lemma page_user_ok_near:
  assumes "unat p mod 4096 = 0" "p \<le> v" "unat v < unat p + 4096"
  shows "page_user_ok s pml4 need v = page_user_ok s pml4 need p"
proof (rule page_user_ok_cong)
  obtain q where q: "unat p = 4096 * q" using assms(1) by auto
  then show "unat v div 4096 = unat p div 4096"
    using assms(2,3) by (simp add: word_le_nat_alt div_nat_eqI)
qed

text \<open>A condition that is constant on pages holds on the pages of a range when it holds on its bytes.\<close>

lemma pages_cover_bytes:
  assumes page: "\<And>v w :: u64. unat v div 4096 = unat w div 4096 \<Longrightarrow> P v = P w"
    and len: "unat va + unat len \<le> 2 ^ 47" "len \<noteq> 0" and p: "unat p = unat va div 4096 * 4096"
  shows "(\<forall>v. p \<le> v \<longrightarrow> v < va + len \<longrightarrow> P v) \<longleftrightarrow> (\<forall>k < len. P (va + k))" (is "?A \<longleftrightarrow> ?B")
proof
  have st: "unat (va + len) = unat va + unat len" using len(1) by (intro unat_add_nowrap) simp
  have add: "unat (va + k) = unat va + unat k" if "k < len" for k
    using that len(1) by (intro unat_add_nowrap) (simp add: word_less_nat_alt)
  show ?B if ?A using that add p st by (simp add: word_le_nat_alt word_less_nat_alt)
  show ?A if B: ?B
  proof (intro allI impI)
    fix v assume v: "p \<le> v" "v < va + len"
    show "P v"
    proof (cases "va \<le> v")
      case True
      then have "unat (v - va) = unat v - unat va" by (simp add: unat_sub)
      then have "v - va < len" using True v(2) st by (simp add: word_less_nat_alt word_le_nat_alt)
      then show ?thesis using B [rule_format, of "v - va"] by simp
    next
      case False
      then have "unat v div 4096 = unat va div 4096"
        using v(1) p by (intro div_nat_eqI) (simp_all add: word_le_nat_alt)
      moreover have "P va" using B [rule_format, of 0] len(2) by (simp add: word_neq_0_conv)
      ultimately show ?thesis using page by metis
    qed
  qed
qed

lemma user_pages_unfold:
  "user_pages_ok s pml4 need stop p =
     (if p < stop \<and> page_user_ok s pml4 need p then user_pages_ok s pml4 need stop (p + 0x1000)
      else Some (\<not> p < stop))"
  unfolding user_pages_ok_def by (subst while_option_unfold) simp

lemma user_pages_all:
  assumes "unat p mod 4096 = 0" "unat stop \<le> 2 ^ 47"
  shows "user_pages_ok s pml4 need stop p = Some (\<forall>v. p \<le> v \<longrightarrow> v < stop \<longrightarrow> page_user_ok s pml4 need v)"
  using assms(1)
proof (induction "unat stop - unat p" arbitrary: p rule: less_induct)
  case less
  show ?case
  proof (cases "p < stop \<and> page_user_ok s pml4 need p")
    case False
    then show ?thesis by (subst user_pages_unfold) auto
  next
    case True
    let ?p = "p + 0x1000"
    have up: "unat ?p = unat p + 4096"
      using True assms(2) by (subst unat_add_nowrap) (simp_all add: word_less_nat_alt)
    have "user_pages_ok s pml4 need stop ?p = Some (\<forall>v. ?p \<le> v \<longrightarrow> v < stop \<longrightarrow> page_user_ok s pml4 need v)"
    proof (rule less.hyps)
      show "unat stop - unat ?p < unat stop - unat p" using True up unfolding word_less_nat_alt by linarith
      show "unat ?p mod 4096 = 0" using up less.prems by simp
    qed
    moreover have "(\<forall>v. ?p \<le> v \<longrightarrow> v < stop \<longrightarrow> page_user_ok s pml4 need v) \<longleftrightarrow>
        (\<forall>v. p \<le> v \<longrightarrow> v < stop \<longrightarrow> page_user_ok s pml4 need v)"
    proof (intro iffI allI impI)
      fix v assume all: "\<forall>v. ?p \<le> v \<longrightarrow> v < stop \<longrightarrow> page_user_ok s pml4 need v" and v: "p \<le> v" "v < stop"
      show "page_user_ok s pml4 need v"
      proof (cases "?p \<le> v")
        case False
        then show ?thesis
          using page_user_ok_near [OF less.prems v(1), of s pml4 need] True up by (simp add: word_le_nat_alt)
      qed (use all v in blast)
    qed (use up in \<open>auto simp: word_le_nat_alt\<close>)
    ultimately show ?thesis using True by (subst user_pages_unfold) simp
  qed
qed

lemma user_range_result:
  assumes "pt_ok s pml4"
  shows "vmm_user_range_ok pml4 va len write s = Some (len = 0 \<or>
    unat va + unat len \<le> unat USER_SPACE_END \<and>
    (\<forall>k < len. translate s pml4 True write (va + k) \<noteq> None))"
proof (cases "len = 0")
  case True
  then show ?thesis by (simp add: vmm_user_range_ok_def)
next
  case False
  show ?thesis
  proof (cases "unat va + unat len \<le> unat USER_SPACE_END")
    case True
    then have lt: "unat va + unat len \<le> 2 ^ 47" by (simp add: USER_SPACE_END_def)
    then have st: "unat (va + len) = unat va + unat len" by (intro unat_add_nowrap) simp
    define p where "p = va AND NOT 0xFFF"
    have p: "unat p = unat va div 4096 * 4096" using unat_page_mask [of va] by (simp add: p_def)
    have all: "user_pages_ok s pml4 (need_bits write) (va + len) p =
        Some (\<forall>v. p \<le> v \<longrightarrow> v < va + len \<longrightarrow> page_user_ok s pml4 (need_bits write) v)"
      by (rule user_pages_all) (use p st lt in simp_all)
    have "(\<forall>v. p \<le> v \<longrightarrow> v < va + len \<longrightarrow> page_user_ok s pml4 (need_bits write) v) \<longleftrightarrow>
        (\<forall>k < len. page_user_ok s pml4 (need_bits write) (va + k))"
      by (rule pages_cover_bytes [OF page_user_ok_cong lt False p])
    moreover have "vmm_user_range_ok pml4 va len write s = user_pages_ok s pml4 (need_bits write) (va + len) p"
      using True False st
      by (simp add: vmm_user_range_ok_def need_bits_def p_def word_less_nat_alt Let_def)
    ultimately show ?thesis using all page_user_ok_mmu [OF assms] True False by simp
  next
    case bad: False
    show ?thesis
    proof (cases "unat va + unat len < 2 ^ 64")
      case True
      then have "unat (va + len) = unat va + unat len" by (intro unat_add_nowrap) simp
      then show ?thesis using bad False by (simp add: vmm_user_range_ok_def word_less_nat_alt Let_def)
    next
      case wrap: False
      then have "(unat va + unat len) mod 2 ^ 64 = (unat va + unat len - 2 ^ 64) mod 2 ^ 64"
        by (intro le_mod_geq) simp
      moreover have "unat va + unat len - 2 ^ 64 < 2 ^ 64"
        using unat_lt_64 [of va] unat_lt_64 [of len] by (simp del: unat_lt_64)
      ultimately have "unat (va + len) = unat va + unat len - 2 ^ 64"
        unfolding unat_word_ariths by (simp only: len_bit0 len_num1 mod_less) simp
      then have "va + len < va" using wrap unat_lt_64 [of len] by (simp add: word_less_nat_alt del: unat_lt_64)
      then show ?thesis using bad False by (simp add: vmm_user_range_ok_def Let_def)
    qed
  qed
qed

text \<open>
  C8. The check of a user pointer is exact. In a well-formed address space \<open>vmm_user_range_ok\<close>
  returns, and says yes precisely when the range is empty, or it neither wraps around nor leaves
  the user half and the processor would allow a Ring 3 access (for writing, if asked) to each of
  its bytes.
\<close>

theorem vmm_user_range_ok_exact:
  assumes "pt_ok s pml4"
  shows "vmm_user_range_ok pml4 va len write s = Some (len = 0 \<or>
    unat va + unat len \<le> unat USER_SPACE_END \<and>
    (\<forall>k < len. translate s pml4 True write (va + k) \<noteq> None))"
  using assms by (rule user_range_result)

lemma vmm_example_translate: "translate vmm_example 0x2000 user write v = None"
proof -
  have "unat (0x2000 :: u64) + 4096 \<le> 2 ^ 47" by simp
  note ld = kernel_load [OF this index_less(1) [of v], of vmm_example, symmetric]
  show ?thesis
    unfolding translate_def mmu_levels_def by (simp add: ld vmm_example_entries)
qed

theorem vmm_user_range_ok_exact_witness:
  "vmm_user_range_ok 0x2000 0x400000 16 False vmm_example = Some False"
  unfolding vmm_user_range_ok_exact [OF vmm_example_pt_ok] vmm_example_translate
  by (auto intro: exI [of _ 0])

section \<open>Copying\<close>

text \<open>A byte Ring 3 may read, the kernel reads at the same physical address.\<close>

lemma mmu_kernel: "mmu s True w v t ls = Some p \<Longrightarrow> mmu s False w v t ls = Some p"
proof (induction ls arbitrary: t)
  case (Cons x ls)
  obtain i m where "x = (i, m)" by (cases x)
  then show ?case using Cons by (auto simp: Let_def split: if_splits)
qed simp

lemma those_map_Some: "those (map (\<lambda>x. Some (f x)) xs) = Some (map f xs)"
  by (induction xs) simp_all

text \<open>The bytes of user memory from \<open>a\<close> on, as the processor reads them in Ring 3.\<close>

definition user_bytes :: "'a vmm_state_scheme \<Rightarrow> u64 \<Rightarrow> nat \<Rightarrow> u8 list" where
  "user_bytes s a n = map (\<lambda>k. ram s (the (translate s (current_pml4 s) True False (a + of_nat k)))) [0..<n]"

definition user_readable :: "'a vmm_state_scheme \<Rightarrow> u64 \<Rightarrow> u64 \<Rightarrow> bool" where
  "user_readable s a n \<longleftrightarrow> n = 0 \<or> unat a + unat n \<le> unat USER_SPACE_END \<and>
     (\<forall>k < n. translate s (current_pml4 s) True False (a + k) \<noteq> None)"

lemma copy_from_user_result:
  assumes "pt_ok s (current_pml4 s)"
  shows "copy_from_user a n s =
    Some (if user_readable s a n then (0, user_bytes s a (unat n)) else (- EFAULT, []))"
proof (cases "user_readable s a n")
  case True
  have "kread s (a + of_nat i) = Some (ram s (the (translate s (current_pml4 s) True False (a + of_nat i))))"
    if "i < unat n" for i
  proof -
    have "(of_nat i :: u64) < n" using that unat_lt_64 [of n]
      by (simp add: word_less_nat_alt unat_of_nat)
    then have "translate s (current_pml4 s) True False (a + of_nat i) \<noteq> None"
      using True that by (auto simp: user_readable_def)
    then obtain p where "translate s (current_pml4 s) True False (a + of_nat i) = Some p" by blast
    then show ?thesis using mmu_kernel by (fastforce simp: kread_def translate_def)
  qed
  then have "map (\<lambda>i. kread s (a + of_nat i)) [0..<unat n]
      = map (\<lambda>i. Some (ram s (the (translate s (current_pml4 s) True False (a + of_nat i))))) [0..<unat n]"
    by simp
  then show ?thesis
    using True user_range_result [OF assms, of a n False, folded user_readable_def]
    by (simp add: copy_from_user_def user_bytes_def those_map_Some del: map_eq_conv)
next
  case False
  then show ?thesis using user_range_result [OF assms, of a n False, folded user_readable_def]
    by (simp add: copy_from_user_def)
qed

section \<open>SYS\_WRITE\<close>

lemma user_readable_part:
  assumes r: "user_readable s a n" and d: "unat d + unat m \<le> unat n"
  shows "user_readable s (a + d) m"
proof (cases "m = 0")
  case False
  then have n: "n \<noteq> 0" using d by (auto simp: word_unat_eq_iff)
  then have b: "unat a + unat n \<le> unat USER_SPACE_END"
    and t: "\<And>k. k < n \<Longrightarrow> translate s (current_pml4 s) True False (a + k) \<noteq> None"
    using r by (auto simp: user_readable_def)
  have lim: "unat a + unat n < 18446744073709551616" using b by (simp add: USER_SPACE_END_def)
  have ad: "unat (a + d) = unat a + unat d" using d lim by (intro unat_add_nowrap) linarith
  have "translate s (current_pml4 s) True False (a + d + k) \<noteq> None" if "k < m" for k
  proof -
    have "unat (d + k) = unat d + unat k"
      using that d unat_lt_64 [of n] unfolding word_less_nat_alt by (intro unat_add_nowrap) linarith
    then have "d + k < n" using that d by (simp add: word_less_nat_alt)
    from t [OF this] show ?thesis by (simp add: add.assoc)
  qed
  then show ?thesis using ad b d by (simp add: user_readable_def)
qed (simp add: user_readable_def)

lemma user_bytes_split:
  "user_bytes s a (unat d) @ user_bytes s (a + d) m = user_bytes s a (unat d + m)"
proof -
  have "map (\<lambda>k. ram s (the (translate s (current_pml4 s) True False (a + d + of_nat k)))) [0..<m]
      = map (\<lambda>k. ram s (the (translate s (current_pml4 s) True False (a + of_nat k)))) [unat d..<unat d + m]"
    by (rule nth_equalityI) (simp, simp add: nth_append add.assoc)
  then show ?thesis unfolding user_bytes_def using upt_add_eq_append [of 0 "unat d" m] by simp
qed

lemma write_loop_result:
  assumes "pt_ok s (current_pml4 s)" "user_readable s ubuf count"
  shows "d \<le> count \<Longrightarrow> write_loop ubuf count d (user_bytes s ubuf (unat d)) s =
    Some (sint count, user_bytes s ubuf (unat count))"
proof (induction "unat count - unat d" arbitrary: d rule: less_induct)
  case less
  show ?case
  proof (cases "d < count")
    case True
    note b = chunk_bounds [OF True]
    have lt: "unat d < unat count" using True by (simp add: word_less_nat_alt)
    have "unat d + unat (chunk count d) \<le> unat count" using b(2) lt by linarith
    then have "user_readable s (ubuf + d) (chunk count d)" by (rule user_readable_part [OF assms(2)])
    then have c: "copy_from_user (ubuf + d) (chunk count d) s =
        Some (0, user_bytes s (ubuf + d) (unat (chunk count d)))"
      using copy_from_user_result [OF assms(1), of "ubuf + d"] by simp
    have "write_loop ubuf count (d + chunk count d) (user_bytes s ubuf (unat (d + chunk count d))) s =
        Some (sint count, user_bytes s ubuf (unat count))"
    proof (rule less.hyps)
      show "unat count - unat (d + chunk count d) < unat count - unat d" by (rule chunk_decreases [OF True])
      show "d + chunk count d \<le> count" using b(2,3) lt by (simp add: word_le_nat_alt)
    qed
    then show ?thesis
      using True c by (subst write_loop.simps) (simp add: b(3) user_bytes_split)
  next
    case False
    then have "d = count" using less.prems by simp
    then show ?thesis by (subst write_loop.simps) simp
  qed
qed

lemma sys_write_result:
  assumes "pt_ok s (current_pml4 s)"
  shows "sys_write ubuf count s = Some (
    if unat count > 1048576 then (- 22, [])
    else if \<not> user_readable s ubuf count then (- 14, [])
    else (int (unat count), user_bytes s ubuf (unat count)))"
proof -
  have big: "count > WRITE_MAX \<longleftrightarrow> unat count > 1048576" by (simp add: WRITE_MAX_def word_less_nat_alt)
  have r: "user_range_ok ubuf count False s = Some (user_readable s ubuf count)"
    unfolding user_range_ok_def user_readable_def by (rule user_range_result [OF assms])
  have "write_loop ubuf count 0 [] s = Some (int (unat count), user_bytes s ubuf (unat count))"
    if "unat count \<le> 1048576" "user_readable s ubuf count"
    using write_loop_result [OF assms that(2), of 0] that(1) sint_small [of count] by (simp add: user_bytes_def)
  then show ?thesis unfolding sys_write_def big r by (simp add: EINVAL_def EFAULT_def)
qed

text \<open>
  C9. \<open>SYS_WRITE\<close> is all or nothing and never faults in the kernel. With the caller's well-formed
  page tables loaded, it returns -22 for more than 1 MB and -14 when some byte is not readable user
  memory, printing nothing in both cases; otherwise it returns the count and prints exactly the
  bytes Ring 3 would read there, in order.
\<close>

theorem sys_write_correct:
  assumes "pt_ok s (current_pml4 s)"
  shows "sys_write ubuf count s = Some (
    if unat count > 1048576 then (- 22, [])
    else if \<not> user_readable s ubuf count then (- 14, [])
    else (int (unat count), user_bytes s ubuf (unat count)))"
  using assms by (rule sys_write_result)

lemma vmm_example_current: "current_pml4 vmm_example = 0x2000"
  by (simp add: current_pml4_def vmm_example_def)

lemma vmm_example_readable: "user_readable vmm_example a n \<longleftrightarrow> n = 0"
  unfolding user_readable_def vmm_example_current vmm_example_translate
  by (cases "n = 0") (auto simp: word_neq_0_conv)

theorem sys_write_correct_witness:
  "sys_write 0x400000 5 vmm_example = Some (- 14, []) \<and>
   sys_write 0x400000 0 vmm_example = Some (0, []) \<and>
   sys_write 0x400000 0x100001 vmm_example = Some (- 22, [])"
proof -
  have ok: "pt_ok vmm_example (current_pml4 vmm_example)"
    unfolding vmm_example_current by (rule vmm_example_pt_ok)
  show ?thesis unfolding sys_write_correct [OF ok] vmm_example_readable
    by (simp add: user_bytes_def)
qed

lemma kformat_signed:
  assumes "CHR ''%'' \<notin> set pre" "CHR ''%'' \<notin> set post"
  shows "kformat (pre @ CHR ''%'' # CHR ''d'' # post) [Num v] = Some (pre @ print_int (of_int (sint (ucast v :: u32))) @ post)"
  using kformat_step [OF assms(1), of "CHR ''d''" post "[Num v]"] kformat_text [OF assms(2), of "[]"] by simp

lemma syscall_messages:
  "kformat ([CHR 0x0A] @ ''[SYS_EXIT called by user program, code=%d]'' @ [CHR 0x0A]) [Num v] =
     Some ([CHR 0x0A] @ ''[SYS_EXIT called by user program, code='' @ print_int (of_int (sint (ucast v :: u32))) @ '']'' @ [CHR 0x0A])"
  "kformat (''[unknown syscall %d]'' @ [CHR 0x0A]) [Num v] =
     Some (''[unknown syscall '' @ print_int (of_int (sint (ucast v :: u32))) @ '']'' @ [CHR 0x0A])"
  using kformat_signed [of "[CHR 0x0A] @ ''[SYS_EXIT called by user program, code=''" "'']'' @ [CHR 0x0A]" v]
    kformat_signed [of "''[unknown syscall ''" "'']'' @ [CHR 0x0A]" v]
  by (simp_all del: kformat.simps)

text \<open>
  C10. The system-call dispatcher returns to the caller with nothing but \<open>rax\<close> changed, or ends the
  task. \<open>SYS_WRITE\<close> puts its result there and prints the bytes it wrote; \<open>SYS_EXIT\<close> prints its message
  with the exit code, a signed decimal numeral of the low 32 bits of the argument, and never returns; any other number
  yields -1 and prints the unknown number in the same way.
\<close>

theorem syscall_dispatch_correct:
  assumes "pt_ok s (current_pml4 s)"
  shows "\<exists>d. int_numeral d (sint (ucast (if rax frame = 2 then rdi frame else rax frame) :: u32)) \<and>
    syscall_dispatch frame s = Some (
    if rax frame = 2 then TaskExit ([CHR 0x0A] @ ''[SYS_EXIT called by user program, code='' @ d @ '']'' @ [CHR 0x0A])
    else if rax frame \<noteq> 1 then Returns (frame\<lparr>rax := - 1\<rparr>) (''[unknown syscall '' @ d @ '']'' @ [CHR 0x0A])
    else if unat (rsi frame) > 1048576 then Returns (frame\<lparr>rax := - 22\<rparr>) []
    else if \<not> user_readable s (rdi frame) (rsi frame) then Returns (frame\<lparr>rax := - 14\<rparr>) []
    else Returns (frame\<lparr>rax := rsi frame\<rparr>)
      (map (\<lambda>b. char_of (unat b)) (user_bytes s (rdi frame) (unat (rsi frame)))))"
proof -
  let ?v = "if rax frame = 2 then rdi frame else rax frame"
  have "int_numeral (print_int (of_int (sint (ucast ?v :: u32)))) (sint (ucast ?v :: u32))"
    using print_int_numeral [of "of_int (sint (ucast ?v :: u32))"] by (simp only: sint_of_int_32)
  then show ?thesis
    unfolding syscall_dispatch_def sys_write_result [OF assms] syscall_messages
    by (intro exI [of _ "print_int (of_int (sint (ucast ?v :: u32)))"]) (simp add: SYS_WRITE_def SYS_EXIT_def)
qed

text \<open>A write of memory the caller cannot read, and a call with the unknown number 7.\<close>

theorem syscall_dispatch_correct_witness:
  "\<exists>f. rdi f = 0x400000 \<and> rsi f = 5 \<and> rax f = 1 \<and>
     syscall_dispatch f vmm_example = Some (Returns (f\<lparr>rax := - 14\<rparr>) []) \<and>
     (\<exists>d. int_numeral d 7 \<and> syscall_dispatch (f\<lparr>rax := 7\<rparr>) vmm_example =
        Some (Returns (f\<lparr>rax := - 1\<rparr>) (''[unknown syscall '' @ d @ '']'' @ [CHR 0x0A])))"
proof -
  let ?f = "\<lparr>r15 = 0, r14 = 0, r13 = 0, r12 = 0, r11 = 0, r10 = 0, r9 = 0, r8 = 0, rbp = 0,
     rdi = 0x400000, rsi = 5, rdx = 0, rcx = 0, rbx = 0, rax = 1, int_no = 0x80, err_code = 0, rip = 0,
     cs = 0, rflags = 0, rsp = 0, ss = 0\<rparr> :: interrupt_frame"
  have ok: "pt_ok vmm_example (current_pml4 vmm_example)"
    unfolding vmm_example_current by (rule vmm_example_pt_ok)
  show ?thesis
    using syscall_dispatch_correct [OF ok, of ?f] syscall_dispatch_correct [OF ok, of "?f\<lparr>rax := 7\<rparr>"]
    unfolding vmm_example_readable by (intro exI [of _ ?f]) simp
qed

end
