(* ===== verification/VmmData.thy ===== *)
theory VmmData
  imports VmmMap
begin

text \<open>
  Data frames of an address space: frames in use that are none of its tables. Mapping pages leaves
  their contents alone, and writing to them leaves the translation alone.
\<close>

definition data_frame :: "'a vmm_state_scheme \<Rightarrow> u64 \<Rightarrow> u64 \<Rightarrow> bool" where
  "data_frame s pml4 f \<longleftrightarrow> table_frame s f \<and> (\<forall>p. idx p \<longrightarrow> length p \<le> 3 \<longrightarrow> walk s pml4 p \<noteq> Some f)"

text \<open>The contents of a frame are the same in two states.\<close>

definition same_frame :: "u64 \<Rightarrow> 'a pmm_state_scheme \<Rightarrow> 'a pmm_state_scheme \<Rightarrow> bool" where
  "same_frame f s s' \<longleftrightarrow> (\<forall>k < 4096. ram s' (f + k) = ram s (f + k))"

lemma same_frame_trans: "\<lbrakk>same_frame f s s'; same_frame f s' s''\<rbrakk> \<Longrightarrow> same_frame f s s''"
  by (simp add: same_frame_def)

lemma table_frames_disjoint:
  assumes "mem_ok s" "table_frame s t" "mem_ok s'" "table_frame s' u" "t \<noteq> u" "k < 4096" "l < 4096"
  shows "t + k \<noteq> u + l"
  by (rule frames_disjoint)
    (use assms table_frame_bound [OF assms(1,2)] table_frame_bound [OF assms(3,4)] in \<open>simp_all add: table_frame_def\<close>)

lemma touches_same_frame:
  assumes "touches T s s'" "table_frame s f" and "\<And>t k l. \<lbrakk>t \<in> T; k < 4096; l < 4096\<rbrakk> \<Longrightarrow> t + k \<noteq> f + l"
  shows "same_frame f s s'"
proof -
  have "ram s' (f + l) = ram s (f + l)" if l: "l < 4096" for l
  proof -
    have "\<not> f + l - kaddr (bitmap s) < bitmap_size s" using assms(2) l by (simp add: table_frame_def)
    moreover have "\<forall>t \<in> T. \<forall>k < 4096. f + l \<noteq> t + k" using assms(3) l by metis
    ultimately show ?thesis using assms(1) unfolding touches_def by blast
  qed
  then show ?thesis by (simp add: same_frame_def)
qed

section \<open>Creating tables\<close>

lemma next_level_data:
  fixes s :: "'a vmm_state_scheme"
  assumes ok: "pt_ok s pml4" and p: "idx p" "length p \<le> 2" "walk s pml4 p = Some t" "i < 512"
    and fr: "0 < free_frames s" and r: "next_level t i True s = (t', s')" and f: "data_frame s pml4 f"
  shows "data_frame s' pml4 f \<and> same_frame f s s'"
proof (cases "table_get s t i AND PAGE_PRESENT = 0")
  case False
  then have "s' = s" using r by (auto simp: next_level_def)
  then show ?thesis using f by (simp add: same_frame_def)
next
  case True
  note d = pt_okD [OF ok]
  have tf: "table_frame s t" using d(2) [OF p(1) _ p(3)] p(2) by simp
  have ff: "table_frame s f" "f \<noteq> t" using f p unfolding data_frame_def by auto
  obtain g s0 where al: "pmm_alloc_frame s = (g, s0)" by (cases "pmm_alloc_frame s")
  have g0: "g \<noteq> 0" using free_frames_alloc [OF _ fr] al d(1) by (simp add: mem_ok_def)
  note n = new_table_correct [OF d(1) al g0 tf p(4)]
  have gf: "g \<noteq> f" using n(3) ff(1) by auto
  have s': "s' = new_table t i g s0" using r True al by (auto simp: next_level_def new_table_def Let_def)
  have "walk s' pml4 q \<noteq> Some f" if "idx q" "length q \<le> 3" for q
    using new_table_walk [OF ok p al g0 that] f that gf by (auto simp: s' data_frame_def split: if_splits)
  moreover have "u + k \<noteq> f + l" if "u \<in> {t, g}" "k < 4096" "l < 4096" for u k l
    using that table_frames_disjoint [OF d(1) tf d(1) ff(1) _ that(2,3)] gf ff(2)
      table_frames_disjoint [OF n(1,2) n(1) n(4) [OF ff(1)] _ that(2,3)] by blast
  ultimately show ?thesis
    using n(4) [OF ff(1)] touches_same_frame [OF n(5) ff(1)] unfolding s' data_frame_def by blast
qed

lemma table_set_walk:
  fixes s :: "'a vmm_state_scheme"
  assumes ok: "pt_ok s pml4" and pt: "idx p" "length p = 3" "walk s pml4 p = Some pt" and i: "i < 512"
    and q: "idx q" "length q \<le> 3"
  shows "walk (table_set pt i v s) pml4 q = walk s pml4 q"
  using q
proof (induction q rule: rev_induct)
  case (snoc j q)
  note o = pt_okD [OF ok]
  have pf: "table_frame s pt" using o(2) [OF pt(1) _ pt(3)] pt(2) by simp
  show ?case
  proof (cases "walk s pml4 q")
    case (Some u)
    have "u \<noteq> pt" using o(3) [of q p u] snoc.prems pt Some by auto
    moreover have "table_frame s u" using o(2) [OF _ _ Some] snoc.prems by simp
    ultimately have "table_get (table_set pt i v s) u j = table_get s u j"
      using table_get_set [OF o(1) pf _ i, of u j v] snoc.prems by simp
    then show ?thesis using Some snoc by (simp add: walk_snoc)
  qed (use snoc in \<open>simp add: walk_snoc\<close>)
qed simp

lemma map_page_data:
  fixes s :: "'a vmm_state_scheme"
  assumes ok: "pt_ok s pml4" and fr: "3 \<le> free_frames s" and huge: "\<And>e. leaf_of s pml4 virt \<noteq> Some (True, e)"
    and s': "vmm_map_page_in pml4 virt phys flags s = s'" and f: "data_frame s pml4 f"
  shows "data_frame s' pml4 f \<and> same_frame f s s'"
proof -
  let ?a = "PML4_INDEX virt" and ?b = "PDPT_INDEX virt" and ?c = "PD_INDEX virt"
  obtain pdpt s1 where n1: "next_level pml4 ?a True s = (pdpt, s1)" by fastforce
  obtain pd s2 where n2: "next_level pdpt ?b True s1 = (pd, s2)" by fastforce
  obtain pt s3 where n3: "next_level pd ?c True s2 = (pt, s3)" by fastforce
  have w0: "walk s pml4 [] = Some pml4" and f1: "0 < free_frames s" using fr by simp_all
  note dl = descend_levels [OF ok fr n1 n2]
  note d = descend [OF ok fr huge n1 n2 n3]
  have e1: "data_frame s1 pml4 f \<and> same_frame f s s1"
    by (rule next_level_data [OF ok _ _ w0 index_less(1) f1 n1 f]) simp_all
  have e2: "data_frame s2 pml4 f \<and> same_frame f s1 s2"
    by (rule next_level_data [OF dl(1) _ _ dl(2) index_less(2) dl(3) n2 conjunct1 [OF e1]]) simp_all
  have e3: "data_frame s3 pml4 f \<and> same_frame f s2 s3"
    by (rule next_level_data [OF dl(4) _ _ dl(5) index_less(3) dl(6) n3 conjunct1 [OF e2]]) simp_all
  have i3: "idx [?a, ?b, ?c]" "length [?a, ?b, ?c] = 3" by simp_all
  have pf: "table_frame s3 pt" "pt \<noteq> f"
    using pt_okD(2) [OF d(1) i3(1) _ d(2)] e3 d(2) i3 unfolding data_frame_def by auto
  have ff: "table_frame s3 f" using e3 by (simp add: data_frame_def)
  define v where "v = (phys AND NOT 0xFFF) OR flags OR PAGE_PRESENT"
  have s'_eq: "s' = table_set pt (PT_INDEX virt) v s3"
    using s' by (simp add: vmm_map_page_in_def n1 n2 n3 v_def)
  note m = pt_okD(1) [OF d(1)]
  have "same_frame f s3 s'"
    unfolding s'_eq
    by (rule touches_same_frame [OF touches_table_set [OF m pf(1) index_less(4)] ff])
      (use table_frames_disjoint [OF m pf(1) m ff pf(2)] in blast)
  moreover have "data_frame s' pml4 f"
    using e3 table_set_walk [OF d(1) i3 d(2) index_less(4)] table_set_ok(2) [OF m pf(1) index_less(4)]
    by (simp add: data_frame_def s'_eq)
  ultimately show ?thesis using e1 e2 e3 same_frame_trans by blast
qed

section \<open>Translation depends on the tables only\<close>

lemma walk_cong:
  assumes "\<And>q t j. \<lbrakk>idx q; length q \<le> 2; walk s pml4 q = Some t; j < 512\<rbrakk> \<Longrightarrow> table_get s' t j = table_get s t j"
    and "idx p" "length p \<le> 3"
  shows "walk s' pml4 p = walk s pml4 p"
  using assms(2,3)
proof (induction p rule: rev_induct)
  case (snoc j p)
  then show ?case using assms(1) [of p] by (auto simp: walk_snoc split: option.split)
qed simp

lemma leaf_cong:
  assumes "\<And>q t j. \<lbrakk>idx q; length q \<le> 3; walk s pml4 q = Some t; j < 512\<rbrakk> \<Longrightarrow> table_get s' t j = table_get s t j"
    and "a < 512" "b < 512" "c < 512" "d < 512"
  shows "leaf s' pml4 a b c d = leaf s pml4 a b c d"
proof -
  have w: "walk s' pml4 p = walk s pml4 p" if "idx p" "length p \<le> 3" for p
    using that assms(1) by (intro walk_cong) auto
  show ?thesis
    using w [of "[a, b, c]"] w [of "[a, b]"] assms(1) [of "[a, b, c]" _ d] assms(1) [of "[a, b]" _ c] assms(2-5)
    by (auto simp: leaf_def split: option.split)
qed

lemma pt_ok_cong:
  fixes s :: "'a vmm_state_scheme"
  assumes ok: "pt_ok s pml4" and m: "mem_ok s'" and tf: "\<And>t. table_frame s t \<Longrightarrow> table_frame s' t"
    and g: "\<And>q t j. \<lbrakk>idx q; length q \<le> 3; walk s pml4 q = Some t; j < 512\<rbrakk> \<Longrightarrow> table_get s' t j = table_get s t j"
  shows "pt_ok s' pml4"
proof -
  note d = pt_okD [OF ok]
  have w: "walk s' pml4 p = walk s pml4 p" if "idx p" "length p \<le> 3" for p
    using that g by (intro walk_cong) auto
  have "table_get s' t i AND PAGE_HUGE = 0" if "idx p" "length p \<le> 1" "walk s pml4 p = Some t" "i < 512" for p t i
    using d(4) [OF that] g [OF that(1) _ that(3,4)] that(2) by simp
  then show ?thesis using m tf d(2,3) unfolding pt_ok_def by (simp add: w)
qed

section \<open>Writing data\<close>

text \<open>Writing a byte of a data frame.\<close>

lemma write_data:
  fixes s :: "'a vmm_state_scheme" and x :: u8
  assumes ok: "pt_ok s pml4" and f: "data_frame s pml4 f" and k: "k < 4096"
  defines "s' \<equiv> s\<lparr>ram := (ram s)(f + k := x)\<rparr>"
  shows "pt_ok s' pml4" "\<lbrakk>a < 512; b < 512; c < 512; d < 512\<rbrakk> \<Longrightarrow> leaf s' pml4 a b c d = leaf s pml4 a b c d"
    "data_frame s' pml4 = data_frame s pml4" "free_frames s' = free_frames s"
    "\<lbrakk>table_frame s g; g \<noteq> f\<rbrakk> \<Longrightarrow> same_frame g s s'"
    "used_set s' = used_set s" "table_frame s' = table_frame s" "\<lbrakk>idx p; length p \<le> 3\<rbrakk> \<Longrightarrow> walk s' pml4 p = walk s pml4 p"
proof -
  note o = pt_okD [OF ok]
  have tf: "table_frame s f" using f by (simp add: data_frame_def)
  have out: "\<not> f + k - kaddr (bitmap s) < bitmap_size s" using tf k by (simp add: table_frame_def)
  have "used_set s' = used_set s"
    by (rule used_set_cong) (use o(1) out in \<open>auto simp: s'_def mem_ok_def pmm_inv_def\<close>)
  then have u: "used_set s' = used_set s" "table_frame s' = table_frame s" "free_frames s' = free_frames s"
    by (simp_all add: table_frame_def free_frames_def fun_eq_iff s'_def)
  have m: "mem_ok s'" using o(1) u(1) by (simp add: mem_ok_def pmm_inv_def bm_ok_def s'_def)
  have to: "touches {f} s s'" using k by (simp add: touches_def s'_def)
  have get: "table_get s' t j = table_get s t j" if "idx q" "length q \<le> 3" "walk s pml4 q = Some t" "j < 512" for q t j
  proof (rule table_get_untouched [OF o(1) _ that(4) to])
    show t: "table_frame s t" by (rule o(2) [OF that(1-3)])
    have "t \<noteq> f" using f that by (auto simp: data_frame_def)
    then show "v + k \<noteq> t + l" if "v \<in> {f}" "k < 4096" "l < 4096" for v k l
      using table_frames_disjoint [OF o(1) tf o(1) t _ that(2,3)] that(1) by simp
  qed
  show "pt_ok s' pml4" by (rule pt_ok_cong [OF ok m _ get]) (simp_all add: u)
  show "leaf s' pml4 a b c d = leaf s pml4 a b c d" if "a < 512" "b < 512" "c < 512" "d < 512"
    by (rule leaf_cong [OF get that])
  show w: "walk s' pml4 p = walk s pml4 p" if "idx p" "length p \<le> 3" for p
    using that get by (intro walk_cong) auto
  show "used_set s' = used_set s" "table_frame s' = table_frame s" by (rule u)+
  show "data_frame s' pml4 = data_frame s pml4" using w by (auto simp: data_frame_def u fun_eq_iff)
  show "free_frames s' = free_frames s" by (rule u)
  show "same_frame g s s'" if "table_frame s g" "g \<noteq> f"
    by (rule touches_same_frame [OF to that(1)])
      (use table_frames_disjoint [OF o(1) tf o(1) that(1)] that(2) in auto)
qed

text \<open>Allocating a frame.\<close>

lemma alloc_data:
  fixes s :: "'a vmm_state_scheme"
  assumes ok: "pt_ok s pml4" and al: "pmm_alloc_frame s = (f, s')" "f \<noteq> 0"
  shows "pt_ok s' pml4" "\<lbrakk>a < 512; b < 512; c < 512; d < 512\<rbrakk> \<Longrightarrow> leaf s' pml4 a b c d = leaf s pml4 a b c d"
    "data_frame s' pml4 f" "\<not> table_frame s f" "free_frames s \<le> Suc (free_frames s')"
    "data_frame s pml4 g \<Longrightarrow> data_frame s' pml4 g \<and> same_frame g s s'"
proof -
  note o = pt_okD [OF ok] and al' = alloc_table_frame [OF pt_okD(1) [OF ok] al]
  have get: "table_get s' t j = table_get s t j" if "idx q" "length q \<le> 3" "walk s pml4 q = Some t" "j < 512" for q t j
    by (rule table_get_untouched [OF o(1) o(2) [OF that(1-3)] that(4) al'(4)]) simp
  show "pt_ok s' pml4" by (rule pt_ok_cong [OF ok al'(1) _ get]) (use al'(3) in simp_all)
  show "leaf s' pml4 a b c d = leaf s pml4 a b c d" if "a < 512" "b < 512" "c < 512" "d < 512"
    by (rule leaf_cong [OF get that])
  have w: "walk s' pml4 p = walk s pml4 p" if "idx p" "length p \<le> 3" for p
    using that get by (intro walk_cong) auto
  show nf: "\<not> table_frame s f" using al'(3) [of f] by blast
  show "data_frame s' pml4 f"
    using al'(2) o(2) nf unfolding data_frame_def by (auto simp: w)
  have "total_frames s' = total_frames s" using al'(4) by (simp add: touches_def)
  then have "{1..<unat (total_frames s)} - used_set s \<subseteq>
      insert (unat f div 4096) ({1..<unat (total_frames s')} - used_set s')"
    using al'(5) by auto
  from card_mono [OF _ this] show "free_frames s \<le> Suc (free_frames s')"
    by (simp add: free_frames_def card_insert_if split: if_splits)
  show "data_frame s' pml4 g \<and> same_frame g s s'" if "data_frame s pml4 g"
    using that al'(3) [of g] touches_same_frame [OF al'(4), of g] by (simp add: data_frame_def w)
qed

section \<open>Indices\<close>

lemma unat_index: "unat (drop_bit k v AND 0x1FF) = unat (v::u64) div 2 ^ k mod 512"
proof -
  have "(0x1FF :: u64) = mask 9" by (simp add: mask_eq_exp_minus_1)
  then show ?thesis by (simp only: unat_and_mask unat_drop_bit_eq drop_bit_eq_div [where 'a = nat]) simp
qed

text \<open>Every path through the user half is that of an address.\<close>

lemma user_address:
  assumes "a < 256" "b < 512" "c < 512" "d < (512 :: u64)"
  obtains v where "v < USER_SPACE_END" "PML4_INDEX v = a" "PDPT_INDEX v = b" "PD_INDEX v = c" "PT_INDEX v = d"
proof -
  define x where "x = (((unat a * 512 + unat b) * 512 + unat c) * 512 + unat d) * 4096"
  have u: "unat a < 256" "unat b < 512" "unat c < 512" "unat d < 512" using assms by (simp_all add: word_less_nat_alt)
  have d12: "x div 2 ^ 12 = ((unat a * 512 + unat b) * 512 + unat c) * 512 + unat d" by (simp add: x_def)
  have "x div 2 ^ 21 = x div 2 ^ 12 div 512" by (simp only: div_mult2_eq [symmetric]) simp
  then have d21: "x div 2 ^ 21 = (unat a * 512 + unat b) * 512 + unat c" unfolding d12 using u by simp
  have "x div 2 ^ 30 = x div 2 ^ 21 div 512" by (simp only: div_mult2_eq [symmetric]) simp
  then have d30: "x div 2 ^ 30 = unat a * 512 + unat b" unfolding d21 using u by simp
  have "x div 2 ^ 39 = x div 2 ^ 30 div 512" by (simp only: div_mult2_eq [symmetric]) simp
  then have d39: "x div 2 ^ 39 = unat a" unfolding d30 using u by simp
  have lt: "x < 2 ^ 47" using u by (simp add: x_def)
  define v where "v = (of_nat x :: u64)"
  have v: "unat v = x" using lt by (simp add: v_def unat_of_nat take_bit_nat_eq_self)
  have "unat (PML4_INDEX v) = unat a" "unat (PDPT_INDEX v) = unat b" "unat (PD_INDEX v) = unat c" "unat (PT_INDEX v) = unat d"
    using u by (simp_all only: PML4_INDEX_def PDPT_INDEX_def PD_INDEX_def PT_INDEX_def unat_index v d12 d21 d30 d39 mod_mult_self3) simp_all
  then show thesis using that [of v] lt v by (simp add: USER_SPACE_END_def word_less_nat_alt word_unat_eq_iff)
qed

end
