(* ===== verification/VmmInit.thy ===== *)
theory VmmInit
  imports VmmData
begin

text \<open>
  The kernel's page tables at start-up, \<^verbatim>\<open>vmm_init\<close> of \<^verbatim>\<open>kernel/mm/vmm.c\<close>: the 4 GB identity map, the kernel
  image and the direct map of physical memory, and the mapping of device memory. The number of frames
  needed is the number of tables, because free frames and tables together stay constant.
\<close>

section \<open>Addresses and indices\<close>

text \<open>The 48 bits of an address that are translated.\<close>

definition lo :: "u64 \<Rightarrow> nat" where
  "lo v = unat v mod 2 ^ 48"

lemma div_mod_slice: "(x::nat) div 2 ^ k mod 512 = x mod 2 ^ 48 div 2 ^ k mod 512" if "k + 9 \<le> 48"
proof -
  have "(2::nat) ^ 48 = 2 ^ k * (2 ^ 9 * 2 ^ (39 - k))" using that by (simp only: power_add [symmetric]) simp
  then have "(2::nat) ^ 48 = 2 ^ k * (512 * 2 ^ (39 - k))" by simp
  then have "x mod 2 ^ 48 div 2 ^ k = (x div 2 ^ k) mod (512 * 2 ^ (39 - k))" by (simp only: mod_mult2_eq) simp
  then show ?thesis by (simp add: mod_mod_cancel)
qed

lemma unat_indices:
  "unat (PML4_INDEX v) = lo v div 2 ^ 39" "unat (PDPT_INDEX v) = lo v div 2 ^ 30 mod 512"
  "unat (PD_INDEX v) = lo v div 2 ^ 21 mod 512" "unat (PT_INDEX v) = lo v div 2 ^ 12 mod 512"
proof -
  have "lo v < 2 ^ 48" by (simp add: lo_def)
  then have "lo v div 2 ^ 39 < 512" by (simp add: less_mult_imp_div_less)
  then show "unat (PML4_INDEX v) = lo v div 2 ^ 39"
    using div_mod_slice [of 39 "unat v"] by (simp add: PML4_INDEX_def unat_index lo_def)
  show "unat (PDPT_INDEX v) = lo v div 2 ^ 30 mod 512" "unat (PD_INDEX v) = lo v div 2 ^ 21 mod 512"
    "unat (PT_INDEX v) = lo v div 2 ^ 12 mod 512"
    using div_mod_slice [of 30 "unat v"] div_mod_slice [of 21 "unat v"] div_mod_slice [of 12 "unat v"]
    by (simp_all add: PDPT_INDEX_def PD_INDEX_def PT_INDEX_def unat_index lo_def)
qed

lemma indices_of_nat:
  "PML4_INDEX v = of_nat (lo v div 2 ^ 39)" "PDPT_INDEX v = of_nat (lo v div 2 ^ 30 mod 512)"
  "PD_INDEX v = of_nat (lo v div 2 ^ 21 mod 512)" "PT_INDEX v = of_nat (lo v div 2 ^ 12 mod 512)"
  unfolding unat_indices [symmetric] by simp_all

lemma div_eq_split: "(x::nat) div (512 * d) = y div (512 * d) \<and> x div d mod 512 = y div d mod 512 \<longleftrightarrow> x div d = y div d"
proof -
  have "x div (512 * d) = x div d div 512" for x by (simp add: div_mult2_eq mult.commute)
  then show ?thesis using nat_eq_div_mod [of "x div d" "y div d" 512] by simp
qed

lemma same_large_page:
  "PML4_INDEX v = PML4_INDEX w \<and> PDPT_INDEX v = PDPT_INDEX w \<and> PD_INDEX v = PD_INDEX w \<longleftrightarrow>
     lo v div 2 ^ 21 = lo w div 2 ^ 21"
  using div_eq_split [of "lo v" "2 ^ 30" "lo w"] div_eq_split [of "lo v" "2 ^ 21" "lo w"]
  by (simp add: word_unat_eq_iff unat_indices) blast

lemma same_small_page:
  "PML4_INDEX v = PML4_INDEX w \<and> PDPT_INDEX v = PDPT_INDEX w \<and> PD_INDEX v = PD_INDEX w \<and> PT_INDEX v = PT_INDEX w \<longleftrightarrow>
     lo v div 2 ^ 12 = lo w div 2 ^ 12"
  using div_eq_split [of "lo v" "2 ^ 30" "lo w"] div_eq_split [of "lo v" "2 ^ 21" "lo w"]
    div_eq_split [of "lo v" "2 ^ 12" "lo w"]
  by (simp add: word_unat_eq_iff unat_indices) blast

lemma lo_add: "lo v + k < 2 ^ 48 \<Longrightarrow> lo (v + of_nat k) = lo v + k"
proof -
  assume k: "lo v + k < 2 ^ 48"
  have "(unat v + k) mod 18446744073709551616 mod 281474976710656 = (unat v + k) mod 281474976710656" by (simp add: mod_mod_cancel)
  then have "lo (v + of_nat k) = (unat v + k) mod 2 ^ 48"
    by (simp add: lo_def unat_word_ariths unat_of_nat mod_simps)
  also have "\<dots> = (lo v + k) mod 2 ^ 48" by (simp add: lo_def mod_simps)
  finally show ?thesis using k by simp
qed

section \<open>Tables and free frames\<close>

text \<open>The paths at which an address space has a table.\<close>

definition tables :: "'a vmm_state_scheme \<Rightarrow> u64 \<Rightarrow> u64 list set" where
  "tables s pml4 = {p. idx p \<and> length p \<le> 3 \<and> walk s pml4 p \<noteq> None}"

lemma finite_tables [simp]: "finite (tables s pml4)"
proof -
  have "finite {..< 512 :: u64}" by simp
  from finite_lists_length_le [OF this, of 3] show ?thesis
    by (rule finite_subset [rotated]) (auto simp: tables_def)
qed

lemma tables_cong: "(\<And>p. \<lbrakk>idx p; length p \<le> 3\<rbrakk> \<Longrightarrow> walk s' pml4 p = walk s pml4 p) \<Longrightarrow> tables s' pml4 = tables s pml4"
  by (auto simp: tables_def)

text \<open>
  What the mapping operations keep while they build on the tables of \<open>s\<close>: the tables stay well formed and
  inside \<open>T\<close>, every new one has taken one free frame, and no frame is released.
\<close>

definition grows :: "u64 list set \<Rightarrow> u64 \<Rightarrow> 'a vmm_state_scheme \<Rightarrow> 'a vmm_state_scheme \<Rightarrow> bool" where
  "grows T pml4 s s' \<longleftrightarrow> pt_ok s' pml4 \<and> tables s pml4 \<subseteq> tables s' pml4 \<and> tables s' pml4 \<subseteq> tables s pml4 \<union> T \<and>
     free_frames s' + card (tables s' pml4) = free_frames s + card (tables s pml4) \<and>
     used_set s \<subseteq> used_set s' \<and> total_frames s' = total_frames s \<and> pmm_state.more s' = pmm_state.more s"

lemma grows_refl: "pt_ok s pml4 \<Longrightarrow> grows T pml4 s s"
  by (auto simp: grows_def)

lemma grows_trans: "\<lbrakk>grows T pml4 s s'; grows U pml4 s' s''; T \<subseteq> V; U \<subseteq> V\<rbrakk> \<Longrightarrow> grows V pml4 s s''"
  unfolding grows_def by (intro conjI; (elim conjE)?) (blast | simp)+

lemma growsD:
  assumes "grows T pml4 s s'"
  shows "pt_ok s' pml4" "tables s pml4 \<subseteq> tables s' pml4" "tables s' pml4 \<subseteq> tables s pml4 \<union> T"
    "free_frames s' + card (tables s' pml4) = free_frames s + card (tables s pml4)"
    "used_set s \<subseteq> used_set s'" "total_frames s' = total_frames s" "pmm_state.more s' = pmm_state.more s"
  using assms by (simp_all add: grows_def)

lemma grows_fields:
  fixes s :: "'a vmm_state_scheme"
  assumes "grows T pml4 s s'"
  shows "kernel_pml4 s' = kernel_pml4 s" "vmm_active s' = vmm_active s" "hhdm_end s' = hhdm_end s" "cr3 s' = cr3 s"
  using growsD(7) [OF assms] by (cases s, cases s', simp)+

text \<open>Enough free frames for all tables of \<open>T\<close> that are missing.\<close>

definition room :: "u64 list set \<Rightarrow> u64 \<Rightarrow> 'a vmm_state_scheme \<Rightarrow> bool" where
  "room T pml4 s \<longleftrightarrow> finite T \<and> tables s pml4 \<subseteq> T \<and> card T \<le> free_frames s + card (tables s pml4)"

lemma room_free: "\<lbrakk>room T pml4 s; p \<in> T; p \<notin> tables s pml4\<rbrakk> \<Longrightarrow> 0 < free_frames s"
proof -
  assume r: "room T pml4 s" and p: "p \<in> T" "p \<notin> tables s pml4"
  then have "card (tables s pml4) < card T" by (intro psubset_card_mono) (auto simp: room_def)
  then show ?thesis using r by (simp add: room_def)
qed

lemma room_grows: "\<lbrakk>room T pml4 s; grows U pml4 s s'; U \<subseteq> T\<rbrakk> \<Longrightarrow> room T pml4 s'"
  unfolding room_def using growsD(3,4) [of U pml4 s s'] by auto

text \<open>One step down, creating the table when it is missing.\<close>

lemma next_level_grows:
  fixes s :: "'a vmm_state_scheme"
  assumes ok: "pt_ok s pml4" and p: "idx p" "length p \<le> 2" "walk s pml4 p = Some t" "i < 512"
    and fr: "p @ [i] \<notin> tables s pml4 \<Longrightarrow> 0 < free_frames s"
    and huge: "table_get s t i AND PAGE_PRESENT \<noteq> 0 \<Longrightarrow> table_get s t i AND PAGE_HUGE = 0"
    and r: "next_level t i True s = (t', s')"
  shows "grows {p @ [i]} pml4 s s' \<and> walk s' pml4 (p @ [i]) = Some t' \<and>
    (\<forall>a < 512. \<forall>b < 512. \<forall>c < 512. \<forall>e < 512. leaf s' pml4 a b c e = leaf s pml4 a b c e)"
proof (cases "table_get s t i AND PAGE_PRESENT = 0")
  case False
  then have "s' = s" "t' = ENTRY_ADDR (table_get s t i)" using r by (auto simp: next_level_def)
  then show ?thesis using ok p(3) False huge by (simp add: walk_snoc grows_refl)
next
  case True
  note d = pt_okD [OF ok]
  have tf: "table_frame s t" using d(2) [OF p(1) _ p(3)] p(2) by simp
  have none: "walk s pml4 (p @ [i]) = None" using p(3) True by (simp add: walk_snoc)
  then have free: "0 < free_frames s" using fr by (simp add: tables_def)
  obtain f s0 where al: "pmm_alloc_frame s = (f, s0)" by (cases "pmm_alloc_frame s")
  have f0: "f \<noteq> 0" using free_frames_alloc [OF _ free] al d(1) by (simp add: mem_ok_def)
  note n = new_table_correct [OF d(1) al f0 tf p(4)] and w = new_table_walk [OF ok p al f0]
  have tot: "total_frames (new_table t i f s0) = total_frames s" "pmm_state.more (new_table t i f s0) = pmm_state.more s"
    using n(5) by (simp_all add: touches_def)
  have fb: "unat f mod 4096 = 0" "unat f + 4096 \<le> 2 ^ 47"
    using n(2) table_frame_bound [OF n(1,2)] by (simp_all add: table_frame_def)
  moreover have "unat f \<noteq> 0" using f0 by (simp add: unat_eq_0)
  ultimately have fn: "unat f div 4096 \<noteq> 0" by (auto elim: dvdE)
  have ft: "unat f div 4096 < unat (total_frames s)"
    using used_set_bound [of "unat f div 4096" "new_table t i f s0"] n(2) tot(1) by (simp add: table_frame_def)
  have s': "s' = new_table t i f s0" "t' = f"
    using r True al n(7) [OF tf p(4)] entry_flag_bits(1) [OF fb(1,2)]
    by (auto simp: next_level_def new_table_def)
  have tab: "tables s' pml4 = insert (p @ [i]) (tables s pml4)"
    using w p(1,2,4) walk_prefix_None [OF none] by (auto simp: tables_def s'(1) strict_prefix_def split: if_splits)
  have "{1..<unat (total_frames s)} - used_set s = insert (unat f div 4096) ({1..<unat (total_frames s')} - used_set s')"
    using n(6,9) fn ft tot by (auto simp: s')
  then have "free_frames s = Suc (free_frames s')"
    unfolding free_frames_def using n(6) by (simp add: s')
  moreover have "p @ [i] \<notin> tables s pml4" using none by (simp add: tables_def)
  ultimately have "grows {p @ [i]} pml4 s s'"
    using new_table_pt_ok [OF ok p al f0] n(6) tab tot by (auto simp: grows_def s'(1) [symmetric])
  then show ?thesis
    using w [of "p @ [i]"] p(1,2,4) new_table_leaf [OF ok p al f0 True] by (simp add: s')
qed

section \<open>Mapping large and small pages\<close>

lemma huge_write:
  fixes s :: "'a vmm_state_scheme" and v :: u64
  assumes ok: "pt_ok s pml4" and x: "a < 512" "b < 512" "c < 512"
    and pd: "walk s pml4 [a, b] = Some pd" and none: "walk s pml4 [a, b, c] = None"
    and v: "v AND PAGE_HUGE \<noteq> 0" "v AND PAGE_PRESENT \<noteq> 0"
  defines "s' \<equiv> table_set pd c v s"
  shows "grows {} pml4 s s'"
    "\<lbrakk>a' < 512; b' < 512; c' < 512; d' < 512\<rbrakk> \<Longrightarrow> leaf s' pml4 a' b' c' d' =
      (if a' = a \<and> b' = b \<and> c' = c then Some (True, v) else leaf s pml4 a' b' c' d')"
proof -
  note o = pt_okD [OF ok]
  have ix: "idx [a, b]" "length [a, b] \<le> 3" using x by auto
  have pf: "table_frame s pd" by (rule o(2) [OF ix pd])
  note set = table_get_set [OF o(1) pf _ x(3), where v = v, folded s'_def]
  have us: "used_set s' = used_set s" unfolding s'_def by (rule table_set_used [OF o(1) pf x(3)])
  have mem: "mem_ok s'" "table_frame s' = table_frame s"
    unfolding s'_def by (rule table_set_ok [OF o(1) pf x(3)])+
  have get: "table_get s' u j = (if q = [a, b] \<and> j = c then v else table_get s u j)"
    if "idx q" "length q \<le> 3" "walk s pml4 q = Some u" "j < 512" for q u j
    using set [OF o(2) [OF that(1-3)] that(4)] o(3) [OF that(1) ix(1) that(2) ix(2) that(3)] pd that(3) by auto
  have w: "walk s' pml4 q = walk s pml4 q" if "idx q" "length q \<le> 3" for q
    using that
  proof (induction q rule: rev_induct)
    case (snoc j q)
    show ?case
    proof (cases "walk s pml4 q")
      case (Some u)
      have "table_get s' u j = (if q = [a, b] \<and> j = c then v else table_get s u j)"
        using get [OF _ _ Some, of j] snoc.prems by simp
      moreover have "walk s pml4 (q @ [j]) = None" if "q = [a, b] \<and> j = c" using none that by simp
      ultimately show ?thesis using snoc Some v(1) walk_snoc [of s' pml4 q j] walk_snoc [of s pml4 q j]
        by (cases "q = [a, b] \<and> j = c") simp_all
    qed (use snoc in \<open>simp add: walk_snoc\<close>)
  qed simp
  have "table_get s' t i AND PAGE_HUGE = 0" if "idx p" "length p \<le> 1" "walk s pml4 p = Some t" "i < 512" for p t i
    using get [OF that(1) _ that(3,4)] o(4) [OF that] that(2) by auto
  then have "pt_ok s' pml4" using mem o(2,3) unfolding pt_ok_def by (simp add: w)
  moreover have "total_frames s' = total_frames s" "pmm_state.more s' = pmm_state.more s" by (simp_all add: s'_def table_set_def)
  ultimately show "grows {} pml4 s s'" using tables_cong [of s' pml4 s, OF w] us by (simp add: grows_def free_frames_def)
  show "leaf s' pml4 a' b' c' d' = (if a' = a \<and> b' = b \<and> c' = c then Some (True, v) else leaf s pml4 a' b' c' d')"
    if x': "a' < 512" "b' < 512" "c' < 512" "d' < 512"
  proof -
    have w3: "walk s' pml4 [a', b', c'] = walk s pml4 [a', b', c']" and w2: "walk s' pml4 [a', b'] = walk s pml4 [a', b']"
      using x' by (simp_all add: w)
    have "table_get s' u d' = table_get s u d'" if "walk s pml4 [a', b', c'] = Some u" for u
      using get [OF _ _ that x'(4)] x' by simp
    moreover have "table_get s' u c' = (if a' = a \<and> b' = b \<and> c' = c then v else table_get s u c')"
      if "walk s pml4 [a', b'] = Some u" for u
      using get [OF _ _ that x'(3)] x' by simp
    ultimately show ?thesis using none pd v(2) w [of "[a, b]"] w [of "[a, b, c]"] x
      by (auto simp: leaf_def w2 w3 split: option.split)
  qed
qed

lemma upper_grows:
  fixes s :: "'a vmm_state_scheme"
  assumes ok: "pt_ok s pml4" and rm: "room T pml4 s" "[PML4_INDEX virt] \<in> T" "[PML4_INDEX virt, PDPT_INDEX virt] \<in> T"
    and n1: "next_level pml4 (PML4_INDEX virt) True s = (pdpt, s1)"
    and n2: "next_level pdpt (PDPT_INDEX virt) True s1 = (pd, s2)"
  shows "grows {[PML4_INDEX virt], [PML4_INDEX virt, PDPT_INDEX virt]} pml4 s s2"
    "walk s2 pml4 [PML4_INDEX virt, PDPT_INDEX virt] = Some pd"
    "\<lbrakk>a < 512; b < 512; c < 512; e < 512\<rbrakk> \<Longrightarrow> leaf s2 pml4 a b c e = leaf s pml4 a b c e"
proof -
  let ?a = "PML4_INDEX virt" and ?b = "PDPT_INDEX virt"
  have w0: "walk s pml4 [] = Some pml4" by simp
  have h1: "table_get s pml4 ?a AND PAGE_HUGE = 0" using pt_okD(4) [OF ok _ _ w0] by simp
  have f1: "[] @ [?a] \<notin> tables s pml4 \<Longrightarrow> 0 < free_frames s" using room_free [OF rm(1,2)] by simp
  note l1 = next_level_grows [OF ok _ _ w0 index_less(1) f1 h1 n1, simplified]
  note ok1 = growsD(1) [OF conjunct1 [OF l1]] and w1 = conjunct1 [OF conjunct2 [OF l1]]
  have r1: "room T pml4 s1" by (rule room_grows [OF rm(1) conjunct1 [OF l1]]) (simp add: rm(2))
  have h2: "table_get s1 pdpt ?b AND PAGE_HUGE = 0" using pt_okD(4) [OF ok1 _ _ w1] by simp
  have f2: "[?a] @ [?b] \<notin> tables s1 pml4 \<Longrightarrow> 0 < free_frames s1" using room_free [OF r1 rm(3)] by simp
  note l2 = next_level_grows [OF ok1 _ _ w1 index_less(2) f2 h2 n2, simplified]
  show "grows {[?a], [?a, ?b]} pml4 s s2" by (rule grows_trans [OF conjunct1 [OF l1] conjunct1 [OF l2]]) auto
  show "walk s2 pml4 [?a, ?b] = Some pd" using l2 by simp
  show "leaf s2 pml4 a b c e = leaf s pml4 a b c e" if "a < 512" "b < 512" "c < 512" "e < 512"
    using l1 l2 that by simp
qed

text \<open>The tables above an address that a large page, or a small page, needs.\<close>

definition large_path :: "u64 \<Rightarrow> u64 list set" where
  "large_path v = {[PML4_INDEX v], [PML4_INDEX v, PDPT_INDEX v]}"

definition small_path :: "u64 \<Rightarrow> u64 list set" where
  "small_path v = insert [PML4_INDEX v, PDPT_INDEX v, PD_INDEX v] (large_path v)"

lemma map_huge_grows:
  fixes s :: "'a vmm_state_scheme"
  assumes ok: "pt_ok s (kernel_pml4 s)" and rm: "room T (kernel_pml4 s) s"
    and T: "large_path virt \<subseteq> T"
    and none: "[PML4_INDEX virt, PDPT_INDEX virt, PD_INDEX virt] \<notin> tables s (kernel_pml4 s)"
    and flags: "(phys OR flags OR PAGE_HUGE) AND PAGE_PRESENT \<noteq> 0"
  shows "grows (large_path virt) (kernel_pml4 s) s (map_huge virt phys flags s)"
    "leaf_of (map_huge virt phys flags s) (kernel_pml4 s) v =
       (if lo v div 2 ^ 21 = lo virt div 2 ^ 21 then Some (True, phys OR flags OR PAGE_HUGE) else leaf_of s (kernel_pml4 s) v)"
proof -
  let ?a = "PML4_INDEX virt" and ?b = "PDPT_INDEX virt" and ?c = "PD_INDEX virt" and ?p = "kernel_pml4 s"
  let ?v = "phys OR flags OR PAGE_HUGE"
  obtain pdpt s1 where n1: "next_level ?p ?a True s = (pdpt, s1)" by fastforce
  obtain pd s2 where n2: "next_level pdpt ?b True s1 = (pd, s2)" by fastforce
  have m: "map_huge virt phys flags s = table_set pd ?c ?v s2" by (simp add: map_huge_def n1 n2)
  note u = upper_grows [OF ok rm _ _ n1 n2]
  have g: "grows {[?a], [?a, ?b]} ?p s s2" "walk s2 ?p [?a, ?b] = Some pd" using u T by (auto simp: large_path_def)
  have none2: "walk s2 ?p [?a, ?b, ?c] = None" using none subsetD [OF growsD(3) [OF g(1)], of "[?a, ?b, ?c]"]
    by (cases "walk s2 ?p [?a, ?b, ?c]") (auto simp: tables_def)
  have "bit ?v 7" by (simp add: PAGE_HUGE_def bit_simps)
  then have "?v AND PAGE_HUGE \<noteq> 0" using and_exp_eq_0_iff_not_bit [of ?v 7] by (simp add: PAGE_HUGE_def)
  note h = huge_write [OF growsD(1) [OF g(1)] index_less(1-3) [of virt] g(2) none2 this flags, folded m]
  show "grows (large_path virt) ?p s (map_huge virt phys flags s)" by (rule grows_trans [OF g(1) h(1)]) (auto simp: large_path_def)
  show "leaf_of (map_huge virt phys flags s) ?p v =
       (if lo v div 2 ^ 21 = lo virt div 2 ^ 21 then Some (True, ?v) else leaf_of s ?p v)"
    using h(2) [OF index_less(1-4) [of v]] u(3) [OF _ _ index_less(1-4) [of v]] T same_large_page [of v virt] by (simp add: large_path_def)
qed

lemma map_page_grows:
  fixes s :: "'a vmm_state_scheme"
  assumes ok: "pt_ok s pml4" and rm: "room T pml4 s"
    and T: "small_path virt \<subseteq> T"
    and huge: "\<And>e. leaf_of s pml4 virt \<noteq> Some (True, e)" and flags: "ENTRY_ADDR flags = 0"
  shows "grows (small_path virt) pml4 s (vmm_map_page_in pml4 virt phys flags s)"
    "leaf_of (vmm_map_page_in pml4 virt phys flags s) pml4 v =
       (if lo v div 2 ^ 12 = lo virt div 2 ^ 12 then Some (False, (phys AND NOT 0xFFF) OR flags OR PAGE_PRESENT)
        else leaf_of s pml4 v)"
proof -
  let ?a = "PML4_INDEX virt" and ?b = "PDPT_INDEX virt" and ?c = "PD_INDEX virt" and ?d = "PT_INDEX virt"
  let ?v = "(phys AND NOT 0xFFF) OR flags OR PAGE_PRESENT"
  obtain pdpt s1 where n1: "next_level pml4 ?a True s = (pdpt, s1)" by fastforce
  obtain pd s2 where n2: "next_level pdpt ?b True s1 = (pd, s2)" by fastforce
  obtain pt s3 where n3: "next_level pd ?c True s2 = (pt, s3)" by fastforce
  have m: "vmm_map_page_in pml4 virt phys flags s = table_set pt ?d ?v s3" by (simp add: vmm_map_page_in_def n1 n2 n3)
  note u = upper_grows [OF ok rm _ _ n1 n2]
  have T': "[?a] \<in> T" "[?a, ?b] \<in> T" "[?a, ?b, ?c] \<in> T" using T by (simp_all add: small_path_def large_path_def)
  have g: "grows {[?a], [?a, ?b]} pml4 s s2" and w2: "walk s2 pml4 [?a, ?b] = Some pd" using u T' by auto
  have l2: "leaf s2 pml4 a b c e = leaf s pml4 a b c e" if "a < 512" "b < 512" "c < 512" "e < 512" for a b c e
    using u(3) that T' by simp
  have h: "table_get s2 pd ?c AND PAGE_HUGE = 0" if "table_get s2 pd ?c AND PAGE_PRESENT \<noteq> 0"
  proof (rule ccontr)
    assume hg: "table_get s2 pd ?c AND PAGE_HUGE \<noteq> 0"
    then have "walk s2 pml4 ([?a, ?b] @ [?c]) = None" using w2 by (simp only: walk_snoc) simp
    then have "leaf_of s2 pml4 virt = Some (True, table_get s2 pd ?c)" using that w2 by (simp add: leaf_def Let_def)
    then show False using huge l2 by simp
  qed
  have r2: "room T pml4 s2" using T' by (intro room_grows [OF rm g]) auto
  have "[?a, ?b] @ [?c] \<notin> tables s2 pml4 \<Longrightarrow> 0 < free_frames s2" using T' by (intro room_free [OF r2]) auto
  note l3 = next_level_grows [OF growsD(1) [OF g] _ _ w2 index_less(3) this h n3, simplified]
  note w = leaf_write [OF growsD(1) [OF conjunct1 [OF l3]] index_less(1-4) [of virt] conjunct1 [OF conjunct2 [OF l3]],
      where v = ?v, folded m]
  have "walk (vmm_map_page_in pml4 virt phys flags s) pml4 q = walk s3 pml4 q" if "idx q" "length q \<le> 3" for q
    unfolding m by (rule table_set_walk [OF growsD(1) [OF conjunct1 [OF l3]] _ _ conjunct1 [OF conjunct2 [OF l3]] _ that]) simp_all
  then have "grows {} pml4 s3 (vmm_map_page_in pml4 virt phys flags s)"
    using w(1,4) tables_cong [of "vmm_map_page_in pml4 virt phys flags s" pml4 s3] by (simp add: grows_def m free_frames_def)
  then have "grows {[?a, ?b, ?c]} pml4 s2 (vmm_map_page_in pml4 virt phys flags s)"
    by (rule grows_trans [OF conjunct1 [OF l3]]) auto
  with g show "grows (small_path virt) pml4 s (vmm_map_page_in pml4 virt phys flags s)"
    by (rule grows_trans) (auto simp: small_path_def large_path_def)
  show "leaf_of (vmm_map_page_in pml4 virt phys flags s) pml4 v =
       (if lo v div 2 ^ 12 = lo virt div 2 ^ 12 then Some (False, ?v) else leaf_of s pml4 v)"
    using w(2) [OF index_less(1-4) [of v]] l3 l2 map_entry_bits(2) [OF flags] same_small_page [of v virt] by auto
qed

section \<open>Ranges of pages\<close>

definition KERNEL_RW :: u64 where
  "KERNEL_RW = PAGE_PRESENT OR PAGE_WRITABLE"

lemma KERNEL_RW_bits: "ENTRY_ADDR KERNEL_RW = 0" "(x OR KERNEL_RW OR y) AND PAGE_PRESENT \<noteq> 0"
proof -
  show "ENTRY_ADDR KERNEL_RW = 0" by (simp add: KERNEL_RW_def ENTRY_ADDR_def PAGE_PRESENT_def PAGE_WRITABLE_def)
  have "bit (x OR KERNEL_RW OR y) 0" by (simp add: KERNEL_RW_def PAGE_PRESENT_def bit_simps)
  then show "(x OR KERNEL_RW OR y) AND PAGE_PRESENT \<noteq> 0"
    using and_exp_eq_0_iff_not_bit [of "x OR KERNEL_RW OR y" 0] by (simp add: PAGE_PRESENT_def)
qed

lemma block_step:
  assumes "b mod d = 0" "0 < (d::nat)"
  shows "x div d = (b + k * d) div d \<longleftrightarrow> b + k * d \<le> x \<and> x < b + Suc k * d"
proof -
  obtain q where b: "b = q * d" using assms(1) by (metis mod_0_imp_dvd dvd_def mult.commute)
  have "(b + k * d) div d = q + k" using assms(2) by (simp add: b flip: add_mult_distrib)
  moreover have "x div d = q + k \<longleftrightarrow> d * (q + k) \<le> x \<and> x < d * Suc (q + k)"
  proof
    assume "x div d = q + k"
    then show "d * (q + k) \<le> x \<and> x < d * Suc (q + k)"
      using times_div_less_eq_dividend [of d x] dividend_less_times_div [OF assms(2), of x] by (simp only:) simp
  qed (auto intro: div_nat_eqI)
  ultimately show ?thesis by (simp add: b algebra_simps)
qed

text \<open>
  A loop that maps the pages \<open>0, \<dots>, n - 1\<close> of size \<open>d\<close> behind \<open>base\<close>, page \<open>k\<close> with entry \<open>E k\<close> and tables \<open>W k\<close>.
\<close>

lemma map_range:
  fixes s :: "'a vmm_state_scheme" and f :: "nat \<Rightarrow> 'a vmm_state_scheme \<Rightarrow> 'a vmm_state_scheme" and base pml4 :: u64 and d :: nat
  defines "spec \<equiv> \<lambda>n v E. if lo base \<le> lo v \<and> lo v < lo base + n * d then Some (E ((lo v - lo base) div d)) else leaf_of s pml4 v"
  assumes ok: "pt_ok s pml4" and d: "0 < d" "lo base mod d = 0" "lo base + n * d \<le> 2 ^ 48"
    and step: "\<And>k y w. \<lbrakk>k < n; grows (\<Union>j < k. W j) pml4 s y; \<And>v. leaf_of y pml4 v = spec k v E; w = base + of_nat (k * d);
       lo w = lo base + k * d\<rbrakk> \<Longrightarrow>
       grows (W k) pml4 y (f k y) \<and> (\<forall>v. leaf_of (f k y) pml4 v = (if lo v div d = lo w div d then Some (E k) else leaf_of y pml4 v))"
  shows "grows (\<Union>k < n. W k) pml4 s (fold f [0..<n] s) \<and> (\<forall>v. leaf_of (fold f [0..<n] s) pml4 v = spec n v E)"
proof -
  define P where "P n s' \<longleftrightarrow> grows (\<Union>k < n. W k) pml4 s s' \<and> (\<forall>v. leaf_of s' pml4 v = spec n v E)"
    for n and s' :: "'a vmm_state_scheme"
  have "P (Suc k) (f k y)" if k: "k < n" and P: "P k y" for k y
  proof -
    have g: "grows (\<Union>j < k. W j) pml4 s y" and lf: "\<And>v. leaf_of y pml4 v = spec k v E" using P unfolding P_def by blast+
    have "Suc k * d \<le> n * d" using k by (intro mult_le_mono1) simp
    then have "lo base + k * d < 2 ^ 48" using d by simp
    then have lw: "lo (base + of_nat (k * d)) = lo base + k * d" by (rule lo_add)
    note m = step [OF k g lf refl lw]
    note b = block_step [OF d(2,1), of _ k, folded lw]
    have "grows (\<Union>j < Suc k. W j) pml4 s (f k y)" by (rule grows_trans [OF g conjunct1 [OF m]]) (auto simp: less_Suc_eq)
    moreover have "leaf_of (f k y) pml4 v = spec (Suc k) v E" for v
    proof (cases "lo v div d = lo (base + of_nat (k * d)) div d")
      case True
      then have r: "lo base + k * d \<le> lo v" "lo v < lo base + Suc k * d" using b [of "lo v"] lw by simp_all
      then have "(lo v - lo base) div d = k" by (intro div_nat_eqI) (simp_all add: mult.commute)
      then show ?thesis using r m True by (simp add: spec_def)
    next
      case False
      then have "lo base \<le> lo v \<and> lo v < lo base + Suc k * d \<longleftrightarrow> lo base \<le> lo v \<and> lo v < lo base + k * d"
        using b [of "lo v"] lw by auto
      then show ?thesis using m lf [of v] False by (simp add: spec_def)
    qed
    ultimately show ?thesis unfolding P_def by blast
  qed
  moreover have "P 0 s" using ok by (auto simp: P_def grows_refl spec_def)
  ultimately have "P n (fold f [0..<n] s)" by (rule fold_upt_inv [where P = P, rotated])
  then show ?thesis unfolding P_def .
qed

lemma map_huge_range:
  fixes s :: "'a vmm_state_scheme"
  assumes ok: "pt_ok s pml4" "kernel_pml4 s = pml4" and rm: "room T pml4 s"
    and b: "lo base mod 2 ^ 21 = 0" "lo base + n * 2 ^ 21 \<le> 2 ^ 48"
    and T: "\<And>k. k < n \<Longrightarrow> large_path (base + of_nat k * TWO_MB) \<subseteq> T"
    and sm: "\<And>k v. \<lbrakk>k < n; v = base + of_nat k * TWO_MB\<rbrakk> \<Longrightarrow> [PML4_INDEX v, PDPT_INDEX v, PD_INDEX v] \<notin> tables s pml4"
  defines "s' \<equiv> fold (\<lambda>k. map_huge (base + of_nat k * TWO_MB) (of_nat k * TWO_MB) KERNEL_RW) [0..<n] s"
  shows "grows T pml4 s s' \<and> (\<forall>v. leaf_of s' pml4 v =
    (if lo base \<le> lo v \<and> lo v < lo base + n * 2 ^ 21
     then Some (True, of_nat ((lo v - lo base) div 2 ^ 21) * TWO_MB OR KERNEL_RW OR PAGE_HUGE) else leaf_of s pml4 v))"
proof -
  let ?W = "\<lambda>k. large_path (base + of_nat k * TWO_MB)"
  let ?E = "\<lambda>k. (True, of_nat k * TWO_MB OR KERNEL_RW OR PAGE_HUGE)"
  have *: "grows (\<Union>k < n. ?W k) pml4 s s' \<and> (\<forall>v. leaf_of s' pml4 v = (if lo base \<le> lo v \<and> lo v < lo base + n * 2 ^ 21
     then Some (?E ((lo v - lo base) div 2 ^ 21)) else leaf_of s pml4 v))"
    unfolding s'_def
  proof (rule map_range [OF ok(1) _ b], goal_cases)
    case (2 k y w)
    have w: "w = base + of_nat k * TWO_MB" using 2(4) by (simp add: TWO_MB_def)
    have kp: "kernel_pml4 y = pml4" using grows_fields(1) [OF 2(2)] ok(2) by simp
    have rm': "room T pml4 y" using T 2(1) by (intro room_grows [OF rm 2(2)] UN_least) auto
    have "[PML4_INDEX w, PDPT_INDEX w, PD_INDEX w] \<notin> tables y pml4"
      using sm [OF 2(1) w] growsD(3) [OF 2(2)] by (auto simp: large_path_def)
    from map_huge_grows [of y T w "of_nat k * TWO_MB" KERNEL_RW, unfolded kp, OF growsD(1) [OF 2(2)] rm' _ this KERNEL_RW_bits(2)]
    show ?case using T [OF 2(1)] unfolding w by blast
  qed simp
  moreover have "(\<Union>k < n. ?W k) \<subseteq> T" using T by blast
  ultimately show ?thesis using grows_trans [OF _ grows_refl, of "\<Union>k < n. ?W k" pml4 s s' T T] growsD(1) by blast
qed

lemma map_page_range:
  fixes s :: "'a vmm_state_scheme" and phys :: u64
  assumes ok: "pt_ok s pml4" and rm: "room T pml4 s"
    and b: "lo base mod 2 ^ 12 = 0" "lo base + n * 2 ^ 12 \<le> 2 ^ 48"
    and T: "\<And>k. k < n \<Longrightarrow> small_path (base + of_nat k * 0x1000) \<subseteq> T"
    and huge: "\<And>v e. \<lbrakk>lo base \<le> lo v; lo v < lo base + n * 2 ^ 12\<rbrakk> \<Longrightarrow> leaf_of s pml4 v \<noteq> Some (True, e)"
  defines "s' \<equiv> fold (\<lambda>k. vmm_map_page_in pml4 (base + of_nat k * 0x1000) (phys + of_nat k * 0x1000) KERNEL_RW) [0..<n] s"
  shows "grows T pml4 s s' \<and> (\<forall>v. leaf_of s' pml4 v =
    (if lo base \<le> lo v \<and> lo v < lo base + n * 2 ^ 12
     then Some (False, ((phys + of_nat ((lo v - lo base) div 2 ^ 12) * 0x1000) AND NOT 0xFFF) OR KERNEL_RW OR PAGE_PRESENT)
     else leaf_of s pml4 v))"
proof -
  let ?W = "\<lambda>k. small_path (base + of_nat k * 0x1000)"
  let ?E = "\<lambda>k. (False, ((phys + of_nat k * 0x1000) AND NOT 0xFFF) OR KERNEL_RW OR PAGE_PRESENT)"
  have *: "grows (\<Union>k < n. ?W k) pml4 s s' \<and> (\<forall>v. leaf_of s' pml4 v = (if lo base \<le> lo v \<and> lo v < lo base + n * 2 ^ 12
     then Some (?E ((lo v - lo base) div 2 ^ 12)) else leaf_of s pml4 v))"
    unfolding s'_def
  proof (rule map_range [OF ok _ b], goal_cases)
    case (2 k y w)
    have w: "w = base + of_nat k * 0x1000" using 2(4) by simp
    have rm': "room T pml4 y" using T 2(1) by (intro room_grows [OF rm 2(2)] UN_least) auto
    have "Suc k * 2 ^ 12 \<le> n * 2 ^ 12" using 2(1) by (intro mult_le_mono1) simp
    then have nh: "leaf_of y pml4 w \<noteq> Some (True, e)" for e using huge [of w e] 2(3) [of w] 2(5) by simp
    from map_page_grows [OF growsD(1) [OF 2(2)] rm' _ nh KERNEL_RW_bits(1)] T [OF 2(1)]
    show ?case unfolding w by blast
  qed simp
  moreover have "(\<Union>k < n. ?W k) \<subseteq> T" using T by blast
  ultimately show ?thesis using grows_trans [OF _ grows_refl, of "\<Union>k < n. ?W k" pml4 s s' T T] growsD(1) by blast
qed

section \<open>Start-up\<close>

lemma ENTRY_ADDR_or: "ENTRY_ADDR (x OR y) = ENTRY_ADDR x OR ENTRY_ADDR y"
  by (simp add: ENTRY_ADDR_def bit.conj_disj_distrib2)

lemma ENTRY_ADDR_aligned: "\<lbrakk>unat x mod 4096 = 0; unat x + 4096 \<le> 2 ^ 47\<rbrakk> \<Longrightarrow> ENTRY_ADDR x = x"
  using entry_flag_bits(1) [of x]
  by (simp add: ENTRY_ADDR_or) (simp add: ENTRY_ADDR_def PAGE_PRESENT_def PAGE_WRITABLE_def PAGE_USER_def)

text \<open>The empty top-level table.\<close>

lemma root_table:
  fixes s :: "'a vmm_state_scheme"
  assumes m: "mem_ok s" and fr: "0 < free_frames s" and al: "pmm_alloc_frame s = (f, s0)"
  defines "s' \<equiv> zero_table f (s0\<lparr>kernel_pml4 := f\<rparr>)"
  shows "pt_ok s' f" "kernel_pml4 s' = f" "tables s' f = {[]}" "Suc (free_frames s') = free_frames s"
    "leaf_of s' f v = None" "total_frames s' = total_frames s" "used_set s \<subseteq> used_set s'" "f \<noteq> 0"
proof -
  show f0: "f \<noteq> 0" using free_frames_alloc [OF _ fr] al m by (simp add: mem_ok_def)
  note a = alloc_table_frame [OF m al f0]
  have us: "used_set (s0\<lparr>kernel_pml4 := f\<rparr>) = used_set s0" by (simp add: used_set_def bitmap_test_def bm_byte_def)
  then have m1: "mem_ok (s0\<lparr>kernel_pml4 := f\<rparr>)" "table_frame (s0\<lparr>kernel_pml4 := f\<rparr>) f"
    using a(1,2) by (simp_all add: mem_ok_def table_frame_def pmm_inv_def bm_ok_def)
  note z = zero_table_correct [OF m1, folded s'_def]
  have get: "table_get s' f i = 0" if "i < 512" for i using z(5) [OF m1(2) that] by simp
  have tf: "table_frame s' f" using z(2) m1(2) by simp
  show "pt_ok s' f" by (rule pt_ok_empty [OF z(1) tf get])
  show "kernel_pml4 s' = f" using touches_vmm(1) [OF z(4)] by simp
  have w: "walk s' f p = (if p = [] then Some f else None)" if "idx p" for p
    using that get by (cases p) (simp_all add: walk.simps)
  then show "tables s' f = {[]}" by (auto simp: tables_def split: if_splits)
  show "leaf_of s' f v = None" by (simp add: leaf_def w)
  show tot: "total_frames s' = total_frames s" using z(4) a(4) by (simp add: touches_def)
  show sub: "used_set s \<subseteq> used_set s'" using z(3) us a(5) by auto
  have "unat f \<noteq> 0" "unat f mod 4096 = 0" using f0 tf by (simp_all add: unat_eq_0 table_frame_def)
  then have "unat f div 4096 \<noteq> 0" by (auto elim: dvdE)
  moreover have "unat f div 4096 < unat (total_frames s)"
    using used_set_bound [of "unat f div 4096" s'] tf tot by (simp add: table_frame_def)
  ultimately have "{1..<unat (total_frames s)} - used_set s = insert (unat f div 4096) ({1..<unat (total_frames s')} - used_set s')"
    using z(3) us a(5,6) tot by auto
  then show "Suc (free_frames s') = free_frames s" unfolding free_frames_def using z(3) us a(5) by simp
qed

text \<open>The switch from the identity map to the direct map changes how tables are reached, not what they hold.\<close>

lemma activate:
  fixes s :: "'a vmm_state_scheme" and e c :: u64
  assumes ok: "pt_ok s pml4"
  defines "s' \<equiv> s\<lparr>hhdm_end := e, cr3 := c, vmm_active := True\<rparr>"
  shows "pt_ok s' pml4" "leaf_of s' pml4 v = leaf_of s pml4 v" "used_set s' = used_set s" "tables s' pml4 = tables s pml4"
    "free_frames s' = free_frames s"
proof -
  note d = pt_okD [OF ok]
  show us: "used_set s' = used_set s" by (simp add: s'_def used_set_def bitmap_test_def bm_byte_def)
  then have m: "mem_ok s'" "\<And>t. table_frame s t \<Longrightarrow> table_frame s' t"
    using d(1) by (simp_all add: mem_ok_def table_frame_def pmm_inv_def bm_ok_def) (simp_all add: s'_def)
  have g: "table_get s' t j = table_get s t j" if "idx q" "length q \<le> 3" "walk s pml4 q = Some t" "j < 512" for q t j
  proof -
    have "kaddr (table y t + 8 * j) = t + 8 * j" for y :: "'a vmm_state_scheme"
      by (rule slot_addr(1) [OF table_frame_bound [OF d(1) d(2) [OF that(1-3)]] that(4)])
    moreover have "ram s' = ram s" by (simp add: s'_def)
    ultimately show ?thesis by (simp add: table_get_def)
  qed
  show "pt_ok s' pml4" by (rule pt_ok_cong [OF ok m g])
  show "leaf_of s' pml4 v = leaf_of s pml4 v" by (rule leaf_cong [OF g index_less])
  show "tables s' pml4 = tables s pml4" by (rule tables_cong, rule walk_cong) (auto intro: g)
  show "free_frames s' = free_frames s" using us by (simp add: free_frames_def) (simp add: s'_def)
qed

text \<open>
  The tables of the kernel: the root, the identity map, the kernel image over \<open>nk\<close> slots of 2 MB, and \<open>nh\<close> GB of direct map.
\<close>

definition boot_tables :: "nat \<Rightarrow> nat \<Rightarrow> u64 list set" where
  "boot_tables nk nh = {[], [0], [511], [256], [511, 510], [511, 511]} \<union> (\<lambda>b. [0, of_nat b]) ` {..<4} \<union>
     (\<lambda>k. [511, of_nat (510 + k div 512), of_nat (k mod 512)]) ` {..<nk} \<union> (\<lambda>b. [256, of_nat b]) ` {..<nh}"

lemma card_boot_tables: "finite (boot_tables nk nh)" "card (boot_tables nk nh) \<le> 10 + nk + nh"
proof -
  show "finite (boot_tables nk nh)" by (simp add: boot_tables_def)
  have "card (boot_tables nk nh) \<le> card {[], [0], [511], [256], [511, 510], [511, 511 :: u64]} +
      card ((\<lambda>b. [0 :: u64, of_nat b]) ` {..<4 :: nat}) +
      card ((\<lambda>k. [511 :: u64, of_nat (510 + k div 512), of_nat (k mod 512)]) ` {..<nk}) + card ((\<lambda>b. [256 :: u64, of_nat b]) ` {..<nh})"
    unfolding boot_tables_def by (intro order_trans [OF card_Un_le] add_mono order_refl)
  also have "\<dots> \<le> 6 + 4 + nk + nh"
    using card_image_le [of "{..<4 :: nat}" "\<lambda>b. [0 :: u64, of_nat b]"] card_image_le [of "{..<nh}" "\<lambda>b. [256 :: u64, of_nat b]"]
      card_image_le [of "{..<nk}" "\<lambda>k. [511 :: u64, of_nat (510 + k div 512), of_nat (k mod 512)]"]
    by (intro add_mono) (simp_all add: card_insert_if)
  finally show "card (boot_tables nk nh) \<le> 10 + nk + nh" by simp
qed

lemma lo_bases: "lo 0 = 0" "lo HHDM_OFFSET = 2 ^ 47" "lo KERNEL_VIRT_BASE = 2 ^ 48 - 2 ^ 31 + 2 ^ 20"
  by (simp_all add: lo_def HHDM_OFFSET_def KERNEL_VIRT_BASE_def)

lemma identity_path: "lo v < 2 ^ 32 \<Longrightarrow> large_path v \<subseteq> boot_tables nk nh"
proof -
  assume v: "lo v < 2 ^ 32"
  then have "lo v div 2 ^ 39 = 0" "lo v div 2 ^ 30 < 4" by (simp_all add: less_mult_imp_div_less)
  then show ?thesis by (auto simp: large_path_def indices_of_nat boot_tables_def)
qed

lemma kernel_path:
  assumes v: "lo v = 2 ^ 48 - 2 ^ 31 + x" "x < 2 ^ 31" "x div 2 ^ 21 < nk"
  shows "small_path v \<subseteq> boot_tables nk nh"
proof -
  have d: "lo v div 2 ^ 39 = 511" "lo v div 2 ^ 30 = 2 ^ 18 - 2 + x div 2 ^ 30" "lo v div 2 ^ 21 = 2 ^ 27 - 2 ^ 10 + x div 2 ^ 21"
    using v(1,2) by simp_all
  have x: "x div 2 ^ 30 = x div 2 ^ 21 div 512" "x div 2 ^ 30 < 2" using v(2) by (simp_all add: div_mult2_eq [symmetric] less_mult_imp_div_less)
  have x01: "x div 2 ^ 30 = 0 \<or> x div 2 ^ 30 = 1" using x(2) by linarith
  then have m: "lo v div 2 ^ 30 mod 512 = 510 + x div 2 ^ 30" using d(2) by (elim disjE) simp_all
  have m2: "lo v div 2 ^ 21 mod 512 = x div 2 ^ 21 mod 512"
    using mod_mult_self4 [of 512 262142 "x div 2 ^ 21"] unfolding d(3) by simp
  from x01 have "[511, of_nat (510 + x div 2 ^ 30)] \<in> boot_tables nk nh" by (auto simp: boot_tables_def)
  moreover have "[511, of_nat (510 + x div 2 ^ 30), of_nat (x div 2 ^ 21 mod 512)] \<in> boot_tables nk nh"
    unfolding x(1) boot_tables_def using v(3) by blast
  moreover have "[511] \<in> boot_tables nk nh" by (simp add: boot_tables_def)
  ultimately show ?thesis unfolding small_path_def large_path_def indices_of_nat d(1) m m2 by simp
qed

lemma hhdm_path:
  assumes v: "lo v = 2 ^ 47 + x" "x < 2 ^ 39" "x div 2 ^ 30 < nh"
  shows "large_path v \<subseteq> boot_tables nk nh" "[PML4_INDEX v, PDPT_INDEX v, PD_INDEX v] \<notin> boot_tables nk nh"
proof -
  have d: "lo v div 2 ^ 39 = 256" "lo v div 2 ^ 30 = 2 ^ 17 + x div 2 ^ 30" using v(1,2) by simp_all
  have "x div 2 ^ 30 < 512" using v(2) by (simp add: less_mult_imp_div_less)
  then have "lo v div 2 ^ 30 mod 512 = x div 2 ^ 30" using mod_mult_self4 [of 512 256 "x div 2 ^ 30"] unfolding d(2) by simp
  then show "large_path v \<subseteq> boot_tables nk nh" "[PML4_INDEX v, PDPT_INDEX v, PD_INDEX v] \<notin> boot_tables nk nh"
    using v(3) d(1) by (auto simp: large_path_def indices_of_nat boot_tables_def)
qed

text \<open>The three loops as folds over page numbers.\<close>

lemma for_pages:
  assumes "step = of_nat (2 ^ j)" "0 < j" "j < 32" "unat e \<le> 2 ^ 48"
  shows "for_step (\<lambda>x. x < e) step 0 f s = Some (fold (\<lambda>k. f (of_nat k * step)) [0..<(unat e + 2 ^ j - 1) div 2 ^ j] s)"
proof -
  have j: "(2::nat) ^ j < 2 ^ 32" using assms(3) by (intro power_strict_increasing) simp_all
  then have st: "unat step = 2 ^ j" unfolding assms(1) by (intro unat_of_nat_small) simp
  have n: "(unat e + 2 ^ j - 1) div 2 ^ j = (if 0 < e then (unat e - unat (0::u64) + unat step - 1) div unat step else 0)"
    by (auto simp: st word_less_nat_alt)
  have "unat e + unat step < 18446744073709551616" using assms(4) j st by simp
  from for_step_less [OF _ this n, of f s] show ?thesis by (simp add: st fold_map comp_def)
qed

lemma unat_max_phys:
  assumes "unat (t::u64) * 4096 \<le> 2 ^ 39"
  shows "unat ((t * 4096 + TWO_MB - 1) AND NOT (TWO_MB - 1)) = (unat t * 4096 + 0x1FFFFF) div 0x200000 * 0x200000"
proof -
  have "unat (t * 4096 + 0x1FFFFF) = unat t * 4096 + 0x1FFFFF"
    using assms by (subst unat_add_nowrap) (simp_all add: unat_mult_nowrap)
  moreover have "(t * 4096 + TWO_MB - 1) AND NOT (TWO_MB - 1) = (t * 4096 + 0x1FFFFF) AND NOT (mask 21)"
    by (simp add: TWO_MB_def mask_eq_exp_minus_1 add.commute)
  ultimately show ?thesis by (simp only: unat_and_not_mask) simp
qed

definition boot_leaf :: "nat \<Rightarrow> nat \<Rightarrow> u64 \<Rightarrow> (bool \<times> u64) option" where
  "boot_leaf np nh v = (if 2 ^ 47 \<le> lo v \<and> lo v < 2 ^ 47 + nh * 2 ^ 21
     then Some (True, of_nat ((lo v - 2 ^ 47) div 2 ^ 21) * TWO_MB OR KERNEL_RW OR PAGE_HUGE)
     else if lo KERNEL_VIRT_BASE \<le> lo v \<and> lo v < lo KERNEL_VIRT_BASE + np * 2 ^ 12
     then Some (False, ((KERNEL_PHYS_BASE + of_nat ((lo v - lo KERNEL_VIRT_BASE) div 2 ^ 12) * 0x1000) AND NOT 0xFFF) OR KERNEL_RW OR PAGE_PRESENT)
     else if lo v < 2 ^ 32 then Some (True, of_nat (lo v div 2 ^ 21) * TWO_MB OR KERNEL_RW OR PAGE_HUGE) else None)"

lemma map_pages_fold:
  fixes s :: "'a vmm_state_scheme"
  assumes "kernel_pml4 s = p"
  shows "fold (\<lambda>k. vmm_map_page (v k) (f k) fl) ks s = fold (\<lambda>k. vmm_map_page_in p (v k) (f k) fl) ks s"
  using assms
proof (induction ks arbitrary: s)
  case (Cons k ks)
  have "kernel_pml4 (vmm_map_page_in p a b fl s) = kernel_pml4 s" for a b
  proof -
    have "pmm_state.more (vmm_map_page_in p a b fl s) = pmm_state.more s" by (rule map_page_more)
    then show ?thesis by (cases s, cases "vmm_map_page_in p a b fl s") (simp del: map_page_more)
  qed
  then show ?case using Cons by (simp add: vmm_map_page_def)
qed simp

lemma vmm_init_result:
  fixes s :: "'a vmm_state_scheme"
  assumes m: "mem_ok s" and k: "0x100000 \<le> unat kend" "unat kend \<le> 2 ^ 31" and tot: "unat (total_frames s) * 4096 \<le> 2 ^ 39"
    and fr: "10 + (unat kend + 0x1FFFFF) div 0x200000 + (unat (total_frames s) * 4096 + 0x3FFFFFFF) div 0x40000000 \<le> free_frames s"
  defines "np \<equiv> (unat kend - 0x100000 + 0xFFF) div 0x1000" and "nh \<equiv> (unat (total_frames s) * 4096 + 0x1FFFFF) div 0x200000"
  shows "\<exists>s'. vmm_init kend s = Some s' \<and> pt_ok s' (kernel_pml4 s') \<and> cr3 s' = kernel_pml4 s' \<and> vmm_active s' \<and>
    unat (hhdm_end s') = nh * 0x200000 \<and> (\<forall>v. leaf_of s' (kernel_pml4 s') v = boot_leaf np nh v) \<and>
    used_set s \<subseteq> used_set s' \<and> total_frames s' = total_frames s \<and> free_frames s \<le> free_frames s' +
      (10 + (unat kend + 0x1FFFFF) div 0x200000 + (unat (total_frames s) * 4096 + 0x3FFFFFFF) div 0x40000000)"
proof -
  let ?T = "boot_tables ((unat kend + 0x1FFFFF) div 0x200000) ((unat (total_frames s) * 4096 + 0x3FFFFFFF) div 0x40000000)"
  obtain f s0 where al: "pmm_alloc_frame s = (f, s0)" by fastforce
  define s1 where "s1 = zero_table f (s0\<lparr>kernel_pml4 := f\<rparr>)"
  have "0 < free_frames s" using fr by simp
  note r = root_table [OF m this al, folded s1_def]
  have rm1: "room ?T f s1" using r(3,4) card_boot_tables fr by (auto simp: room_def boot_tables_def intro: order_trans)
  define s2 where "s2 = fold (\<lambda>k. map_huge (0 + of_nat k * TWO_MB) (of_nat k * TWO_MB) KERNEL_RW) [0..<2048] s1"
  have two: "lo (of_nat k * TWO_MB) = k * 2 ^ 21" if "k < 2048" for k
    using lo_add [of 0 "k * 2 ^ 21"] that by (simp add: lo_bases TWO_MB_def)
  have i: "grows ?T f s1 s2 \<and> (\<forall>v. leaf_of s2 f v = (if lo 0 \<le> lo v \<and> lo v < lo 0 + 2048 * 2 ^ 21
     then Some (True, of_nat ((lo v - lo 0) div 2 ^ 21) * TWO_MB OR KERNEL_RW OR PAGE_HUGE) else leaf_of s1 f v))"
    unfolding s2_def by (rule map_huge_range [OF r(1,2) rm1]) (simp_all add: lo_bases identity_path two r(3))
  note g2 = conjunct1 [OF i]
  have rm2: "room ?T f s2" by (rule room_grows [OF rm1 g2]) simp
  define s3 where "s3 = fold (\<lambda>k. vmm_map_page_in f (KERNEL_VIRT_BASE + of_nat k * 0x1000) (KERNEL_PHYS_BASE + of_nat k * 0x1000) KERNEL_RW) [0..<np] s2"
  have "np \<le> (2 ^ 31 - 2 ^ 20 + 0xFFF) div 0x1000" unfolding np_def using k by (intro div_le_mono) simp
  then have np: "np * 4096 \<le> 2 ^ 31 - 2 ^ 20" "np * 4096 \<le> unat kend - 0x100000 + 0xFFF" by (simp_all add: np_def)
  have kv: "lo (KERNEL_VIRT_BASE + of_nat k * 0x1000) = 2 ^ 48 - 2 ^ 31 + (2 ^ 20 + k * 4096) \<and> 2 ^ 20 + k * 4096 < unat kend" if "k < np" for k
    using lo_add [of KERNEL_VIRT_BASE "k * 4096"] that np by (simp add: lo_bases)
  have j: "grows ?T f s2 s3 \<and> (\<forall>v. leaf_of s3 f v =
    (if lo KERNEL_VIRT_BASE \<le> lo v \<and> lo v < lo KERNEL_VIRT_BASE + np * 2 ^ 12
     then Some (False, ((KERNEL_PHYS_BASE + of_nat ((lo v - lo KERNEL_VIRT_BASE) div 2 ^ 12) * 0x1000) AND NOT 0xFFF) OR KERNEL_RW OR PAGE_PRESENT)
     else leaf_of s2 f v))"
    unfolding s3_def
  proof (rule map_page_range [OF growsD(1) [OF g2] rm2], goal_cases)
    case (3 k)
    then show ?case using kv [of k] \<open>unat kend \<le> 2 ^ 31\<close> by (intro kernel_path [of _ "2 ^ 20 + k * 4096"]) (simp_all, linarith)
  next
    case (4 v e)
    then show ?case using i r(5) by (simp add: lo_bases)
  qed (use np in \<open>simp_all add: lo_bases\<close>)
  note g3 = conjunct1 [OF j]
  have rm3: "room ?T f s3" by (rule room_grows [OF rm2 g3]) simp
  have tab3: "tables s3 f \<subseteq> ?T" using growsD(3) [OF g2] growsD(3) [OF g3] r(3) by (auto simp: boot_tables_def)
  have kp3: "kernel_pml4 s3 = f" using grows_fields(1) [OF g2] grows_fields(1) [OF g3] r(2) by simp
  define s4 where "s4 = fold (\<lambda>k. map_huge (HHDM_OFFSET + of_nat k * TWO_MB) (of_nat k * TWO_MB) KERNEL_RW) [0..<nh] s3"
  have "nh \<le> (2 ^ 39 + 0x1FFFFF) div 0x200000" unfolding nh_def using tot by (intro div_le_mono) simp
  then have nh: "nh \<le> 2 ^ 18" by simp
  have hv: "\<exists>x. lo (HHDM_OFFSET + of_nat k * TWO_MB) = 2 ^ 47 + x \<and> x < 2 ^ 39 \<and>
      x div 2 ^ 30 < (unat (total_frames s) * 4096 + 0x3FFFFFFF) div 0x40000000" if "k < nh" for k
  proof (intro exI conjI)
    show "lo (HHDM_OFFSET + of_nat k * TWO_MB) = 2 ^ 47 + k * 2 ^ 21"
      using lo_add [of HHDM_OFFSET "k * 2 ^ 21"] that nh by (simp add: lo_bases TWO_MB_def)
    show "k * 2 ^ 21 < 2 ^ 39" using that nh by simp
    have "Suc k * 0x200000 \<le> nh * 0x200000" using that by (intro mult_le_mono1) simp
    also have "\<dots> \<le> unat (total_frames s) * 4096 + 0x1FFFFF" by (simp add: nh_def)
    finally have "k * 2 ^ 21 + 0x40000000 \<le> unat (total_frames s) * 4096 + 0x3FFFFFFF" by simp
    from div_le_mono [OF this, of "0x40000000"]
    show "k * 2 ^ 21 div 2 ^ 30 < (unat (total_frames s) * 4096 + 0x3FFFFFFF) div 0x40000000" by simp
  qed
  have h: "grows ?T f s3 s4 \<and> (\<forall>v. leaf_of s4 f v = (if lo HHDM_OFFSET \<le> lo v \<and> lo v < lo HHDM_OFFSET + nh * 2 ^ 21
     then Some (True, of_nat ((lo v - lo HHDM_OFFSET) div 2 ^ 21) * TWO_MB OR KERNEL_RW OR PAGE_HUGE) else leaf_of s3 f v))"
    unfolding s4_def
  proof (rule map_huge_range [OF growsD(1) [OF g3] kp3 rm3], goal_cases)
    case (3 k)
    then show ?case using hv [of k] hhdm_path(1) by blast
  next
    case (4 k v)
    then show ?case using hv [of k] hhdm_path(2) tab3 by blast
  qed (use nh in \<open>simp_all add: lo_bases\<close>)
  note g4 = conjunct1 [OF h]
  have g: "grows ?T f s1 s4" by (rule grows_trans [OF grows_trans [OF g2 g3] g4]) auto
  define mp where "mp = (total_frames s * 4096 + TWO_MB - 1) AND NOT (TWO_MB - 1)"
  have ump: "unat mp = nh * 0x200000" using unat_max_phys [OF tot] by (simp add: mp_def nh_def)
  have kp: "kernel_pml4 s4 = f" "total_frames s3 = total_frames s" "kernel_pml4 s2 = f"
    using grows_fields(1) [OF g] grows_fields(1) [OF g2] r(2,6) growsD(6) [OF g2] growsD(6) [OF g3] by simp_all
  have l1: "for_step (\<lambda>a. a < 0x100000000) TWO_MB 0 (\<lambda>a. map_huge a a KERNEL_RW) s1 = Some s2"
    by (subst for_pages [of _ 21]) (simp_all add: s2_def TWO_MB_def)
  have "unat (kend - KERNEL_PHYS_BASE) = unat kend - 0x100000"
    using k(1) by (subst unat_sub) (simp_all add: KERNEL_PHYS_BASE_def word_le_nat_alt)
  moreover have "x + 2 ^ 12 - 1 = x + 0xFFF" for x :: nat by simp
  ultimately have nn: "(unat (kend - KERNEL_PHYS_BASE) + 2 ^ 12 - 1) div 2 ^ 12 = np" "unat (kend - KERNEL_PHYS_BASE) \<le> 2 ^ 48"
    using k(2) unfolding np_def by simp_all
  have l2: "for_step (\<lambda>off. off < kend - KERNEL_PHYS_BASE) 0x1000 0
      (\<lambda>off. vmm_map_page (KERNEL_VIRT_BASE + off) (KERNEL_PHYS_BASE + off) KERNEL_RW) s2 = Some s3"
    using for_pages [of "0x1000" 12, OF _ _ _ nn(2)] unfolding nn(1) s3_def map_pages_fold [OF kp(3), symmetric] by simp
  have l3: "for_step (\<lambda>a. a < mp) TWO_MB 0 (\<lambda>a. map_huge (HHDM_OFFSET + a) a KERNEL_RW) s3 = Some s4"
    using ump nh by (subst for_pages [of _ 21]) (simp_all add: s4_def TWO_MB_def)
  let ?s' = "s4\<lparr>hhdm_end := mp, cr3 := kernel_pml4 s4, vmm_active := True\<rparr>"
  have "vmm_init kend s = Some ?s'"
    by (simp add: vmm_init_def al l1 l2 l3 kp mp_def [symmetric] pmm_total_frames_def s1_def [symmetric] KERNEL_RW_def [symmetric])
  moreover note act = activate [OF growsD(1) [OF g], where e = mp and c = f]
  moreover have "leaf_of s4 f v = boot_leaf np nh v" for v
    using h j i r(5) by (simp add: boot_leaf_def lo_bases)
  moreover have "free_frames s \<le> free_frames s4 + card ?T"
  proof -
    have "[] \<in> ?T" by (simp add: boot_tables_def)
    then have "tables s4 f \<subseteq> ?T" using growsD(3) [OF g] r(3) by auto
    then show ?thesis using r(3,4) growsD(4) [OF g] card_mono [OF card_boot_tables(1)] by (metis card_1_singleton_iff add_le_cancel_left Suc_eq_plus1 card.empty One_nat_def)
  qed
  ultimately show ?thesis
    using r(6,7) growsD(5,6) [OF g] kp(1) ump card_boot_tables(2) [of "(unat kend + 0x1FFFFF) div 0x200000" "(unat (total_frames s) * 4096 + 0x3FFFFFFF) div 0x40000000"]
    by (intro exI [of _ ?s']) (auto intro: order_trans)
qed

text \<open>
  The address space the boot code builds: the first 4 GB at their own addresses, the kernel image from its start to \<open>kend\<close> (whole pages) in the
  last 2 GB, and physical memory up to \<open>max_phys\<close> at the offset of the direct map; all of it for the kernel only.
\<close>

definition boot_map :: "u64 \<Rightarrow> u64 \<Rightarrow> u64 \<Rightarrow> (bool \<times> u64) option" where
  "boot_map ksize max_phys v =
     (if v < 0x100000000 then Some (True, (v AND NOT 0x1FFFFF) OR PAGE_PRESENT OR PAGE_WRITABLE OR PAGE_HUGE)
      else if v - KERNEL_VIRT_BASE < ALIGN_UP ksize 4096
      then Some (False, ((v - KERNEL_VIRT_BASE + KERNEL_PHYS_BASE) AND NOT 0xFFF) OR PAGE_PRESENT OR PAGE_WRITABLE)
      else if v - HHDM_OFFSET < max_phys
      then Some (True, ((v - HHDM_OFFSET) AND NOT 0x1FFFFF) OR PAGE_PRESENT OR PAGE_WRITABLE OR PAGE_HUGE)
      else None)"

abbreviation canonical :: "u64 \<Rightarrow> bool" where
  "canonical v \<equiv> v < USER_SPACE_END \<or> HHDM_OFFSET \<le> v"

lemma canonical_lo:
  "v < USER_SPACE_END \<Longrightarrow> lo v = unat v \<and> lo v < 2 ^ 47"
  "HHDM_OFFSET \<le> v \<Longrightarrow> unat v = lo v + (2 ^ 64 - 2 ^ 48) \<and> 2 ^ 47 \<le> lo v"
proof -
  show "v < USER_SPACE_END \<Longrightarrow> lo v = unat v \<and> lo v < 2 ^ 47"
    by (simp add: lo_def USER_SPACE_END_def word_less_nat_alt)
  assume "HHDM_OFFSET \<le> v"
  then have "unat v = (unat v - (2 ^ 64 - 2 ^ 48)) + (2 ^ 64 - 2 ^ 48)" "2 ^ 47 \<le> unat v - (2 ^ 64 - 2 ^ 48)"
    by (simp_all add: HHDM_OFFSET_def word_le_nat_alt)
  moreover have "unat v - (2 ^ 64 - 2 ^ 48) < 2 ^ 48" using unat_lt_64 [of v] by (simp del: unat_lt_64)
  moreover have "(2 ^ 64 - 2 ^ 48 + y) mod 2 ^ 48 = y" if "y < 2 ^ 48" for y :: nat
    using that mod_mult_self4 [of "2 ^ 48" "2 ^ 16 - 1" y] by simp
  ultimately show "unat v = lo v + (2 ^ 64 - 2 ^ 48) \<and> 2 ^ 47 \<le> lo v" by (metis lo_def add.commute)
qed

lemma of_nat_large_page: "of_nat (unat (x::u64) div 2 ^ 21) * TWO_MB = x AND NOT 0x1FFFFF"
proof -
  have "unat (x AND NOT (mask 21)) = unat x div 2 ^ 21 * 2 ^ 21" by (rule unat_and_not_mask)
  moreover have "x AND NOT (mask 21) = of_nat (unat (x AND NOT (mask 21)))" by simp
  ultimately have "x AND NOT (mask 21) = of_nat (unat x div 2 ^ 21 * 2 ^ 21)" by (simp only:)
  then show ?thesis by (simp add: mask_eq_exp_minus_1 TWO_MB_def)
qed

lemma of_nat_small_page: "of_nat (unat (x::u64) div 2 ^ 12) * 0x1000 = x AND NOT 0xFFF"
proof -
  have "unat (x AND NOT (mask 12)) = unat x div 2 ^ 12 * 2 ^ 12" by (rule unat_and_not_mask)
  moreover have "x AND NOT (mask 12) = of_nat (unat (x AND NOT (mask 12)))" by simp
  ultimately have "x AND NOT (mask 12) = of_nat (unat x div 2 ^ 12 * 2 ^ 12)" by (simp only:)
  then show ?thesis by (simp add: mask_eq_exp_minus_1)
qed

lemma kernel_page:
  assumes "unat (y::u64) < 2 ^ 31"
  shows "(KERNEL_PHYS_BASE + (y AND NOT 0xFFF)) AND NOT 0xFFF = (y + KERNEL_PHYS_BASE) AND NOT 0xFFF"
proof -
  have k: "unat KERNEL_PHYS_BASE = 0x100000" by (simp add: KERNEL_PHYS_BASE_def)
  have "unat y div 4096 * 4096 \<le> unat y" by simp
  then have "unat (KERNEL_PHYS_BASE + (y AND NOT 0xFFF)) = 256 * 4096 + unat y div 4096 * 4096"
    "unat (y + KERNEL_PHYS_BASE) = unat y + 256 * 4096"
    using assms by (subst unat_add_nowrap; simp add: k unat_page_mask)+
  then have "unat ((KERNEL_PHYS_BASE + (y AND NOT 0xFFF)) AND NOT 0xFFF) = unat ((y + KERNEL_PHYS_BASE) AND NOT 0xFFF)"
    using unat_page_mask [of "KERNEL_PHYS_BASE + (y AND NOT 0xFFF)"] unat_page_mask [of "y + KERNEL_PHYS_BASE"]
      div_mult_self1 [of 4096 "unat y" 256] by (simp add: add_mult_distrib)
  then show ?thesis by (simp only: word_unat_eq_iff)
qed

lemma boot_leaf_map:
  assumes v: "canonical v" and k: "0x100000 \<le> unat kend" "unat kend \<le> 2 ^ 31"
    and mp: "unat mp = nh * 0x200000" "nh \<le> 2 ^ 18"
  shows "boot_leaf ((unat kend - 0x100000 + 0xFFF) div 0x1000) nh v = boot_map (kend - KERNEL_PHYS_BASE) mp v"
proof -
  let ?np = "(unat kend - 0x100000 + 0xFFF) div 0x1000"
  have ks: "unat (kend - KERNEL_PHYS_BASE) = unat kend - 0x100000"
    using k(1) by (subst unat_sub) (simp_all add: KERNEL_PHYS_BASE_def word_le_nat_alt)
  then have al: "unat (ALIGN_UP (kend - KERNEL_PHYS_BASE) 4096) = ?np * 0x1000"
    using unat_ALIGN_UP_page [of "kend - KERNEL_PHYS_BASE"] k(2) by simp
  have "?np \<le> (2 ^ 31 - 2 ^ 20 + 0xFFF) div 0x1000" using k by (intro div_le_mono) simp
  then have np: "?np * 0x1000 \<le> 2 ^ 31 - 2 ^ 20" by simp
  have b: "unat KERNEL_VIRT_BASE = 18446744071563116544" "unat HHDM_OFFSET = 18446603336221196288"
    by (simp_all add: KERNEL_VIRT_BASE_def HHDM_OFFSET_def)
  from v show ?thesis
  proof
    assume u: "v < USER_SPACE_END"
    note l = canonical_lo(1) [OF u]
    have "unat (v - KERNEL_VIRT_BASE) = unat v + (2 ^ 31 - 2 ^ 20)" "unat (v - HHDM_OFFSET) = unat v + 2 ^ 47"
      using l by (simp_all add: unat_sub_if' b)
    then have "\<not> v - KERNEL_VIRT_BASE < ALIGN_UP (kend - KERNEL_PHYS_BASE) 4096" "\<not> v - HHDM_OFFSET < mp"
      using al np mp by (simp_all add: word_less_nat_alt)
    moreover have "v < 0x100000000 \<longleftrightarrow> lo v < 2 ^ 32" using l by (simp add: word_less_nat_alt)
    ultimately show ?thesis
      using l of_nat_large_page [of v] by (simp add: boot_leaf_def boot_map_def lo_bases KERNEL_RW_def or.assoc)
  next
    assume h: "HHDM_OFFSET \<le> v"
    note l = canonical_lo(2) [OF h]
    have hd: "unat (v - HHDM_OFFSET) = lo v - 2 ^ 47" using h l by (subst unat_sub) (simp_all add: b)
    then have hs: "v - HHDM_OFFSET < mp \<longleftrightarrow> lo v < 2 ^ 47 + nh * 2 ^ 21" using mp(1) l by (simp add: word_less_nat_alt less_diff_conv2) linarith
    have big: "\<not> v < 0x100000000" "\<not> lo v < 2 ^ 32" using l by (simp_all add: word_less_nat_alt)
    show ?thesis
    proof (cases "KERNEL_VIRT_BASE \<le> v")
      case True
      then have kd: "unat (v - KERNEL_VIRT_BASE) = lo v - lo KERNEL_VIRT_BASE" "lo KERNEL_VIRT_BASE \<le> lo v"
        using l unat_sub [OF True] by (simp_all add: b lo_bases word_le_nat_alt)
      let ?y = "v - KERNEL_VIRT_BASE"
      have ks': "?y < ALIGN_UP (kend - KERNEL_PHYS_BASE) 4096 \<longleftrightarrow> lo v < lo KERNEL_VIRT_BASE + ?np * 2 ^ 12"
        using al kd by (simp add: word_less_nat_alt less_diff_conv2) linarith
      have y: "unat ?y < 2 ^ 31" using kd l unat_lt_64 [of v] by (simp add: lo_bases del: unat_lt_64)
      have "(KERNEL_PHYS_BASE + of_nat (unat ?y div 2 ^ 12) * 0x1000) AND NOT 0xFFF = (?y + KERNEL_PHYS_BASE) AND NOT 0xFFF"
        unfolding of_nat_small_page by (rule kernel_page [OF y])
      then show ?thesis using l kd ks' hs hd mp np big of_nat_large_page [of "v - HHDM_OFFSET"]
        by (simp add: boot_leaf_def boot_map_def KERNEL_RW_def lo_bases or.assoc) (simp add: or.left_commute or.commute)
    next
      case False
      then have "unat (v - KERNEL_VIRT_BASE) = unat v + (2 ^ 31 - 2 ^ 20)" "\<not> lo KERNEL_VIRT_BASE \<le> lo v"
        using l by (simp_all add: unat_sub_if' b lo_bases word_le_nat_alt)
      moreover from this have "\<not> v - KERNEL_VIRT_BASE < ALIGN_UP (kend - KERNEL_PHYS_BASE) 4096"
        using al np l by (simp add: word_less_nat_alt)
      ultimately show ?thesis using l hs hd of_nat_large_page [of "v - HHDM_OFFSET"] big
        by (simp add: boot_leaf_def boot_map_def KERNEL_RW_def or.assoc)
    qed
  qed
qed

lemma mask_add:
  fixes a b :: u64
  assumes "b AND mask n = 0" "n \<le> 64"
  shows "(b + a) AND mask n = a AND mask n"
proof -
  have "(2::nat) ^ n dvd 2 ^ 64" by (rule le_imp_power_dvd [OF assms(2)])
  then have d: "(x::nat) mod 2 ^ 64 mod 2 ^ n = x mod 2 ^ n" for x by (rule mod_mod_cancel)
  have "unat b mod 2 ^ n = 0" using assms(1) unat_and_mask [of b n] by simp
  then have "(unat b + unat a) mod 2 ^ n = unat a mod 2 ^ n" by (simp add: mod_add_left_eq [symmetric])
  moreover have "unat (b + a) = (unat b + unat a) mod 2 ^ 64" by (simp add: unat_word_ariths)
  ultimately have "unat ((b + a) AND mask n) = unat (a AND mask n)" by (simp only: unat_and_mask d)
  then show ?thesis by (simp only: word_unat_eq_iff)
qed

lemma boot_map_phys:
  assumes k: "0x100000 \<le> unat kend" "unat kend \<le> 2 ^ 31" and mp: "unat mp \<le> 2 ^ 39"
  defines "bm \<equiv> boot_map (kend - KERNEL_PHYS_BASE) mp"
  shows "a < 0x100000000 \<Longrightarrow> page_addr a (bm a) = a"
    "off < kend - KERNEL_PHYS_BASE \<Longrightarrow> page_addr (KERNEL_VIRT_BASE + off) (bm (KERNEL_VIRT_BASE + off)) = KERNEL_PHYS_BASE + off"
    "a < mp \<Longrightarrow> page_addr (HHDM_OFFSET + a) (bm (HHDM_OFFSET + a)) = a"
proof -
  have ks: "unat (kend - KERNEL_PHYS_BASE) = unat kend - 0x100000"
    using k(1) by (subst unat_sub) (simp_all add: KERNEL_PHYS_BASE_def word_le_nat_alt)
  have fl: "ENTRY_ADDR PAGE_PRESENT = 0" "ENTRY_ADDR PAGE_WRITABLE = 0" "ENTRY_ADDR PAGE_HUGE = 0"
    by (simp_all add: ENTRY_ADDR_def PAGE_PRESENT_def PAGE_WRITABLE_def PAGE_HUGE_def)
  have pg: "ENTRY_ADDR (x AND NOT (mask n)) + (x AND mask n) = x" if "unat x < 2 ^ 40" "12 \<le> n" "n \<le> 21" for x n
  proof -
    have "unat (x AND NOT (mask n)) mod 2 ^ 12 = 0" using that(2) le_imp_power_dvd [OF that(2), of "2::nat"]
      by (simp add: unat_and_not_mask mod_eq_0_iff_dvd dvd_mult)
    moreover have "unat (x AND NOT (mask n)) \<le> unat x" by (simp add: unat_and_not_mask)
    ultimately have "ENTRY_ADDR (x AND NOT (mask n)) = x AND NOT (mask n)" using that(1) by (intro ENTRY_ADDR_aligned) simp_all
    moreover have "unat (x AND NOT (mask n)) + unat (x AND mask n) = unat x" by (simp add: unat_and_not_mask unat_and_mask div_mult_mod_eq)
    then have "(x AND NOT (mask n)) + (x AND mask n) = x" using unat_lt_64 [of x]
      by (subst word_unat_eq_iff, subst unat_add_nowrap) (simp_all del: unat_lt_64)
    ultimately show ?thesis by simp
  qed
  note large = pg [of _ 21, unfolded mask_eq_exp_minus_1, simplified] and small = pg [of _ 12, unfolded mask_eq_exp_minus_1, simplified]
  show "page_addr a (bm a) = a" if "a < 0x100000000"
    using that large [of a] by (simp add: bm_def boot_map_def page_addr_def ENTRY_ADDR_or fl word_less_nat_alt)
  show "page_addr (HHDM_OFFSET + a) (bm (HHDM_OFFSET + a)) = a" if "a < mp"
  proof -
    have a: "unat a < 2 ^ 39" using that mp by (simp add: word_less_nat_alt)
    then have u: "unat (HHDM_OFFSET + a) = 18446603336221196288 + unat a" by (subst unat_add_nowrap) (simp_all add: HHDM_OFFSET_def)
    then have "unat (HHDM_OFFSET + a - KERNEL_VIRT_BASE) = unat a + 18446603338367631360" using a
      by (simp add: unat_sub_if' KERNEL_VIRT_BASE_def)
    then have "\<not> HHDM_OFFSET + a - KERNEL_VIRT_BASE < ALIGN_UP (kend - KERNEL_PHYS_BASE) 4096"
      using unat_ALIGN_UP_page [of "kend - KERNEL_PHYS_BASE"] k ks by (simp add: word_less_nat_alt)
    moreover have "(HHDM_OFFSET + a) AND 0x1FFFFF = a AND 0x1FFFFF"
      using mask_add [of HHDM_OFFSET 21 a] by (simp add: mask_eq_exp_minus_1 HHDM_OFFSET_def)
    moreover have "\<not> HHDM_OFFSET + a < 0x100000000" using u by (simp add: word_less_nat_alt)
    ultimately show ?thesis using large [of a] a that by (simp add: bm_def boot_map_def page_addr_def ENTRY_ADDR_or fl)
  qed
  show "page_addr (KERNEL_VIRT_BASE + off) (bm (KERNEL_VIRT_BASE + off)) = KERNEL_PHYS_BASE + off" if "off < kend - KERNEL_PHYS_BASE"
  proof -
    have o: "unat off < unat kend - 0x100000" using that ks by (simp add: word_less_nat_alt)
    then have "unat (KERNEL_VIRT_BASE + off) = 18446744071563116544 + unat off"
      using k(2) by (subst unat_add_nowrap) (simp_all add: KERNEL_VIRT_BASE_def)
    then have "\<not> KERNEL_VIRT_BASE + off < 0x100000000" by (simp add: word_less_nat_alt)
    moreover have "off < ALIGN_UP (kend - KERNEL_PHYS_BASE) 4096"
      using o unat_ALIGN_UP_page [of "kend - KERNEL_PHYS_BASE"] k ks by (simp add: word_less_nat_alt)
    moreover have "(KERNEL_VIRT_BASE + off) AND 0xFFF = off AND 0xFFF" "(off + KERNEL_PHYS_BASE) AND 0xFFF = off AND 0xFFF"
      using mask_add [of KERNEL_VIRT_BASE 12 off] mask_add [of KERNEL_PHYS_BASE 12 off]
      by (simp_all add: mask_eq_exp_minus_1 KERNEL_VIRT_BASE_def KERNEL_PHYS_BASE_def add.commute)
    moreover have "unat (off + KERNEL_PHYS_BASE) < 2 ^ 40"
      using o k(2) by (subst unat_add_nowrap) (simp_all add: KERNEL_PHYS_BASE_def)
    ultimately show ?thesis using small [of "off + KERNEL_PHYS_BASE"]
      by (simp add: bm_def boot_map_def page_addr_def ENTRY_ADDR_or fl add.commute)
  qed
qed

text \<open>
  C7. Start-up of paging. On a machine with at most 512 GB, a kernel image of at most 2 GB, and a free frame for each of
  the tables, \<open>vmm_init\<close> returns with well-formed tables that map exactly three regions: the first 4 GB at
  their own addresses, the kernel image in the higher half, and all of physical memory, rounded up to 2 MB, in the
  direct map; every translation leads to the right physical address, no page is accessible from Ring 3, the
  tables are loaded in CR3, and no frame that was in use has been released.
\<close>

theorem vmm_init_correct:
  fixes s :: "'a vmm_state_scheme"
  assumes "mem_ok s" "0x100000 \<le> unat kend" "unat kend \<le> 2 ^ 31" "unat (total_frames s) * 4096 \<le> 2 ^ 39"
    and "10 + (unat kend + 0x1FFFFF) div 0x200000 + (unat (total_frames s) * 4096 + 0x3FFFFFFF) div 0x40000000 \<le> free_frames s"
  shows "\<exists>s'. vmm_init kend s = Some s' \<and> pt_ok s' (kernel_pml4 s') \<and> cr3 s' = kernel_pml4 s' \<and> vmm_active s' \<and>
    unat (hhdm_end s') = (unat (total_frames s) * 4096 + 0x1FFFFF) div 0x200000 * 0x200000 \<and>
    (\<forall>v. canonical v \<longrightarrow> leaf_of s' (kernel_pml4 s') v = boot_map (kend - KERNEL_PHYS_BASE) (hhdm_end s') v) \<and>
    (\<forall>a < 0x100000000. vmm_get_phys a s' = a) \<and>
    (\<forall>off < kend - KERNEL_PHYS_BASE. vmm_get_phys (KERNEL_VIRT_BASE + off) s' = KERNEL_PHYS_BASE + off) \<and>
    (\<forall>a < hhdm_end s'. vmm_get_phys (HHDM_OFFSET + a) s' = a) \<and>
    (\<forall>v huge e. canonical v \<longrightarrow> leaf_of s' (kernel_pml4 s') v = Some (huge, e) \<longrightarrow> e AND PAGE_USER = 0) \<and>
    used_set s \<subseteq> used_set s'"
proof -
  let ?nh = "(unat (total_frames s) * 4096 + 0x1FFFFF) div 0x200000"
  obtain s' where s': "vmm_init kend s = Some s'" "pt_ok s' (kernel_pml4 s')" "cr3 s' = kernel_pml4 s'" "vmm_active s'"
    "unat (hhdm_end s') = ?nh * 0x200000" "used_set s \<subseteq> used_set s'"
    "\<And>v. leaf_of s' (kernel_pml4 s') v = boot_leaf ((unat kend - 0x100000 + 0xFFF) div 0x1000) ?nh v"
    using vmm_init_result [OF assms] by blast
  have "?nh \<le> (2 ^ 39 + 0x1FFFFF) div 0x200000" using assms(4) by (intro div_le_mono) simp
  then have nh: "?nh \<le> 2 ^ 18" by simp
  then have mp: "unat (hhdm_end s') \<le> 2 ^ 39" using s'(5) by simp
  have leaf: "leaf_of s' (kernel_pml4 s') v = boot_map (kend - KERNEL_PHYS_BASE) (hhdm_end s') v" if "canonical v" for v
    using s'(7) boot_leaf_map [OF that assms(2,3) s'(5) nh] by simp
  have gp: "vmm_get_phys v s' = page_addr v (boot_map (kend - KERNEL_PHYS_BASE) (hhdm_end s') v)" if "canonical v" for v
    using get_phys_leaf [OF s'(2)] leaf [OF that] by (simp add: vmm_get_phys_def)
  note ph = boot_map_phys [OF assms(2,3) mp]
  have "vmm_get_phys a s' = a" if "a < 0x100000000" for a
    using that by (subst gp) (auto simp: ph(1) USER_SPACE_END_def word_less_nat_alt)
  moreover have "canonical (KERNEL_VIRT_BASE + off)" if "off < kend - KERNEL_PHYS_BASE" for off
  proof -
    have "unat (kend - KERNEL_PHYS_BASE) = unat kend - 0x100000"
      using assms(2) by (subst unat_sub) (simp_all add: KERNEL_PHYS_BASE_def word_le_nat_alt)
    then have "unat (KERNEL_VIRT_BASE + off) = 18446744071563116544 + unat off"
      using that assms(3) by (subst unat_add_nowrap) (simp_all add: KERNEL_VIRT_BASE_def word_less_nat_alt)
    then show ?thesis by (simp add: word_le_nat_alt HHDM_OFFSET_def)
  qed
  moreover have "canonical (HHDM_OFFSET + a)" if "a < hhdm_end s'" for a
  proof -
    have "unat (HHDM_OFFSET + a) = 18446603336221196288 + unat a"
      using that mp by (subst unat_add_nowrap) (simp_all add: HHDM_OFFSET_def word_less_nat_alt)
    then show ?thesis by (simp add: word_le_nat_alt HHDM_OFFSET_def)
  qed
  moreover have "e AND PAGE_USER = 0" if "boot_map (kend - KERNEL_PHYS_BASE) (hhdm_end s') v = Some (huge, e)" for v huge e
    using that by (auto simp: boot_map_def PAGE_PRESENT_def PAGE_WRITABLE_def PAGE_HUGE_def PAGE_USER_def
        bit.conj_disj_distrib2 and.assoc split: if_splits)
  ultimately show ?thesis using s'(1-6) leaf ph(2,3) gp by (intro exI [of _ s']) auto
qed

section \<open>A machine to boot\<close>

text \<open>4 MB of memory whose frames 0 to 3 and 6 are in use; the bitmap is in frame 1. The argument is the state of the other components.\<close>

definition boot_example :: "'a \<Rightarrow> 'a vmm_state_scheme" where
  "boot_example x = \<lparr>ram = (\<lambda>_. 0)(0x1000 := 0x4F), bitmap = 0x1000, bitmap_phys = 0x1000,
     total_frames = 1024, used_frames = 5, bitmap_size = 128, module_start = 0, module_end = 0,
     kernel_pml4 = 0, vmm_active = False, hhdm_end = 0, cr3 = 0, \<dots> = x\<rparr>"

lemma boot_example_simps [simp]:
  "ram (boot_example x) = (\<lambda>_. 0)(0x1000 := 0x4F)" "bitmap (boot_example x) = 0x1000" "total_frames (boot_example x) = 1024"
  "bitmap_size (boot_example x) = 128" "used_frames (boot_example x) = 5"
  by (simp_all add: boot_example_def)

lemma boot_example_used: "used_set (boot_example x) = {0, 1, 2, 3, 6}"
proof -
  have k: "kaddr 0x1000 = 0x1000" by (simp add: kaddr_def HHDM_OFFSET_def)
  have "bitmap_test (boot_example x) (of_nat f) \<longleftrightarrow> f \<in> {0, 1, 2, 3, 6}" if "f < 1024" for f
  proof (cases "f < 8")
    case True
    then have "f \<in> {0, 1, 2, 3, 4, 5, 6, 7}" by auto
    then show ?thesis by (auto simp: bitmap_test_def bm_byte_def bm_bit_def kaddr_def HHDM_OFFSET_def)
  next
    case False
    have "unat (of_nat f div 8 :: u64) = f div 8" using that by (simp add: unat_div unat_of_nat)
    moreover have "0 < f div 8" "f div 8 < 128" using False that by auto
    ultimately have "unat (0x1000 + of_nat f div 8 :: u64) = 0x1000 + f div 8" by (subst unat_add_nowrap) simp_all
    then have "kaddr (0x1000 + of_nat f div 8) \<noteq> 0x1000"
      using \<open>0 < f div 8\<close> kaddr_low [of "0x1000 + of_nat f div 8"] \<open>f div 8 < 128\<close> by (auto simp: word_unat_eq_iff)
    then show ?thesis using False by (simp add: bitmap_test_def bm_byte_def)
  qed
  then have "f \<in> used_set (boot_example x) \<longleftrightarrow> f < 1024 \<and> f \<in> {0, 1, 2, 3, 6}" for f
    by (cases "f < 1024") (simp_all add: used_set_def del: insert_iff)
  moreover have "f < 1024 \<and> f \<in> {0, 1, 2, 3, 6} \<longleftrightarrow> f \<in> {0, 1, 2, 3, 6}" for f :: nat by auto
  ultimately show ?thesis by blast
qed

lemma boot_example_mem_ok: "mem_ok (boot_example x)"
proof -
  have k: "kaddr 0x1000 = 0x1000" by (simp add: kaddr_def HHDM_OFFSET_def)
  have "unat a div 4096 = 1" if "a - 0x1000 < (128 :: u64)" for a
  proof -
    have "unat (a - 0x1000 + 0x1000) = unat (a - 0x1000) + 0x1000"
      using that by (subst unat_add_nowrap) (simp_all add: word_less_nat_alt)
    then have "unat a = unat (a - 0x1000) + 0x1000" by simp
    then show ?thesis using that by (intro div_nat_eqI) (simp_all add: word_less_nat_alt)
  qed
  then show ?thesis unfolding mem_ok_def pmm_inv_def boot_example_used by (auto simp: bm_ok_def k)
qed

lemma boot_example_free: "free_frames (boot_example x) = 1019"
proof -
  have "{1..<1024} - {0, 1, 2, 3, 6} = {1..<1024} - {1, 2, 3, 6 :: nat}" by auto
  then show ?thesis by (simp add: free_frames_def boot_example_used card_Diff_subset)
qed

theorem vmm_init_correct_witness:
  "\<exists>s'. vmm_init 0x180000 (boot_example ()) = Some s' \<and> pt_ok s' (kernel_pml4 s') \<and> hhdm_end s' = 0x400000 \<and>
     vmm_get_phys 0xB8000 s' = 0xB8000 \<and> vmm_get_phys 0xFFFFFFFF80123456 s' = 0x123456 \<and>
     vmm_get_phys 0xFFFF800000234567 s' = 0x234567 \<and> leaf_of s' (kernel_pml4 s') 0xFFFFC00000000000 = None"
proof -
  have "0x100000 \<le> unat (0x180000 :: u64)" "unat (0x180000 :: u64) \<le> 2 ^ 31" "unat (total_frames (boot_example ())) * 4096 \<le> 2 ^ 39"
    "10 + (unat (0x180000 :: u64) + 0x1FFFFF) div 0x200000 + (unat (total_frames (boot_example ())) * 4096 + 0x3FFFFFFF) div 0x40000000
       \<le> free_frames (boot_example ())" by (simp_all add: boot_example_free)
  from vmm_init_correct [OF boot_example_mem_ok this]
  obtain s' where s': "vmm_init 0x180000 (boot_example ()) = Some s'" "pt_ok s' (kernel_pml4 s')" "unat (hhdm_end s') = 0x400000"
    and leaf: "\<And>v. canonical v \<Longrightarrow> leaf_of s' (kernel_pml4 s') v = boot_map (0x180000 - KERNEL_PHYS_BASE) (hhdm_end s') v"
    and idn: "\<And>a. a < 0x100000000 \<Longrightarrow> vmm_get_phys a s' = a"
    and ker: "\<And>off. off < 0x180000 - KERNEL_PHYS_BASE \<Longrightarrow> vmm_get_phys (KERNEL_VIRT_BASE + off) s' = KERNEL_PHYS_BASE + off"
    and hhdm: "\<And>a. a < hhdm_end s' \<Longrightarrow> vmm_get_phys (HHDM_OFFSET + a) s' = a" by auto
  have e: "hhdm_end s' = 0x400000" using s'(3) by (simp add: word_unat_eq_iff)
  have "leaf_of s' (kernel_pml4 s') 0xFFFFC00000000000 = None"
    by (subst leaf) (simp_all add: boot_map_def e HHDM_OFFSET_def KERNEL_VIRT_BASE_def KERNEL_PHYS_BASE_def ALIGN_UP_def)
  then show ?thesis
    using s'(1,2) e idn [of "0xB8000"] ker [of "0x23456"] hhdm [of "0x234567"]
    by (simp add: HHDM_OFFSET_def KERNEL_VIRT_BASE_def KERNEL_PHYS_BASE_def)
qed

end
