(* ===== verification/Kheap.thy ===== *)
theory Kheap
  imports VmmMap
begin

text \<open>
  The kernel heap, \<^verbatim>\<open>kernel/mm/heap.c\<close>: a doubly linked list of blocks, each behind a 32-byte
  header, in a window of kernel virtual memory. \<open>kmem\<close> is that memory, byte by byte; headers
  are read and written at the offsets the compiler gives \<open>struct block_header\<close>. \<open>None\<close> is a halt or
  a list walk that never ends. The message printed on failure is left out.
\<close>

record heap_state = vmm_state +
  kmem :: memory
  heap_head :: u64
  heap_end :: u64

definition HEAP_START :: u64 where
  "HEAP_START = 0xFFFFC00000000000"

definition HEAP_INITIAL_SIZE :: u64 where
  "HEAP_INITIAL_SIZE = 0x100000"

section \<open>Block headers\<close>

record block_header =
  b_size :: u64
  b_free :: u32
  b_next :: u64
  b_prev :: u64

definition HEADER_SIZE :: u64 where
  "HEADER_SIZE = 32"

definition hdr :: "memory \<Rightarrow> u64 \<Rightarrow> block_header" where
  "hdr m p = \<lparr>b_size = load64 m p, b_free = load32 m (p + 8),
     b_next = load64 m (p + 16), b_prev = load64 m (p + 24)\<rparr>"

definition set_size :: "u64 \<Rightarrow> u64 \<Rightarrow> memory \<Rightarrow> memory" where
  "set_size p v m = store64 m p v"

definition set_free :: "u64 \<Rightarrow> u32 \<Rightarrow> memory \<Rightarrow> memory" where
  "set_free p v m = store32 m (p + 8) v"

definition set_next :: "u64 \<Rightarrow> u64 \<Rightarrow> memory \<Rightarrow> memory" where
  "set_next p v m = store64 m (p + 16) v"

definition set_prev :: "u64 \<Rightarrow> u64 \<Rightarrow> memory \<Rightarrow> memory" where
  "set_prev p v m = store64 m (p + 24) v"

definition ALIGN8 :: "u64 \<Rightarrow> u64" where
  "ALIGN8 x = (x + 7) AND NOT 7"

section \<open>Mapping and initialisation\<close>

definition heap_map_page :: "u64 \<Rightarrow> 'a heap_state_scheme \<Rightarrow> 'a heap_state_scheme option" where
  "heap_map_page virt s =
     (let (frame, s) = pmm_alloc_frame s in
      if frame = 0 then None
      else Some (vmm_map_page virt frame (PAGE_PRESENT OR PAGE_WRITABLE) s))"

definition heap_map_region :: "u64 \<Rightarrow> u64 \<Rightarrow> 'a heap_state_scheme \<Rightarrow> 'a heap_state_scheme option" where
  "heap_map_region virt sz s =
     Option.bind (for_step (\<lambda>off. off < sz) 4096 0
       (\<lambda>off so. Option.bind so (heap_map_page (virt + off))) (Some s)) (\<lambda>so. so)"

definition heap_init :: "'a heap_state_scheme \<Rightarrow> 'a heap_state_scheme option" where
  "heap_init s = do {
     s \<leftarrow> heap_map_region HEAP_START HEAP_INITIAL_SIZE s;
     let s = s\<lparr>heap_end := HEAP_START + HEAP_INITIAL_SIZE, heap_head := HEAP_START\<rparr>;
     let m = set_size (heap_head s) (HEAP_INITIAL_SIZE - HEADER_SIZE) (kmem s);
     let m = set_free (heap_head s) 1 m;
     let m = set_next (heap_head s) 0 m;
     let m = set_prev (heap_head s) 0 m;
     Some (s\<lparr>kmem := m\<rparr>)
   }"

section \<open>Allocation and release\<close>

text \<open>The first-fit search; 0 is the end of the list.\<close>

partial_function (option) find_fit :: "memory \<Rightarrow> u64 \<Rightarrow> u64 \<Rightarrow> u64 option" where
  "find_fit m sz cur =
     (if cur = 0 then Some 0
      else if b_free (hdr m cur) \<noteq> 0 \<and> b_size (hdr m cur) \<ge> sz then Some cur
      else find_fit m sz (b_next (hdr m cur)))"

definition split_block :: "u64 \<Rightarrow> u64 \<Rightarrow> memory \<Rightarrow> memory" where
  "split_block cur sz m =
     (let split = cur + HEADER_SIZE + sz;
          m = set_size split (b_size (hdr m cur) - sz - HEADER_SIZE) m;
          m = set_free split 1 m;
          m = set_next split (b_next (hdr m cur)) m;
          m = set_prev split cur m;
          m = (if b_next (hdr m cur) \<noteq> 0 then set_prev (b_next (hdr m cur)) split m else m);
          m = set_next cur split m
      in set_size cur sz m)"

definition kmalloc :: "u64 \<Rightarrow> 'a heap_state_scheme \<Rightarrow> (u64 \<times> 'a heap_state_scheme) option" where
  "kmalloc sz s =
     (if sz = 0 then Some (0, s)
      else let sz = ALIGN8 sz in do {
        cur \<leftarrow> find_fit (kmem s) sz (heap_head s);
        if cur = 0 then Some (0, s)
        else
          let m = kmem s;
              m = (if b_size (hdr m cur) \<ge> sz + HEADER_SIZE + 8 then split_block cur sz m else m);
              m = set_free cur 0 m
          in Some (cur + HEADER_SIZE, s\<lparr>kmem := m\<rparr>)
      })"

definition coalesce_next :: "u64 \<Rightarrow> memory \<Rightarrow> memory" where
  "coalesce_next block m =
     (if b_next (hdr m block) \<noteq> 0 \<and> b_free (hdr m (b_next (hdr m block))) \<noteq> 0 then
        let m = set_size block (b_size (hdr m block) + (HEADER_SIZE + b_size (hdr m (b_next (hdr m block))))) m;
            m = set_next block (b_next (hdr m (b_next (hdr m block)))) m
        in if b_next (hdr m block) \<noteq> 0 then set_prev (b_next (hdr m block)) block m else m
      else m)"

definition coalesce_prev :: "u64 \<Rightarrow> memory \<Rightarrow> memory" where
  "coalesce_prev block m =
     (let prev = b_prev (hdr m block) in
      if prev \<noteq> 0 \<and> b_free (hdr m prev) \<noteq> 0 then
        let m = set_size prev (b_size (hdr m prev) + (HEADER_SIZE + b_size (hdr m block))) m;
            m = set_next (b_prev (hdr m block)) (b_next (hdr m block)) m
        in if b_next (hdr m block) \<noteq> 0 then set_prev (b_next (hdr m block)) (b_prev (hdr m block)) m else m
      else m)"

definition kfree :: "u64 \<Rightarrow> 'a heap_state_scheme \<Rightarrow> 'a heap_state_scheme" where
  "kfree ptr s =
     (if ptr = 0 then s
      else
        let block = ptr - HEADER_SIZE;
            m = set_free block 1 (kmem s);
            m = coalesce_next block m;
            m = coalesce_prev block m
        in s\<lparr>kmem := m\<rparr>)"

section \<open>Diagnostics\<close>

record heap_stats =
  capacity :: u64
  used :: u64
  st_free :: u64
  blocks :: u64
  largest_free :: u64

partial_function (option) stats_walk :: "memory \<Rightarrow> u64 \<Rightarrow> heap_stats \<Rightarrow> heap_stats option" where
  "stats_walk m cur st =
     (if cur = 0 then Some st
      else
        let st = st\<lparr>blocks := blocks st + 1\<rparr>;
            sz = b_size (hdr m cur);
            st = (if b_free (hdr m cur) \<noteq> 0
                  then st\<lparr>st_free := st_free st + sz,
                          largest_free := (if sz > largest_free st then sz else largest_free st)\<rparr>
                  else st\<lparr>used := used st + sz\<rparr>)
        in stats_walk m (b_next (hdr m cur)) st)"

definition heap_get_stats :: "'a heap_state_scheme \<Rightarrow> heap_stats option" where
  "heap_get_stats s =
     stats_walk (kmem s) (heap_head s)
       \<lparr>capacity = heap_end s - HEAP_START, used = 0, st_free = 0, blocks = 0, largest_free = 0\<rparr>"

text \<open>\<open>heap_dump\<close> as the list of the lines it prints: address, size and state of each block.\<close>

partial_function (option) heap_dump :: "memory \<Rightarrow> u64 \<Rightarrow> (u64 \<times> u64 \<times> bool) list option" where
  "heap_dump m cur =
     (if cur = 0 then Some []
      else Option.bind (heap_dump m (b_next (hdr m cur)))
        (\<lambda>ls. Some ((cur, b_size (hdr m cur), b_free (hdr m cur) \<noteq> 0) # ls)))"

section \<open>Headers in memory\<close>

lemma hdr_set_same [simp]:
  "hdr (set_size p v m) p = (hdr m p)\<lparr>b_size := v\<rparr>"
  "hdr (set_free p w m) p = (hdr m p)\<lparr>b_free := w\<rparr>"
  "hdr (set_next p v m) p = (hdr m p)\<lparr>b_next := v\<rparr>"
  "hdr (set_prev p v m) p = (hdr m p)\<lparr>b_prev := v\<rparr>"
proof -
  have a: "load64 (store64 m p v) (p + 16) = load64 m (p + 16)" "load64 (store64 m p v) (p + 24) = load64 m (p + 24)"
    "load32 (store64 m p v) (p + 8) = load32 m (p + 8)"
    "load64 (store64 m (p + 16) v) p = load64 m p" "load64 (store64 m (p + 16) v) (p + 24) = load64 m (p + 24)"
    "load32 (store64 m (p + 16) v) (p + 8) = load32 m (p + 8)"
    "load64 (store64 m (p + 24) v) p = load64 m p" "load64 (store64 m (p + 24) v) (p + 16) = load64 m (p + 16)"
    "load32 (store64 m (p + 24) v) (p + 8) = load32 m (p + 8)"
    "load64 (store32 m (p + 8) w) p = load64 m p" "load64 (store32 m (p + 8) w) (p + 16) = load64 m (p + 16)"
    "load64 (store32 m (p + 8) w) (p + 24) = load64 m (p + 24)"
    by (simp_all add: load64_def load32_def store64_def store32_def add.assoc)
  show "hdr (set_size p v m) p = (hdr m p)\<lparr>b_size := v\<rparr>"
    "hdr (set_free p w m) p = (hdr m p)\<lparr>b_free := w\<rparr>"
    "hdr (set_next p v m) p = (hdr m p)\<lparr>b_next := v\<rparr>"
    "hdr (set_prev p v m) p = (hdr m p)\<lparr>b_prev := v\<rparr>"
    by (simp_all add: hdr_def set_size_def set_free_def set_next_def set_prev_def a)
qed

text \<open>Two headers that do not overlap.\<close>

definition hdrs_apart :: "u64 \<Rightarrow> u64 \<Rightarrow> bool" where
  "hdrs_apart p q \<longleftrightarrow> unat p + 32 \<le> 2 ^ 64 \<and> unat q + 32 \<le> 2 ^ 64 \<and>
     (unat p + 32 \<le> unat q \<or> unat q + 32 \<le> unat p)"

lemma hdrs_apart_bytes:
  assumes "hdrs_apart p q" "unat k < 32" "unat l < 32"
  shows "q + k \<noteq> p + l"
proof
  assume "q + k = p + l"
  moreover have "unat (q + k) = unat q + unat k" "unat (p + l) = unat p + unat l"
    using assms by (auto simp: hdrs_apart_def intro!: unat_add_nowrap)
  ultimately show False using assms by (auto simp: hdrs_apart_def)
qed

lemma hdr_cong:
  assumes "\<And>k. unat k < 32 \<Longrightarrow> m' (q + k) = m (q + k)"
  shows "hdr m' q = hdr m q"
proof -
  have off: "m' (q + j + k) = m (q + j + k)" if "k < 8" "unat j \<le> 24" for j k
  proof -
    have "unat (j + k) = unat j + unat k"
      using that by (intro unat_add_nowrap) (simp add: word_less_nat_alt)
    then show ?thesis using assms [of "j + k"] that by (simp add: add.assoc word_less_nat_alt)
  qed
  have "load64 m' (q + j) = load64 m (q + j)" "load32 m' (q + j) = load32 m (q + j)" if "unat j \<le> 24" for j
    using off [OF _ that] by (auto intro!: load64_cong load32_cong simp: word_less_nat_alt)
  from this [of 0] this [of 8] this [of 16] this [of 24] show ?thesis by (simp add: hdr_def)
qed

lemma store_apart:
  assumes "hdrs_apart p q" "unat j \<le> 24" "unat k < 32"
  shows "store64 m (p + j) v (q + k) = m (q + k)" "store32 m (p + j) w (q + k) = m (q + k)"
proof -
  have "\<not> q + k - (p + j) < 8"
  proof
    define l where "l = q + k - (p + j)"
    assume "q + k - (p + j) < 8"
    then have l: "unat l < 8" by (simp add: l_def word_less_nat_alt)
    then have "unat (j + l) = unat j + unat l" using assms(2) by (intro unat_add_nowrap) simp
    then have "q + k \<noteq> p + (j + l)" using l assms by (intro hdrs_apart_bytes) simp_all
    then show False by (simp add: l_def)
  qed
  then show "store64 m (p + j) v (q + k) = m (q + k)" "store32 m (p + j) w (q + k) = m (q + k)"
    by (auto simp: store64_def store32_def word_less_nat_alt)
qed

lemma hdr_set_other:
  assumes "hdrs_apart p q"
  shows "hdr (set_size p v m) q = hdr m q" "hdr (set_free p w m) q = hdr m q"
    "hdr (set_next p v m) q = hdr m q" "hdr (set_prev p v m) q = hdr m q"
  using store_apart [OF assms, of 0] store_apart [OF assms, of 8] store_apart [OF assms, of 16]
    store_apart [OF assms, of 24]
  by (auto simp: set_size_def set_free_def set_next_def set_prev_def intro!: hdr_cong)

section \<open>The heap as a list of blocks\<close>

text \<open>
  The abstract heap: blocks in address order, each with its address, its payload size and whether it
  is free. \<open>dll\<close> is the doubly linked list in memory between \<open>prv\<close> and \<open>nxt\<close>; \<open>tiles\<close>
  says the blocks cover the heap from \<open>pos\<close> to \<open>stop\<close> without gap or overlap, in multiples of 8.
\<close>

record blk =
  bk_addr :: u64
  bk_size :: u64
  bk_free :: bool

definition first_addr :: "blk list \<Rightarrow> u64 \<Rightarrow> u64" where
  "first_addr bs nxt = (case bs of [] \<Rightarrow> nxt | b # _ \<Rightarrow> bk_addr b)"

definition last_addr :: "u64 \<Rightarrow> blk list \<Rightarrow> u64" where
  "last_addr prv bs = (if bs = [] then prv else bk_addr (last bs))"

fun dll :: "memory \<Rightarrow> u64 \<Rightarrow> blk list \<Rightarrow> u64 \<Rightarrow> bool" where
  "dll m prv [] nxt \<longleftrightarrow> True"
| "dll m prv (b # bs) nxt \<longleftrightarrow>
     hdr m (bk_addr b) = \<lparr>b_size = bk_size b, b_free = (if bk_free b then 1 else 0),
       b_next = first_addr bs nxt, b_prev = prv\<rparr> \<and> dll m (bk_addr b) bs nxt"

fun tiles :: "nat \<Rightarrow> blk list \<Rightarrow> nat \<Rightarrow> bool" where
  "tiles pos [] stop \<longleftrightarrow> pos = stop"
| "tiles pos (b # bs) stop \<longleftrightarrow> unat (bk_addr b) = pos \<and> unat (bk_size b) mod 8 = 0 \<and>
     tiles (pos + 32 + unat (bk_size b)) bs stop"

lemma first_addr_simps [simp]: "first_addr [] n = n" "first_addr (b # bs) n = bk_addr b"
  "first_addr (xs @ ys) n = first_addr xs (first_addr ys n)"
  by (cases xs; simp add: first_addr_def)+

lemma last_addr_simps [simp]: "last_addr p [] = p" "last_addr p (b # bs) = last_addr (bk_addr b) bs"
  by (simp_all add: last_addr_def)

lemma dll_append [simp]:
  "dll m prv (xs @ ys) nxt \<longleftrightarrow> dll m prv xs (first_addr ys nxt) \<and> dll m (last_addr prv xs) ys nxt"
  by (induction xs arbitrary: prv) auto

lemma dll_cong: "(\<And>b. b \<in> set bs \<Longrightarrow> hdr m' (bk_addr b) = hdr m (bk_addr b)) \<Longrightarrow> dll m' prv bs nxt = dll m prv bs nxt"
  by (induction bs arbitrary: prv) auto

lemma tiles_append [simp]: "tiles pos (xs @ ys) stop \<longleftrightarrow> (\<exists>mid. tiles pos xs mid \<and> tiles mid ys stop)"
  by (induction xs arbitrary: pos) auto

lemma tiles_le: "tiles pos bs stop \<Longrightarrow> pos \<le> stop"
  by (induction bs arbitrary: pos) (auto, fastforce)

lemma tiles_range:
  "\<lbrakk>tiles pos bs stop; b \<in> set bs\<rbrakk> \<Longrightarrow>
   pos \<le> unat (bk_addr b) \<and> unat (bk_addr b) + 32 + unat (bk_size b) \<le> stop"
proof (induction bs arbitrary: pos)
  case (Cons c bs)
  then show ?case using tiles_le [of "pos + 32 + unat (bk_size c)" bs stop] by fastforce
qed simp

text \<open>Blocks of one part of the heap lie before the blocks of the next.\<close>

lemma tiles_apart:
  assumes "tiles pos xs mid" "tiles mid ys stop" "stop < 2 ^ 64" "x \<in> set xs" "y \<in> set ys"
  shows "hdrs_apart (bk_addr x) (bk_addr y)" "hdrs_apart (bk_addr y) (bk_addr x)"
  using tiles_range [OF assms(1,4)] tiles_range [OF assms(2,5)] tiles_le [OF assms(2)] assms(3)
  by (auto simp: hdrs_apart_def)

lemma hdrs_apart_sym: "hdrs_apart p q \<Longrightarrow> hdrs_apart q p"
  by (auto simp: hdrs_apart_def)

definition heap_rep :: "'a heap_state_scheme \<Rightarrow> blk list \<Rightarrow> bool" where
  "heap_rep s bs \<longleftrightarrow> dll (kmem s) 0 bs 0 \<and> bs \<noteq> [] \<and> heap_head s \<noteq> 0 \<and> unat (heap_head s) mod 8 = 0 \<and>
     tiles (unat (heap_head s)) bs (unat (heap_end s))"

text \<open>No two neighbouring blocks are both free.\<close>

definition coalesced :: "blk list \<Rightarrow> bool" where
  "coalesced bs \<longleftrightarrow> successively (\<lambda>b c. \<not> (bk_free b \<and> bk_free c)) bs"

section \<open>Allocation refines first fit\<close>

definition fits :: "u64 \<Rightarrow> blk \<Rightarrow> bool" where
  "fits sz b \<longleftrightarrow> bk_free b \<and> sz \<le> bk_size b"

text \<open>The block that serves a request: cut in two when a header and 8 bytes are left over.\<close>

definition alloc_blk :: "u64 \<Rightarrow> blk \<Rightarrow> blk list" where
  "alloc_blk sz b =
     (if bk_size b \<ge> sz + 40
      then [b\<lparr>bk_size := sz, bk_free := False\<rparr>,
            \<lparr>bk_addr = bk_addr b + 32 + sz, bk_size = bk_size b - sz - 32, bk_free = True\<rparr>]
      else [b\<lparr>bk_free := False\<rparr>])"

fun amalloc :: "u64 \<Rightarrow> blk list \<Rightarrow> (u64 \<times> blk list) option" where
  "amalloc sz [] = None"
| "amalloc sz (b # bs) =
     (if fits sz b then Some (bk_addr b + 32, alloc_blk sz b @ bs)
      else map_option (apsnd (Cons b)) (amalloc sz bs))"

lemma amalloc_None: "amalloc sz bs = None \<longleftrightarrow> (\<forall>b \<in> set bs. \<not> fits sz b)"
  by (induction bs) auto

lemma amalloc_Some:
  "amalloc sz bs = Some (p, bs') \<Longrightarrow>
   \<exists>xs b ys. bs = xs @ b # ys \<and> (\<forall>x \<in> set xs. \<not> fits sz x) \<and> fits sz b \<and>
      p = bk_addr b + 32 \<and> bs' = xs @ alloc_blk sz b @ ys"
proof (induction bs arbitrary: bs')
  case (Cons c bs)
  show ?case
  proof (cases "fits sz c")
    case True
    then show ?thesis using Cons.prems by (intro exI [of _ "[]"] exI [of _ c] exI [of _ bs]) simp
  next
    case False
    then obtain r where r: "amalloc sz bs = Some (p, r)" "bs' = c # r" using Cons.prems by auto
    from Cons.IH [OF r(1)] obtain xs b ys where "bs = xs @ b # ys" "\<forall>x \<in> set xs. \<not> fits sz x"
      "fits sz b" "p = bk_addr b + 32" "r = xs @ alloc_blk sz b @ ys" by blast
    then show ?thesis using False r(2) by (intro exI [of _ "c # xs"] exI [of _ b] exI [of _ ys]) simp
  qed
qed simp

lemma find_first: "\<lbrakk>\<forall>x \<in> set xs. \<not> P x; P b\<rbrakk> \<Longrightarrow> find P (xs @ b # ys) = Some b"
  by (induction xs) auto

lemma find_fit_dll:
  "\<lbrakk>dll m prv bs 0; \<forall>b \<in> set bs. bk_addr b \<noteq> 0\<rbrakk> \<Longrightarrow>
   find_fit m sz (first_addr bs 0) = Some (case find (fits sz) bs of None \<Rightarrow> 0 | Some b \<Rightarrow> bk_addr b)"
proof (induction bs arbitrary: prv)
  case (Cons b bs)
  then have h: "hdr m (bk_addr b) = \<lparr>b_size = bk_size b, b_free = (if bk_free b then 1 else 0),
      b_next = first_addr bs 0, b_prev = prv\<rparr>" and b0: "bk_addr b \<noteq> 0"
    and IH: "find_fit m sz (first_addr bs 0) =
      Some (case find (fits sz) bs of None \<Rightarrow> 0 | Some b \<Rightarrow> bk_addr b)" by auto
  show ?case
  proof (cases "fits sz b")
    case True
    then show ?thesis using h b0 by (subst find_fit.simps) (simp add: fits_def)
  next
    case False
    then show ?thesis using h b0 IH by (subst find_fit.simps) (auto simp: fits_def)
  qed
qed (simp add: find_fit.simps)

text \<open>What \<open>split_block\<close> leaves in each header.\<close>

lemma split_hdrs:
  assumes h: "hdr m cur = \<lparr>b_size = S, b_free = F, b_next = N, b_prev = P\<rparr>"
    and sp: "sp = cur + 32 + sz" "hdrs_apart cur sp"
    and N: "N \<noteq> 0 \<Longrightarrow> hdrs_apart N cur" "N \<noteq> 0 \<Longrightarrow> hdrs_apart N sp"
  shows "hdr (split_block cur sz m) cur = \<lparr>b_size = sz, b_free = F, b_next = sp, b_prev = P\<rparr>"
    "hdr (split_block cur sz m) sp = \<lparr>b_size = S - sz - 32, b_free = 1, b_next = N, b_prev = cur\<rparr>"
    "N \<noteq> 0 \<Longrightarrow> hdr (split_block cur sz m) N = (hdr m N)\<lparr>b_prev := sp\<rparr>"
    "\<lbrakk>hdrs_apart cur q; hdrs_apart sp q; N \<noteq> 0 \<Longrightarrow> hdrs_apart N q\<rbrakk> \<Longrightarrow> hdr (split_block cur sz m) q = hdr m q"
proof -
  have s: "cur + HEADER_SIZE + sz = sp" using sp(1) by (simp add: HEADER_SIZE_def)
  note a = hdr_set_other [OF sp(2)] hdr_set_other [OF hdrs_apart_sym [OF sp(2)]]
  note n = hdr_set_other [OF N(1)] hdr_set_other [OF N(2)]
    hdr_set_other [OF hdrs_apart_sym [OF N(1)]] hdr_set_other [OF hdrs_apart_sym [OF N(2)]]
  show "hdr (split_block cur sz m) cur = \<lparr>b_size = sz, b_free = F, b_next = sp, b_prev = P\<rparr>"
    "hdr (split_block cur sz m) sp = \<lparr>b_size = S - sz - 32, b_free = 1, b_next = N, b_prev = cur\<rparr>"
    "N \<noteq> 0 \<Longrightarrow> hdr (split_block cur sz m) N = (hdr m N)\<lparr>b_prev := sp\<rparr>"
    unfolding split_block_def s Let_def by (simp_all add: a n h) (simp_all add: HEADER_SIZE_def)
  show "hdr (split_block cur sz m) q = hdr m q"
    if "hdrs_apart cur q" "hdrs_apart sp q" "N \<noteq> 0 \<Longrightarrow> hdrs_apart N q"
    unfolding split_block_def s Let_def
    by (simp add: a n h hdr_set_other [OF that(1)] hdr_set_other [OF that(2)] hdr_set_other [OF that(3)])
qed

text \<open>The two parts of the list around a block, and how its header is separated from the others.\<close>

lemma around:
  assumes "tiles pos (xs @ b # ys) stop" "stop < 2 ^ 64"
  shows "x \<in> set xs \<Longrightarrow> hdrs_apart (bk_addr b) (bk_addr x)"
    "y \<in> set ys \<Longrightarrow> hdrs_apart (bk_addr b) (bk_addr y)"
    "\<lbrakk>x \<in> set xs; y \<in> set ys\<rbrakk> \<Longrightarrow> hdrs_apart (bk_addr y) (bk_addr x)"
proof -
  obtain mid where m: "tiles pos xs mid" "tiles mid (b # ys) stop" using assms(1) by auto
  show "hdrs_apart (bk_addr b) (bk_addr x)" if "x \<in> set xs" using tiles_apart(2) [OF m assms(2) that] by simp
  show "hdrs_apart (bk_addr y) (bk_addr x)" if "x \<in> set xs" "y \<in> set ys"
    using tiles_apart(2) [OF m assms(2) that(1)] that(2) by simp
  have s: "tiles (unat (bk_addr b)) [b] (unat (bk_addr b) + 32 + unat (bk_size b))"
    "tiles (unat (bk_addr b) + 32 + unat (bk_size b)) ys stop" using m(2) by simp_all
  show "hdrs_apart (bk_addr b) (bk_addr y)" if "y \<in> set ys"
    by (rule tiles_apart(1) [OF s assms(2) _ that]) simp
qed

lemma tiles_pairwise:
  assumes "tiles pos bs stop" "stop < 2 ^ 64" "bs = xs @ y # zs" "z \<in> set zs"
  shows "hdrs_apart (bk_addr y) (bk_addr z)"
  using around(2) [of pos xs y zs stop z] assms by simp

text \<open>Changing the header that follows a segment only touches its first block's back link.\<close>

lemma dll_set_first:
  assumes "dll m prv ys nxt" "ys \<noteq> []" "hdr m' (bk_addr (hd ys)) = (hdr m (bk_addr (hd ys)))\<lparr>b_prev := p\<rparr>"
    and "\<And>y. y \<in> set (tl ys) \<Longrightarrow> hdr m' (bk_addr y) = hdr m (bk_addr y)"
  shows "dll m' p ys nxt"
proof (cases ys)
  case (Cons y zs)
  have "dll m' (bk_addr y) zs nxt = dll m (bk_addr y) zs nxt"
    by (rule dll_cong) (use assms(4) Cons in auto)
  then show ?thesis using assms(1,3) Cons by simp
qed (use assms(2) in simp)

lemma split_dll:
  assumes d: "dll m 0 (xs @ b # ys) 0" and t: "tiles pos (xs @ b # ys) stop" "stop < 2 ^ 64" "0 < pos"
    and sz: "sz + 40 \<le> bk_size b" "unat sz + 40 \<le> unat (bk_size b)" "bk_free b" "unat sz mod 8 = 0"
  shows "dll (set_free (bk_addr b) 0 (split_block (bk_addr b) sz m)) 0 (xs @ alloc_blk sz b @ ys) 0"
    and "tiles pos (xs @ alloc_blk sz b @ ys) stop"
proof -
  let ?c = "bk_addr b" and ?N = "first_addr ys 0"
  define sp where "sp = ?c + 32 + sz"
  obtain mid where mid: "tiles pos xs mid" "unat ?c = mid" "unat (bk_size b) mod 8 = 0"
    "tiles (mid + 32 + unat (bk_size b)) ys stop" using t(1) by auto
  have lt: "unat ?c + 32 + unat (bk_size b) \<le> stop" using mid tiles_le by fastforce
  have "unat (?c + 32) = unat ?c + 32" using lt t(2) by (subst unat_add_nowrap) simp_all
  then have usp: "unat sp = unat ?c + 32 + unat sz"
    unfolding sp_def using lt t(2) sz(2) by (subst unat_add_nowrap) simp_all
  let ?b2 = "\<lparr>bk_addr = sp, bk_size = bk_size b - sz - 32, bk_free = True\<rparr>"
  have s2: "unat (bk_size b - sz - 32) = unat (bk_size b) - unat sz - 32"
    using sz(2) by (simp add: unat_sub word_le_nat_alt)
  have al: "alloc_blk sz b = [b\<lparr>bk_size := sz, bk_free := False\<rparr>, ?b2]"
    using sz(1) by (simp add: alloc_blk_def sp_def)
  have "unat (bk_size b) - unat sz - 32 + (32 + unat sz) = unat (bk_size b)" using sz(2) by simp
  then have t2: "tiles mid [b\<lparr>bk_size := sz, bk_free := False\<rparr>, ?b2] (mid + 32 + unat (bk_size b))"
    using mid(2,3) sz(4) usp s2 sz(2) by (simp add: mod_eq_0_iff_dvd dvd_diff_nat)
  show "tiles pos (xs @ alloc_blk sz b @ ys) stop" unfolding al tiles_append using mid(1,4) t2 by blast
  note a = around [OF t(1,2)]
  have sx: "hdrs_apart sp (bk_addr x)" if "x \<in> set xs" for x
    using tiles_range [OF mid(1) that] usp lt t(2) sz(2) mid(2) by (simp add: hdrs_apart_def)
  have sy: "hdrs_apart sp (bk_addr y)" if "y \<in> set ys" for y
    using tiles_range [OF mid(4) that] usp lt t(2) sz(2) mid(2) by (simp add: hdrs_apart_def)
  have cs: "hdrs_apart ?c sp" using usp lt t(2) sz(2) by (simp add: hdrs_apart_def)
  have N: "?N \<in> bk_addr ` set ys" if "?N \<noteq> 0" using that by (cases ys) auto
  have h: "hdr m ?c = \<lparr>b_size = bk_size b, b_free = 1, b_next = ?N, b_prev = last_addr 0 xs\<rparr>"
    using d sz(3) by simp
  have Nc: "hdrs_apart ?N ?c" "hdrs_apart ?N sp" if "?N \<noteq> 0"
    using N [OF that] a(2) sy hdrs_apart_sym by auto
  note hs = split_hdrs [OF h sp_def cs Nc]
  let ?m = "set_free ?c 0 (split_block ?c sz m)"
  have hx: "hdr ?m (bk_addr x) = hdr m (bk_addr x)" if "x \<in> set xs" for x
  proof -
    have "hdr (split_block ?c sz m) (bk_addr x) = hdr m (bk_addr x)"
      using a(1,3) [OF that] sx [OF that] N by (intro hs(4)) auto
    then show ?thesis using hdr_set_other(2) [OF a(1) [OF that]] by simp
  qed
  have hc: "hdr ?m ?c = \<lparr>b_size = sz, b_free = 0, b_next = sp, b_prev = last_addr 0 xs\<rparr>" using hs(1) by simp
  have hsp: "hdr ?m sp = \<lparr>b_size = bk_size b - sz - 32, b_free = 1, b_next = ?N, b_prev = ?c\<rparr>"
    using hs(2) hdr_set_other(2) [OF cs] by simp
  have dx: "dll ?m 0 xs ?c" using d hx dll_cong [of xs ?m m 0 ?c] by simp
  have dy: "dll ?m sp ys 0"
  proof (cases ys)
    case (Cons y zs)
    have y0: "?N \<noteq> 0" using tiles_range [OF mid(4), of y] t(3) tiles_le [OF mid(1)] Cons by auto
    have yz: "hdrs_apart (bk_addr y) (bk_addr z)" if "z \<in> set zs" for z
      using tiles_pairwise [OF mid(4) t(2), of "[]" y zs z] Cons that by simp
    show ?thesis
    proof (rule dll_set_first [of m ?c])
      show "dll m ?c ys 0" using d by simp
      show "hdr ?m (bk_addr (hd ys)) = (hdr m (bk_addr (hd ys)))\<lparr>b_prev := sp\<rparr>"
        using hs(3) y0 hdr_set_other(2) [OF a(2), of y] Cons by simp
      show "hdr ?m (bk_addr z) = hdr m (bk_addr z)" if "z \<in> set (tl ys)" for z
      proof -
        have zz: "z \<in> set zs" using that Cons by simp
        have "hdr (split_block ?c sz m) (bk_addr z) = hdr m (bk_addr z)"
          by (rule hs(4)) (use a(2) [of z] sy [of z] yz [OF zz] zz Cons in auto)
        then show ?thesis using hdr_set_other(2) [OF a(2), of z] zz Cons by simp
      qed
    qed (simp add: Cons)
  qed simp
  show "dll ?m 0 (xs @ alloc_blk sz b @ ys) 0" unfolding al using dx dy hc hsp by simp
qed

lemma take_whole_dll:
  assumes d: "dll m 0 (xs @ b # ys) 0" and t: "tiles pos (xs @ b # ys) stop" "stop < 2 ^ 64"
  shows "dll (set_free (bk_addr b) (if f then 1 else 0) m) 0 (xs @ b\<lparr>bk_free := f\<rparr> # ys) 0"
    and "tiles pos (xs @ b\<lparr>bk_free := f\<rparr> # ys) stop"
proof -
  note a = around [OF t]
  let ?m = "set_free (bk_addr b) (if f then 1 else 0) m"
  have "dll ?m 0 xs (bk_addr b) = dll m 0 xs (bk_addr b)"
    by (rule dll_cong) (simp add: hdr_set_other [OF a(1)])
  moreover have "dll ?m (bk_addr b) ys 0 = dll m (bk_addr b) ys 0"
    by (rule dll_cong) (simp add: hdr_set_other [OF a(2)])
  ultimately show "dll ?m 0 (xs @ b\<lparr>bk_free := f\<rparr> # ys) 0" using d by simp
  show "tiles pos (xs @ b\<lparr>bk_free := f\<rparr> # ys) stop" using t(1) by auto
qed

lemma unat_ALIGN8:
  assumes "unat x + 7 < 2 ^ 64"
  shows "unat (ALIGN8 x) = (unat x + 7) div 8 * 8"
proof -
  have "unat ((x + 7) AND NOT (mask 3)) = unat (x + 7) div 8 * 8" using unat_and_not_mask [of "x + 7" 3] by simp
  moreover have "unat (x + 7) = unat x + 7" using assms by (subst unat_add_nowrap) simp_all
  ultimately show ?thesis by (simp add: ALIGN8_def mask_eq_exp_minus_1)
qed

lemma ALIGN8_mod: "unat (ALIGN8 x) mod 8 = 0"
  using unat_and_not_mask [of "x + 7" 3] by (simp add: ALIGN8_def mask_eq_exp_minus_1)

lemma heap_repD:
  assumes "heap_rep s bs"
  shows "dll (kmem s) 0 bs 0" "tiles (unat (heap_head s)) bs (unat (heap_end s))" "0 < unat (heap_head s)"
    "first_addr bs 0 = heap_head s" "b \<in> set bs \<Longrightarrow> bk_addr b \<noteq> 0" "unat (heap_head s) mod 8 = 0"
proof -
  show d: "dll (kmem s) 0 bs 0" "tiles (unat (heap_head s)) bs (unat (heap_end s))" "0 < unat (heap_head s)"
    "unat (heap_head s) mod 8 = 0"
    using assms by (simp_all add: heap_rep_def unat_gt_0)
  show "first_addr bs 0 = heap_head s" using d(2) assms by (cases bs) (auto simp: heap_rep_def word_unat_eq_iff)
  show "bk_addr b \<noteq> 0" if "b \<in> set bs" using tiles_range [OF d(2) that] d(3) by auto
qed

text \<open>
  With sizes rounded up without wrapping, \<open>kmalloc\<close> is first fit on the list of blocks.
\<close>

lemma kmalloc_result:
  assumes rep: "heap_rep s bs" and n: "n \<noteq> 0"
  shows "\<exists>p s'. kmalloc n s = Some (p, s') \<and>
    (case amalloc (ALIGN8 n) bs of None \<Rightarrow> p = 0 \<and> s' = s
     | Some (q, bs') \<Rightarrow> p = q \<and> heap_rep s' bs' \<and> s' = s\<lparr>kmem := kmem s'\<rparr>)"
proof -
  note r = heap_repD [OF rep]
  let ?sz = "ALIGN8 n"
  have ff: "find_fit (kmem s) ?sz (heap_head s) =
      Some (case find (fits ?sz) bs of None \<Rightarrow> 0 | Some b \<Rightarrow> bk_addr b)"
    using find_fit_dll [OF r(1)] r(4,5) by metis
  show ?thesis
  proof (cases "amalloc ?sz bs")
    case None
    then have "find (fits ?sz) bs = None" by (simp add: amalloc_None find_None_iff)
    then show ?thesis using None n ff by (simp add: kmalloc_def)
  next
    case (Some pb)
    obtain q bs' where pb: "pb = (q, bs')" by (cases pb)
    obtain xs b ys where b: "bs = xs @ b # ys" "\<forall>x \<in> set xs. \<not> fits ?sz x" "fits ?sz b"
      "q = bk_addr b + 32" "bs' = xs @ alloc_blk ?sz b @ ys" using amalloc_Some Some pb by blast
    have cur: "find_fit (kmem s) ?sz (heap_head s) = Some (bk_addr b)" "bk_addr b \<noteq> 0"
      using ff find_first [OF b(2,3), of ys] r(5) [of b] b(1) by simp_all
    have d: "dll (kmem s) 0 (xs @ b # ys) 0" and t: "tiles (unat (heap_head s)) (xs @ b # ys) (unat (heap_end s))"
      "unat (heap_end s) < 2 ^ 64" using r(1,2) b(1) by simp_all
    have h: "b_size (hdr (kmem s) (bk_addr b)) = bk_size b" using d by simp
    have bs: "bk_free b" "unat ?sz \<le> unat (bk_size b)" using b(3) by (simp_all add: fits_def word_le_nat_alt)
    have "unat (bk_addr b) + 32 + unat (bk_size b) \<le> unat (heap_end s)" using tiles_range [OF t(1), of b] by simp
    moreover have "8 \<le> unat (heap_head s)" using r(3,6) by presburger
    ultimately have "unat ?sz + 40 < 18446744073709551616"
      using bs(2) tiles_range [OF t(1), of b] unat_lt_64 [of "heap_end s"] by (simp del: unat_lt_64)
    then have u40: "unat (?sz + 40) = unat ?sz + 40" using unat_add_nowrap [of ?sz 40] by simp
    show ?thesis
    proof (cases "bk_size b \<ge> ?sz + 40")
      case True
      then have "unat ?sz + 40 \<le> unat (bk_size b)" using u40 by (simp add: word_le_nat_alt)
      note sd = split_dll [OF d t r(3) True this bs(1) ALIGN8_mod]
      let ?s = "s\<lparr>kmem := set_free (bk_addr b) 0 (split_block (bk_addr b) ?sz (kmem s))\<rparr>"
      have "kmalloc n s = Some (q, ?s)"
        using n cur True h b(4) by (simp add: kmalloc_def HEADER_SIZE_def add.assoc)
      moreover have "heap_rep ?s bs'" using sd rep b(5) by (simp add: heap_rep_def alloc_blk_def)
      ultimately show ?thesis using Some pb by simp
    next
      case False
      let ?s = "s\<lparr>kmem := set_free (bk_addr b) 0 (kmem s)\<rparr>"
      have "kmalloc n s = Some (q, ?s)"
        using n cur False h b(4) by (simp add: kmalloc_def HEADER_SIZE_def add.assoc)
      moreover have "heap_rep ?s bs'"
        using take_whole_dll [OF d t, of False] rep b(5) False by (simp add: heap_rep_def alloc_blk_def)
      ultimately show ?thesis using Some pb by simp
    qed
  qed
qed

section \<open>Release refines coalescing\<close>

definition merge_blk :: "blk \<Rightarrow> blk \<Rightarrow> blk" where
  "merge_blk a b = a\<lparr>bk_size := bk_size a + (32 + bk_size b)\<rparr>"

definition merge_next :: "blk \<Rightarrow> blk list \<Rightarrow> blk list" where
  "merge_next b ys = (case ys of c # zs \<Rightarrow> if bk_free c then merge_blk b c # zs else b # ys | [] \<Rightarrow> [b])"

definition merge_prev :: "blk list \<Rightarrow> blk list \<Rightarrow> blk list" where
  "merge_prev xs bs = (if xs \<noteq> [] \<and> bk_free (last xs)
     then butlast xs @ merge_blk (last xs) (hd bs) # tl bs else xs @ bs)"

text \<open>Freeing block \<open>b\<close> between \<open>xs\<close> and \<open>ys\<close>: merged with the next, then into the previous one.\<close>

definition afree :: "blk list \<Rightarrow> blk \<Rightarrow> blk list \<Rightarrow> blk list" where
  "afree xs b ys = merge_prev xs (merge_next (b\<lparr>bk_free := True\<rparr>) ys)"

text \<open>Both merges are one operation on memory: the second block's header drops out of the list.\<close>

definition merge_mem :: "u64 \<Rightarrow> u64 \<Rightarrow> u64 \<Rightarrow> memory \<Rightarrow> memory" where
  "merge_mem a v N m =
     (let m = set_next a N (set_size a v m) in if N \<noteq> 0 then set_prev N a m else m)"

lemma merge_dll:
  assumes d: "dll m 0 (xs @ a # b # ys) 0" and t: "tiles pos (xs @ a # b # ys) stop" "stop < 2 ^ 64" "0 < pos"
  shows "dll (merge_mem (bk_addr a) (bk_size a + (32 + bk_size b)) (first_addr ys 0) m) 0 (xs @ merge_blk a b # ys) 0"
    and "tiles pos (xs @ merge_blk a b # ys) stop"
proof -
  let ?a = "bk_addr a" and ?N = "first_addr ys 0"
  let ?m = "merge_mem ?a (bk_size a + (32 + bk_size b)) ?N m"
  obtain mid where mid: "tiles pos xs mid" "unat ?a = mid" "unat (bk_size a) mod 8 = 0" "unat (bk_size b) mod 8 = 0"
    "tiles (mid + 32 + unat (bk_size a) + 32 + unat (bk_size b)) ys stop" using t(1) by auto
  have lt: "mid + 32 + unat (bk_size a) + 32 + unat (bk_size b) \<le> stop" using mid(5) by (rule tiles_le)
  have "unat (32 + bk_size b) = 32 + unat (bk_size b)" using lt t(2) by (subst unat_add_nowrap) simp_all
  then have sz: "unat (bk_size a + (32 + bk_size b)) = unat (bk_size a) + (32 + unat (bk_size b))"
    using lt t(2) by (subst unat_add_nowrap) simp_all
  have "tiles mid [merge_blk a b] (mid + 32 + unat (bk_size a) + 32 + unat (bk_size b))"
    using mid sz by (simp add: merge_blk_def mod_eq_0_iff_dvd)
  then have "tiles pos (xs @ [merge_blk a b] @ ys) stop" unfolding tiles_append using mid(1,5) by blast
  then show "tiles pos (xs @ merge_blk a b # ys) stop" by simp
  note r = around [OF t(1,2)]
  have N: "?N \<in> bk_addr ` set ys" if "?N \<noteq> 0" using that by (cases ys) auto
  have other: "hdr ?m q = hdr m q" if "hdrs_apart ?a q" "?N \<noteq> 0 \<Longrightarrow> hdrs_apart ?N q" for q
    using that by (simp add: merge_mem_def Let_def hdr_set_other)
  have dx: "dll ?m 0 xs ?a"
  proof -
    have "dll ?m 0 xs ?a = dll m 0 xs ?a"
      by (rule dll_cong) (use r(1,3) N in \<open>auto intro!: other\<close>)
    then show ?thesis using d by simp
  qed
  have Na: "hdrs_apart ?N ?a" if "?N \<noteq> 0" using N [OF that] r(2) hdrs_apart_sym by auto
  have ha: "hdr ?m ?a = \<lparr>b_size = bk_size a + (32 + bk_size b), b_free = (if bk_free a then 1 else 0),
      b_next = ?N, b_prev = last_addr 0 xs\<rparr>"
    using d Na by (auto simp: merge_mem_def Let_def hdr_set_other)
  have dy: "dll ?m ?a ys 0"
  proof (cases ys)
    case (Cons y zs)
    have y0: "?N \<noteq> 0" using tiles_range [OF mid(5), of y] t(3) tiles_le [OF mid(1)] Cons by auto
    have yz: "hdrs_apart (bk_addr y) (bk_addr z)" if "z \<in> set zs" for z
      using tiles_pairwise [OF mid(5) t(2), of "[]" y zs z] Cons that by simp
    show ?thesis
    proof (rule dll_set_first [of m "bk_addr b"])
      show "dll m (bk_addr b) ys 0" using d by simp
      show "hdr ?m (bk_addr (hd ys)) = (hdr m (bk_addr (hd ys)))\<lparr>b_prev := ?a\<rparr>"
        using y0 r(2) [of y] Cons by (simp add: merge_mem_def Let_def hdr_set_other)
      show "hdr ?m (bk_addr z) = hdr m (bk_addr z)" if "z \<in> set (tl ys)" for z
        using that r(2) [of z] yz Cons by (intro other) auto
    qed (simp add: Cons)
  qed simp
  show "dll ?m 0 (xs @ merge_blk a b # ys) 0" using dx ha dy by (simp add: merge_blk_def)
qed

lemma coalesce_next_mem:
  assumes d: "dll m 0 (xs @ b # ys) 0" and t: "tiles pos (xs @ b # ys) stop" "stop < 2 ^ 64" "0 < pos"
  shows "coalesce_next (bk_addr b) m = (case ys of [] \<Rightarrow> m | c # zs \<Rightarrow>
    if bk_free c then merge_mem (bk_addr b) (bk_size b + (32 + bk_size c)) (first_addr zs 0) m else m)"
proof (cases ys)
  case Nil
  then show ?thesis using d by (simp add: coalesce_next_def)
next
  case (Cons c zs)
  have a: "hdrs_apart (bk_addr b) (bk_addr c)" using around(2) [OF t(1,2)] Cons by simp
  have "bk_addr c \<noteq> 0" using tiles_range [OF t(1), of c] t(3) Cons by auto
  then show ?thesis using d Cons
    by (simp add: coalesce_next_def merge_mem_def HEADER_SIZE_def Let_def hdr_set_other [OF a])
qed

lemma coalesce_prev_mem:
  assumes d: "dll m 0 (xs @ b # ys) 0" and t: "tiles pos (xs @ b # ys) stop" "stop < 2 ^ 64" "0 < pos"
  shows "coalesce_prev (bk_addr b) m = (if xs \<noteq> [] \<and> bk_free (last xs)
    then merge_mem (bk_addr (last xs)) (bk_size (last xs) + (32 + bk_size b)) (first_addr ys 0) m else m)"
proof (cases "xs = []")
  case True
  then show ?thesis using d by (simp add: coalesce_prev_def)
next
  case False
  then obtain zs a where xs: "xs = zs @ [a]" by (metis rev_exhaust)
  have ab: "hdrs_apart (bk_addr a) (bk_addr b)" using around(1) [OF t(1,2), of a] xs hdrs_apart_sym by simp
  have "bk_addr a \<noteq> 0" using tiles_range [OF t(1), of a] t(3) xs by auto
  moreover have "last_addr 0 (zs @ [a]) = bk_addr a" by (simp add: last_addr_def)
  ultimately show ?thesis using d xs
    by (auto simp: coalesce_prev_def merge_mem_def HEADER_SIZE_def Let_def hdr_set_other [OF ab])
qed

lemma kfree_result:
  assumes rep: "heap_rep s (xs @ b # ys)" and p: "ptr = bk_addr b + 32"
  shows "heap_rep (kfree ptr s) (afree xs b ys)" "kfree ptr s = s\<lparr>kmem := kmem (kfree ptr s)\<rparr>"
proof -
  note r = heap_repD [OF rep]
  have e: "unat (heap_end s) < 2 ^ 64" by simp
  have "unat (bk_addr b) + 32 \<le> unat (heap_end s)" using tiles_range [OF r(2), of b] by simp
  then have "unat ptr = unat (bk_addr b) + 32" unfolding p
    using unat_lt_64 [of "heap_end s"] by (subst unat_add_nowrap) (simp_all del: unat_lt_64)
  then have p0: "ptr \<noteq> 0" by auto
  have blk: "ptr - HEADER_SIZE = bk_addr b" by (simp add: p HEADER_SIZE_def)
  let ?b = "b\<lparr>bk_free := True\<rparr>"
  define m1 where "m1 = set_free (bk_addr b) 1 (kmem s)"
  have 1: "dll m1 0 (xs @ ?b # ys) 0" "tiles (unat (heap_head s)) (xs @ ?b # ys) (unat (heap_end s))"
    using take_whole_dll [OF r(1,2) e, of True] by (simp_all add: m1_def)
  define m2 where "m2 = coalesce_next (bk_addr b) m1"
  have "\<exists>c zs. merge_next ?b ys = c # zs \<and> bk_addr c = bk_addr b \<and>
      dll m2 0 (xs @ c # zs) 0 \<and> tiles (unat (heap_head s)) (xs @ c # zs) (unat (heap_end s))"
  proof (cases "\<exists>c zs. ys = c # zs \<and> bk_free c")
    case True
    then obtain c zs where c: "ys = c # zs" "bk_free c" by blast
    note mg = merge_dll [OF 1 [unfolded c(1)] e r(3)]
    have "m2 = merge_mem (bk_addr b) (bk_size b + (32 + bk_size c)) (first_addr zs 0) m1"
      using coalesce_next_mem [OF 1 e r(3)] c by (simp add: m2_def)
    then show ?thesis using mg c by (simp add: merge_next_def) (simp add: merge_blk_def)
  next
    case False
    then have "m2 = m1" "merge_next ?b ys = ?b # ys"
      using coalesce_next_mem [OF 1 e r(3)] by (auto simp: m2_def merge_next_def split: list.splits)
    then show ?thesis using 1 by simp
  qed
  then obtain c zs where c: "merge_next ?b ys = c # zs" "bk_addr c = bk_addr b"
    and 2: "dll m2 0 (xs @ c # zs) 0" "tiles (unat (heap_head s)) (xs @ c # zs) (unat (heap_end s))" by blast
  define m3 where "m3 = coalesce_prev (bk_addr b) m2"
  have 3: "dll m3 0 (merge_prev xs (c # zs)) 0 \<and> tiles (unat (heap_head s)) (merge_prev xs (c # zs)) (unat (heap_end s))"
  proof (cases "xs \<noteq> [] \<and> bk_free (last xs)")
    case True
    then obtain ws a where xs: "xs = ws @ [a]" by (metis rev_exhaust)
    have 4: "dll m2 0 (ws @ a # c # zs) 0" "tiles (unat (heap_head s)) (ws @ a # c # zs) (unat (heap_end s))"
      using 2 xs by simp_all
    note mg = merge_dll [OF 4 e r(3)]
    show ?thesis using mg coalesce_prev_mem [OF 2 e r(3)] True xs c(2)
      by (simp add: m3_def merge_prev_def)
  next
    case False
    then show ?thesis using coalesce_prev_mem [OF 2 e r(3)] 2 c(2) by (auto simp: m3_def merge_prev_def)
  qed
  have k: "kfree ptr s = s\<lparr>kmem := m3\<rparr>"
    using p0 by (simp add: kfree_def blk m1_def m2_def m3_def Let_def)
  have "merge_prev xs (c # zs) \<noteq> []" by (simp add: merge_prev_def)
  then show "heap_rep (kfree ptr s) (afree xs b ys)"
    using 3 k rep c(1) by (simp add: heap_rep_def afree_def)
  show "kfree ptr s = s\<lparr>kmem := kmem (kfree ptr s)\<rparr>" using k by simp
qed

section \<open>Fully coalesced heaps\<close>

lemma coalesced_append:
  "coalesced (xs @ ys) \<longleftrightarrow> coalesced xs \<and> coalesced ys \<and>
     (xs = [] \<or> ys = [] \<or> \<not> (bk_free (last xs) \<and> bk_free (hd ys)))"
  by (auto simp: coalesced_def successively_append_iff)

lemma coalesced_Cons:
  "coalesced (b # bs) \<longleftrightarrow> coalesced bs \<and> (bs = [] \<or> \<not> (bk_free b \<and> bk_free (hd bs)))"
  by (cases bs) (auto simp: coalesced_def)

lemma coalesced_Nil [simp]: "coalesced []"
  by (simp add: coalesced_def)

lemma coalesced_alloc:
  "\<lbrakk>coalesced (xs @ b # ys); bk_free b\<rbrakk> \<Longrightarrow> coalesced (xs @ alloc_blk sz b @ ys)"
  by (auto simp: coalesced_append coalesced_Cons alloc_blk_def)

lemma coalesced_free: "coalesced (xs @ b # ys) \<Longrightarrow> coalesced (afree xs b ys)"
proof -
  assume c: "coalesced (xs @ b # ys)"
  have n: "coalesced (merge_next (b\<lparr>bk_free := True\<rparr>) ys) \<and> merge_next (b\<lparr>bk_free := True\<rparr>) ys \<noteq> [] \<and>
      (tl (merge_next (b\<lparr>bk_free := True\<rparr>) ys) = [] \<or> \<not> bk_free (hd (tl (merge_next (b\<lparr>bk_free := True\<rparr>) ys))))"
    using c by (auto simp: merge_next_def coalesced_append coalesced_Cons merge_blk_def split: list.split)
  then obtain d zs where d: "merge_next (b\<lparr>bk_free := True\<rparr>) ys = d # zs" by (cases "merge_next (b\<lparr>bk_free := True\<rparr>) ys") auto
  have x: "coalesced xs" using c by (simp add: coalesced_append)
  show ?thesis
  proof (cases "xs \<noteq> [] \<and> bk_free (last xs)")
    case True
    then obtain ws a where xs: "xs = ws @ [a]" by (metis rev_exhaust)
    then show ?thesis using n d x True
      by (auto simp: afree_def merge_prev_def merge_blk_def coalesced_append coalesced_Cons)
  next
    case False
    then show ?thesis using n d x by (auto simp: afree_def merge_prev_def coalesced_append)
  qed
qed

section \<open>The allocator's contract\<close>

text \<open>Live allocations: payload address and size of every used block.\<close>

definition live_of :: "blk list \<Rightarrow> u64 \<rightharpoonup> u64" where
  "live_of bs = map_of (map (\<lambda>b. (bk_addr b + 32, bk_size b)) (filter (\<lambda>b. \<not> bk_free b) bs))"

lemma heap_dump_dll:
  "\<lbrakk>dll m prv bs 0; \<forall>b \<in> set bs. bk_addr b \<noteq> 0\<rbrakk> \<Longrightarrow>
   heap_dump m (first_addr bs 0) = Some (map (\<lambda>b. (bk_addr b, bk_size b, bk_free b)) bs)"
proof (induction bs arbitrary: prv)
  case (Cons b bs)
  then show ?case by (subst heap_dump.simps) (auto split: if_splits)
qed (simp add: heap_dump.simps)

lemma heap_dump_rep:
  "heap_rep s bs \<Longrightarrow> heap_dump (kmem s) (heap_head s) = Some (map (\<lambda>b. (bk_addr b, bk_size b, bk_free b)) bs)"
  using heap_dump_dll [of "kmem s" 0 bs] heap_repD [of s bs] by metis

definition live :: "'a heap_state_scheme \<Rightarrow> u64 \<rightharpoonup> u64" where
  "live s = (case heap_dump (kmem s) (heap_head s) of None \<Rightarrow> Map.empty
     | Some ls \<Rightarrow> map_of (map (\<lambda>(a, z, _). (a + 32, z)) (filter (\<lambda>(_, _, f). \<not> f) ls)))"

lemma live_rep: "heap_rep s bs \<Longrightarrow> live s = live_of bs"
  by (simp add: live_def heap_dump_rep live_of_def filter_map o_def case_prod_beta)

definition heap_ok :: "'a heap_state_scheme \<Rightarrow> bool" where
  "heap_ok s \<longleftrightarrow> (\<exists>bs. heap_rep s bs \<and> coalesced bs)"

lemma tiles_distinct:
  "\<lbrakk>tiles pos bs stop; stop < 2 ^ 64\<rbrakk> \<Longrightarrow> distinct (map bk_addr bs)"
proof (induction bs arbitrary: pos)
  case (Cons b bs)
  have "bk_addr b \<noteq> bk_addr c" if "c \<in> set bs" for c
    using around(2) [of pos "[]" b bs stop c] Cons.prems that by (auto simp: hdrs_apart_def)
  then show ?case using Cons by auto
qed simp

lemma live_of_Some:
  assumes "tiles pos bs stop" "stop < 2 ^ 64"
  shows "live_of bs p = Some z \<longleftrightarrow> (\<exists>b \<in> set bs. \<not> bk_free b \<and> p = bk_addr b + 32 \<and> z = bk_size b)"
proof -
  have "distinct (map (\<lambda>a. a + 32) (map bk_addr bs))" using tiles_distinct [OF assms] by (simp add: distinct_map inj_on_def)
  then have "distinct (map fst (map (\<lambda>b. (bk_addr b + 32, bk_size b)) (filter (\<lambda>b. \<not> bk_free b) bs)))"
    by (simp add: o_def distinct_map_filter)
  then show ?thesis unfolding live_of_def by (auto simp: map_of_eq_Some_iff)
qed

lemma block_ends:
  assumes "tiles pos bs stop" "stop < 2 ^ 64" "b \<in> set bs"
  shows "unat (bk_addr b + 32) = unat (bk_addr b) + 32"
  using tiles_range [OF assms(1,3)] assms(2) by (subst unat_add_nowrap) simp_all

lemma tiles_disjoint:
  assumes "tiles pos bs stop" "b \<in> set bs" "c \<in> set bs" "b \<noteq> c"
  shows "unat (bk_addr b) + 32 + unat (bk_size b) \<le> unat (bk_addr c) \<or>
    unat (bk_addr c) + 32 + unat (bk_size c) \<le> unat (bk_addr b)"
  using assms
proof (induction bs arbitrary: pos)
  case (Cons d bs)
  have "unat (bk_addr d) + 32 + unat (bk_size d) \<le> unat (bk_addr e)" if "e \<in> set bs" for e
    using tiles_range [OF _ that, of "pos + 32 + unat (bk_size d)" stop] Cons.prems by auto
  then show ?case using Cons by (auto; blast)
qed simp

end
