(* ===== verification/KheapSpec.thy ===== *)
theory KheapSpec
  imports Kheap
begin

text \<open>
  The kernel heap as its clients see it: a locale states what an allocator of memory regions promises,
  and \<open>kmalloc\<close> and \<open>kfree\<close> are shown to keep it. Then the properties of the heap itself: first
  fit, coalescing, the statistics, and what happens to a request that wraps around.
\<close>

section \<open>The contract\<close>

text \<open>
  \<open>live\<close> maps the address of every region handed out to its size. Regions are disjoint and stay as
  they are until released.
\<close>

locale region_allocator =
  fixes alloc :: "u64 \<Rightarrow> 's \<Rightarrow> (u64 \<times> 's) option"
    and release :: "u64 \<Rightarrow> 's \<Rightarrow> 's"
    and inv :: "'s \<Rightarrow> bool"
    and regions :: "'s \<Rightarrow> u64 \<rightharpoonup> u64"
  assumes alloc_returns: "inv s \<Longrightarrow> \<exists>p s'. alloc n s = Some (p, s')"
    and alloc_inv: "\<lbrakk>inv s; alloc n s = Some (p, s')\<rbrakk> \<Longrightarrow> inv s'"
    and alloc_null: "\<lbrakk>inv s; alloc n s = Some (0, s')\<rbrakk> \<Longrightarrow> s' = s"
    and alloc_region: "\<lbrakk>inv s; alloc n s = Some (p, s'); p \<noteq> 0; unat n + 7 < 2 ^ 64\<rbrakk> \<Longrightarrow>
      regions s p = None \<and> (\<exists>z. unat n \<le> unat z \<and> regions s' = (regions s)(p \<mapsto> z))"
    and regions_disjoint: "\<lbrakk>inv s; regions s p = Some y; regions s q = Some z; p \<noteq> q\<rbrakk> \<Longrightarrow>
      unat p + unat y \<le> unat q \<or> unat q + unat z \<le> unat p"
    and release_inv: "\<lbrakk>inv s; regions s p = Some z\<rbrakk> \<Longrightarrow> inv (release p s)"
    and release_regions: "\<lbrakk>inv s; regions s p = Some z\<rbrakk> \<Longrightarrow> regions (release p s) = (regions s)(p := None)"
begin

text \<open>A new region meets no region that was handed out before, and none of those moves.\<close>

lemma alloc_disjoint:
  assumes "inv s" "alloc n s = Some (p, s')" "p \<noteq> 0" "unat n + 7 < 2 ^ 64" "regions s q = Some z"
  shows "regions s' q = Some z" "unat p + unat n \<le> unat q \<or> unat q + unat z \<le> unat p"
proof -
  obtain y where y: "regions s p = None" "unat n \<le> unat y" "regions s' = (regions s)(p \<mapsto> y)"
    using alloc_region [OF assms(1-4)] by blast
  have pq: "p \<noteq> q" using y(1) assms(5) by auto
  then show q: "regions s' q = Some z" using y(3) assms(5) by simp
  have p: "regions s' p = Some y" using y(3) by simp
  show "unat p + unat n \<le> unat q \<or> unat q + unat z \<le> unat p"
    using regions_disjoint [OF alloc_inv [OF assms(1,2)] p q pq] y(2) by linarith
qed

lemma alloc_release:
  assumes "inv s" "alloc n s = Some (p, s')" "p \<noteq> 0" "unat n + 7 < 2 ^ 64"
  shows "inv (release p s')" "regions (release p s') = regions s"
proof -
  obtain y where y: "regions s p = None" "regions s' = (regions s)(p \<mapsto> y)"
    using alloc_region [OF assms] by blast
  have p: "regions s' p = Some y" using y(2) by simp
  have i: "inv s'" by (rule alloc_inv [OF assms(1,2)])
  show "inv (release p s')" by (rule release_inv [OF i p])
  show "regions (release p s') = regions s"
    using release_regions [OF i p] y by (auto simp: fun_eq_iff)
qed

end

section \<open>The heap keeps it\<close>

lemma option_eqI: "(\<And>w. x = Some w \<longleftrightarrow> y = Some w) \<Longrightarrow> x = y"
  by (cases x; cases y) auto

definition used_blks :: "blk list \<Rightarrow> blk set" where
  "used_blks bs = {b \<in> set bs. \<not> bk_free b}"

lemma used_blks_simps [simp]:
  "used_blks [] = {}" "used_blks (xs @ ys) = used_blks xs \<union> used_blks ys"
  "used_blks (b # bs) = (if bk_free b then used_blks bs else insert b (used_blks bs))"
  by (auto simp: used_blks_def)

lemma live_used:
  assumes "tiles pos bs stop" "stop < 2 ^ 64"
  shows "live_of bs q = Some w \<longleftrightarrow> (\<exists>c \<in> used_blks bs. q = bk_addr c + 32 \<and> w = bk_size c)"
  unfolding live_of_Some [OF assms] used_blks_def by blast

lemma addr_inj:
  assumes "tiles pos bs stop" "stop < 2 ^ 64" "c \<in> set bs" "b \<in> set bs" "bk_addr c = bk_addr b"
  shows "c = b"
proof -
  have "inj_on bk_addr (set bs)" using tiles_distinct [OF assms(1,2)] by (simp add: distinct_map)
  then show ?thesis using assms(3-5) by (simp add: inj_on_eq_iff)
qed

lemma amalloc_live:
  assumes t: "tiles pos bs stop" "tiles pos bs' stop" "stop < 2 ^ 64" and a: "amalloc sz bs = Some (p, bs')"
  shows "live_of bs p = None" "\<exists>z. sz \<le> z \<and> live_of bs' = (live_of bs)(p \<mapsto> z)"
proof -
  obtain xs b ys where b: "bs = xs @ b # ys" "fits sz b" "p = bk_addr b + 32" "bs' = xs @ alloc_blk sz b @ ys"
    using amalloc_Some [OF a] by blast
  have fb: "bk_free b" using b(2) by (simp add: fits_def)
  note L = live_used [OF t(1,3)] and L' = live_used [OF t(2,3)]
  have n: "live_of bs p \<noteq> Some w" for w
  proof
    assume "live_of bs p = Some w"
    then obtain c where c: "c \<in> set bs" "\<not> bk_free c" "p = bk_addr c + 32" unfolding L used_blks_def by blast
    then have "c = b" using b(1,3) by (intro addr_inj [OF t(1,3)]) simp_all
    then show False using c(2) fb by simp
  qed
  then show n0: "live_of bs p = None" by blast
  define z where "z = (if bk_size b \<ge> sz + 40 then sz else bk_size b)"
  have used: "used_blks bs' = insert (b\<lparr>bk_size := z, bk_free := False\<rparr>) (used_blks bs)"
    unfolding b(1,4) using fb by (simp add: alloc_blk_def z_def)
  have eq: "live_of bs' q = ((live_of bs)(p \<mapsto> z)) q" for q
  proof (rule option_eqI)
    fix w
    have "live_of bs' q = Some w \<longleftrightarrow> q = p \<and> w = z \<or> live_of bs q = Some w"
      unfolding L L' used b(3) by simp
    then show "live_of bs' q = Some w \<longleftrightarrow> ((live_of bs)(p \<mapsto> z)) q = Some w" using n0 by auto
  qed
  have "sz \<le> z" using b(2) by (simp add: z_def fits_def)
  then show "\<exists>z. sz \<le> z \<and> live_of bs' = (live_of bs)(p \<mapsto> z)" using eq by blast
qed

lemma merge_next_used: "used_blks (merge_next (b\<lparr>bk_free := True\<rparr>) ys) = used_blks ys"
  by (simp add: merge_next_def merge_blk_def split: list.split)

lemma afree_used: "used_blks (afree xs b ys) = used_blks xs \<union> used_blks ys"
proof -
  define ns where "ns = merge_next (b\<lparr>bk_free := True\<rparr>) ys"
  have f: "bk_free (hd ns)" by (auto simp: ns_def merge_next_def merge_blk_def split: list.split)
  obtain d zs where d: "ns = d # zs" by (cases ns) (auto simp: ns_def merge_next_def split: list.splits if_splits)
  have u: "used_blks zs = used_blks ys"
    using merge_next_used [of b ys] f by (simp add: d flip: ns_def)
  show ?thesis
  proof (cases "xs \<noteq> [] \<and> bk_free (last xs)")
    case True
    then obtain ws a where xs: "xs = ws @ [a]" by (metis rev_exhaust)
    show ?thesis using True u unfolding afree_def ns_def [symmetric] merge_prev_def xs d
      by (simp add: merge_blk_def)
  next
    case False
    then have "merge_prev xs (d # zs) = xs @ d # zs" by (auto simp: merge_prev_def)
    then show ?thesis using u f unfolding afree_def ns_def [symmetric] d by simp
  qed
qed

lemma kmalloc_ok:
  assumes "heap_ok s" "kmalloc n s = Some (p, s')"
  shows "heap_ok s'" "p = 0 \<Longrightarrow> s' = s"
    "p \<noteq> 0 \<Longrightarrow> live s p = None \<and> (\<exists>z. ALIGN8 n \<le> z \<and> live s' = (live s)(p \<mapsto> z)) \<and> n \<noteq> 0"
proof -
  obtain bs where bs: "heap_rep s bs" "coalesced bs" using assms(1) by (auto simp: heap_ok_def)
  note r = heap_repD [OF bs(1)]
  have "heap_ok s' \<and> (p = 0 \<longrightarrow> s' = s) \<and>
      (p \<noteq> 0 \<longrightarrow> live s p = None \<and> (\<exists>z. ALIGN8 n \<le> z \<and> live s' = (live s)(p \<mapsto> z)) \<and> n \<noteq> 0)"
  proof (cases "n = 0")
    case True
    then show ?thesis using assms by (auto simp: kmalloc_def)
  next
    case n: False
    show ?thesis
    proof (cases "amalloc (ALIGN8 n) bs")
      case None
      then show ?thesis using kmalloc_result [OF bs(1) n] assms by auto
    next
      case (Some pb)
      obtain q bs' where pb: "pb = (q, bs')" by (cases pb)
      have k: "p = q" "heap_rep s' bs'" "s' = s\<lparr>kmem := kmem s'\<rparr>"
        using kmalloc_result [OF bs(1) n] assms(2) Some pb by auto
      obtain xs b ys where b: "bs = xs @ b # ys" "fits (ALIGN8 n) b" "q = bk_addr b + 32"
        "bs' = xs @ alloc_blk (ALIGN8 n) b @ ys" using amalloc_Some Some pb by blast
      have h: "heap_head s' = heap_head s" "heap_end s' = heap_end s"
        by (subst k(3), simp)+
      have e: "unat (heap_end s) < 2 ^ 64" by simp
      note t' = heap_repD(2) [OF k(2), unfolded h]
      have "coalesced bs'" using coalesced_alloc bs(2) b by (simp add: fits_def)
      then have ok: "heap_ok s'" using k(2) by (auto simp: heap_ok_def)
      have "unat q = unat (bk_addr b) + 32" using block_ends [OF r(2) e, of b] b by simp
      then have q0: "q \<noteq> 0" by auto
      show ?thesis
        using ok q0 n k(1) amalloc_live [OF r(2) t' e] Some pb live_rep [OF bs(1)] live_rep [OF k(2)] by auto
    qed
  qed
  then show "heap_ok s'" "p = 0 \<Longrightarrow> s' = s"
    "p \<noteq> 0 \<Longrightarrow> live s p = None \<and> (\<exists>z. ALIGN8 n \<le> z \<and> live s' = (live s)(p \<mapsto> z)) \<and> n \<noteq> 0" by blast+
qed

lemma kfree_ok:
  assumes "heap_ok s" "live s p = Some z"
  shows "heap_ok (kfree p s)" "live (kfree p s) = (live s)(p := None)"
proof -
  obtain bs where bs: "heap_rep s bs" "coalesced bs" using assms(1) by (auto simp: heap_ok_def)
  note r = heap_repD [OF bs(1)] and e = unat_lt_64 [of "heap_end s"]
  have e: "unat (heap_end s) < 2 ^ 64" by simp
  obtain b where b: "b \<in> set bs" "\<not> bk_free b" "p = bk_addr b + 32"
    using assms(2) live_rep [OF bs(1)] live_of_Some [OF r(2) e] by auto
  obtain xs ys where xy: "bs = xs @ b # ys" using b(1) by (auto dest: split_list)
  note k = kfree_result [OF bs(1) [unfolded xy] b(3)]
  have h: "heap_head (kfree p s) = heap_head s" "heap_end (kfree p s) = heap_end s"
    by (subst k(2), simp)+
  note t' = heap_repD(2) [OF k(1), unfolded h]
  show "heap_ok (kfree p s)" using k(1) coalesced_free bs(2) xy by (auto simp: heap_ok_def)
  have nb: "bk_addr c \<noteq> bk_addr b" if "c \<in> set xs \<union> set ys" for c
  proof
    assume "bk_addr c = bk_addr b"
    then have "bk_addr b \<in> bk_addr ` (set xs \<union> set ys)" using imageI [OF that, of bk_addr] by simp
    then show False using tiles_distinct [OF r(2) e] unfolding xy by (simp add: image_Un)
  qed
  have used: "used_blks bs = insert b (used_blks xs \<union> used_blks ys)" using b(2) by (simp add: xy)
  show "live (kfree p s) = (live s)(p := None)"
  proof
    fix q
    show "live (kfree p s) q = ((live s)(p := None)) q"
    proof (rule option_eqI)
      fix w
      have "live (kfree p s) q = Some w \<longleftrightarrow>
          (\<exists>c \<in> used_blks xs \<union> used_blks ys. q = bk_addr c + 32 \<and> w = bk_size c)"
        unfolding live_rep [OF k(1)] live_used [OF t' e] afree_used ..
      moreover have "live s q = Some w \<longleftrightarrow> q = p \<and> w = bk_size b \<or>
          (\<exists>c \<in> used_blks xs \<union> used_blks ys. q = bk_addr c + 32 \<and> w = bk_size c)"
        unfolding live_rep [OF bs(1)] live_used [OF r(2) e] used b(3) by blast
      moreover have "bk_addr c + 32 \<noteq> p" if "c \<in> used_blks xs \<union> used_blks ys" for c
        using nb [of c] that b(3) by (auto simp: used_blks_def)
      ultimately show "live (kfree p s) q = Some w \<longleftrightarrow> ((live s)(p := None)) q = Some w" by auto
    qed
  qed
qed

interpretation kheap: region_allocator
  "kmalloc :: u64 \<Rightarrow> 'a heap_state_scheme \<Rightarrow> _" kfree heap_ok live
proof (unfold_locales, goal_cases)
  case (1 s n)
  then obtain bs where bs: "heap_rep s bs" by (auto simp: heap_ok_def)
  show ?case
  proof (cases "n = 0")
    case True
    then show ?thesis by (simp add: kmalloc_def)
  next
    case False
    then show ?thesis using kmalloc_result [OF bs] by blast
  qed
next
  case (2 s n p s')
  then show ?case using kmalloc_ok(1) by blast
next
  case (3 s n s')
  then show ?case using kmalloc_ok(2) by blast
next
  case (4 s n p s')
  have "unat n \<le> unat (ALIGN8 n)" using unat_ALIGN8 [of n] 4(4) by simp
  then show ?case using kmalloc_ok(3) [OF 4(1,2)] 4(3) by (auto simp: word_le_nat_alt intro: order_trans)
next
  case (5 s p y q z)
  then obtain bs where bs: "heap_rep s bs" by (auto simp: heap_ok_def)
  note t = heap_repD(2) [OF bs]
  have e: "unat (heap_end s) < 2 ^ 64" by simp
  obtain b c where b: "b \<in> set bs" "p = bk_addr b + 32" "y = bk_size b"
    and c: "c \<in> set bs" "q = bk_addr c + 32" "z = bk_size c"
    using 5(2,3) live_rep [OF bs] live_of_Some [OF t e] by auto
  have "b \<noteq> c" using b(2) c(2) 5(4) by auto
  then show ?case using tiles_disjoint [OF t b(1) c(1)] block_ends [OF t e b(1)] block_ends [OF t e c(1)] b c by auto
next
  case (6 s p z)
  then show ?case by (rule kfree_ok(1))
next
  case (7 s p z)
  then show ?case by (rule kfree_ok(2))
qed

section \<open>What the heap promises its callers\<close>

text \<open>Every block, payload included, starts at a multiple of 8.\<close>

lemma tiles_aligned:
  "\<lbrakk>tiles pos bs stop; pos mod 8 = 0; b \<in> set bs\<rbrakk> \<Longrightarrow> unat (bk_addr b) mod 8 = 0"
proof (induction bs arbitrary: pos)
  case (Cons c bs)
  then have "(pos + 32 + unat (bk_size c)) mod 8 = 0" by (simp add: mod_eq_0_iff_dvd)
  then show ?case using Cons by auto
qed simp

lemma live_aligned:
  assumes "heap_ok s" "live s p = Some z"
  shows "unat p mod 8 = 0"
proof -
  obtain bs where bs: "heap_rep s bs" using assms(1) by (auto simp: heap_ok_def)
  note r = heap_repD [OF bs]
  have e: "unat (heap_end s) < 2 ^ 64" by simp
  obtain b where b: "b \<in> set bs" "p = bk_addr b + 32"
    using assms(2) live_rep [OF bs] live_of_Some [OF r(2) e] by auto
  show ?thesis using block_ends [OF r(2) e b(1)] tiles_aligned [OF r(2,6) b(1)] b(2)
    by (simp add: mod_eq_0_iff_dvd)
qed

text \<open>When \<open>kmalloc\<close> gives up, no free block is large enough.\<close>

lemma kmalloc_null:
  assumes "heap_ok s" "kmalloc n s = Some (0, s')" "n \<noteq> 0"
  shows "\<exists>ls. heap_dump (kmem s) (heap_head s) = Some ls \<and> (\<forall>(a, z, f) \<in> set ls. f \<longrightarrow> z < ALIGN8 n)"
proof -
  obtain bs where bs: "heap_rep s bs" using assms(1) by (auto simp: heap_ok_def)
  note r = heap_repD [OF bs]
  have e: "unat (heap_end s) < 2 ^ 64" by simp
  have "amalloc (ALIGN8 n) bs = None"
  proof (rule ccontr)
    assume "amalloc (ALIGN8 n) bs \<noteq> None"
    then obtain q bs' where q: "amalloc (ALIGN8 n) bs = Some (q, bs')" by auto
    then obtain xs b ys where "bs = xs @ b # ys" "q = bk_addr b + 32" using amalloc_Some by blast
    then have "unat q \<noteq> 0" using block_ends [OF r(2) e, of b] by simp
    moreover have "q = 0" using kmalloc_result [OF bs assms(3)] assms(2) q by auto
    ultimately show False by simp
  qed
  then show ?thesis using heap_dump_rep [OF bs] by (auto simp: amalloc_None fits_def)
qed

lemmas heap_contract = kheap.alloc_returns kheap.alloc_inv kheap.alloc_null kheap.alloc_region
  kheap.alloc_disjoint

text \<open>
  C11. On a well-formed heap, \<open>kmalloc n\<close> always returns, for every \<open>n\<close> that can be rounded up to
  a multiple of 8, and leaves a well-formed heap. A null result changes nothing and is given only for
  \<open>n = 0\<close> or when no free block of the heap holds \<open>n\<close> bytes. Any other result is the 8-byte
  aligned address of a region of at least \<open>n\<close> bytes that was not handed out, meets no region that was,
  and becomes live; all other live regions stay as they are.
\<close>

theorem kmalloc_correct:
  assumes "heap_ok s" "unat n + 7 < 2 ^ 64"
  shows "\<exists>p s'. kmalloc n s = Some (p, s') \<and> heap_ok s' \<and>
    (if p = 0 then s' = s \<and> (n = 0 \<or> (\<exists>ls. heap_dump (kmem s) (heap_head s) = Some ls \<and>
        (\<forall>(a, z, f) \<in> set ls. f \<longrightarrow> z < ALIGN8 n)))
     else unat p mod 8 = 0 \<and> live s p = None \<and> (\<exists>z. unat n \<le> unat z \<and> live s' = (live s)(p \<mapsto> z)) \<and>
       (\<forall>q y. live s q = Some y \<longrightarrow> unat p + unat n \<le> unat q \<or> unat q + unat y \<le> unat p))"
proof -
  obtain p s' where k: "kmalloc n s = Some (p, s')" using heap_contract(1) [OF assms(1), of n] by blast
  have ok: "heap_ok s'" by (rule heap_contract(2) [OF assms(1) k])
  show ?thesis
  proof (cases "p = 0")
    case True
    then show ?thesis using k ok heap_contract(3) [OF assms(1)] kmalloc_null [OF assms(1)] by auto
  next
    case False
    note a = heap_contract(4) [OF assms(1) k False assms(2)]
    then have "unat p mod 8 = 0" using live_aligned [OF ok] by auto
    then show ?thesis using k ok a False heap_contract(6) [OF assms(1) k False assms(2)] by auto
  qed
qed

lemma coalesced_all_free:
  "\<lbrakk>coalesced bs; \<forall>b \<in> set bs. bk_free b; bs \<noteq> []\<rbrakk> \<Longrightarrow> \<exists>b. bs = [b]"
  by (cases bs; cases "tl bs") (auto simp: coalesced_Cons)

lemma no_live_one_block:
  assumes "heap_ok s" "live s = Map.empty"
  shows "heap_dump (kmem s) (heap_head s) = Some [(heap_head s, heap_end s - heap_head s - 32, True)]"
proof -
  obtain bs where bs: "heap_rep s bs" "coalesced bs" using assms(1) by (auto simp: heap_ok_def)
  note r = heap_repD [OF bs(1)]
  have e: "unat (heap_end s) < 2 ^ 64" by simp
  have "bk_free b" if "b \<in> set bs" for b
    using live_of_Some [OF r(2) e, of "bk_addr b + 32" "bk_size b"] that assms(2) live_rep [OF bs(1)] by auto
  moreover have "bs \<noteq> []" using bs(1) by (simp add: heap_rep_def)
  ultimately obtain b where b: "bs = [b]" "bk_free b" using coalesced_all_free [OF bs(2)] by auto
  have t: "unat (bk_addr b) = unat (heap_head s)" "unat (heap_end s) = unat (heap_head s) + 32 + unat (bk_size b)"
    using r(2) b(1) by simp_all
  have "unat (heap_end s - heap_head s) = 32 + unat (bk_size b)"
    using t(2) by (simp add: unat_sub word_le_nat_alt)
  then have "unat (heap_end s - heap_head s - 32) = unat (bk_size b)"
    by (simp add: unat_sub word_le_nat_alt)
  then show ?thesis using heap_dump_rep [OF bs(1)] b t(1) by (simp add: word_unat_eq_iff)
qed

text \<open>
  C12. Releasing a live region always leaves a well-formed, fully coalesced heap in which exactly that
  region is gone; so allocating and releasing brings back the live regions there were, and once the
  last one is released the heap is a single free block again: no fragmentation remains.
\<close>

theorem kfree_correct:
  fixes s :: "'a heap_state_scheme"
  assumes "heap_ok s" "live s p = Some z"
  shows "heap_ok (kfree p s) \<and> live (kfree p s) = (live s)(p := None) \<and>
    (live s = [p \<mapsto> z] \<longrightarrow> heap_dump (kmem (kfree p s)) (heap_head s) =
       Some [(heap_head s, heap_end s - heap_head s - 32, True)]) \<and>
    (\<forall>n q s'. unat n + 7 < 2 ^ 64 \<longrightarrow> kmalloc n s = Some (q, s') \<longrightarrow> q \<noteq> 0 \<longrightarrow>
       heap_ok (kfree q s') \<and> live (kfree q s') = live s)"
proof -
  note k = kheap.release_inv [OF assms] kheap.release_regions [OF assms]
  have "heap_head (kfree p s) = heap_head s" "heap_end (kfree p s) = heap_end s"
    by (simp_all add: kfree_def Let_def)
  then have "live s = [p \<mapsto> z] \<longrightarrow> heap_dump (kmem (kfree p s)) (heap_head s) =
       Some [(heap_head s, heap_end s - heap_head s - 32, True)]"
    using no_live_one_block [OF k(1)] k(2) by (auto simp: fun_eq_iff)
  then show ?thesis using k kheap.alloc_release [OF assms(1)] by blast
qed

text \<open>
  C13. Seen through the list of its blocks, \<open>kmalloc\<close> is first fit with splitting and \<open>kfree\<close> is
  release with merging of both neighbours: the list operations on 32-byte headers refine the
  abstract operations on block lists, and the block list is all the heap's callers can change.
\<close>

theorem heap_refines_blocks:
  fixes s :: "'a heap_state_scheme"
  assumes "heap_rep s bs"
  shows "(n \<noteq> 0 \<longrightarrow> (\<exists>p s'. kmalloc n s = Some (p, s') \<and>
      (case amalloc (ALIGN8 n) bs of None \<Rightarrow> p = 0 \<and> s' = s
       | Some (q, bs') \<Rightarrow> p = q \<and> heap_rep s' bs' \<and> s' = s\<lparr>kmem := kmem s'\<rparr>))) \<and>
    (\<forall>xs b ys. bs = xs @ b # ys \<longrightarrow> heap_rep (kfree (bk_addr b + 32) s) (afree xs b ys))"
  using kmalloc_result [OF assms] kfree_result(1) [OF _ refl] assms by blast

text \<open>Sums over the blocks.\<close>

definition sum_sizes :: "blk list \<Rightarrow> nat" where
  "sum_sizes bs = sum_list (map (unat \<circ> bk_size) bs)"

lemma tiles_total: "tiles pos bs stop \<Longrightarrow> stop = pos + 32 * length bs + sum_sizes bs"
proof (induction bs arbitrary: pos)
  case (Cons b bs)
  then have "stop = pos + 32 + unat (bk_size b) + 32 * length bs + sum_sizes bs" by simp
  then show ?case by (simp add: sum_sizes_def)
qed (simp add: sum_sizes_def)

lemma stats_walk_dll:
  assumes "dll m prv bs 0" "\<forall>b \<in> set bs. bk_addr b \<noteq> 0"
    "unat (st_free st) + unat (used st) + unat (blocks st) + sum_sizes bs + length bs < 2 ^ 64"
  shows "\<exists>st'. stats_walk m (first_addr bs 0) st = Some st' \<and> capacity st' = capacity st \<and>
    unat (blocks st') = unat (blocks st) + length bs \<and>
    unat (st_free st') = unat (st_free st) + sum_sizes (filter bk_free bs) \<and>
    unat (used st') = unat (used st) + sum_sizes (filter (\<lambda>b. \<not> bk_free b) bs) \<and>
    largest_free st' = fold max (map bk_size (filter bk_free bs)) (largest_free st)"
  using assms
proof (induction bs arbitrary: prv st)
  case Nil
  then show ?case by (simp add: stats_walk.simps sum_sizes_def)
next
  case (Cons b bs)
  let ?sz = "bk_size b"
  define st1 where "st1 = (if bk_free b
    then st\<lparr>blocks := blocks st + 1, st_free := st_free st + ?sz, largest_free := max ?sz (largest_free st)\<rparr>
    else st\<lparr>blocks := blocks st + 1, used := used st + ?sz\<rparr>)"
  have sum: "sum_sizes (b # bs) = unat ?sz + sum_sizes bs" by (simp add: sum_sizes_def)
  have 1: "unat (blocks st + 1) = unat (blocks st) + 1" using Cons.prems(3) by (subst unat_add_nowrap) simp_all
  have 2: "bk_free b \<Longrightarrow> unat (st_free st + ?sz) = unat (st_free st) + unat ?sz"
    "unat (used st + ?sz) = unat (used st) + unat ?sz"
    using Cons.prems(3) sum by (subst unat_add_nowrap; simp)+
  have "unat (st_free st1) + unat (used st1) + unat (blocks st1) + sum_sizes bs + length bs < 2 ^ 64"
    using Cons.prems(3) sum 1 2 by (auto simp: st1_def)
  moreover have "stats_walk m (first_addr (b # bs) 0) st = stats_walk m (first_addr bs 0) st1"
    using Cons.prems(1,2) by (subst stats_walk.simps) (auto simp: st1_def Let_def max_def)
  ultimately show ?case using Cons.IH [of "bk_addr b" st1] Cons.prems(1,2) 1 2
    by (auto simp: st1_def sum_sizes_def)
qed

text \<open>
  C14. The statistics are exact: \<open>heap_get_stats\<close> always returns on a well-formed heap, counts the
  blocks, and used bytes, free bytes and 32 bytes of header per block add up to the capacity, with no
  wrap-around on the way; the largest free block it reports bounds every free block and is one of them.
\<close>

theorem heap_get_stats_exact:
  fixes s :: "'a heap_state_scheme"
  assumes "heap_rep s bs" "heap_head s = HEAP_START"
  shows "\<exists>st. heap_get_stats s = Some st \<and> unat (blocks st) = length bs \<and>
    unat (st_free st) = sum_sizes (filter bk_free bs) \<and>
    unat (used st) + unat (st_free st) + 32 * unat (blocks st) = unat (capacity st) \<and>
    (\<forall>b \<in> set bs. bk_free b \<longrightarrow> bk_size b \<le> largest_free st) \<and>
    (largest_free st = 0 \<or> (\<exists>b \<in> set bs. bk_free b \<and> bk_size b = largest_free st))"
proof -
  note r = heap_repD [OF assms(1)]
  let ?st = "\<lparr>capacity = heap_end s - HEAP_START, used = 0, st_free = 0, blocks = 0, largest_free = 0\<rparr>"
  note t = tiles_total [OF r(2)]
  have lt: "unat (heap_end s) < 2 ^ 64" by simp
  then have "unat (st_free ?st) + unat (used ?st) + unat (blocks ?st) + sum_sizes bs + length bs < 2 ^ 64"
    using t by simp
  then obtain st where st: "stats_walk (kmem s) (first_addr bs 0) ?st = Some st" "capacity st = heap_end s - HEAP_START"
    "unat (blocks st) = length bs" "unat (st_free st) = sum_sizes (filter bk_free bs)"
    "unat (used st) = sum_sizes (filter (\<lambda>b. \<not> bk_free b) bs)"
    "largest_free st = fold max (map bk_size (filter bk_free bs)) 0"
    using stats_walk_dll [OF r(1), of ?st] r(5) by auto
  have cap: "unat (heap_end s - HEAP_START) = unat (heap_end s) - unat HEAP_START"
    using t assms(2) by (simp add: unat_sub word_le_nat_alt)
  have split: "sum_sizes bs = sum_sizes (filter bk_free bs) + sum_sizes (filter (\<lambda>b. \<not> bk_free b) bs)"
    by (induction bs) (auto simp: sum_sizes_def)
  have m: "largest_free st = Max (set (0 # map bk_size (filter bk_free bs)))"
    unfolding st(6) by (rule Max.set_eq_fold [symmetric])
  have "\<forall>b \<in> set bs. bk_free b \<longrightarrow> bk_size b \<le> largest_free st" unfolding m by auto
  moreover have "largest_free st \<in> set (0 # map bk_size (filter bk_free bs))"
    unfolding m by (rule Max_in) auto
  then have "largest_free st = 0 \<or> (\<exists>b \<in> set bs. bk_free b \<and> bk_size b = largest_free st)" by auto
  ultimately show ?thesis
    using st t cap split r(4) assms(2) by (auto simp: heap_get_stats_def)
qed

lemma ALIGN8_wraps:
  assumes "2 ^ 64 \<le> unat n + 7"
  shows "ALIGN8 n = 0"
proof -
  obtain k where k: "unat n + 7 = 2 ^ 64 + k" using assms le_iff_add by blast
  have "unat n < 2 ^ 64" by simp
  then have k7: "k < 7" using k by linarith
  have "unat (n + 7) = (unat n + 7) mod 2 ^ 64" by (simp add: unat_word_ariths)
  then have "unat (n + 7) = k" unfolding k using k7 by simp
  then have "unat (ALIGN8 n) = 0" using unat_and_not_mask [of "n + 7" 3] k7
    by (simp add: ALIGN8_def mask_eq_exp_minus_1)
  then show ?thesis by (simp only: unat_eq_0)
qed

text \<open>
  A request within 7 bytes of the top of \<^verbatim>\<open>size_t\<close> wraps to zero when it is rounded up. With
  any free block left, \<open>kmalloc\<close> then reports success and hands out a region of less than 40 bytes
  instead of refusing.
\<close>

theorem kmalloc_wraps:
  fixes s :: "'a heap_state_scheme"
  assumes "heap_rep s bs" "b \<in> set bs" "bk_free b" "2 ^ 64 \<le> unat n + 7"
  shows "\<exists>p s' z. kmalloc n s = Some (p, s') \<and> p \<noteq> 0 \<and> live s' p = Some z \<and> unat z < 40"
proof -
  note r = heap_repD [OF assms(1)]
  have e: "unat (heap_end s) < 2 ^ 64" by simp
  have a0: "ALIGN8 n = 0" by (rule ALIGN8_wraps [OF assms(4)])
  have n: "n \<noteq> 0" using assms(4) by auto
  have "amalloc 0 bs \<noteq> None" using assms(2,3) by (auto simp: amalloc_None fits_def)
  then obtain q bs' where q: "amalloc 0 bs = Some (q, bs')" by auto
  then obtain xs c ys where c: "bs = xs @ c # ys" "q = bk_addr c + 32" "bs' = xs @ alloc_blk 0 c @ ys"
    using amalloc_Some by blast
  obtain s' where s': "kmalloc n s = Some (q, s')" "heap_rep s' bs'" "s' = s\<lparr>kmem := kmem s'\<rparr>"
    using kmalloc_result [OF assms(1) n] q a0 by auto
  have e': "unat (heap_end s') < 2 ^ 64" by simp
  have "unat q = unat (bk_addr c) + 32" using block_ends [OF r(2) e, of c] c by simp
  then have q0: "q \<noteq> 0" by auto
  define z where "z = (if bk_size c \<ge> 40 then 0 else bk_size c)"
  have "c\<lparr>bk_size := z, bk_free := False\<rparr> \<in> set bs'"
    by (simp add: c(3) alloc_blk_def z_def)
  then have "live s' q = Some z" unfolding live_rep [OF s'(2)] live_of_Some [OF heap_repD(2) [OF s'(2)] e']
    by (intro bexI) (simp_all add: c(2))
  moreover have "unat z < 40" by (auto simp: z_def word_le_nat_alt)
  ultimately show ?thesis using s'(1) q0 by blast
qed

section \<open>A small heap\<close>

text \<open>A fresh heap of one page, and the same heap after one allocation of 100 bytes.\<close>

definition heap_example :: heap_state where
  "heap_example = \<lparr>ram = (\<lambda>_. 0), bitmap = 0, bitmap_phys = 0, total_frames = 0, used_frames = 0, bitmap_size = 0,
     module_start = 0, module_end = 0, kernel_pml4 = 0, vmm_active = True, hhdm_end = 0, cr3 = 0,
     kmem = set_prev HEAP_START 0 (set_next HEAP_START 0 (set_free HEAP_START 1 (set_size HEAP_START 0xFE0 (\<lambda>_. 0)))),
     heap_head = HEAP_START, heap_end = HEAP_START + 0x1000\<rparr>"

definition example_block :: blk where
  "example_block = \<lparr>bk_addr = HEAP_START, bk_size = 0xFE0, bk_free = True\<rparr>"

lemma heap_example_rep: "heap_rep heap_example [example_block]"
proof -
  have "HEAP_START \<noteq> 0" "unat HEAP_START mod 8 = 0" "unat HEAP_START + 32 + unat (0xFE0::u64) = unat (HEAP_START + 0x1000)"
    by (simp_all add: HEAP_START_def)
  then show ?thesis by (simp add: heap_rep_def heap_example_def example_block_def)
qed

lemma heap_example_ok: "heap_ok heap_example"
  using heap_example_rep coalesced_Cons [of example_block "[]"] by (auto simp: heap_ok_def)

lemma heap_example_live: "live heap_example = Map.empty"
  using live_rep [OF heap_example_rep] by (simp add: live_of_def example_block_def)

lemma ALIGN8_100: "ALIGN8 100 = 104"
  by (simp add: ALIGN8_def)

theorem kmalloc_correct_witness:
  "\<exists>p s' z. kmalloc 100 heap_example = Some (p, s') \<and> heap_ok s' \<and> p = HEAP_START + 32 \<and>
     live s' = [p \<mapsto> z] \<and> 100 \<le> unat z"
proof -
  obtain p s' where k: "kmalloc 100 heap_example = Some (p, s')" "heap_ok s'"
    "p \<noteq> 0 \<longrightarrow> (\<exists>z. unat (100::u64) \<le> unat z \<and> live s' = (live heap_example)(p \<mapsto> z))"
    using kmalloc_correct [OF heap_example_ok, of 100] by (auto split: if_splits)
  have "p = HEAP_START + 32"
    using kmalloc_result [OF heap_example_rep, of 100] k(1)
    by (auto simp: ALIGN8_100 fits_def example_block_def)
  moreover have "HEAP_START + 32 \<noteq> 0" by (simp add: HEAP_START_def)
  ultimately show ?thesis using k heap_example_live by auto
qed

theorem kfree_correct_witness:
  "\<exists>p s'. kmalloc 100 heap_example = Some (p, s') \<and> live s' p \<noteq> None \<and> live (kfree p s') = Map.empty \<and>
     heap_dump (kmem (kfree p s')) (heap_head s') = Some [(HEAP_START, 0xFE0, True)]"
proof -
  obtain p s' where k: "kmalloc 100 heap_example = Some (p, s')" "p = HEAP_START + 32" "s' = heap_example\<lparr>kmem := kmem s'\<rparr>"
    using kmalloc_result [OF heap_example_rep, of 100] by (auto simp: ALIGN8_100 fits_def example_block_def)
  have p0: "p \<noteq> 0" by (simp add: k(2) HEAP_START_def)
  obtain z where z: "live s' = [p \<mapsto> z]"
    using kheap.alloc_region [OF heap_example_ok k(1) p0] heap_example_live by auto
  have h: "heap_head s' = HEAP_START" "heap_end s' = HEAP_START + 0x1000"
    by (subst k(3), simp add: heap_example_def)+
  have "live s' p = Some z" using z by simp
  note f = kfree_correct [OF kheap.alloc_inv [OF heap_example_ok k(1)] this]
  show ?thesis using f z h k(1) by (intro exI [of _ p] exI [of _ s']) (auto simp: HEAP_START_def)
qed

theorem heap_refines_blocks_witness:
  "\<exists>p s'. kmalloc 4064 heap_example = Some (p, s') \<and> heap_rep s' [example_block\<lparr>bk_free := False\<rparr>] \<and>
     heap_rep (kfree (HEAP_START + 32) heap_example) [example_block]"
proof -
  have a: "amalloc (ALIGN8 4064) [example_block] = Some (HEAP_START + 32, [example_block\<lparr>bk_free := False\<rparr>])"
    by (simp add: ALIGN8_def fits_def alloc_blk_def example_block_def)
  have f: "afree [] example_block [] = [example_block]"
    by (simp add: afree_def merge_next_def merge_prev_def example_block_def)
  have ba: "bk_addr example_block = HEAP_START" by (simp add: example_block_def)
  note r = heap_refines_blocks [OF heap_example_rep, of 4064]
  have "heap_rep (kfree (HEAP_START + 32) heap_example) [example_block]"
    using conjunct2 [OF r] f ba by fastforce
  moreover have "\<exists>p s'. kmalloc 4064 heap_example = Some (p, s') \<and> heap_rep s' [example_block\<lparr>bk_free := False\<rparr>]"
    using conjunct1 [OF r] unfolding a by auto
  ultimately show ?thesis by blast
qed

theorem heap_get_stats_exact_witness:
  "\<exists>st. heap_get_stats heap_example = Some st \<and> unat (blocks st) = 1 \<and> unat (st_free st) = 0xFE0"
proof -
  have "heap_head heap_example = HEAP_START" by (simp add: heap_example_def)
  from heap_get_stats_exact [OF heap_example_rep this] show ?thesis
    by (auto simp: sum_sizes_def example_block_def)
qed

theorem kmalloc_wraps_witness:
  "\<exists>p s' z. kmalloc 0xFFFFFFFFFFFFFFFF heap_example = Some (p, s') \<and> p \<noteq> 0 \<and> live s' p = Some z \<and> unat z < 40"
  by (rule kmalloc_wraps [OF heap_example_rep, of example_block]) (simp_all add: example_block_def)

end
