(* ===== verification/HeapInit.thy ===== *)
theory HeapInit
  imports VmmInit KheapSpec
begin

text \<open>
  Start-up of the heap, \<^verbatim>\<open>heap_init\<close> of \<^verbatim>\<open>kernel/mm/heap.c\<close>: where the frame allocator, the page tables and the
  heap meet. Each of the 256 pages of the window gets a frame of its own, and the window becomes one free block.
\<close>

section \<open>A frame for every page\<close>

lemma alloc_step:
  fixes s :: "'a vmm_state_scheme"
  assumes ok: "pt_ok s pml4" and fr: "0 < free_frames s" and al: "pmm_alloc_frame s = (f, s')"
  shows "pt_ok s' pml4" "leaf_of s' pml4 v = leaf_of s pml4 v" "tables s' pml4 = tables s pml4"
    "Suc (free_frames s') = free_frames s" "f \<noteq> 0" "table_frame s' f" "unat f div 4096 \<notin> used_set s"
    "used_set s' = insert (unat f div 4096) (used_set s)" "total_frames s' = total_frames s"
    "pmm_state.more s' = pmm_state.more s"
proof -
  note o = pt_okD [OF ok]
  show f0: "f \<noteq> 0" using free_frames_alloc [OF _ fr] al o(1) by (simp add: mem_ok_def)
  note a = alloc_table_frame [OF o(1) al f0]
  have get: "table_get s' t j = table_get s t j" if "idx q" "length q \<le> 3" "walk s pml4 q = Some t" "j < 512" for q t j
    by (rule table_get_untouched [OF o(1) o(2) [OF that(1-3)] that(4) a(4)]) simp
  show "pt_ok s' pml4" by (rule pt_ok_cong [OF ok a(1) _ get]) (simp add: a(3))
  show "leaf_of s' pml4 v = leaf_of s pml4 v" by (rule leaf_cong [OF get index_less])
  show "tables s' pml4 = tables s pml4" by (rule tables_cong, rule walk_cong) (auto intro: get)
  show tf: "table_frame s' f" and nu: "unat f div 4096 \<notin> used_set s"
    and us: "used_set s' = insert (unat f div 4096) (used_set s)" by (rule a)+
  show tot: "total_frames s' = total_frames s" and "pmm_state.more s' = pmm_state.more s" using a(4) by (simp_all add: touches_def)
  have "unat f \<noteq> 0" "unat f mod 4096 = 0" using f0 tf by (simp_all add: unat_eq_0 table_frame_def)
  then have "unat f div 4096 \<noteq> 0" by (auto elim: dvdE)
  moreover have "unat f div 4096 < unat (total_frames s)"
    using used_set_bound [of "unat f div 4096" s'] us tot by simp
  ultimately have "{1..<unat (total_frames s)} - used_set s = insert (unat f div 4096) ({1..<unat (total_frames s')} - used_set s')"
    using us nu tot by auto
  then show "Suc (free_frames s') = free_frames s" unfolding free_frames_def using us by simp
qed

text \<open>
  The state after \<open>k\<close> pages: the frames taken so far are new and different, page \<open>j\<close> of the window leads to frame \<open>fs ! j\<close>, and no
  other page has changed.
\<close>

definition window_mapped :: "'a heap_state_scheme \<Rightarrow> u64 list \<Rightarrow> 'a heap_state_scheme \<Rightarrow> bool" where
  "window_mapped s fs s' \<longleftrightarrow> pt_ok s' (kernel_pml4 s) \<and> distinct fs \<and>
     (\<forall>f \<in> set fs. unat f mod 4096 = 0 \<and> unat f div 4096 \<notin> used_set s \<and> unat f div 4096 \<in> used_set s') \<and>
     used_set s \<subseteq> used_set s' \<and> pmm_state.more s' = pmm_state.more s \<and>
     (\<forall>v. leaf_of s' (kernel_pml4 s) v =
       (if lo HEAP_START \<le> lo v \<and> lo v < lo HEAP_START + length fs * 2 ^ 12
        then Some (False, fs ! ((lo v - lo HEAP_START) div 2 ^ 12) OR KERNEL_RW OR PAGE_PRESENT) else leaf_of s (kernel_pml4 s) v))"

definition window_room :: "'a heap_state_scheme \<Rightarrow> nat \<Rightarrow> 'a heap_state_scheme \<Rightarrow> bool" where
  "window_room s k s' \<longleftrightarrow> tables s' (kernel_pml4 s) \<subseteq> tables s (kernel_pml4 s) \<union> small_path HEAP_START \<and>
     free_frames s' + card (tables s' (kernel_pml4 s)) + k = free_frames s + card (tables s (kernel_pml4 s))"

lemma lo_heap: "lo HEAP_START = 2 ^ 47 + 2 ^ 46"
  by (simp add: lo_def HEAP_START_def)

lemma heap_page_path:
  assumes "k < 256"
  shows "small_path (HEAP_START + of_nat k * 0x1000) = small_path HEAP_START" "lo (HEAP_START + of_nat k * 0x1000) = lo HEAP_START + k * 2 ^ 12"
proof -
  show l: "lo (HEAP_START + of_nat k * 0x1000) = lo HEAP_START + k * 2 ^ 12"
    using lo_add [of HEAP_START "k * 0x1000"] assms by (simp add: lo_heap)
  have "(lo HEAP_START + k * 2 ^ 12) div 2 ^ 21 = lo HEAP_START div 2 ^ 21" using assms by (simp add: lo_heap)
  then have "PML4_INDEX (HEAP_START + of_nat k * 0x1000) = PML4_INDEX HEAP_START \<and> PDPT_INDEX (HEAP_START + of_nat k * 0x1000) = PDPT_INDEX HEAP_START \<and>
      PD_INDEX (HEAP_START + of_nat k * 0x1000) = PD_INDEX HEAP_START" unfolding same_large_page l .
  then show "small_path (HEAP_START + of_nat k * 0x1000) = small_path HEAP_START" by (simp add: small_path_def large_path_def)
qed

lemma card_small_path: "card (small_path v) \<le> 3" "finite (small_path v)"
  by (simp_all add: small_path_def large_path_def card_insert_if)

lemma heap_map_page_step:
  fixes s s' :: "'a heap_state_scheme"
  assumes P: "window_mapped s fs s'" "window_room s (length fs) s'" and k: "length fs < 256" and fr: "259 \<le> free_frames s"
    and none: "\<And>v. \<lbrakk>lo HEAP_START \<le> lo v; lo v < lo HEAP_START + 256 * 2 ^ 12\<rbrakk> \<Longrightarrow> leaf_of s (kernel_pml4 s) v = None"
  shows "\<exists>f s''. heap_map_page (HEAP_START + of_nat (length fs) * 0x1000) s' = Some s'' \<and>
    window_mapped s (fs @ [f]) s'' \<and> window_room s (Suc (length fs)) s''"
proof -
  let ?p = "kernel_pml4 s" and ?k = "length fs" and ?w = "HEAP_START + of_nat (length fs) * 0x1000"
  let ?T = "tables s ?p \<union> small_path HEAP_START"
  have ok: "pt_ok s' ?p" and more: "pmm_state.more s' = pmm_state.more s" using P(1) by (simp_all add: window_mapped_def)
  have kp: "kernel_pml4 s' = ?p" using more by (cases s, cases s', simp)
  have cT: "card ?T \<le> card (tables s ?p) + 3" using card_Un_le [of "tables s ?p" "small_path HEAP_START"] card_small_path(1) [of HEAP_START] by linarith
  have sub: "tables s' ?p \<subseteq> ?T" and cons: "free_frames s' + card (tables s' ?p) + ?k = free_frames s + card (tables s ?p)"
    using P(2) by (simp_all add: window_room_def)
  have "card (tables s' ?p) \<le> card ?T" by (rule card_mono [OF _ sub]) (simp add: card_small_path)
  then have fr': "0 < free_frames s'" using cons cT fr k by linarith
  obtain f s0 where al: "pmm_alloc_frame s' = (f, s0)" by fastforce
  note a = alloc_step [OF ok fr' al]
  let ?s'' = "vmm_map_page_in ?p ?w f KERNEL_RW s0"
  have rm: "room ?T ?p s0" using sub a(3,4) cons cT fr k by (simp add: room_def card_small_path)
  note hp = heap_page_path [OF k]
  have hl: "leaf_of s0 ?p ?w \<noteq> Some (True, e)" for e
    using a(2) [of ?w] P(1) none [of ?w] hp(2) k by (simp add: window_mapped_def)
  have "small_path ?w \<subseteq> ?T" using hp(1) by simp
  note m = map_page_grows [OF a(1) rm this hl KERNEL_RW_bits(1), of f]
  have fa: "unat f mod 4096 = 0" "f AND NOT 0xFFF = f"
    using a(6) unat_page_mask [of f] by (simp_all add: table_frame_def word_unat_eq_iff) auto
  have "heap_map_page ?w s' = Some ?s''"
    using al a(5,10) kp by (simp add: heap_map_page_def vmm_map_page_def KERNEL_RW_def)
      (use a(10) kp in \<open>cases s', cases s0, simp\<close>)
  moreover have "leaf_of ?s'' ?p v = (if lo HEAP_START \<le> lo v \<and> lo v < lo HEAP_START + Suc ?k * 2 ^ 12
      then Some (False, (fs @ [f]) ! ((lo v - lo HEAP_START) div 2 ^ 12) OR KERNEL_RW OR PAGE_PRESENT) else leaf_of s ?p v)" for v
  proof -
    have b: "lo v div 2 ^ 12 = lo ?w div 2 ^ 12 \<longleftrightarrow> lo HEAP_START + ?k * 2 ^ 12 \<le> lo v \<and> lo v < lo HEAP_START + Suc ?k * 2 ^ 12"
      unfolding hp(2) by (rule block_step) (simp_all add: lo_heap)
    have l0: "leaf_of s0 ?p v = (if lo HEAP_START \<le> lo v \<and> lo v < lo HEAP_START + ?k * 2 ^ 12
      then Some (False, fs ! ((lo v - lo HEAP_START) div 2 ^ 12) OR KERNEL_RW OR PAGE_PRESENT) else leaf_of s ?p v)"
      using P(1) a(2) [of v] by (simp add: window_mapped_def)
    show ?thesis
    proof (cases "lo v div 2 ^ 12 = lo ?w div 2 ^ 12")
      case True
      then have "lo HEAP_START + ?k * 2 ^ 12 \<le> lo v" "lo v < lo HEAP_START + Suc ?k * 2 ^ 12" using b by simp_all
      then have "(lo v - lo HEAP_START) div 2 ^ 12 = ?k" by (intro div_nat_eqI) simp_all
      then show ?thesis using True b m(2) [of v] fa(2) by simp
    next
      case False
      moreover have "(lo v - lo HEAP_START) div 2 ^ 12 < ?k" if "lo HEAP_START \<le> lo v" "lo v < lo HEAP_START + ?k * 2 ^ 12"
        using that by (intro less_mult_imp_div_less) simp
      ultimately show ?thesis using m(2) [of v] l0 b by (auto simp: nth_append)
    qed
  qed
  moreover have "f \<notin> set fs" using a(7,8) P(1) by (auto simp: window_mapped_def)
  moreover note g = growsD [OF m(1)]
  ultimately have "window_mapped s (fs @ [f]) ?s''"
    using P(1) fa(1) a(7,8,10) more unfolding window_mapped_def by auto
  moreover have "window_room s (Suc ?k) ?s''"
    using g(3,4) a(3,4) sub cons hp(1) unfolding window_room_def by auto
  ultimately show ?thesis using \<open>heap_map_page ?w s' = Some ?s''\<close> by blast
qed

lemma heap_map_region_result:
  fixes s :: "'a heap_state_scheme"
  assumes ok: "pt_ok s (kernel_pml4 s)" and fr: "259 \<le> free_frames s"
    and none: "\<And>v. \<lbrakk>lo HEAP_START \<le> lo v; lo v < lo HEAP_START + 256 * 2 ^ 12\<rbrakk> \<Longrightarrow> leaf_of s (kernel_pml4 s) v = None"
  shows "\<exists>fs s'. heap_map_region HEAP_START HEAP_INITIAL_SIZE s = Some s' \<and> length fs = 256 \<and> window_mapped s fs s'"
proof -
  let ?f = "\<lambda>k so. Option.bind so (heap_map_page (HEAP_START + of_nat k * 0x1000))"
  define Q where "Q k so \<longleftrightarrow> (\<exists>fs s'. so = Some s' \<and> length fs = k \<and> window_mapped s fs s' \<and> window_room s k s')"
    for k and so :: "'a heap_state_scheme option"
  have "Q (Suc k) (?f k so)" if k: "k < 256" and Q: "Q k so" for k so
  proof -
    obtain fs s' where f: "so = Some s'" "length fs = k" "window_mapped s fs s'" "window_room s k s'" using Q by (auto simp: Q_def)
    from heap_map_page_step [OF f(3) _ _ fr none] f(2,4) k
    obtain f s'' where "heap_map_page (HEAP_START + of_nat k * 0x1000) s' = Some s''" "window_mapped s (fs @ [f]) s''" "window_room s (Suc k) s''"
      by blast
    then show ?thesis using f(1,2) unfolding Q_def by (intro exI [of _ "fs @ [f]"] exI [of _ s'']) simp
  qed
  moreover have "Q 0 (Some s)" using ok by (auto simp: Q_def window_mapped_def window_room_def intro!: exI [of _ "[]"])
  ultimately have "Q 256 (fold ?f [0..<256] (Some s))" by (rule fold_upt_inv [where P = Q, rotated])
  moreover have "unat HEAP_INITIAL_SIZE \<le> 2 ^ 48" "(unat HEAP_INITIAL_SIZE + 2 ^ 12 - 1) div 2 ^ 12 = 256" by (simp_all add: HEAP_INITIAL_SIZE_def)
  then have "for_step (\<lambda>off. off < HEAP_INITIAL_SIZE) 4096 0 (\<lambda>off so. Option.bind so (heap_map_page (HEAP_START + off))) (Some s)
      = Some (fold ?f [0..<256] (Some s))"
    using for_pages [of 4096 12 HEAP_INITIAL_SIZE] by simp
  ultimately show ?thesis unfolding heap_map_region_def Q_def by auto
qed

section \<open>The heap at start-up\<close>

lemma heap_window:
  assumes "canonical v"
  shows "lo HEAP_START \<le> lo v \<and> lo v < lo HEAP_START + 256 * 2 ^ 12 \<longleftrightarrow> v - HEAP_START < HEAP_INITIAL_SIZE"
    "v - HEAP_START < HEAP_INITIAL_SIZE \<Longrightarrow> lo v - lo HEAP_START = unat (v - HEAP_START)"
proof -
  have h: "unat HEAP_START = 18446673704965373952" by (simp add: HEAP_START_def)
  have *: "(lo HEAP_START \<le> lo v \<and> lo v < lo HEAP_START + 256 * 2 ^ 12 \<longleftrightarrow> v - HEAP_START < HEAP_INITIAL_SIZE) \<and>
      (v - HEAP_START < HEAP_INITIAL_SIZE \<longrightarrow> lo v - lo HEAP_START = unat (v - HEAP_START))"
  proof (cases "HEAP_START \<le> v")
    case True
    then have "HHDM_OFFSET \<le> v" by (rule order_trans [rotated]) (simp add: HEAP_START_def HHDM_OFFSET_def)
    from canonical_lo(2) [OF this] True unat_sub [OF True] show ?thesis
      by (auto simp: lo_heap word_less_nat_alt word_le_nat_alt h HEAP_INITIAL_SIZE_def)
  next
    case False
    then have "unat v < 18446673704965373952" by (simp add: word_le_nat_alt h)
    then have "unat (v - HEAP_START) = unat v + 70368744177664" by (simp add: unat_sub_if' h)
    moreover have "\<not> lo HEAP_START \<le> lo v" using False assms canonical_lo [of v] by (auto simp: lo_heap word_le_nat_alt h)
    ultimately show ?thesis by (simp add: word_less_nat_alt HEAP_INITIAL_SIZE_def)
  qed
  then show "lo HEAP_START \<le> lo v \<and> lo v < lo HEAP_START + 256 * 2 ^ 12 \<longleftrightarrow> v - HEAP_START < HEAP_INITIAL_SIZE"
    "v - HEAP_START < HEAP_INITIAL_SIZE \<Longrightarrow> lo v - lo HEAP_START = unat (v - HEAP_START)" by auto
qed

lemma window_canonical:
  assumes "lo HEAP_START \<le> lo v" "lo v < lo HEAP_START + 256 * 2 ^ 12"
  obtains w where "canonical w" "lo w = lo v" "w - HEAP_START < HEAP_INITIAL_SIZE"
proof
  let ?w = "of_nat (lo v + (2 ^ 64 - 2 ^ 48)) :: u64"
  have u: "unat ?w = lo v + (2 ^ 64 - 2 ^ 48)" using assms(2) by (intro unat_of_nat_small) (simp add: lo_heap)
  then show c: "canonical ?w" using assms by (simp add: lo_heap word_le_nat_alt HHDM_OFFSET_def)
  have "HHDM_OFFSET \<le> ?w" using u assms by (simp add: lo_heap word_le_nat_alt HHDM_OFFSET_def)
  from canonical_lo(2) [OF this] u show l: "lo ?w = lo v" by simp
  show "?w - HEAP_START < HEAP_INITIAL_SIZE" using heap_window(1) [OF c] assms l by simp
qed

text \<open>
  C15. Start-up of the heap. When the kernel's tables are well formed, nothing is mapped in the heap's window and 259
  frames are free, \<open>heap_init\<close> returns with a well-formed heap of one free block and no live region. Page \<open>j\<close> of the window
  leads to a frame of its own, which was free before, writable for the kernel only; every other translation is as it was.
\<close>

theorem heap_init_correct:
  fixes s :: "'a heap_state_scheme"
  assumes "pt_ok s (kernel_pml4 s)" "259 \<le> free_frames s"
    and "\<forall>v. canonical v \<longrightarrow> v - HEAP_START < HEAP_INITIAL_SIZE \<longrightarrow> leaf_of s (kernel_pml4 s) v = None"
  shows "\<exists>fs s'. heap_init s = Some s' \<and> heap_ok s' \<and> live s' = Map.empty \<and>
    heap_rep s' [\<lparr>bk_addr = HEAP_START, bk_size = HEAP_INITIAL_SIZE - HEADER_SIZE, bk_free = True\<rparr>] \<and>
    pt_ok s' (kernel_pml4 s') \<and> used_set s \<subseteq> used_set s' \<and> length fs = 256 \<and> distinct fs \<and>
    (\<forall>f \<in> set fs. unat f mod 4096 = 0 \<and> unat f div 4096 \<notin> used_set s \<and> unat f div 4096 \<in> used_set s') \<and>
    (\<forall>v. canonical v \<longrightarrow> leaf_of s' (kernel_pml4 s') v =
       (if v - HEAP_START < HEAP_INITIAL_SIZE
        then Some (False, fs ! (unat (v - HEAP_START) div 4096) OR PAGE_PRESENT OR PAGE_WRITABLE)
        else leaf_of s (kernel_pml4 s) v))"
proof -
  have none: "leaf_of s (kernel_pml4 s) v = None" if win: "lo HEAP_START \<le> lo v" "lo v < lo HEAP_START + 256 * 2 ^ 12" for v
  proof -
    obtain w where w: "canonical w" "lo w = lo v" "w - HEAP_START < HEAP_INITIAL_SIZE" by (rule window_canonical [OF win])
    then have "leaf_of s (kernel_pml4 s) w = None" using assms(3) by blast
    then show ?thesis using w(2) by (simp add: indices_of_nat)
  qed
  obtain fs s1 where r: "heap_map_region HEAP_START HEAP_INITIAL_SIZE s = Some s1" "length fs = 256" "window_mapped s fs s1"
    using heap_map_region_result [OF assms(1,2) none] by blast
  let ?m = "set_prev HEAP_START 0 (set_next HEAP_START 0 (set_free HEAP_START 1 (set_size HEAP_START (HEAP_INITIAL_SIZE - HEADER_SIZE) (kmem s1))))"
  let ?s' = "s1\<lparr>heap_end := HEAP_START + HEAP_INITIAL_SIZE, heap_head := HEAP_START, kmem := ?m\<rparr>"
  let ?b = "\<lparr>bk_addr = HEAP_START, bk_size = HEAP_INITIAL_SIZE - HEADER_SIZE, bk_free = True\<rparr>"
  have i: "heap_init s = Some ?s'" using r(1) by (simp add: heap_init_def)
  have rep: "heap_rep ?s' [?b]"
    by (simp add: heap_rep_def) (simp add: HEAP_START_def HEAP_INITIAL_SIZE_def HEADER_SIZE_def)
  have tr: "vmm_state.truncate ?s' = vmm_state.truncate s1" by (simp add: vmm_state.truncate_def)
  note c = vmm_cong [OF tr]
  have lf: "leaf_of ?s' p v = leaf_of s1 p v" for p v using leaf_truncate [of ?s'] leaf_truncate [of s1] tr by simp
  have "pmm_state.more s1 = pmm_state.more s" using r(3) by (simp add: window_mapped_def)
  then have kp: "kernel_pml4 s1 = kernel_pml4 s" by (cases s, cases s1) simp
  have leaf: "leaf_of ?s' (kernel_pml4 ?s') v = (if v - HEAP_START < HEAP_INITIAL_SIZE
      then Some (False, fs ! (unat (v - HEAP_START) div 4096) OR PAGE_PRESENT OR PAGE_WRITABLE) else leaf_of s (kernel_pml4 s) v)"
    if "canonical v" for v
  proof -
    have "KERNEL_RW OR PAGE_PRESENT = PAGE_PRESENT OR PAGE_WRITABLE" by (simp add: KERNEL_RW_def PAGE_PRESENT_def PAGE_WRITABLE_def)
    then show ?thesis using r(2,3) heap_window [OF that] kp unfolding lf by (simp add: window_mapped_def)
  qed
  have "coalesced [?b]" by (simp add: coalesced_Cons)
  then have ok: "heap_ok ?s'" using rep by (auto simp: heap_ok_def)
  have lv: "live ?s' = Map.empty" using live_rep [OF rep] by (simp add: live_of_def)
  have pt: "pt_ok ?s' (kernel_pml4 ?s')" using c kp r(3) by (simp add: window_mapped_def)
  have fr: "distinct fs" "used_set s \<subseteq> used_set ?s'"
    "\<forall>f \<in> set fs. unat f mod 4096 = 0 \<and> unat f div 4096 \<notin> used_set s \<and> unat f div 4096 \<in> used_set ?s'"
    using r(3) c(4) unfolding window_mapped_def by blast+
  show ?thesis using i ok lv rep pt fr r(2) leaf by blast
qed


text \<open>Paging and the heap started one after the other on an empty machine.\<close>

theorem heap_init_correct_witness:
  "\<exists>s1 s2 fs. vmm_init 0x180000 (boot_example \<lparr>kmem = (\<lambda>_. 0), heap_head = 0, heap_end = 0\<rparr>) = Some s1 \<and> heap_init s1 = Some s2 \<and>
     heap_ok s2 \<and> live s2 = Map.empty \<and> vmm_get_phys 0xFFFFC00000002008 s2 = fs ! 2 + 8 \<and>
     vmm_get_phys 0xFFFFFFFF80123456 s2 = 0x123456"
proof -
  let ?s0 = "boot_example \<lparr>kmem = (\<lambda>_. 0), heap_head = 0, heap_end = 0\<rparr> :: heap_state"
  let ?n = "10 + (unat (0x180000 :: u64) + 0x1FFFFF) div 0x200000 + (unat (total_frames ?s0) * 4096 + 0x3FFFFFFF) div 0x40000000"
  have k: "0x100000 \<le> unat (0x180000 :: u64)" "unat (0x180000 :: u64) \<le> 2 ^ 31" "unat (total_frames ?s0) * 4096 \<le> 2 ^ 39" "?n \<le> free_frames ?s0"
    by (simp_all add: boot_example_free)
  from vmm_init_result [OF boot_example_mem_ok k] obtain s1 where s1: "vmm_init 0x180000 ?s0 = Some s1" "pt_ok s1 (kernel_pml4 s1)"
    "unat (hhdm_end s1) = 2 * 0x200000" "free_frames ?s0 \<le> free_frames s1 + ?n"
    and leaf: "\<And>v. leaf_of s1 (kernel_pml4 s1) v = boot_leaf ((unat (0x180000 :: u64) - 0x100000 + 0xFFF) div 0x1000) 2 v" by auto
  have map: "leaf_of s1 (kernel_pml4 s1) v = boot_map (0x180000 - KERNEL_PHYS_BASE) (hhdm_end s1) v" if "canonical v" for v
    using boot_leaf_map [OF that k(1,2) s1(3)] leaf [of v] by simp
  have h: "hhdm_end s1 = 0x400000" using s1(3) by (simp add: word_unat_eq_iff)
  have none: "leaf_of s1 (kernel_pml4 s1) v = None" if "canonical v" "v - HEAP_START < HEAP_INITIAL_SIZE" for v
  proof -
    have "lo HEAP_START \<le> lo v" "lo v < lo HEAP_START + 256 * 2 ^ 12" using heap_window(1) [OF that(1)] that(2) by auto
    then show ?thesis unfolding leaf by (simp add: boot_leaf_def lo_heap lo_bases)
  qed
  have "259 \<le> free_frames s1" using s1(4) by (simp add: boot_example_free)
  from heap_init_correct [OF s1(2) this] none obtain fs s2 where s2: "heap_init s1 = Some s2" "heap_ok s2" "live s2 = Map.empty"
    "pt_ok s2 (kernel_pml4 s2)" "length fs = 256" "\<forall>f \<in> set fs. unat f mod 4096 = 0 \<and> unat f div 4096 \<notin> used_set s1 \<and> unat f div 4096 \<in> used_set s2"
    "\<And>v. canonical v \<Longrightarrow> leaf_of s2 (kernel_pml4 s2) v = (if v - HEAP_START < HEAP_INITIAL_SIZE
        then Some (False, fs ! (unat (v - HEAP_START) div 4096) OR PAGE_PRESENT OR PAGE_WRITABLE) else leaf_of s1 (kernel_pml4 s1) v)" by blast
  have gp: "vmm_get_phys v s2 = page_addr v (leaf_of s2 (kernel_pml4 s2) v)" for v by (simp add: vmm_get_phys_def get_phys_leaf [OF s2(4)])
  have "vmm_get_phys 0xFFFFFFFF80123456 s2 = 0x123456"
    using gp s2(7) [of "0xFFFFFFFF80123456"] map [of "0xFFFFFFFF80123456"]
    by (simp add: HHDM_OFFSET_def HEAP_START_def HEAP_INITIAL_SIZE_def boot_map_def KERNEL_VIRT_BASE_def KERNEL_PHYS_BASE_def
        ALIGN_UP_def page_addr_def ENTRY_ADDR_def PAGE_PRESENT_def PAGE_WRITABLE_def)
  moreover have "ENTRY_ADDR (fs ! 2 OR PAGE_PRESENT OR PAGE_WRITABLE) = fs ! 2"
  proof -
    have "fs ! 2 \<in> set fs" using s2(5) by simp
    then have "unat (fs ! 2) mod 4096 = 0" "unat (fs ! 2) div 4096 < unat (total_frames s2)" using s2(6) used_set_bound by blast+
    moreover have "unat (total_frames s2) * 4096 \<le> 2 ^ 47" using pt_okD(1) [OF s2(4)] by (simp add: mem_ok_def)
    ultimately have "ENTRY_ADDR (fs ! 2) = fs ! 2" by (intro ENTRY_ADDR_aligned) auto
    then show ?thesis by (simp add: ENTRY_ADDR_or) (simp add: ENTRY_ADDR_def PAGE_PRESENT_def PAGE_WRITABLE_def)
  qed
  then have "vmm_get_phys 0xFFFFC00000002008 s2 = fs ! 2 + 8"
    using gp s2(7) [of "0xFFFFC00000002008"] by (simp add: HHDM_OFFSET_def HEAP_START_def HEAP_INITIAL_SIZE_def page_addr_def)
  ultimately show ?thesis using s1(1) s2(1-3) by blast
qed

end
