(* ===== verification/Sched.thy ===== *)
theory Sched
  imports KheapSpec
begin

text \<open>
  The scheduler, \<^verbatim>\<open>kernel/sched/sched.c\<close>, with the context switch of
  \<^verbatim>\<open>kernel/sched/context_switch.asm\<close> and the task state segment's kernel stack pointer of
  \<^verbatim>\<open>kernel/arch/x86_64/gdt.c\<close>. Task structures are kept in a store indexed by their heap address;
  their stacks are bytes of kernel memory. Code addresses come from the linker and are parameters.
  \<open>None\<close> is a list walk that never ends. The messages printed are left out.
\<close>

datatype task_state = TASK_READY | TASK_RUNNING | TASK_DONE

record task =
  t_rsp :: u64
  t_stack_base :: u64
  t_pml4 :: u64
  t_kstack_top :: u64
  t_id :: u32
  t_state :: task_state
  t_next :: u64

text \<open>The registers a context switch saves, with the stack and the instruction pointer.\<close>

record regs =
  r_rsp :: u64
  r_rbp :: u64
  r_rbx :: u64
  r_r12 :: u64
  r_r13 :: u64
  r_r14 :: u64
  r_r15 :: u64
  r_rip :: u64

record sched_state = heap_state +
  tasks :: "u64 \<Rightarrow> task"
  current :: u64
  task_list :: u64
  next_id :: u32
  tss_rsp0 :: u64
  iflag :: bool
  cpu :: regs

text \<open>Addresses of code: \<open>task_exit\<close>, the two trampolines, and the return address of \<open>schedule\<close>'s call.\<close>

record code =
  c_task_exit :: u64
  c_task_entry_trampoline :: u64
  c_user_entry_trampoline :: u64
  c_resume :: u64

definition STACK_SIZE :: u64 where
  "STACK_SIZE = 16384"

definition TASK_SIZE :: u64 where
  "TASK_SIZE = 48"

definition set_task :: "u64 \<Rightarrow> (task \<Rightarrow> task) \<Rightarrow> 'a sched_state_scheme \<Rightarrow> 'a sched_state_scheme" where
  "set_task p f s = s\<lparr>tasks := (tasks s)(p := f (tasks s p))\<rparr>"

definition tss_set_rsp0 :: "u64 \<Rightarrow> 'a sched_state_scheme \<Rightarrow> 'a sched_state_scheme" where
  "tss_set_rsp0 rsp0 s = s\<lparr>tss_rsp0 := rsp0\<rparr>"

definition tss_get_rsp0 :: "'a sched_state_scheme \<Rightarrow> u64" where
  "tss_get_rsp0 s = tss_rsp0 s"

section \<open>The context switch\<close>

definition push :: "u64 \<Rightarrow> 'a sched_state_scheme \<Rightarrow> 'a sched_state_scheme" where
  "push v s = s\<lparr>kmem := store64 (kmem s) (r_rsp (cpu s) - 8) v,
     cpu := (cpu s)\<lparr>r_rsp := r_rsp (cpu s) - 8\<rparr>\<rparr>"

definition pop :: "'a sched_state_scheme \<Rightarrow> u64 \<times> 'a sched_state_scheme" where
  "pop s = (load64 (kmem s) (r_rsp (cpu s)), s\<lparr>cpu := (cpu s)\<lparr>r_rsp := r_rsp (cpu s) + 8\<rparr>\<rparr>)"

definition save_context :: "'a sched_state_scheme \<Rightarrow> 'a sched_state_scheme" where
  "save_context s = (let r = cpu s in
     push (r_r15 r) (push (r_r14 r) (push (r_r13 r) (push (r_r12 r) (push (r_rbx r) (push (r_rbp r) s))))))"

definition restore_context :: "'a sched_state_scheme \<Rightarrow> 'a sched_state_scheme" where
  "restore_context s =
     (let (r15, s) = pop s; (r14, s) = pop s; (r13, s) = pop s; (r12, s) = pop s;
          (rbx, s) = pop s; (rbp, s) = pop s; (rip, s) = pop s
      in s\<lparr>cpu := (cpu s)\<lparr>r_rbp := rbp, r_rbx := rbx, r_r12 := r12, r_r13 := r13, r_r14 := r14,
           r_r15 := r15, r_rip := rip\<rparr>\<rparr>)"

text \<open>The old task's \<open>rsp\<close> field is where the stack pointer is saved.\<close>

definition context_switch :: "u64 \<Rightarrow> u64 \<Rightarrow> 'a sched_state_scheme \<Rightarrow> 'a sched_state_scheme" where
  "context_switch old new_rsp s =
     (let s = save_context s;
          s = set_task old (\<lambda>t. t\<lparr>t_rsp := r_rsp (cpu s)\<rparr>) s
      in restore_context (s\<lparr>cpu := (cpu s)\<lparr>r_rsp := new_rsp\<rparr>\<rparr>))"

section \<open>Picking the next task\<close>

partial_function (option) skip_done :: "(u64 \<Rightarrow> task) \<Rightarrow> u64 \<Rightarrow> u64 \<Rightarrow> u64 option" where
  "skip_done ts prev nxt =
     (if t_state (ts nxt) = TASK_DONE \<and> nxt \<noteq> prev then skip_done ts prev (t_next (ts nxt)) else Some nxt)"

definition schedule :: "code \<Rightarrow> 'a sched_state_scheme \<Rightarrow> 'a sched_state_scheme option" where
  "schedule c s =
     (if current s = 0 then Some s
      else let prev = current s in do {
        nxt \<leftarrow> skip_done (tasks s) prev (t_next (tasks s prev));
        if nxt = prev then Some s
        else
          let s = (if t_state (tasks s prev) = TASK_RUNNING
                   then set_task prev (\<lambda>t. t\<lparr>t_state := TASK_READY\<rparr>) s else s);
              s = set_task nxt (\<lambda>t. t\<lparr>t_state := TASK_RUNNING\<rparr>) s;
              s = s\<lparr>current := nxt\<rparr>;
              s = (if t_pml4 (tasks s nxt) \<noteq> t_pml4 (tasks s prev)
                   then vmm_switch_address_space (t_pml4 (tasks s nxt)) s else s);
              s = tss_set_rsp0 (t_kstack_top (tasks s nxt)) s
          in Some (context_switch prev (t_rsp (tasks s nxt)) (push (c_resume c) s))
      })"

definition yield :: "code \<Rightarrow> 'a sched_state_scheme \<Rightarrow> 'a sched_state_scheme option" where
  "yield c s = schedule c s"

text \<open>
  \<open>task_exit\<close> up to its final halt loop: the state it hands over to, with \<open>current\<close> unchanged when no
  other task can run and the processor halts.
\<close>

definition task_exit :: "code \<Rightarrow> 'a sched_state_scheme \<Rightarrow> 'a sched_state_scheme option" where
  "task_exit c s = schedule c (set_task (current s) (\<lambda>t. t\<lparr>t_state := TASK_DONE\<rparr>) s)"

partial_function (option) other_runnable :: "(u64 \<Rightarrow> task) \<Rightarrow> u64 \<Rightarrow> u64 \<Rightarrow> bool option" where
  "other_runnable ts cur p =
     (if p = cur then Some False
      else if t_state (ts p) \<noteq> TASK_DONE then Some True
      else other_runnable ts cur (t_next (ts p)))"

definition sched_has_other_runnable :: "'a sched_state_scheme \<Rightarrow> bool option" where
  "sched_has_other_runnable s = other_runnable (tasks s) (current s) (t_next (tasks s (current s)))"

section \<open>Creating and reaping tasks\<close>

definition sched_init :: "'a sched_state_scheme \<Rightarrow> 'a sched_state_scheme option" where
  "sched_init s = do {
     (boot, s) \<leftarrow> kmalloc TASK_SIZE s;
     let s = set_task boot (\<lambda>t. t\<lparr>t_id := next_id s, t_state := TASK_RUNNING, t_stack_base := 0,
           t_pml4 := vmm_kernel_pml4 s, t_kstack_top := tss_get_rsp0 s, t_next := boot\<rparr>) s;
     Some (s\<lparr>next_id := next_id s + 1, task_list := boot, current := boot\<rparr>)
   }"

text \<open>\<open>*(--sp) = v\<close> for each value in turn.\<close>

fun push_words :: "u64 list \<Rightarrow> u64 \<Rightarrow> memory \<Rightarrow> u64 \<times> memory" where
  "push_words [] sp m = (sp, m)"
| "push_words (v # vs) sp m = push_words vs (sp - 8) (store64 m (sp - 8) v)"

partial_function (option) list_tail :: "(u64 \<Rightarrow> task) \<Rightarrow> u64 \<Rightarrow> u64 \<Rightarrow> u64 option" where
  "list_tail ts first p = (if t_next (ts p) \<noteq> first then list_tail ts first (t_next (ts p)) else Some p)"

definition task_append :: "u64 \<Rightarrow> 'a sched_state_scheme \<Rightarrow> 'a sched_state_scheme option" where
  "task_append t s = do {
     p \<leftarrow> list_tail (tasks s) (task_list s) (task_list s);
     let s = set_task p (\<lambda>x. x\<lparr>t_next := t\<rparr>) s;
     Some (set_task t (\<lambda>x. x\<lparr>t_next := task_list s\<rparr>) s)
   }"

definition stack_top :: "u64 \<Rightarrow> u64" where
  "stack_top stack = (stack + STACK_SIZE) AND NOT 0xF"

definition task_create :: "code \<Rightarrow> u64 \<Rightarrow> 'a sched_state_scheme \<Rightarrow> (u64 \<times> 'a sched_state_scheme) option" where
  "task_create c entry s = do {
     (t, s) \<leftarrow> kmalloc TASK_SIZE s;
     (stack, s) \<leftarrow> kmalloc STACK_SIZE s;
     let top = stack_top stack;
     let (sp, m) = push_words [c_task_exit c, entry, c_task_entry_trampoline c, 0, 0, 0, 0, 0, 0] top (kmem s);
     let s = s\<lparr>kmem := m\<rparr>;
     let s = set_task t (\<lambda>x. x\<lparr>t_rsp := sp, t_stack_base := stack\<rparr>) s;
     let (pml4, s) = vmm_create_address_space s;
     let s = set_task t (\<lambda>x. x\<lparr>t_pml4 := pml4, t_kstack_top := top, t_id := next_id s, t_state := TASK_READY\<rparr>) s;
     s \<leftarrow> task_append t (s\<lparr>next_id := next_id s + 1\<rparr>);
     Some (t, s)
   }"

definition task_create_user ::
  "code \<Rightarrow> u64 \<Rightarrow> u64 \<Rightarrow> u64 \<Rightarrow> 'a sched_state_scheme \<Rightarrow> (u64 \<times> 'a sched_state_scheme) option" where
  "task_create_user c entry pml4 user_stack_top s = do {
     (t, s) \<leftarrow> kmalloc TASK_SIZE s;
     (kstack, s) \<leftarrow> kmalloc STACK_SIZE s;
     let top = stack_top kstack;
     let (sp, m) = push_words [user_stack_top, entry, c_user_entry_trampoline c, 0, 0, 0, 0, 0, 0] top (kmem s);
     let s = s\<lparr>kmem := m\<rparr>;
     let s = set_task t (\<lambda>x. x\<lparr>t_rsp := sp, t_stack_base := kstack, t_pml4 := pml4, t_kstack_top := top,
           t_id := next_id s, t_state := TASK_READY\<rparr>) s;
     s \<leftarrow> task_append t (s\<lparr>next_id := next_id s + 1\<rparr>);
     Some (t, s)
   }"

partial_function (option) find_before :: "(u64 \<Rightarrow> task) \<Rightarrow> u64 \<Rightarrow> u64 \<Rightarrow> u64 \<Rightarrow> u64 option" where
  "find_before ts first t p =
     (if t_next (ts p) \<noteq> t \<and> t_next (ts p) \<noteq> first then find_before ts first t (t_next (ts p)) else Some p)"

definition task_reap :: "u64 \<Rightarrow> 'a sched_state_scheme \<Rightarrow> 'a sched_state_scheme option" where
  "task_reap t s =
     (if t = 0 \<or> t = task_list s then Some s
      else do {
        let s = s\<lparr>iflag := False\<rparr>;
        p \<leftarrow> find_before (tasks s) (task_list s) t (task_list s);
        let s = (if t_next (tasks s p) = t then set_task p (\<lambda>x. x\<lparr>t_next := t_next (tasks s t)\<rparr>) s else s);
        let s = s\<lparr>iflag := True\<rparr>;
        let s = (if t_pml4 (tasks s t) \<noteq> 0 \<and> t_pml4 (tasks s t) \<noteq> vmm_kernel_pml4 s
                 then snd (vmm_destroy_address_space (t_pml4 (tasks s t)) s) else s);
        let s = kfree (t_stack_base (tasks s t)) s;
        Some (kfree t s)
      })"

section \<open>The ring of tasks\<close>

text \<open>\<open>chain f xs e\<close>: following \<open>f\<close> from the first of \<open>xs\<close> visits \<open>xs\<close> in order and then \<open>e\<close>.\<close>

fun chain :: "('a \<Rightarrow> 'a) \<Rightarrow> 'a list \<Rightarrow> 'a \<Rightarrow> bool" where
  "chain f [] e \<longleftrightarrow> True"
| "chain f (x # xs) e \<longleftrightarrow> f x = hd (xs @ [e]) \<and> chain f xs e"

lemma chain_append [simp]: "chain f (xs @ ys) e \<longleftrightarrow> chain f xs (hd (ys @ [e])) \<and> chain f ys e"
  by (induction xs) (auto simp: hd_append)

lemma chain_cong: "(\<And>x. x \<in> set xs \<Longrightarrow> f x = g x) \<Longrightarrow> chain f xs e = chain g xs e"
  by (induction xs) auto

definition nxt :: "'a sched_state_scheme \<Rightarrow> u64 \<Rightarrow> u64" where
  "nxt s t = t_next (tasks s t)"

definition ring :: "'a sched_state_scheme \<Rightarrow> u64 list \<Rightarrow> bool" where
  "ring s ts \<longleftrightarrow> ts \<noteq> [] \<and> hd ts = task_list s \<and> distinct ts \<and> 0 \<notin> set ts \<and> chain (nxt s) ts (task_list s)"

text \<open>The tasks from \<open>t\<close> once round the ring, ending just before \<open>t\<close>.\<close>

lemma ring_from:
  assumes "ring s (xs @ t # ys)"
  shows "chain (nxt s) (t # ys @ xs) t"
proof -
  have h: "hd (xs @ t # ys) = task_list s" using assms by (simp add: ring_def)
  show ?thesis
  proof (cases xs)
    case Nil
    then show ?thesis using assms h by (auto simp: ring_def)
  next
    case (Cons x zs)
    then show ?thesis using assms h by (cases ys) (auto simp: ring_def hd_append)
  qed
qed

lemma skip_done_chain:
  "\<lbrakk>chain (\<lambda>t. t_next (ts t)) zs prev; prev \<notin> set zs\<rbrakk> \<Longrightarrow>
   skip_done ts prev (hd (zs @ [prev])) =
     Some (case find (\<lambda>t. t_state (ts t) \<noteq> TASK_DONE) zs of None \<Rightarrow> prev | Some t \<Rightarrow> t)"
proof (induction zs)
  case Nil
  then show ?case by (simp add: skip_done.simps)
next
  case (Cons z zs)
  then show ?case by (subst skip_done.simps) auto
qed

lemma other_runnable_chain:
  "\<lbrakk>chain (\<lambda>t. t_next (ts t)) zs cur; cur \<notin> set zs\<rbrakk> \<Longrightarrow>
   other_runnable ts cur (hd (zs @ [cur])) = Some (\<exists>t \<in> set zs. t_state (ts t) \<noteq> TASK_DONE)"
proof (induction zs)
  case Nil
  then show ?case by (simp add: other_runnable.simps)
next
  case (Cons z zs)
  then show ?case by (subst other_runnable.simps) auto
qed

lemma list_tail_chain:
  "\<lbrakk>chain (\<lambda>t. t_next (ts t)) zs e; zs \<noteq> []; e \<notin> set (tl zs)\<rbrakk> \<Longrightarrow> list_tail ts e (hd zs) = Some (last zs)"
proof (induction zs)
  case (Cons z zs)
  show ?case
  proof (cases zs)
    case Nil
    then show ?thesis using Cons.prems by (subst list_tail.simps) simp
  next
    case (Cons y ys)
    then show ?thesis using Cons.IH Cons.prems by (subst list_tail.simps) auto
  qed
qed simp

lemma find_before_chain:
  "\<lbrakk>chain (\<lambda>t. t_next (ts t)) (xs @ [p]) t; t \<notin> set xs; e \<notin> set (tl (xs @ [p])); t \<notin> set (tl (xs @ [p]))\<rbrakk> \<Longrightarrow>
   find_before ts e t (hd (xs @ [p])) = Some p"
proof (induction xs)
  case Nil
  then show ?case by (subst find_before.simps) simp
next
  case (Cons x xs)
  then show ?case by (subst find_before.simps) (cases xs; auto)
qed

end
