(* ===== verification/VmmOwn.thy ===== *)
theory VmmOwn
  imports VmmDestroy VmmData
begin

text \<open>
  Who owns which frame. An address space accounts for the frames in use when they are those of the others, a set \<open>U\<close>,
  together with the frames its user half owns. Building up the user half keeps the account and writes no frame of the
  others.
\<close>

definition accounts :: "nat set \<Rightarrow> 'a vmm_state_scheme \<Rightarrow> u64 \<Rightarrow> bool" where
  "accounts U s pml4 \<longleftrightarrow> used_set s = U \<union> owned_frames s pml4 \<and> U \<inter> owned_frames s pml4 = {}"

definition untouched :: "nat set \<Rightarrow> 'a vmm_state_scheme \<Rightarrow> 'a vmm_state_scheme \<Rightarrow> bool" where
  "untouched U s s' \<longleftrightarrow> bitmap s' = bitmap s \<and> bitmap_size s' = bitmap_size s \<and> total_frames s' = total_frames s \<and>
     (\<forall>g. table_frame s g \<longrightarrow> frame_no g \<in> U \<longrightarrow> table_frame s' g \<and> same_frame g s s')"

definition extends :: "u64 \<Rightarrow> 'a vmm_state_scheme \<Rightarrow> 'a vmm_state_scheme \<Rightarrow> bool" where
  "extends pml4 s s' \<longleftrightarrow> (\<forall>U. accounts U s pml4 \<longrightarrow> accounts U s' pml4 \<and> untouched U s s')"

lemma untouched_refl [simp]: "untouched U s s"
  by (simp add: untouched_def same_frame_def)

lemma untouched_trans: "\<lbrakk>untouched U s s'; untouched U s' s''\<rbrakk> \<Longrightarrow> untouched U s s''"
  unfolding untouched_def by (metis same_frame_trans)

lemma untouched_mono: "\<lbrakk>untouched U s s'; V \<subseteq> U\<rbrakk> \<Longrightarrow> untouched V s s'"
  by (auto simp: untouched_def)

lemma extends_refl [simp]: "extends pml4 s s"
  by (simp add: extends_def)

lemma extends_trans: "\<lbrakk>extends pml4 s s'; extends pml4 s' s''\<rbrakk> \<Longrightarrow> extends pml4 s s''"
  unfolding extends_def using untouched_trans by blast

lemma extendsD:
  assumes "extends pml4 s s'" "accounts U s pml4"
  shows "accounts U s' pml4" "untouched U s s'"
  using assms by (auto simp: extends_def)

lemma untouched_touches:
  fixes s :: "'a vmm_state_scheme"
  assumes "mem_ok s" "touches T s s'" "U \<inter> used_set s \<subseteq> used_set s'"
    and T: "\<And>u. u \<in> T \<Longrightarrow> table_loc s u \<and> frame_no u \<notin> U"
  shows "untouched U s s'"
proof -
  have "table_frame s' g \<and> same_frame g s s'" if g: "table_frame s g" "frame_no g \<in> U" for g
  proof
    show "table_frame s' g" using g assms(2,3) by (auto simp: table_frame_def touches_def)
    have gl: "table_loc s g" by (rule table_frame_loc [OF assms(1) g(1)])
    show "same_frame g s s'"
    proof (rule touches_same_frame [OF assms(2) g(1)])
      show "t + k \<noteq> g + l" if "t \<in> T" "k < 4096" "l < 4096" for t k l
        using T [OF that(1)] gl g(2) that(2,3) by (intro frames_disjoint) (auto simp: table_loc_def)
    qed
  qed
  then show ?thesis using assms(2) by (simp add: untouched_def touches_def)
qed

section \<open>What an address space owns\<close>

abbreviation user_path :: "u64 list \<Rightarrow> bool" where
  "user_path p \<equiv> p \<noteq> [] \<longrightarrow> hd p < 256"

lemma owned_table: "\<lbrakk>idx p; length p \<le> 3; user_path p; walk s pml4 p = Some t\<rbrakk> \<Longrightarrow> frame_no t \<in> owned_frames s pml4"
  unfolding owned_frames_def by blast

lemma owned_page:
  "\<lbrakk>a < 256; b < 512; c < 512; d < 512; leaf s pml4 a b c d = Some (False, e)\<rbrakk> \<Longrightarrow> frame_no (ENTRY_ADDR e) \<in> owned_frames s pml4"
  by (auto simp: owned_frames_def)

lemma owned_cong:
  assumes "\<And>p. \<lbrakk>idx p; length p \<le> 3\<rbrakk> \<Longrightarrow> walk s' pml4 p = walk s pml4 p"
    and "\<And>a b c d. \<lbrakk>a < 256; b < 512; c < 512; d < 512\<rbrakk> \<Longrightarrow> leaf s' pml4 a b c d = leaf s pml4 a b c d"
  shows "owned_frames s' pml4 = owned_frames s pml4"
  unfolding owned_frames_def using assms by (simp cong: conj_cong)

lemma user_index_less: "v < USER_SPACE_END \<Longrightarrow> PML4_INDEX v < 256"
proof -
  assume "v < USER_SPACE_END"
  then have "unat v div 2 ^ 39 < 256" by (simp add: USER_SPACE_END_def word_less_nat_alt less_mult_imp_div_less)
  then have "unat (drop_bit 39 v) < 256" by (simp add: drop_bit_eq_div unat_div)
  moreover have "unat (drop_bit 39 v AND mask 9) \<le> unat (drop_bit 39 v)" by (simp add: unat_and_mask)
  ultimately show ?thesis by (simp add: PML4_INDEX_def word_less_nat_alt mask_eq_exp_minus_1)
qed

lemma owned_new_table:
  fixes s :: "'a vmm_state_scheme"
  assumes ok: "pt_ok s pml4" and p: "idx p" "length p \<le> 2" "walk s pml4 p = Some t" "i < 512"
    and al: "pmm_alloc_frame s = (f, s0)" "f \<noteq> 0"
    and absent: "table_get s t i AND PAGE_PRESENT = 0" and u: "user_path (p @ [i])"
  shows "owned_frames (new_table t i f s0) pml4 = insert (frame_no f) (owned_frames s pml4)"
proof -
  let ?s = "new_table t i f s0"
  have l: "leaf ?s pml4 a b c d = leaf s pml4 a b c d" if "a < 256" "b < 512" "c < 512" "d < 512" for a b c d
    using new_table_leaf [OF ok p al absent user_index [OF that(1)] that(2-4)] .
  have none: "walk s pml4 q = None" if "prefix (p @ [i]) q" for q
    by (rule walk_prefix_None [OF _ that]) (simp add: walk_snoc p(3) absent)
  have w: "walk ?s pml4 q = Some t' \<longleftrightarrow> q = p @ [i] \<and> t' = f \<or> walk s pml4 q = Some t'" if "idx q" "length q \<le> 3" for q t'
    using new_table_walk [OF ok p al that] none [of q] by (auto simp: strict_prefix_def)
  define P where "P q \<longleftrightarrow> idx q \<and> length q \<le> 3 \<and> user_path q" for q
  have w': "P q \<Longrightarrow> walk ?s pml4 q = Some t' \<longleftrightarrow> q = p @ [i] \<and> t' = f \<or> walk s pml4 q = Some t'" for q t'
    using w [of q t'] by (simp add: P_def)
  have "P (p @ [i])" using p(1,2,4) u by (auto simp: P_def)
  then have "{frame_no t' |t' q. P q \<and> walk ?s pml4 q = Some t'} =
      insert (frame_no f) {frame_no t' |t' q. P q \<and> walk s pml4 q = Some t'}" using w' by fast
  moreover have "{frame_no (ENTRY_ADDR e) |e a b c d. a < 256 \<and> b < 512 \<and> c < 512 \<and> d < 512 \<and> leaf ?s pml4 a b c d = Some (False, e)} =
      {frame_no (ENTRY_ADDR e) |e a b c d. a < 256 \<and> b < 512 \<and> c < 512 \<and> d < 512 \<and> leaf s pml4 a b c d = Some (False, e)}"
    using l by (simp cong: conj_cong)
  ultimately show ?thesis unfolding owned_frames_def P_def by (simp add: conj_assoc)
qed

section \<open>Building the user half\<close>

lemma next_level_extends:
  fixes s :: "'a vmm_state_scheme"
  assumes ok: "pt_ok s pml4" and p: "idx p" "length p \<le> 2" "walk s pml4 p = Some t" "i < 512" "user_path (p @ [i])"
    and fr: "0 < free_frames s" and r: "next_level t i True s = (t', s')"
  shows "extends pml4 s s'"
proof (cases "table_get s t i AND PAGE_PRESENT = 0")
  case False
  then have "s' = s" using r by (auto simp: next_level_def)
  then show ?thesis by simp
next
  case True
  note d = pt_okD [OF ok]
  have tf: "table_frame s t" using d(2) [OF p(1) _ p(3)] p(2) by simp
  obtain f s0 where al: "pmm_alloc_frame s = (f, s0)" by (cases "pmm_alloc_frame s")
  have f0: "f \<noteq> 0" using free_frames_alloc [OF _ fr] al d(1) by (simp add: mem_ok_def)
  note n = new_table_correct [OF d(1) al f0 tf p(4)]
  have s': "s' = new_table t i f s0" using r True al by (auto simp: next_level_def new_table_def Let_def)
  note ow = owned_new_table [OF ok p(1-4) al f0 True p(5)]
  have "user_path p" using p(5) by (cases p) auto
  then have t: "frame_no t \<in> owned_frames s pml4" using p(1-3) by (intro owned_table) auto
  have fl: "table_loc s f" using table_frame_loc [OF n(1,2)] table_loc_touches [OF n(5)] by simp
  have "accounts U s' pml4 \<and> untouched U s s'" if U: "accounts U s pml4" for U
  proof
    show "accounts U s' pml4" using U n(6,9) ow unfolding accounts_def s' by auto
    show "untouched U s s'"
      unfolding s' using U t n(6,9) fl table_frame_loc [OF d(1) tf]
      by (intro untouched_touches [OF d(1) n(5)]) (auto simp: accounts_def)
  qed
  then show ?thesis by (simp add: extends_def)
qed

lemma alloc_accounts:
  fixes s :: "'a vmm_state_scheme"
  assumes ok: "pt_ok s pml4" and al: "pmm_alloc_frame s = (f, s')" "f \<noteq> 0" and U: "accounts U s pml4"
  shows "accounts (insert (frame_no f) U) s' pml4" "untouched U s s'" "frame_no f \<notin> U"
proof -
  note o = pt_okD [OF ok] and a = alloc_table_frame [OF pt_okD(1) [OF ok] al]
  have get: "table_get s' t j = table_get s t j" if "table_frame s t" "j < 512" for t j
    by (rule table_get_untouched [OF o(1) that a(4)]) simp
  have "owned_frames s' pml4 = owned_frames s pml4"
    using walk_untouched [OF get ok] alloc_data(2) [OF ok al] user_index by (intro owned_cong) auto
  then show "accounts (insert (frame_no f) U) s' pml4" "frame_no f \<notin> U" using U a(5,6) by (auto simp: accounts_def)
  show "untouched U s s'" using a(5) by (intro untouched_touches [OF o(1) a(4)]) auto
qed

text \<open>Entering a page of the others makes it a page of this address space.\<close>

lemma map_page_accounts:
  fixes s :: "'a vmm_state_scheme"
  assumes ok: "pt_ok s pml4" and fr: "3 \<le> free_frames s" and l: "leaf_of s pml4 virt = None"
    and v: "virt < USER_SPACE_END" and fl: "ENTRY_ADDR flags = 0" and r: "vmm_map_page_in pml4 virt phys flags s = s'"
    and U: "accounts U s pml4" and F: "frame_no (ENTRY_ADDR phys) \<in> U"
  shows "accounts (U - {frame_no (ENTRY_ADDR phys)}) s' pml4" "untouched U s s'"
proof -
  let ?a = "PML4_INDEX virt" and ?b = "PDPT_INDEX virt" and ?c = "PD_INDEX virt" and ?d = "PT_INDEX virt"
  let ?v = "(phys AND NOT 0xFFF) OR flags OR PAGE_PRESENT" and ?F = "frame_no (ENTRY_ADDR phys)"
  obtain pdpt s1 where n1: "next_level pml4 ?a True s = (pdpt, s1)" by fastforce
  obtain pd s2 where n2: "next_level pdpt ?b True s1 = (pd, s2)" by fastforce
  obtain pt s3 where n3: "next_level pd ?c True s2 = (pt, s3)" by fastforce
  note a = user_index_less [OF v]
  have huge: "leaf_of s pml4 virt \<noteq> Some (True, e)" for e using l by simp
  have w0: "walk s pml4 [] = Some pml4" and f1: "0 < free_frames s" using fr by simp_all
  note dl = descend_levels [OF ok fr n1 n2]
  note d = descend [OF ok fr huge n1 n2 n3]
  have e1: "extends pml4 s s1" using a by (intro next_level_extends [OF ok _ _ w0 index_less(1) _ f1 n1]) auto
  have e2: "extends pml4 s1 s2" using a by (intro next_level_extends [OF dl(1) _ _ dl(2) index_less(2) _ dl(3) n2]) auto
  have e3: "extends pml4 s2 s3" using a by (intro next_level_extends [OF dl(4) _ _ dl(5) index_less(3) _ dl(6) n3]) auto
  note e = extendsD [OF extends_trans [OF extends_trans [OF e1 e2] e3] U]
  have s': "s' = table_set pt ?d ?v s3" using r by (simp add: vmm_map_page_in_def n1 n2 n3)
  note w = leaf_write [OF d(1) index_less(1-4) [of virt] d(2), where v = ?v, folded s']
  note bits = map_entry_bits [OF fl, of phys]
  have i3: "idx [?a, ?b, ?c]" "length [?a, ?b, ?c] = 3" by simp_all
  have walk: "walk s' pml4 q = walk s3 pml4 q" if "idx q" "length q \<le> 3" for q
    unfolding s' by (rule table_set_walk [OF d(1) i3 d(2) index_less(4) that])
  have none: "leaf s3 pml4 ?a ?b ?c ?d = None" using d(3) l by simp
  have leaf: "leaf s' pml4 x y z u = Some (False, e') \<longleftrightarrow> (x, y, z, u) = (?a, ?b, ?c, ?d) \<and> e' = ?v \<or> leaf s3 pml4 x y z u = Some (False, e')"
    if "x < 256" "y < 512" "z < 512" "u < 512" for x y z u e'
    using w(2) [OF user_index [OF that(1)] that(2-4)] bits(2) none by auto
  define P where "P x y z u \<longleftrightarrow> x < 256 \<and> y < 512 \<and> z < 512 \<and> u < 512" for x y z u :: u64
  have P: "P ?a ?b ?c ?d" using a by (simp add: P_def)
  have "{frame_no (ENTRY_ADDR e) |e x y z u. P x y z u \<and> leaf s' pml4 x y z u = Some (False, e)} =
      insert ?F {frame_no (ENTRY_ADDR e) |e x y z u. P x y z u \<and> leaf s3 pml4 x y z u = Some (False, e)}"
    (is "?A = insert _ ?B")
  proof -
    have leaf': "leaf s' pml4 x y z u = Some (False, e') \<longleftrightarrow> (x, y, z, u) = (?a, ?b, ?c, ?d) \<and> e' = ?v \<or> leaf s3 pml4 x y z u = Some (False, e')"
      if "P x y z u" for x y z u e' using leaf that by (simp add: P_def)
    have "?A \<subseteq> insert ?F ?B" using leaf' bits(1) by fastforce
    moreover have "?B \<subseteq> ?A" using leaf' by blast
    moreover have "leaf s' pml4 ?a ?b ?c ?d = Some (False, ?v)" using leaf' [OF P] by simp
    then have "?F \<in> ?A" unfolding mem_Collect_eq using P bits(1) by metis
    ultimately show ?thesis by blast
  qed
  moreover have "{frame_no t |t p. idx p \<and> length p \<le> 3 \<and> user_path p \<and> walk s' pml4 p = Some t} =
      {frame_no t |t p. idx p \<and> length p \<le> 3 \<and> user_path p \<and> walk s3 pml4 p = Some t}" using walk by (simp cong: conj_cong)
  ultimately have "owned_frames s' pml4 = insert ?F (owned_frames s3 pml4)"
    unfolding owned_frames_def P_def by (simp add: conj_assoc)
  then show "accounts (U - {?F}) s' pml4" using e(1) F w(4) by (auto simp: accounts_def)
  have "frame_no pt \<in> owned_frames s3 pml4" using d(2) a by (intro owned_table [of "[?a, ?b, ?c]"]) auto
  moreover have "table_loc s3 pt" using table_frame_loc [OF pt_okD(1) [OF d(1)] pt_okD(2) [OF d(1) i3(1) _ d(2)]] by simp
  ultimately have "untouched U s3 s'"
    using e(1) w(4) by (intro untouched_touches [OF pt_okD(1) [OF d(1)] w(3)]) (auto simp: accounts_def)
  then show "untouched U s s'" by (rule untouched_trans [OF e(2)])
qed

text \<open>A new address space accounts for everything that was in use before.\<close>

lemma create_accounts:
  fixes s :: "'a vmm_state_scheme"
  assumes ok: "pt_ok s (kernel_pml4 s)" and fr: "0 < free_frames s" and r: "vmm_create_address_space s = (new, s')"
    and ow: "owned_frames s' new = {frame_no new}"
  shows "accounts (used_set s) s' new" "untouched (used_set s) s s'"
proof -
  note d = pt_okD [OF ok]
  have kf: "table_frame s (kernel_pml4 s)" using d(2) [of "[]"] by simp
  note c = create_tables [OF d(1) kf fr r]
  show "accounts (used_set s) s' new" using c(5,6) ow by (auto simp: accounts_def)
  have "table_loc s new" using table_frame_loc [OF c(1,2)] table_loc_touches [OF c(7)] by simp
  then show "untouched (used_set s) s s'" using c(5,6) by (intro untouched_touches [OF d(1) c(7)]) auto
qed

section \<open>Address spaces of others\<close>

text \<open>The tables of another address space among the frames of the others stay as they are.\<close>

lemma untouched_table_get:
  fixes s :: "'a vmm_state_scheme"
  assumes "mem_ok s" "untouched U s s'" "table_frame s t" "frame_no t \<in> U" "j < 512"
  shows "table_get s' t j = table_get s t j"
proof -
  have b: "unat t + 4096 \<le> 2 ^ 47" by (rule table_frame_bound [OF assms(1,3)])
  have same: "same_frame t s s'" using assms(2-4) by (simp add: untouched_def)
  have "load64 (ram s') (t + 8 * j) = load64 (ram s) (t + 8 * j)"
  proof (rule load64_cong)
    fix k :: u64 assume "k < 8"
    then obtain l where "l < 4096" "t + 8 * j + k = t + l" using slot_bytes [OF b assms(5)] by blast
    then show "ram s' (t + 8 * j + k) = ram s (t + 8 * j + k)" using same by (metis same_frame_def)
  qed
  then show ?thesis by (simp add: table_get_def slot_addr(1) [OF b assms(5)])
qed

lemma untouched_pt_ok:
  fixes s :: "'a vmm_state_scheme"
  assumes "pt_ok s p" "untouched (used_set s) s s'" "mem_ok s'"
  shows "pt_ok s' p" "leaf_of s' p v = leaf_of s p v"
proof -
  note o = pt_okD [OF assms(1)]
  have get: "table_get s' t j = table_get s t j" if "idx q" "length q \<le> 3" "walk s p q = Some t" "j < 512" for q t j
    using o(2) [OF that(1-3)] by (intro untouched_table_get [OF o(1) assms(2) _ _ that(4)]) (auto simp: table_frame_def)
  show "pt_ok s' p" using assms(2) by (intro pt_ok_cong [OF assms(1,3) _ get]) (auto simp: untouched_def table_frame_def)
  show "leaf_of s' p v = leaf_of s p v" by (rule leaf_cong [OF get]) simp_all
qed

lemma restored_mem_ok:
  assumes "mem_ok s" "untouched U s s'" "pmm_inv s'" "used_set s' = used_set s"
  shows "mem_ok s'"
  using assms by (simp add: mem_ok_def untouched_def)

text \<open>Giving up an address space returns exactly what it took.\<close>

lemma freed_untouched:
  fixes s :: "'a vmm_state_scheme"
  assumes ok: "pt_ok s pml4" and U: "accounts U s pml4" and f: "freed_from s pml4 n (owned_frames s pml4) k (r, s')"
  shows "untouched U s s'" "pmm_inv s'" "used_set s' = U"
proof -
  have ow: "frame_no pml4 \<in> owned_frames s pml4" by (rule owned_table [of "[]"]) simp_all
  show u: "used_set s' = U" "pmm_inv s'" using f U by (auto simp: accounts_def freed_from_def)
  note o = pt_okD [OF ok]
  have "table_loc s pml4" using table_frame_loc [OF o(1) o(2) [of "[]"]] by simp
  then show "untouched U s s'" using f u(1) ow U by (intro untouched_touches [OF o(1)]) (auto simp: accounts_def freed_from_def)
qed

lemma destroy_restores:
  fixes s :: "'a vmm_state_scheme"
  assumes ok: "pt_ok s pml4" "pages_in_ram s pml4" and U: "accounts U s pml4"
    and k: "frame_no (kernel_pml4 s) \<in> U" "frame_no (cr3 s AND 0x000FFFFFFFFFF000) \<in> U"
    and r: "vmm_destroy_address_space pml4 s = (n, s')"
  shows "untouched U s s'" "pmm_inv s'" "used_set s' = U"
proof -
  have "frame_no pml4 \<in> owned_frames s pml4" by (rule owned_table [of "[]"]) simp_all
  then have "pml4 \<noteq> kernel_pml4 s" "pml4 \<noteq> cr3 s AND 0x000FFFFFFFFFF000" using U k by (auto simp: accounts_def)
  from freed_untouched [OF ok(1) U destroy_result [OF ok this r]] show "untouched U s s'" "pmm_inv s'" "used_set s' = U" .
qed

section \<open>States that differ elsewhere\<close>

lemma switch_keeps [simp]:
  fixes s :: "'a vmm_state_scheme"
  shows "table_get (s\<lparr>cr3 := x\<rparr>) t i = table_get s t i" "used_set (s\<lparr>cr3 := x\<rparr>) = used_set s"
    "table_frame (s\<lparr>cr3 := x\<rparr>) = table_frame s" "mem_ok (s\<lparr>cr3 := x\<rparr>) = mem_ok s"
  by (simp_all add: table_get_def table_def used_set_def bitmap_test_def bm_byte_def table_frame_def mem_ok_def pmm_inv_def bm_ok_def fun_eq_iff)

lemma switch_walk [simp]: "walk (s\<lparr>cr3 := x\<rparr>) t p = walk s t p"
  by (induction p arbitrary: t) (simp_all add: walk.simps Let_def)

lemma switch_space [simp]:
  fixes s :: "'a vmm_state_scheme"
  shows "leaf (s\<lparr>cr3 := x\<rparr>) p a b c d = leaf s p a b c d" "pt_ok (s\<lparr>cr3 := x\<rparr>) p = pt_ok s p"
    "data_frame (s\<lparr>cr3 := x\<rparr>) p = data_frame s p" "owned_frames (s\<lparr>cr3 := x\<rparr>) p = owned_frames s p"
    "accounts U (s\<lparr>cr3 := x\<rparr>) p = accounts U s p" "untouched U s0 (s\<lparr>cr3 := x\<rparr>) = untouched U s0 s"
  by (simp_all add: leaf_def pt_ok_def data_frame_def owned_frames_def accounts_def untouched_def same_frame_def fun_eq_iff
      cong: option.case_cong)

lemma truncate_fields:
  fixes s :: "'a vmm_state_scheme"
  shows "bitmap (vmm_state.truncate s) = bitmap s" "bitmap_size (vmm_state.truncate s) = bitmap_size s"
    "total_frames (vmm_state.truncate s) = total_frames s" "ram (vmm_state.truncate s) = ram s"
    "used_frames (vmm_state.truncate s) = used_frames s"
  by (simp_all add: vmm_state.truncate_def)

lemma untouched_truncate:
  fixes s s' :: "'a vmm_state_scheme"
  assumes "vmm_state.truncate s' = vmm_state.truncate s"
  shows "untouched U s s0 = untouched U s' s0" "untouched U s0 s = untouched U s0 s'"
proof -
  have f: "bitmap s' = bitmap s" "bitmap_size s' = bitmap_size s" "total_frames s' = total_frames s" "ram s' = ram s"
    using truncate_fields(1-4) [of s] truncate_fields(1-4) [of s'] assms by simp_all
  have "table_frame s' = table_frame s" using vmm_truncate [of s] vmm_truncate [of s'] assms by simp
  then show "untouched U s s0 = untouched U s' s0" "untouched U s0 s = untouched U s0 s'"
    using f by (simp_all add: untouched_def same_frame_def)
qed

lemma pmm_inv_truncate:
  fixes s s' :: "'a vmm_state_scheme"
  assumes "vmm_state.truncate s' = vmm_state.truncate s"
  shows "pmm_inv s' = pmm_inv s"
proof -
  have "used_set s' = used_set s" by (rule vmm_cong(4) [OF assms])
  then show ?thesis using truncate_fields [of s] truncate_fields [of s'] assms by (simp add: pmm_inv_def bm_ok_def)
qed

end
