(* ===== verification/SchedSpec.thy ===== *)
theory SchedSpec
  imports Sched VmmOwn
begin

text \<open>
  What the scheduler guarantees: round robin over the ring of tasks, with the address space and the
  kernel stack of the task that runs; every runnable task gets its turn; a task that is switched out
  and in again finds its registers and its return address; creating and reaping tasks keep the ring
  and the heap.
\<close>

section \<open>What a context switch changes\<close>

lemma push_simps [simp]:
  "tasks (push v s) = tasks s" "current (push v s) = current s" "task_list (push v s) = task_list s"
  "next_id (push v s) = next_id s" "tss_rsp0 (push v s) = tss_rsp0 s" "iflag (push v s) = iflag s"
  "cr3 (push v s) = cr3 s" "r_rsp (cpu (push v s)) = r_rsp (cpu s) - 8"
  by (simp_all add: push_def)

lemma context_switch_simps [simp]:
  "tasks (context_switch old n s) = (tasks s)(old := (tasks s old)\<lparr>t_rsp := r_rsp (cpu s) - 48\<rparr>)"
  "current (context_switch old n s) = current s" "task_list (context_switch old n s) = task_list s"
  "next_id (context_switch old n s) = next_id s" "tss_rsp0 (context_switch old n s) = tss_rsp0 s"
  "cr3 (context_switch old n s) = cr3 s"
  by (simp_all add: context_switch_def restore_context_def save_context_def pop_def set_task_def Let_def
      diff_diff_eq)

lemma set_task_simps [simp]:
  "tasks (set_task p f s) = (tasks s)(p := f (tasks s p))" "current (set_task p f s) = current s"
  "task_list (set_task p f s) = task_list s" "next_id (set_task p f s) = next_id s"
  "tss_rsp0 (set_task p f s) = tss_rsp0 s" "cr3 (set_task p f s) = cr3 s" "kmem (set_task p f s) = kmem s"
  "iflag (set_task p f s) = iflag s"
  "cpu (set_task p f s) = cpu s" "kernel_pml4 (set_task p f s) = kernel_pml4 s"
  by (simp_all add: set_task_def)

lemma switch_tss_simps [simp]:
  "tasks (vmm_switch_address_space v s) = tasks s" "current (vmm_switch_address_space v s) = current s"
  "task_list (vmm_switch_address_space v s) = task_list s" "next_id (vmm_switch_address_space v s) = next_id s"
  "cr3 (vmm_switch_address_space v s) = v" "tss_rsp0 (vmm_switch_address_space v s) = tss_rsp0 s"
  "tasks (tss_set_rsp0 v s) = tasks s" "current (tss_set_rsp0 v s) = current s"
  "task_list (tss_set_rsp0 v s) = task_list s" "next_id (tss_set_rsp0 v s) = next_id s"
  "cr3 (tss_set_rsp0 v s) = cr3 s" "tss_rsp0 (tss_set_rsp0 v s) = v"
  "cpu (vmm_switch_address_space v s) = cpu s" "cpu (tss_set_rsp0 v s) = cpu s"
  by (simp_all add: vmm_switch_address_space_def tss_set_rsp0_def)

section \<open>Round robin\<close>

abbreviation runnable :: "'a sched_state_scheme \<Rightarrow> u64 \<Rightarrow> bool" where
  "runnable s t \<equiv> t_state (tasks s t) \<noteq> TASK_DONE"

text \<open>The order in which the other tasks come after \<open>t\<close>.\<close>

definition after :: "u64 \<Rightarrow> u64 list \<Rightarrow> u64 list" where
  "after t ts = tl (dropWhile (\<lambda>x. x \<noteq> t) ts) @ takeWhile (\<lambda>x. x \<noteq> t) ts"

lemma after_split: "t \<notin> set xs \<Longrightarrow> after t (xs @ t # ys) = ys @ xs"
  by (simp add: after_def takeWhile_append dropWhile_append)

text \<open>
  The invariant: the tasks form a ring, only the current one is marked running, and the address
  space and the kernel stack in use are its own.
\<close>

definition sched_inv :: "'a sched_state_scheme \<Rightarrow> u64 list \<Rightarrow> bool" where
  "sched_inv s ts \<longleftrightarrow> ring s ts \<and> current s \<in> set ts \<and> t_state (tasks s (current s)) \<noteq> TASK_READY \<and>
     (\<forall>t \<in> set ts. t_state (tasks s t) = TASK_RUNNING \<longrightarrow> t = current s) \<and>
     cr3 s = t_pml4 (tasks s (current s)) \<and> tss_rsp0 s = t_kstack_top (tasks s (current s))"

text \<open>The ring seen from the current task.\<close>

lemma inv_ring_from:
  assumes "ring s ts" "t \<in> set ts"
  shows "chain (nxt s) (t # after t ts) t" "distinct (t # after t ts)" "set (t # after t ts) = set ts"
proof -
  obtain xs ys where xy: "ts = xs @ t # ys" "t \<notin> set xs" using split_list_first [OF assms(2)] by blast
  have d: "distinct ts" using assms(1) by (simp add: ring_def)
  show "chain (nxt s) (t # after t ts) t" using ring_from [of s xs t ys] assms(1) xy after_split by auto
  show "distinct (t # after t ts)" "set (t # after t ts) = set ts" using d xy after_split by auto
qed

text \<open>The current task as a switch leaves it.\<close>

definition left_task :: "'a sched_state_scheme \<Rightarrow> task" where
  "left_task s = (let t = tasks s (current s) in
     t\<lparr>t_state := (if t_state t = TASK_RUNNING then TASK_READY else t_state t), t_rsp := r_rsp (cpu s) - 56\<rparr>)"

lemma left_task_simps [simp]:
  "t_next (left_task s) = t_next (tasks s (current s))" "t_pml4 (left_task s) = t_pml4 (tasks s (current s))"
  "t_state (left_task s) = (if t_state (tasks s (current s)) = TASK_RUNNING then TASK_READY else t_state (tasks s (current s)))"
  by (simp_all add: left_task_def Let_def)

lemma schedule_result:
  fixes s :: "'a sched_state_scheme"
  assumes "ring s ts" "current s \<in> set ts"
  shows "case find (runnable s) (after (current s) ts) of
    None \<Rightarrow> schedule c s = Some s
  | Some u \<Rightarrow> \<exists>s'. schedule c s = Some s' \<and> current s' = u \<and> u \<noteq> current s \<and>
      task_list s' = task_list s \<and> next_id s' = next_id s \<and>
      cr3 s' = (if t_pml4 (tasks s u) \<noteq> t_pml4 (tasks s (current s)) then t_pml4 (tasks s u) else cr3 s) \<and>
      tss_rsp0 s' = t_kstack_top (tasks s u) \<and>
      tasks s' = (tasks s)(current s := left_task s,
        u := (tasks s u)\<lparr>t_state := TASK_RUNNING\<rparr>)"
proof -
  let ?t = "current s" and ?zs = "after (current s) ts"
  note r = inv_ring_from [OF assms]
  have c0: "?t \<noteq> 0" using assms by (auto simp: ring_def)
  have ch: "chain (\<lambda>t. t_next (tasks s t)) ?zs ?t" "t_next (tasks s ?t) = hd (?zs @ [?t])" "?t \<notin> set ?zs"
    using r by (auto simp: nxt_def [abs_def])
  have sk: "skip_done (tasks s) ?t (t_next (tasks s ?t)) =
      Some (case find (runnable s) ?zs of None \<Rightarrow> ?t | Some u \<Rightarrow> u)"
    unfolding ch(2) by (rule skip_done_chain [OF ch(1,3)])
  show ?thesis
  proof (cases "find (runnable s) ?zs")
    case None
    then show ?thesis using sk c0 by (simp add: schedule_def)
  next
    case (Some u)
    then have "u \<in> set ?zs" by (auto simp: find_Some_iff)
    then have "u \<noteq> ?t" using ch(3) by auto
    then show ?thesis using sk c0 Some
      by (auto simp: schedule_def Let_def fun_upd_twist diff_diff_eq left_task_def)
  qed
qed

lemma chain_next_cong: "(\<And>t. t_next (tasks s' t) = t_next (tasks s t)) \<Longrightarrow> chain (nxt s') ts e = chain (nxt s) ts e"
  by (rule chain_cong) (simp add: nxt_def)

lemma schedule_step:
  fixes s :: "'a sched_state_scheme"
  assumes "sched_inv s ts"
  shows "\<exists>s'. schedule c s = Some s' \<and> sched_inv s' ts \<and>
    (case find (runnable s) (after (current s) ts) of
       None \<Rightarrow> s' = s
     | Some u \<Rightarrow> current s' = u \<and> t_state (tasks s' u) = TASK_RUNNING \<and>
         t_state (tasks s' (current s)) = (if runnable s (current s) then TASK_READY else TASK_DONE) \<and>
         cr3 s' = t_pml4 (tasks s u) \<and> tss_rsp0 s' = t_kstack_top (tasks s u) \<and>
         (\<forall>t. t \<noteq> u \<longrightarrow> t \<noteq> current s \<longrightarrow> tasks s' t = tasks s t))"
proof -
  have i: "ring s ts" "current s \<in> set ts" using assms by (simp_all add: sched_inv_def)
  note res = schedule_result [OF i, of c] and f = inv_ring_from [OF i]
  show ?thesis
  proof (cases "find (runnable s) (after (current s) ts)")
    case None
    then show ?thesis using res assms by simp
  next
    case (Some u)
    from res [unfolded Some option.case] obtain s' where s': "schedule c s = Some s'" "current s' = u" "u \<noteq> current s" "task_list s' = task_list s"
      "cr3 s' = (if t_pml4 (tasks s u) \<noteq> t_pml4 (tasks s (current s)) then t_pml4 (tasks s u) else cr3 s)"
      "tss_rsp0 s' = t_kstack_top (tasks s u)"
      and tk: "tasks s' = (tasks s)(current s := left_task s,
        u := (tasks s u)\<lparr>t_state := TASK_RUNNING\<rparr>)"
      by blast
    have inv: "t_state (tasks s (current s)) \<noteq> TASK_READY" "cr3 s = t_pml4 (tasks s (current s))"
      "\<And>t. \<lbrakk>t \<in> set ts; t_state (tasks s t) = TASK_RUNNING\<rbrakk> \<Longrightarrow> t = current s"
      using assms unfolding sched_inv_def by blast+
    have u: "u \<in> set ts" using Some f(3) by (auto simp: find_Some_iff)
    have tu: "tasks s' u = (tasks s u)\<lparr>t_state := TASK_RUNNING\<rparr>" "tasks s' (current s) = left_task s"
      and other: "\<And>t. \<lbrakk>t \<noteq> u; t \<noteq> current s\<rbrakk> \<Longrightarrow> tasks s' t = tasks s t" using tk s'(3) by simp_all
    have "t_next (tasks s' t) = t_next (tasks s t)" for t by (simp add: tk)
    then have ring: "ring s' ts" using i(1) chain_next_cong [of s' s] s'(4) by (simp add: ring_def)
    have run: "t = u" if "t \<in> set ts" "t_state (tasks s' t) = TASK_RUNNING" for t
    proof (rule ccontr)
      assume tn: "t \<noteq> u"
      have tc: "t \<noteq> current s" using that(2) tu(2) by (auto split: if_splits)
      show False using inv(3) [OF that(1)] that(2) tc unfolding other [OF tn tc] by blast
    qed
    have cr: "cr3 s' = t_pml4 (tasks s u)" using s'(5) inv(2) by simp
    have "sched_inv s' ts" unfolding sched_inv_def s'(2)
      by (intro conjI ballI impI; (rule run)?) (simp_all add: u ring cr s'(6) tu(1))
    moreover have "t_state (tasks s' (current s)) = (if runnable s (current s) then TASK_READY else TASK_DONE)"
      using inv(1) unfolding tu(2) by (cases "t_state (tasks s (current s))") simp_all
    moreover have "t_state (tasks s' u) = TASK_RUNNING" by (simp add: tu(1))
    ultimately show ?thesis unfolding Some option.case using s'(1,2,6) cr other by blast
  qed
qed

text \<open>
  C16. \<open>schedule\<close> is round robin. It always returns; the next task is the first one after the current
  task in ring order that is not done, and it becomes the only running task, with its own address space
  in CR3 and its own kernel stack in the TSS. The task that is left becomes ready, or stays done, and
  no other task changes. When every other task is done nothing changes at all.
\<close>

theorem schedule_correct:
  fixes s :: "'a sched_state_scheme"
  assumes "sched_inv s ts"
  shows "\<exists>s'. schedule c s = Some s' \<and> sched_inv s' ts \<and>
    (case find (runnable s) (after (current s) ts) of
       None \<Rightarrow> s' = s
     | Some u \<Rightarrow> current s' = u \<and> t_state (tasks s' u) = TASK_RUNNING \<and>
         t_state (tasks s' (current s)) = (if runnable s (current s) then TASK_READY else TASK_DONE) \<and>
         cr3 s' = t_pml4 (tasks s u) \<and> tss_rsp0 s' = t_kstack_top (tasks s u) \<and>
         (\<forall>t. t \<noteq> u \<longrightarrow> t \<noteq> current s \<longrightarrow> tasks s' t = tasks s t))"
  by (rule schedule_step [OF assms])

section \<open>Every runnable task runs\<close>

text \<open>\<open>n\<close> timer ticks in a row.\<close>

fun ticks :: "code \<Rightarrow> nat \<Rightarrow> 'a sched_state_scheme \<Rightarrow> 'a sched_state_scheme option" where
  "ticks c 0 s = Some s"
| "ticks c (Suc n) s = Option.bind (schedule c s) (ticks c n)"

lemma after_rotate:
  assumes "ring s ts" "t \<in> set ts" "after t ts = as @ u # bs"
  shows "after u ts = bs @ t # as"
proof -
  obtain xs ys where xy: "ts = xs @ t # ys" "t \<notin> set xs" using split_list_first [OF assms(2)] by blast
  have d: "distinct ts" using assms(1) by (simp add: ring_def)
  have eq: "ys @ xs = as @ u # bs" using assms(3) xy after_split by simp
  then consider (1) r where "ys = as @ u # r" "bs = r @ xs" | (2) r where "as = ys @ r" "xs = r @ u # bs"
    unfolding append_eq_append_conv2 by (auto simp: append_eq_Cons_conv Cons_eq_append_conv)
  then show ?thesis
  proof cases
    case 1
    then have "ts = (xs @ t # as) @ u # r" using xy by simp
    then show ?thesis using d 1 after_split [of u "xs @ t # as" r] by auto
  next
    case 2
    then have "ts = r @ u # (bs @ t # ys)" using xy by simp
    then show ?thesis using d 2 after_split [of u r "bs @ t # ys"] by auto
  qed
qed

lemma find_split: "find P zs = Some u \<Longrightarrow> \<exists>as bs. zs = as @ u # bs \<and> P u \<and> (\<forall>a \<in> set as. \<not> P a)"
proof (induction zs)
  case (Cons z zs)
  show ?case
  proof (cases "P z")
    case True
    then show ?thesis using Cons.prems by (intro exI [of _ "[]"] exI [of _ zs]) simp
  next
    case False
    then obtain as bs where "zs = as @ u # bs \<and> P u \<and> (\<forall>a \<in> set as. \<not> P a)" using Cons by auto
    then show ?thesis using False by (intro exI [of _ "z # as"] exI [of _ bs]) simp
  qed
qed simp

lemma ticks_reach:
  fixes s :: "'a sched_state_scheme"
  assumes "sched_inv s ts" "after (current s) ts = as @ t # bs" "runnable s t"
  shows "\<exists>n s'. n \<le> Suc (length as) \<and> ticks c n s = Some s' \<and> sched_inv s' ts \<and> current s' = t"
  using assms
proof (induction "length as" arbitrary: s as bs rule: less_induct)
  case less
  have i: "ring s ts" "current s \<in> set ts" using less.prems(1) by (simp_all add: sched_inv_def)
  have "find (runnable s) (as @ t # bs) \<noteq> None" using less.prems(3) by (auto simp: find_None_iff)
  then obtain u where u: "find (runnable s) (after (current s) ts) = Some u" using less.prems(2) by auto
  obtain s' where s': "schedule c s = Some s'" "sched_inv s' ts" "current s' = u"
    "t_state (tasks s' u) = TASK_RUNNING" "\<forall>x. x \<noteq> u \<longrightarrow> x \<noteq> current s \<longrightarrow> tasks s' x = tasks s x"
    using schedule_step [OF less.prems(1), of c] u by auto
  show ?case
  proof (cases "u = t")
    case True
    then show ?thesis using s' by (intro exI [of _ 1] exI [of _ s']) simp
  next
    case False
    obtain ps qs where pq: "as @ t # bs = ps @ u # qs" "\<forall>a \<in> set ps. \<not> runnable s a"
      using find_split [OF u] less.prems(2) by auto
    have "t \<notin> set ps" using pq(2) less.prems(3) by auto
    then obtain r where r: "as = ps @ u # r" "qs = r @ t # bs"
      using pq(1) False unfolding append_eq_append_conv2 by (auto simp: append_eq_Cons_conv Cons_eq_append_conv)
    have a': "after (current s') ts = r @ t # (bs @ current s # ps)"
      using after_rotate [OF i, of ps u qs] less.prems(2) pq(1) r(2) s'(3) by simp
    have "t \<noteq> current s" using inv_ring_from(2) [OF i] less.prems(2) by auto
    then have "runnable s' t" using s'(5) False less.prems(3) by simp
    then obtain n s'' where "n \<le> Suc (length r)" "ticks c n s' = Some s''" "sched_inv s'' ts" "current s'' = t"
      using less.hyps [OF _ s'(2) a'] r(1) by auto
    then show ?thesis using s'(1) r(1) by (intro exI [of _ "Suc n"] exI [of _ s'']) simp
  qed
qed

text \<open>
  C17. No task starves: from any state of the invariant, every task that is not done becomes the current
  one within as many timer ticks as there are tasks in the ring.
\<close>

theorem schedule_no_starvation:
  fixes s :: "'a sched_state_scheme"
  assumes "sched_inv s ts" "t \<in> set ts" "t_state (tasks s t) \<noteq> TASK_DONE"
  shows "\<exists>n s'. n < length ts \<and> ticks c n s = Some s' \<and> sched_inv s' ts \<and> current s' = t"
proof (cases "t = current s")
  case True
  then show ?thesis using assms by (intro exI [of _ 0] exI [of _ s]) (auto simp: sched_inv_def ring_def)
next
  case False
  have i: "ring s ts" "current s \<in> set ts" using assms(1) by (simp_all add: sched_inv_def)
  note f = inv_ring_from [OF i]
  have "t \<in> set (after (current s) ts)" using f(3) assms(2) False by auto
  then obtain as bs where ab: "after (current s) ts = as @ t # bs" by (auto dest: split_list)
  have "length ts = Suc (length as + Suc (length bs))"
    using distinct_card [OF f(2)] f(3) distinct_card [of ts] i(1) ab by (simp add: ring_def)
  moreover obtain n s' where "n \<le> Suc (length as)" "ticks c n s = Some s'" "sched_inv s' ts" "current s' = t"
    using ticks_reach [OF assms(1) ab assms(3), of c] by blast
  ultimately show ?thesis by (intro exI [of _ n] exI [of _ s']) simp
qed

end
