(* ===== verification/SchedTasks.thy ===== *)
theory SchedTasks
  imports SchedSpec
begin

text \<open>
  Tasks from creation to reaping: the initial stack frame and the saved one, the ring as tasks come
  and go, and the heap and page tables underneath.
\<close>

section \<open>Words on a stack\<close>

lemma push_words_all:
  "\<lbrakk>push_words vs sp m = (sp', m'); 8 * length vs < 2 ^ 60\<rbrakk> \<Longrightarrow>
   sp' = sp - of_nat (8 * length vs) \<and> (\<forall>i < length vs. load64 m' (sp' + of_nat (8 * i)) = rev vs ! i) \<and>
   (\<forall>x. 8 * length vs \<le> unat (x - sp') \<longrightarrow> m' x = m x)"
proof (induction vs arbitrary: sp m)
  case (Cons v vs)
  let ?l = "8 * length vs" and ?m = "store64 m (sp - 8) v"
  have p: "push_words vs (sp - 8) ?m = (sp', m')" "?l < 2 ^ 60" using Cons.prems by simp_all
  note IH = Cons.IH [OF p]
  have ul: "unat (of_nat ?l :: u64) = ?l" using p(2) by (intro unat_of_nat_small) simp
  have sp: "sp - 8 = sp' + of_nat ?l" using IH by simp
  have "m' (sp - 8 + k) = ?m (sp - 8 + k)" if "k < 8" for k
  proof -
    have d: "sp - 8 + k - sp' = of_nat ?l + k" by (simp add: sp)
    have "unat (of_nat ?l + k) = ?l + unat k"
      using p(2) that by (subst unat_add_nowrap) (simp_all only: ul, simp_all add: word_less_nat_alt)
    then have "?l \<le> unat (sp - 8 + k - sp')" unfolding d by simp
    then show ?thesis using IH by blast
  qed
  then have "load64 m' (sp - 8) = load64 ?m (sp - 8)" by (rule load64_cong)
  then have top: "load64 m' (sp' + of_nat ?l) = v" unfolding sp [symmetric] by simp
  have "load64 m' (sp' + of_nat (8 * i)) = rev (v # vs) ! i" if "i < length (v # vs)" for i
    using that IH top by (cases "i = length vs") (auto simp: nth_append)
  moreover have "m' x = m x" if x: "8 * length (v # vs) \<le> unat (x - sp')" for x
  proof -
    have d: "x - (sp - 8) = (x - sp') - of_nat ?l" by (simp add: sp)
    have "unat (x - (sp - 8)) = unat (x - sp') - ?l"
      unfolding d using x by (subst unat_sub) (simp_all only: word_le_nat_alt ul, simp)
    then have "8 \<le> unat (x - (sp - 8))" using x by simp
    then have "?m x = m x" by (simp add: store64_outside word_less_nat_alt)
    then show ?thesis using IH x by simp
  qed
  moreover have "sp' = sp - of_nat (8 * length (v # vs))" using sp by (simp add: algebra_simps)
  ultimately show ?case by blast
qed simp

lemma push_words_spec:
  assumes "push_words vs sp m = (sp', m')" "8 * length vs < 2 ^ 60"
  shows "sp' = sp - of_nat (8 * length vs)" "i < length vs \<Longrightarrow> load64 m' (sp' + of_nat (8 * i)) = rev vs ! i"
    "8 * length vs \<le> unat (x - sp') \<Longrightarrow> m' x = m x"
  using push_words_all [OF assms] by blast+

section \<open>Switching out and back in\<close>

lemma save_context_push:
  "push_words [r_rbp (cpu s), r_rbx (cpu s), r_r12 (cpu s), r_r13 (cpu s), r_r14 (cpu s), r_r15 (cpu s)]
     (r_rsp (cpu s)) (kmem s) = (r_rsp (cpu s) - 48, kmem (save_context s))"
  "r_rsp (cpu (save_context s)) = r_rsp (cpu s) - 48"
  by (simp_all add: save_context_def push_def Let_def diff_diff_eq)

text \<open>The frame a switch leaves on the stack: six registers below the return address.\<close>

lemma saved_frame:
  fixes s :: "'a sched_state_scheme"
  defines "b \<equiv> r_rsp (cpu s) - 48"
  shows "load64 (kmem (save_context s)) b = r_r15 (cpu s)" "load64 (kmem (save_context s)) (b + 8) = r_r14 (cpu s)"
    "load64 (kmem (save_context s)) (b + 16) = r_r13 (cpu s)" "load64 (kmem (save_context s)) (b + 24) = r_r12 (cpu s)"
    "load64 (kmem (save_context s)) (b + 32) = r_rbx (cpu s)" "load64 (kmem (save_context s)) (b + 40) = r_rbp (cpu s)"
    "load64 (kmem (save_context s)) (b + 48) = load64 (kmem s) (r_rsp (cpu s))"
    "48 \<le> unat (x - b) \<Longrightarrow> kmem (save_context s) x = kmem s x"
proof -
  note p = push_words_spec [OF save_context_push(1) [of s], folded b_def, simplified]
  show "load64 (kmem (save_context s)) b = r_r15 (cpu s)" using p(2) [of 0] by simp
  show "load64 (kmem (save_context s)) (b + 8) = r_r14 (cpu s)" using p(2) [of 1] by simp
  show "load64 (kmem (save_context s)) (b + 16) = r_r13 (cpu s)" using p(2) [of 2] by (simp add: numeral_2_eq_2)
  show "load64 (kmem (save_context s)) (b + 24) = r_r12 (cpu s)" using p(2) [of 3] by (simp add: numeral_3_eq_3)
  show "load64 (kmem (save_context s)) (b + 32) = r_rbx (cpu s)" using p(2) [of 4] by (simp add: eval_nat_numeral)
  show "load64 (kmem (save_context s)) (b + 40) = r_rbp (cpu s)" using p(2) [of 5] by (simp add: eval_nat_numeral)
  show out: "kmem (save_context s) x = kmem s x" if "48 \<le> unat (x - b)" for x using p(3) that by simp
  have "load64 (kmem (save_context s)) (b + 48) = load64 (kmem s) (b + 48)"
  proof (rule load64_cong, rule out)
    fix k :: u64 assume "k < 8"
    then have "unat (48 + k) = 48 + unat k" by (subst unat_add_nowrap) (simp_all add: word_less_nat_alt)
    then show "48 \<le> unat (b + 48 + k - b)" by (simp add: add.assoc)
  qed
  then show "load64 (kmem (save_context s)) (b + 48) = load64 (kmem s) (r_rsp (cpu s))" by (simp add: b_def)
qed

lemma context_switch_cpu:
  "cpu (context_switch old n s) = (let m = kmem (save_context s) in
     \<lparr>r_rsp = n + 56, r_rbp = load64 m (n + 40), r_rbx = load64 m (n + 32), r_r12 = load64 m (n + 24),
      r_r13 = load64 m (n + 16), r_r14 = load64 m (n + 8), r_r15 = load64 m n, r_rip = load64 m (n + 48)\<rparr>)"
  "kmem (context_switch old n s) = kmem (save_context s)"
proof -
  have c: "cpu (restore_context s') = (let m = kmem s'; n = r_rsp (cpu s') in
     \<lparr>r_rsp = n + 56, r_rbp = load64 m (n + 40), r_rbx = load64 m (n + 32), r_r12 = load64 m (n + 24),
      r_r13 = load64 m (n + 16), r_r14 = load64 m (n + 8), r_r15 = load64 m n, r_rip = load64 m (n + 48)\<rparr>)"
    "kmem (restore_context s') = kmem s'" for s' :: "'a sched_state_scheme"
    by (cases "cpu s'"; simp add: restore_context_def pop_def Let_def add.assoc)+
  show "cpu (context_switch old n s) = (let m = kmem (save_context s) in
     \<lparr>r_rsp = n + 56, r_rbp = load64 m (n + 40), r_rbx = load64 m (n + 32), r_r12 = load64 m (n + 24),
      r_r13 = load64 m (n + 16), r_r14 = load64 m (n + 8), r_r15 = load64 m n, r_rip = load64 m (n + 48)\<rparr>)"
    "kmem (context_switch old n s) = kmem (save_context s)"
    by (simp_all add: context_switch_def c Let_def)
qed

text \<open>
  C20. A task that is switched out resumes where it was. Let task \<open>p\<close> be switched out in state \<open>s\<close>, and
  let any state \<open>s'\<close> be reached later in which the 56 bytes of the frame and the stack pointer saved for
  \<open>p\<close> are as the switch left them. When some other task, whose stack does not run into that frame, switches
  back to \<open>p\<close>, every saved register has the value it had, the stack pointer is just above the return
  address, and execution continues at that return address.
\<close>

theorem context_switch_resumes:
  fixes s s' :: "'a sched_state_scheme"
  assumes f_def: "f = t_rsp (tasks (context_switch p n s) p)" and "t_rsp (tasks s' p) = f"
    and "\<forall>k < 56. kmem s' (f + k) = kmem (context_switch p n s) (f + k)"
    and "\<forall>k < 56. 48 \<le> unat (f + k - (r_rsp (cpu s') - 48))"
  shows "cpu (context_switch q (t_rsp (tasks s' p)) s') =
    (cpu s)\<lparr>r_rsp := r_rsp (cpu s) + 8, r_rip := load64 (kmem s) (r_rsp (cpu s))\<rparr>"
proof -
  have f: "f = r_rsp (cpu s) - 48" by (simp add: f_def)
  have same: "kmem (save_context s') (f + k) = kmem (save_context s) (f + k)" if "k < 56" for k
    using saved_frame(8) [where s = s' and x = "f + k"] assms(3,4) that by (simp add: context_switch_cpu(2))
  have ld: "load64 (kmem (save_context s')) (f + j) = load64 (kmem (save_context s)) (f + j)" if "unat j \<le> 48" for j
  proof (rule load64_cong)
    fix k :: u64 assume k: "k < 8"
    then have "unat (j + k) = unat j + unat k"
      using that by (subst unat_add_nowrap) (simp_all add: word_less_nat_alt)
    then show "kmem (save_context s') (f + j + k) = kmem (save_context s) (f + j + k)"
      using same [of "j + k"] k that by (simp add: add.assoc word_less_nat_alt)
  qed
  note fr = saved_frame [where s = s, folded f]
  show ?thesis unfolding context_switch_cpu assms(2) Let_def
    using ld [of 0] ld [of 8] ld [of 16] ld [of 24] ld [of 32] ld [of 40] ld [of 48] fr
    by (cases "cpu s") (simp add: f)
qed

section \<open>Writing into an allocation\<close>

text \<open>What the heap invariant looks at.\<close>

lemma heap_cong:
  assumes "kmem s' = kmem s" "heap_head s' = heap_head s" "heap_end s' = heap_end s"
  shows "heap_rep s' bs = heap_rep s bs" "heap_ok s' = heap_ok s" "live s' = live s"
  using assms by (simp_all add: heap_rep_def heap_ok_def live_def)

lemma live_block:
  assumes "heap_rep s bs" "live s p = Some z"
  shows "\<exists>b \<in> set bs. \<not> bk_free b \<and> p = bk_addr b + 32 \<and> z = bk_size b \<and> unat p = unat (bk_addr b) + 32"
proof -
  note r = heap_repD [OF assms(1)]
  have e: "unat (heap_end s) < 2 ^ 64" by simp
  show ?thesis using assms(2) live_rep [OF assms(1)] live_of_Some [OF r(2) e] block_ends [OF r(2) e] by auto
qed

lemma live_bounds:
  assumes "heap_ok s" "live s p = Some z"
  shows "unat p + unat z < 2 ^ 64" "32 \<le> unat p"
proof -
  obtain bs where bs: "heap_rep s bs" using assms(1) by (auto simp: heap_ok_def)
  obtain b where b: "b \<in> set bs" "unat p = unat (bk_addr b) + 32" "z = bk_size b"
    using live_block [OF bs assms(2)] by blast
  have "unat (heap_end s) < 2 ^ 64" by simp
  then show "unat p + unat z < 2 ^ 64" "32 \<le> unat p"
    unfolding b(2,3) using tiles_range [OF heap_repD(2) [OF bs] b(1)] by linarith+
qed

text \<open>A write that stays inside a live region changes no header.\<close>

lemma payload_rep:
  fixes s :: "'a heap_state_scheme"
  assumes "heap_rep s bs" "live s p = Some z"
    and "\<And>x. m x \<noteq> kmem s x \<Longrightarrow> unat p \<le> unat x \<and> unat x < unat p + unat z"
  shows "heap_rep (s\<lparr>kmem := m\<rparr>) bs"
proof -
  obtain b where b: "b \<in> set bs" "unat p = unat (bk_addr b) + 32" "z = bk_size b"
    using live_block [OF assms(1,2)] by blast
  note t = heap_repD(2) [OF assms(1)]
  have e: "unat (heap_end s) < 18446744073709551616" by (rule unat_lt_64)
  have "hdr m (bk_addr c) = hdr (kmem s) (bk_addr c)" if c: "c \<in> set bs" for c
  proof (rule hdr_cong)
    fix k :: u64 assume k: "unat k < 32"
    have u: "unat (bk_addr c + k) = unat (bk_addr c) + unat k"
      using tiles_range [OF t c] e k by (intro unat_add_nowrap) linarith
    have "\<not> (unat p \<le> unat (bk_addr c + k) \<and> unat (bk_addr c + k) < unat p + unat z)"
      using tiles_disjoint [OF t b(1) c] k b(2,3) u by (cases "c = b") auto
    then show "m (bk_addr c + k) = kmem s (bk_addr c + k)" using assms(3) by blast
  qed
  then have "dll m 0 bs 0 = dll (kmem s) 0 bs 0" by (intro dll_cong) simp
  then show ?thesis using assms(1) by (simp add: heap_rep_def)
qed

lemma payload_write:
  fixes s :: "'a heap_state_scheme"
  assumes "heap_ok s" "live s p = Some z"
    and "\<And>x. m x \<noteq> kmem s x \<Longrightarrow> unat p \<le> unat x \<and> unat x < unat p + unat z"
  shows "heap_ok (s\<lparr>kmem := m\<rparr>)" "live (s\<lparr>kmem := m\<rparr>) = live s"
proof -
  obtain bs where bs: "heap_rep s bs" "coalesced bs" using assms(1) by (auto simp: heap_ok_def)
  have rep: "heap_rep (s\<lparr>kmem := m\<rparr>) bs" by (rule payload_rep [OF bs(1) assms(2,3)])
  then show "heap_ok (s\<lparr>kmem := m\<rparr>)" using bs(2) by (auto simp: heap_ok_def)
  show "live (s\<lparr>kmem := m\<rparr>) = live s" using live_rep [OF rep] live_rep [OF bs(1)] by simp
qed

lemma kmalloc_kmem: "kmalloc n s = Some (p, s') \<Longrightarrow> s' = s\<lparr>kmem := kmem s'\<rparr>"
  by (auto simp: kmalloc_def Let_def bind_eq_Some_conv split: if_splits)

lemma kfree_kmem: "kfree p s = s\<lparr>kmem := kmem (kfree p s)\<rparr>"
  by (simp add: kfree_def Let_def)

text \<open>A freshly allocated stack, its top, and the nine words at its top.\<close>

lemma new_stack:
  fixes s :: "'a sched_state_scheme"
  assumes "heap_ok s" "live s stk = Some z" "16384 \<le> unat z" "length vs = 9"
    and "push_words vs (stack_top stk) (kmem s) = (sp, m)"
  shows "sp = stack_top stk - 72" "unat (stack_top stk) mod 16 = 0" "heap_ok (s\<lparr>kmem := m\<rparr>)"
    "live (s\<lparr>kmem := m\<rparr>) = live s" "i < 9 \<Longrightarrow> load64 m (sp + of_nat (8 * i)) = rev vs ! i"
proof -
  note pw = push_words_spec [OF assms(5)] and b = live_bounds [OF assms(1,2)]
  have "unat (stk + STACK_SIZE) = unat stk + 16384"
    unfolding STACK_SIZE_def using b assms(3) by (subst unat_add_nowrap) simp_all
  then have top: "unat (stack_top stk) = (unat stk + 16384) div 16 * 16"
    using unat_and_not_mask [of "stk + STACK_SIZE" 4] by (simp add: stack_top_def mask_eq_exp_minus_1)
  then show "unat (stack_top stk) mod 16 = 0" by simp
  show sp: "sp = stack_top stk - 72" using pw(1) assms(4) by simp
  have tb: "unat stk + 16369 \<le> unat (stack_top stk)" "unat (stack_top stk) \<le> unat stk + 16384"
    unfolding top by linarith+
  then have usp: "unat sp = unat (stack_top stk) - 72"
    unfolding sp by (subst unat_sub) (simp_all add: word_le_nat_alt)
  show "load64 m (sp + of_nat (8 * i)) = rev vs ! i" if "i < 9" using pw(2) assms(4) that by simp
  have w: "unat stk \<le> unat x \<and> unat x < unat stk + unat z" if "m x \<noteq> kmem s x" for x
  proof -
    have lt: "unat (x - sp) < 72" using pw(3) [of x] that assms(4) by force
    have "unat sp + unat (x - sp) < 2 ^ 64" using lt usp tb b assms(3) by linarith
    then have "unat (sp + (x - sp)) = unat sp + unat (x - sp)" by (intro unat_add_nowrap) simp
    then have "unat x = unat sp + unat (x - sp)" by simp
    then show ?thesis using lt usp tb assms(3) by linarith
  qed
  show "heap_ok (s\<lparr>kmem := m\<rparr>)" "live (s\<lparr>kmem := m\<rparr>) = live s"
    by (rule payload_write [OF assms(1,2) w]; assumption)+
qed

section \<open>Creating a task\<close>

text \<open>A change of ring that keeps the current task and what is recorded of those that remain.\<close>

lemma sched_inv_cong:
  assumes "sched_inv s ts" "ring s' us" "set us \<subseteq> set ts" "current s \<in> set us"
    and "current s' = current s" "cr3 s' = cr3 s" "tss_rsp0 s' = tss_rsp0 s"
    and same: "\<And>x. x \<in> set us \<Longrightarrow> t_state (tasks s' x) = t_state (tasks s x) \<and>
      t_pml4 (tasks s' x) = t_pml4 (tasks s x) \<and> t_kstack_top (tasks s' x) = t_kstack_top (tasks s x)"
  shows "sched_inv s' us"
proof -
  have i: "t_state (tasks s (current s)) \<noteq> TASK_READY" "cr3 s = t_pml4 (tasks s (current s))"
    "tss_rsp0 s = t_kstack_top (tasks s (current s))"
    "\<And>x. \<lbrakk>x \<in> set ts; t_state (tasks s x) = TASK_RUNNING\<rbrakk> \<Longrightarrow> x = current s"
    using assms(1) unfolding sched_inv_def by blast+
  have run: "x = current s" if "x \<in> set us" "t_state (tasks s' x) = TASK_RUNNING" for x
    using i(4) [of x] same [OF that(1)] that assms(3) by auto
  show ?thesis unfolding sched_inv_def assms(5-7)
    by (intro conjI ballI impI; (rule run)?) (use assms(2,4) i(1-3) same [OF assms(4)] in simp_all)
qed

declare push_words.simps [simp del]

lemma chain_upd: "x \<notin> set xs \<Longrightarrow> chain (f(x := y)) xs e = chain f xs e"
  by (rule chain_cong) auto

lemma append_ring:
  fixes s :: "'a sched_state_scheme"
  assumes "ring s ts" "t \<notin> set ts" "t \<noteq> 0"
  shows "\<exists>s'. task_append t s = Some s' \<and> ring s' (ts @ [t]) \<and> s' = s\<lparr>tasks := tasks s'\<rparr> \<and>
    tasks s' = (tasks s)(last ts := (tasks s (last ts))\<lparr>t_next := t\<rparr>, t := (tasks s t)\<lparr>t_next := task_list s\<rparr>)"
proof -
  have r: "ts \<noteq> []" "hd ts = task_list s" "distinct ts" "0 \<notin> set ts" "chain (nxt s) ts (task_list s)"
    using assms(1) by (auto simp: ring_def)
  obtain us l where ts: "ts = us @ [l]" using r(1) by (metis rev_exhaust)
  have "list_tail (tasks s) (task_list s) (hd ts) = Some (last ts)"
  proof (rule list_tail_chain)
    show "chain (\<lambda>t. t_next (tasks s t)) ts (task_list s)" using r(5) by (simp add: nxt_def [abs_def])
    show "task_list s \<notin> set (tl ts)" using r(1,2,3) by (cases ts) auto
  qed (rule r(1))
  then have lt: "list_tail (tasks s) (task_list s) (task_list s) = Some l" using r(2) ts by simp
  define s' where "s' = set_task t (\<lambda>x. x\<lparr>t_next := task_list s\<rparr>) (set_task l (\<lambda>x. x\<lparr>t_next := t\<rparr>) s)"
  have tl: "t \<noteq> l" "l \<notin> set us" "t \<notin> set us" using assms(2) r(3) ts by auto
  have n: "nxt s' = (nxt s)(l := t, t := task_list s)" using tl by (auto simp: s'_def nxt_def fun_eq_iff)
  have "chain (nxt s') us l" unfolding n using r(5) tl ts by (simp add: chain_upd)
  then have "chain (nxt s') (ts @ [t]) (task_list s)" using n tl by (simp add: ts)
  then have "ring s' (ts @ [t])" using r assms ts by (auto simp: ring_def s'_def hd_append)
  moreover have "task_append t s = Some s'" using lt by (simp add: task_append_def s'_def Let_def)
  moreover have "s' = s\<lparr>tasks := tasks s'\<rparr>" by (simp add: s'_def set_task_def)
  moreover have "tasks s' = (tasks s)(last ts := (tasks s (last ts))\<lparr>t_next := t\<rparr>,
      t := (tasks s t)\<lparr>t_next := task_list s\<rparr>)" using tl by (simp add: s'_def ts)
  ultimately show ?thesis by blast
qed

text \<open>A ready task joins the ring; the running one is not disturbed.\<close>

lemma append_inv:
  fixes s :: "'a sched_state_scheme"
  assumes "sched_inv s ts" "t \<notin> set ts" "t \<noteq> 0" "t_state (tasks s t) = TASK_READY"
  shows "\<exists>s'. task_append t s = Some s' \<and> sched_inv s' (ts @ [t]) \<and> s' = s\<lparr>tasks := tasks s'\<rparr> \<and>
    tasks s' t = (tasks s t)\<lparr>t_next := task_list s\<rparr> \<and>
    (\<forall>x. x \<noteq> t \<longrightarrow> (\<exists>n. tasks s' x = (tasks s x)\<lparr>t_next := n\<rparr>))"
proof -
  have i: "ring s ts" "current s \<in> set ts" "t_state (tasks s (current s)) \<noteq> TASK_READY"
    "\<And>x. \<lbrakk>x \<in> set ts; t_state (tasks s x) = TASK_RUNNING\<rbrakk> \<Longrightarrow> x = current s"
    "cr3 s = t_pml4 (tasks s (current s))" "tss_rsp0 s = t_kstack_top (tasks s (current s))"
    using assms(1) unfolding sched_inv_def by blast+
  obtain s' where s': "task_append t s = Some s'" "ring s' (ts @ [t])" "s' = s\<lparr>tasks := tasks s'\<rparr>"
    "tasks s' = (tasks s)(last ts := (tasks s (last ts))\<lparr>t_next := t\<rparr>, t := (tasks s t)\<lparr>t_next := task_list s\<rparr>)"
    using append_ring [OF i(1) assms(2,3)] by blast
  have tl: "t \<noteq> last ts" using assms(2) i(1) by (auto simp: ring_def)
  have keep: "\<exists>n. tasks s' x = (tasks s x)\<lparr>t_next := n\<rparr>" for x
  proof (cases "x = last ts \<or> x = t")
    case False
    then have "tasks s' x = (tasks s x)\<lparr>t_next := t_next (tasks s x)\<rparr>" using s'(4) by simp
    then show ?thesis ..
  qed (use s'(4) tl in auto)
  have st: "t_state (tasks s' x) = t_state (tasks s x)" "t_pml4 (tasks s' x) = t_pml4 (tasks s x)"
    "t_kstack_top (tasks s' x) = t_kstack_top (tasks s x)" for x using keep [of x] by auto
  have f: "current s' = current s" "cr3 s' = cr3 s" "tss_rsp0 s' = tss_rsp0 s" by (subst s'(3), simp)+
  have run: "x = current s" if "x \<in> set (ts @ [t])" "t_state (tasks s x) = TASK_RUNNING" for x
    using that i(4) assms(4) by auto
  have "sched_inv s' (ts @ [t])" unfolding sched_inv_def f st
    by (intro conjI ballI impI; (rule s'(2) | rule run)?) (use i(2,3,5,6) in simp_all)
  moreover have "tasks s' t = (tasks s t)\<lparr>t_next := task_list s\<rparr>" by (simp add: s'(4))
  ultimately show ?thesis using s'(1,3) keep by blast
qed

text \<open>The two allocations every new task begins with.\<close>

lemma task_allocs:
  fixes s :: "'a sched_state_scheme"
  assumes "heap_ok s" "kmalloc TASK_SIZE s = Some (t, s1)" "t \<noteq> 0" "kmalloc STACK_SIZE s1 = Some (stk, s2)" "stk \<noteq> 0"
  shows "live s t = None" "live s stk = None" "stk \<noteq> t" "heap_ok s2" "s2 = s\<lparr>kmem := kmem s2\<rparr>"
    "\<exists>y z. 48 \<le> unat y \<and> 16384 \<le> unat z \<and> live s2 = (live s)(t \<mapsto> y, stk \<mapsto> z)"
proof -
  have n: "unat TASK_SIZE + 7 < 2 ^ 64" "unat STACK_SIZE + 7 < 2 ^ 64" by (simp_all add: TASK_SIZE_def STACK_SIZE_def)
  have ok1: "heap_ok s1" by (rule kheap.alloc_inv [OF assms(1,2)])
  obtain y where y: "live s t = None" "48 \<le> unat y" "live s1 = (live s)(t \<mapsto> y)"
    using kheap.alloc_region [OF assms(1,2,3) n(1)] by (auto simp: TASK_SIZE_def)
  obtain z where z: "live s1 stk = None" "16384 \<le> unat z" "live s2 = (live s1)(stk \<mapsto> z)"
    using kheap.alloc_region [OF ok1 assms(4,5) n(2)] by (auto simp: STACK_SIZE_def)
  show "live s t = None" by (rule y(1))
  show st: "stk \<noteq> t" using z(1) y(3) by auto
  show "live s stk = None" using z(1) y(3) st by simp
  show "heap_ok s2" by (rule kheap.alloc_inv [OF ok1 assms(4)])
  show "s2 = s\<lparr>kmem := kmem s2\<rparr>"
    by (subst kmalloc_kmem [OF assms(4)], subst kmalloc_kmem [OF assms(2)], simp)
  show "\<exists>y z. 48 \<le> unat y \<and> 16384 \<le> unat z \<and> live s2 = (live s)(t \<mapsto> y, stk \<mapsto> z)"
    using y(2,3) z(2,3) by auto
qed

text \<open>What both ways of creating a task guarantee, with \<open>frame\<close> the nine words on the new stack.\<close>

definition new_task_ok ::
  "'a sched_state_scheme \<Rightarrow> u64 list \<Rightarrow> u64 \<Rightarrow> u64 \<Rightarrow> u64 \<Rightarrow> u64 list \<Rightarrow> 'a sched_state_scheme \<Rightarrow> bool" where
  "new_task_ok s ts t stk pml4 frame s' \<longleftrightarrow> t \<notin> set ts \<and> sched_inv s' (ts @ [t]) \<and> heap_ok s' \<and>
     current s' = current s \<and> cr3 s' = cr3 s \<and> (\<exists>y z. 48 \<le> unat y \<and> 16384 \<le> unat z \<and> live s' = (live s)(t \<mapsto> y, stk \<mapsto> z)) \<and>
     tasks s' t = \<lparr>t_rsp = stack_top stk - 72, t_stack_base = stk, t_pml4 = pml4, t_kstack_top = stack_top stk,
       t_id = next_id s, t_state = TASK_READY, t_next = task_list s\<rparr> \<and>
     next_id s' = next_id s + 1 \<and> unat (stack_top stk) mod 16 = 0 \<and>
     heap_head s' = heap_head s \<and> heap_end s' = heap_end s \<and>
     (\<forall>x. x \<noteq> t \<longrightarrow> (\<exists>n. tasks s' x = (tasks s x)\<lparr>t_next := n\<rparr>)) \<and>
     (\<forall>i < 9. load64 (kmem s') (t_rsp (tasks s' t) + of_nat (8 * i)) = frame ! i)"

lemma new_task_okD:
  assumes "new_task_ok s ts t stk pml4 frame s'"
  shows "t \<notin> set ts" "sched_inv s' (ts @ [t])" "heap_ok s'" "current s' = current s" "cr3 s' = cr3 s"
    "t_stack_base (tasks s' t) = stk" "t_pml4 (tasks s' t) = pml4" "t_state (tasks s' t) = TASK_READY"
    "\<exists>y z. live s' = (live s)(t \<mapsto> y, stk \<mapsto> z)" "heap_head s' = heap_head s" "heap_end s' = heap_end s"
    "x \<noteq> t \<Longrightarrow> \<exists>n. tasks s' x = (tasks s x)\<lparr>t_next := n\<rparr>"
  using assms by (auto simp: new_task_ok_def)

lemma create_common:
  fixes s s3 :: "'a sched_state_scheme"
  assumes inv: "sched_inv s ts" "heap_ok s" "\<forall>x \<in> set ts. live s x \<noteq> None"
    and al: "kmalloc TASK_SIZE s = Some (t, s1)" "t \<noteq> 0" "kmalloc STACK_SIZE s1 = Some (stk, s2)" "stk \<noteq> 0"
    and m: "push_words vs (stack_top stk) (kmem s2) = (sp, m)" "length vs = 9"
    and s3: "kmem s3 = m" "heap_head s3 = heap_head s" "heap_end s3 = heap_end s" "current s3 = current s"
      "task_list s3 = task_list s" "cr3 s3 = cr3 s" "tss_rsp0 s3 = tss_rsp0 s" "next_id s3 = next_id s + 1"
      "\<And>x. x \<noteq> t \<Longrightarrow> tasks s3 x = tasks s x"
      "tasks s3 t = \<lparr>t_rsp = sp, t_stack_base = stk, t_pml4 = pml4, t_kstack_top = stack_top stk,
         t_id = next_id s, t_state = TASK_READY, t_next = nx\<rparr>"
  shows "\<exists>s'. task_append t s3 = Some s' \<and> s' = s3\<lparr>tasks := tasks s'\<rparr> \<and> new_task_ok s ts t stk pml4 (rev vs) s'"
proof -
  note a = task_allocs [OF inv(2) al]
  obtain y z where yz: "48 \<le> unat y" "16384 \<le> unat z" "live s2 = (live s)(t \<mapsto> y, stk \<mapsto> z)" using a(6) by blast
  have "live s2 stk = Some z" using yz(3) by simp
  note st = new_stack [OF a(4) this yz(2) m(2,1)]
  have h2: "heap_head s2 = heap_head s" "heap_end s2 = heap_end s" by (subst a(5), simp)+
  have h3: "heap_ok s3" "live s3 = (live s)(t \<mapsto> y, stk \<mapsto> z)"
    using heap_cong [of s3 "s2\<lparr>kmem := m\<rparr>"] st(3,4) s3(1,2,3) h2 yz(3) by simp_all
  have t: "t \<notin> set ts" using a(1) inv(3) by auto
  have i: "current s \<in> set ts" "ring s ts" using inv(1) by (simp_all add: sched_inv_def)
  have same: "tasks s3 x = tasks s x" if "x \<in> set ts" for x by (rule s3(9)) (use that t in auto)
  have "chain (nxt s3) ts e = chain (nxt s) ts e" for e by (rule chain_cong) (simp add: nxt_def same)
  then have r: "ring s3 ts" using i(2) s3(5) by (simp add: ring_def)
  have inv3: "sched_inv s3 ts"
    by (rule sched_inv_cong [OF inv(1) r subset_refl i(1) s3(4,6,7)]) (simp add: same)
  have "t_state (tasks s3 t) = TASK_READY" by (simp add: s3(10))
  from append_inv [OF inv3 t al(2) this] obtain s' where s': "task_append t s3 = Some s'" "sched_inv s' (ts @ [t])"
    "s' = s3\<lparr>tasks := tasks s'\<rparr>" "tasks s' t = (tasks s3 t)\<lparr>t_next := task_list s3\<rparr>"
    "\<And>x. x \<noteq> t \<Longrightarrow> \<exists>n. tasks s' x = (tasks s3 x)\<lparr>t_next := n\<rparr>" by blast
  have hs: "kmem s' = kmem s3" "heap_head s' = heap_head s3" "heap_end s' = heap_end s3" "next_id s' = next_id s3"
    "current s' = current s3" "cr3 s' = cr3 s3" by (subst s'(3), simp)+
  have f: "kmem s' = m" "heap_ok s'" "live s' = (live s)(t \<mapsto> y, stk \<mapsto> z)" "next_id s' = next_id s + 1"
    using heap_cong [OF hs(1-3)] h3 s3(1,8) hs(1,4) by simp_all
  have "new_task_ok s ts t stk pml4 (rev vs) s'"
    unfolding new_task_ok_def
  proof (intro conjI allI impI)
    show "\<exists>y z. 48 \<le> unat y \<and> 16384 \<le> unat z \<and> live s' = (live s)(t \<mapsto> y, stk \<mapsto> z)"
      using yz(1,2) f(3) by blast
    show "\<exists>n. tasks s' x = (tasks s x)\<lparr>t_next := n\<rparr>" if "x \<noteq> t" for x
      using s'(5) [OF that] unfolding s3(9) [OF that] .
    show "load64 (kmem s') (t_rsp (tasks s' t) + of_nat (8 * i)) = rev vs ! i" if "i < 9" for i
      using st(5) [OF that] f(1) s'(4) s3(10) by simp
  qed (use t s'(2,4) f(2,4) s3(2-6,10) hs(2,3,5,6) st(1,2) in simp_all)
  then show ?thesis using s'(1,3) by blast
qed

lemma task_create_user_result:
  fixes s :: "'a sched_state_scheme"
  assumes "sched_inv s ts" "heap_ok s" "\<forall>x \<in> set ts. live s x \<noteq> None"
    and "kmalloc TASK_SIZE s = Some (t, s1)" "t \<noteq> 0" "kmalloc STACK_SIZE s1 = Some (stk, s2)" "stk \<noteq> 0"
  shows "\<exists>s'. task_create_user c entry pml4 ustk s = Some (t, s') \<and>
    new_task_ok s ts t stk pml4 [0, 0, 0, 0, 0, 0, c_user_entry_trampoline c, entry, ustk] s'"
proof -
  let ?vs = "[ustk, entry, c_user_entry_trampoline c, 0, 0, 0, 0, 0, 0]"
  obtain sp m where m: "push_words ?vs (stack_top stk) (kmem s2) = (sp, m)" by fastforce
  define s3 where "s3 = (set_task t (\<lambda>x. x\<lparr>t_rsp := sp, t_stack_base := stk, t_pml4 := pml4,
      t_kstack_top := stack_top stk, t_id := next_id s, t_state := TASK_READY\<rparr>) (s2\<lparr>kmem := m\<rparr>))\<lparr>next_id := next_id s + 1\<rparr>"
  note a = task_allocs [OF assms(2,4-7)]
  have s2: "s2\<lparr>kmem := m\<rparr> = s\<lparr>kmem := m\<rparr>" by (subst a(5)) simp
  have n: "next_id s2 = next_id s" by (subst a(5)) simp
  have e: "task_create_user c entry pml4 ustk s = Option.bind (task_append t s3) (\<lambda>s. Some (t, s))"
    using assms(4,6) m by (simp add: task_create_user_def s3_def Let_def set_task_def n)
  have "\<exists>s'. task_append t s3 = Some s' \<and> s' = s3\<lparr>tasks := tasks s'\<rparr> \<and> new_task_ok s ts t stk pml4 (rev ?vs) s'"
    by (rule create_common [OF assms m, where nx = "t_next (tasks s t)"]) (simp_all add: s3_def s2 set_task_def)
  then show ?thesis using e by auto
qed

text \<open>
  Creating a user task. With memory for its structure and its kernel stack, \<open>task_create_user\<close> returns
  a task that no one else uses, appended to the ring as ready, with the next id; the running task and the
  heap invariant are undisturbed. Its kernel stack ends at a 16-byte boundary and holds exactly what the first
  context switch pops: six zero registers, the address of the trampoline, then the entry point and the user stack.
\<close>

theorem task_create_user_correct:
  fixes s :: "'a sched_state_scheme"
  assumes "sched_inv s ts" "heap_ok s" "\<forall>x \<in> set ts. live s x \<noteq> None"
    and "kmalloc TASK_SIZE s = Some (t, s1)" "t \<noteq> 0" "kmalloc STACK_SIZE s1 = Some (stk, s2)" "stk \<noteq> 0"
  shows "\<exists>s'. task_create_user c entry pml4 ustk s = Some (t, s') \<and>
    new_task_ok s ts t stk pml4 [0, 0, 0, 0, 0, 0, c_user_entry_trampoline c, entry, ustk] s'"
  by (rule task_create_user_result [OF assms])

section \<open>Address spaces and the rest of the state\<close>

lemma create_more:
  "pmm_state.more (snd (vmm_create_address_space s)) = pmm_state.more (s :: 'a vmm_state_scheme)"
proof -
  obtain f s0 where a: "pmm_alloc_frame s = (f, s0)" by (cases "pmm_alloc_frame s")
  then have "pmm_state.more s0 = pmm_state.more s" using pmm_more(4) [of s] by simp
  then show ?thesis by (simp add: vmm_create_address_space_def a Let_def fold_more)
qed

lemma fold_more_snd:
  "(\<And>x y. pmm_state.more (snd (f x y)) = pmm_state.more (snd y)) \<Longrightarrow>
   pmm_state.more (snd (fold f xs y)) = pmm_state.more (snd y)"
  by (induction xs arbitrary: y) auto

lemma destroy_more:
  "pmm_state.more (snd (vmm_destroy_address_space p s)) = pmm_state.more (s :: 'a vmm_state_scheme)"
proof -
  have f: "pmm_state.more (snd (free_counted a x)) = pmm_state.more (snd x)" for a and x :: "u64 \<times> 'a vmm_state_scheme"
    by (cases x) (simp add: free_counted_def)
  have 1: "pmm_state.more (snd (destroy_pt t x)) = pmm_state.more (snd x)" for t and x :: "u64 \<times> 'a vmm_state_scheme"
    unfolding destroy_pt_def by (rule fold_more_snd) (auto simp: f Let_def split: prod.splits)
  have 2: "pmm_state.more (snd (destroy_pd t x)) = pmm_state.more (snd x)" for t and x :: "u64 \<times> 'a vmm_state_scheme"
    unfolding destroy_pd_def by (rule fold_more_snd) (auto simp: f 1 Let_def split: prod.splits)
  have 3: "pmm_state.more (snd (destroy_pdpt t x)) = pmm_state.more (snd x)" for t and x :: "u64 \<times> 'a vmm_state_scheme"
    unfolding destroy_pdpt_def by (rule fold_more_snd) (auto simp: f 2 Let_def split: prod.splits)
  have 4: "pmm_state.more (snd (destroy_pml4 t x)) = pmm_state.more (snd x)" for t and x :: "u64 \<times> 'a vmm_state_scheme"
    unfolding destroy_pml4_def by (rule fold_more_snd) (simp add: f 3 Let_def case_prod_beta)
  show ?thesis by (simp add: vmm_destroy_address_space_def f 4)
qed

lemma more_fields:
  fixes s s' :: "'a sched_state_scheme"
  assumes "pmm_state.more s' = pmm_state.more s"
  shows "kernel_pml4 s' = kernel_pml4 s" "cr3 s' = cr3 s" "kmem s' = kmem s" "heap_head s' = heap_head s"
    "heap_end s' = heap_end s" "tasks s' = tasks s" "current s' = current s" "task_list s' = task_list s"
    "next_id s' = next_id s" "tss_rsp0 s' = tss_rsp0 s" "iflag s' = iflag s" "cpu s' = cpu s"
  using assms by (cases s, cases s', simp)+

lemma truncate_upd [simp]:
  "vmm_state.truncate (s\<lparr>kmem := m\<rparr>) = vmm_state.truncate s" "vmm_state.truncate (s'\<lparr>tasks := f\<rparr>) = vmm_state.truncate s'"
  "vmm_state.truncate (s'\<lparr>next_id := n\<rparr>) = vmm_state.truncate s'" "vmm_state.truncate (set_task t g s') = vmm_state.truncate s'"
  by (simp_all add: vmm_state.truncate_def set_task_def)

text \<open>An address space just created owns its top-level table and maps no user page.\<close>

lemma new_space_owned:
  fixes s :: "'a vmm_state_scheme"
  assumes "pt_ok s (kernel_pml4 s)" "0 < free_frames s" "vmm_create_address_space s = (new, s')"
  shows "owned_frames s' new = {unat new div 4096}" "pages_in_ram s' new"
proof -
  note w = create_walk [OF assms]
  have l: "leaf s' new a b c d = None" if "a < 256" "b < 512" "c < 512" for a b c d
    using w [of "[a, b, c]"] w [of "[a, b]"] that user_index by (simp add: leaf_def)
  show "pages_in_ram s' new" by (simp add: pages_in_ram_def l)
  have "p = [] \<and> t = new" if "idx p" "length p \<le> 3" "p \<noteq> [] \<longrightarrow> hd p < 256" "walk s' new p = Some t" for p t
    using w [OF that(1,2)] that(3,4) by (cases p) auto
  then have "{frame_no t |t p. idx p \<and> length p \<le> 3 \<and> (p \<noteq> [] \<longrightarrow> hd p < 256) \<and> walk s' new p = Some t} = {frame_no new}"
    by (auto intro!: exI [of _ new] exI [of _ "[]"])
  then show "owned_frames s' new = {unat new div 4096}" unfolding owned_frames_def by (auto simp: l)
qed

lemma reap_truncate [simp]:
  "owned_frames (vmm_state.truncate s) p = owned_frames s p" "pages_in_ram (vmm_state.truncate s) p = pages_in_ram s p"
  "cr3 (vmm_state.truncate s) = cr3 s" "vmm_state.truncate (s'\<lparr>iflag := b\<rparr>) = vmm_state.truncate s'"
  by (simp_all add: owned_frames_def pages_in_ram_def, simp_all add: vmm_state.truncate_def)

lemma task_create_result:
  fixes s :: "'a sched_state_scheme"
  assumes "sched_inv s ts" "heap_ok s" "\<forall>x \<in> set ts. live s x \<noteq> None"
    and "kmalloc TASK_SIZE s = Some (t, s1)" "t \<noteq> 0" "kmalloc STACK_SIZE s1 = Some (stk, s2)" "stk \<noteq> 0"
    and "pt_ok s (kernel_pml4 s)" "0 < free_frames s"
  shows "\<exists>pml4 s'. task_create c entry s = Some (t, s') \<and> pt_ok s' pml4 \<and> pages_in_ram s' pml4 \<and>
    owned_frames s' pml4 = {unat pml4 div 4096} \<and> kernel_pml4 s' = kernel_pml4 s \<and>
    unat pml4 div 4096 \<notin> used_set s \<and> used_set s' = insert (unat pml4 div 4096) (used_set s) \<and>
    new_task_ok s ts t stk pml4 [0, 0, 0, 0, 0, 0, c_task_entry_trampoline c, entry, c_task_exit c] s'"
proof -
  let ?vs = "[c_task_exit c, entry, c_task_entry_trampoline c, 0, 0, 0, 0, 0, 0]"
  obtain sp m where m: "push_words ?vs (stack_top stk) (kmem s2) = (sp, m)" by fastforce
  define sa where "sa = set_task t (\<lambda>x. x\<lparr>t_rsp := sp, t_stack_base := stk\<rparr>) (s2\<lparr>kmem := m\<rparr>)"
  obtain pml4 sb where sb: "vmm_create_address_space sa = (pml4, sb)" by fastforce
  define s3 where "s3 = (set_task t (\<lambda>x. x\<lparr>t_pml4 := pml4, t_kstack_top := stack_top stk, t_id := next_id s,
      t_state := TASK_READY\<rparr>) sb)\<lparr>next_id := next_id s + 1\<rparr>"
  note a = task_allocs [OF assms(2,4-7)]
  have s2: "s2\<lparr>kmem := m\<rparr> = s\<lparr>kmem := m\<rparr>" by (subst a(5)) simp
  have sa: "sa = set_task t (\<lambda>x. x\<lparr>t_rsp := sp, t_stack_base := stk\<rparr>) (s\<lparr>kmem := m\<rparr>)" unfolding sa_def s2 ..
  note ca = vmm_cong [of sa s, unfolded sa truncate_upd, OF refl, folded sa]
  note cr = create_result [OF _ _ sb, unfolded ca, OF assms(8,9)] and ow = new_space_owned [OF _ _ sb, unfolded ca, OF assms(8,9)]
  note mf = more_fields [of sb sa, OF create_more [of sa, unfolded sb snd_conv]]
  have e: "task_create c entry s = Option.bind (task_append t s3) (\<lambda>s. Some (t, s))"
    using assms(4,6) m sb mf(9) by (simp add: task_create_def s3_def Let_def sa_def [symmetric]) (simp add: sa)
  have "\<exists>s'. task_append t s3 = Some s' \<and> s' = s3\<lparr>tasks := tasks s'\<rparr> \<and> new_task_ok s ts t stk pml4 (rev ?vs) s'"
    by (rule create_common [OF assms(1-7) m, where nx = "t_next (tasks s t)"])
      (simp_all add: s3_def mf sa, simp_all add: set_task_def mf sa)
  then obtain s' where s': "task_append t s3 = Some s'" "s' = s3\<lparr>tasks := tasks s'\<rparr>"
    "new_task_ok s ts t stk pml4 (rev ?vs) s'" by blast
  have "vmm_state.truncate s' = vmm_state.truncate s3" by (subst s'(2), rule truncate_upd(2))
  then have "vmm_state.truncate s' = vmm_state.truncate sb" by (simp add: s3_def)
  note cs = vmm_cong [OF this] reap_truncate(1,2) [of s'] reap_truncate(1,2) [of sb] this
  have "owned_frames s' pml4 = owned_frames sb pml4" "pages_in_ram s' pml4 = pages_in_ram sb pml4"
    using cs(5-9) by simp_all
  moreover have "kernel_pml4 s' = kernel_pml4 s" using cs(3) mf(1) by (simp add: sa)
  ultimately show ?thesis using e s'(1,3) cr ow cs(1,4) by auto
qed

text \<open>
  Creating a kernel task. Beside what holds for a user task, \<open>task_create\<close> gives the task a fresh
  address space: one frame that was free becomes its well-formed top-level table, which
  is all it owns. The first
  switch to the task enters the trampoline with the entry point on the stack, and below it \<open>task_exit\<close>
  as the address an entry function returns to.
\<close>

theorem task_create_correct:
  fixes s :: "'a sched_state_scheme"
  assumes "sched_inv s ts" "heap_ok s" "\<forall>x \<in> set ts. live s x \<noteq> None"
    and "kmalloc TASK_SIZE s = Some (t, s1)" "t \<noteq> 0" "kmalloc STACK_SIZE s1 = Some (stk, s2)" "stk \<noteq> 0"
    and "pt_ok s (kernel_pml4 s)" "0 < free_frames s"
  shows "\<exists>pml4 s'. task_create c entry s = Some (t, s') \<and> pt_ok s' pml4 \<and> pages_in_ram s' pml4 \<and>
    owned_frames s' pml4 = {unat pml4 div 4096} \<and> kernel_pml4 s' = kernel_pml4 s \<and>
    unat pml4 div 4096 \<notin> used_set s \<and> used_set s' = insert (unat pml4 div 4096) (used_set s) \<and>
    new_task_ok s ts t stk pml4 [0, 0, 0, 0, 0, 0, c_task_entry_trampoline c, entry, c_task_exit c] s'"
  by (rule task_create_result [OF assms])

section \<open>Reaping a task\<close>

lemma find_before_ring:
  assumes "ring s (us @ p # t # ys)"
  shows "find_before (tasks s) (task_list s) t (task_list s) = Some p"
proof -
  have r: "hd (us @ [p]) = task_list s" "distinct (us @ p # t # ys)" "chain (nxt s) (us @ p # t # ys) (task_list s)"
    using assms by (auto simp: ring_def hd_append)
  have "find_before (tasks s) (task_list s) t (hd (us @ [p])) = Some p"
  proof (rule find_before_chain)
    show "chain (\<lambda>t. t_next (tasks s t)) (us @ [p]) t" using r(3) by (simp add: nxt_def [abs_def])
    show "t \<notin> set us" "t \<notin> set (tl (us @ [p]))" using r(2) by (cases us; auto)+
    show "task_list s \<notin> set (tl (us @ [p]))" using r(1,2) by (cases us) auto
  qed
  then show ?thesis using r(1) by simp
qed

text \<open>Splicing a task out of the ring.\<close>

lemma splice_ring:
  fixes s s' :: "'a sched_state_scheme"
  assumes "ring s (us @ p # t # ys)" "task_list s' = task_list s"
    "tasks s' = (tasks s)(p := (tasks s p)\<lparr>t_next := t_next (tasks s t)\<rparr>)"
  shows "ring s' (us @ p # ys)"
proof -
  have n: "nxt s' = (nxt s)(p := nxt s t)" using assms(3) by (auto simp: nxt_def fun_eq_iff)
  have r: "distinct (us @ p # t # ys)" "chain (nxt s) us p" "nxt s t = hd (ys @ [task_list s])" "chain (nxt s) ys (task_list s)"
    using assms(1) by (auto simp: ring_def)
  have "p \<notin> set us" "p \<notin> set ys" using r(1) by auto
  then have "chain (nxt s') us p" "chain (nxt s') ys (task_list s)" using r(2,4) unfolding n by (simp_all add: chain_upd)
  then show ?thesis using assms(1,2) r(3) n by (auto simp: ring_def hd_append)
qed

lemma reap_result:
  fixes s :: "'a sched_state_scheme"
  assumes "sched_inv s ts" "heap_ok s" "t \<in> set ts" "t \<noteq> task_list s" "t \<noteq> current s"
    and "live s t = Some y" "live s (t_stack_base (tasks s t)) = Some z" "t_stack_base (tasks s t) \<noteq> t"
    and "pt_ok s (t_pml4 (tasks s t))" "pages_in_ram s (t_pml4 (tasks s t))"
    and "t_pml4 (tasks s t) \<noteq> kernel_pml4 s" "t_pml4 (tasks s t) \<noteq> cr3 s AND 0x000FFFFFFFFFF000"
  shows "\<exists>s'. task_reap t s = Some s' \<and> sched_inv s' (remove1 t ts) \<and> heap_ok s' \<and>
    live s' = (live s)(t_stack_base (tasks s t) := None, t := None) \<and> iflag s' \<and>
    used_set s' = used_set s - owned_frames s (t_pml4 (tasks s t)) \<and>
    (\<forall>x. \<exists>n. tasks s' x = (tasks s x)\<lparr>t_next := n\<rparr>) \<and> kernel_pml4 s' = kernel_pml4 s \<and>
    (\<forall>U. accounts U s (t_pml4 (tasks s t)) \<longrightarrow> untouched U s s' \<and> pmm_inv s')"
proof -
  let ?stk = "t_stack_base (tasks s t)" and ?p4 = "t_pml4 (tasks s t)"
  have i: "ring s ts" "current s \<in> set ts" "distinct ts" "0 \<notin> set ts" using assms(1) by (auto simp: sched_inv_def ring_def)
  obtain xs ys where xy: "ts = xs @ t # ys" "t \<notin> set xs" using split_list_first [OF assms(3)] by blast
  have "xs \<noteq> []" using i(1) xy(1) assms(4) by (auto simp: ring_def)
  then obtain us p where xs: "xs = us @ [p]" by (metis rev_exhaust)
  have rg: "ring s (us @ p # t # ys)" using i(1) xy(1) xs by simp
  have pn: "t_next (tasks s p) = t" "t \<noteq> p" using rg by (auto simp: ring_def nxt_def)
  have p40: "?p4 \<noteq> 0" using pt_okD(2) [OF assms(9), of "[]"] by (simp add: table_frame_def)
  define sa where "sa = set_task p (\<lambda>x. x\<lparr>t_next := t_next (tasks s t)\<rparr>) (s\<lparr>iflag := False\<rparr>)\<lparr>iflag := True\<rparr>"
  obtain fr sb where sb: "vmm_destroy_address_space ?p4 sa = (fr, sb)" by fastforce
  define s' where "s' = kfree t (kfree ?stk sb)"
  note mf = more_fields [of sb sa, OF destroy_more [of ?p4 sa, unfolded sb snd_conv]]
  have ta: "tasks sa = (tasks s)(p := (tasks s p)\<lparr>t_next := t_next (tasks s t)\<rparr>)" "kernel_pml4 sa = kernel_pml4 s"
    "kmem sa = kmem s" "heap_head sa = heap_head s" "heap_end sa = heap_end s" "task_list sa = task_list s"
    "current sa = current s" "cr3 sa = cr3 s" "tss_rsp0 sa = tss_rsp0 s" "iflag sa"
    by (simp_all add: sa_def set_task_def)
  have t0: "t \<noteq> 0" using assms(3) i(4) by auto
  have run: "task_reap t s = Some s'"
    using assms(4,11) t0 find_before_ring [OF rg] pn p40 sb mf(6)
    by (simp add: task_reap_def Let_def vmm_kernel_pml4_def flip: sa_def) (simp add: ta s'_def)
  have hb: "heap_ok sb" "live sb = live s" using heap_cong [of sb s] mf(3-5) ta assms(2) by simp_all
  note f1 = kheap.release_inv [of sb ?stk z] kheap.release_regions [of sb ?stk z]
  have h1: "heap_ok (kfree ?stk sb)" "live (kfree ?stk sb) = (live s)(?stk := None)" using f1 hb assms(7) by simp_all
  then have "live (kfree ?stk sb) t = Some y" using assms(6,8) by simp
  then have h2: "heap_ok s'" "live s' = (live s)(?stk := None, t := None)"
    using kheap.release_inv [OF h1(1)] kheap.release_regions [OF h1(1)] h1(2) by (simp_all add: s'_def)
  have kf: "s' = sb\<lparr>kmem := kmem s'\<rparr>" unfolding s'_def by (subst kfree_kmem, subst kfree_kmem [of ?stk], simp)
  have fs: "tasks s' = tasks sa" "task_list s' = task_list s" "current s' = current s" "cr3 s' = cr3 s"
    "tss_rsp0 s' = tss_rsp0 s" "iflag s'" by (subst kf, simp add: mf ta)+
  have r': "ring s' (us @ p # ys)" by (rule splice_ring [OF rg fs(2)]) (simp add: fs(1) ta(1))
  have rem: "remove1 t ts = us @ p # ys" using xy xs by (simp add: remove1_append)
  have keep: "\<exists>n. tasks s' x = (tasks s x)\<lparr>t_next := n\<rparr>" for x
    by (cases "x = p") (auto simp: fs(1) ta(1) intro: exI [of _ "t_next (tasks s x)"])
  have inv': "sched_inv s' (us @ p # ys)"
  proof (rule sched_inv_cong [OF assms(1) r' _ _ fs(3-5)])
    show "set (us @ p # ys) \<subseteq> set ts" "current s \<in> set (us @ p # ys)" using xy xs i(2) assms(5) by auto
    show "t_state (tasks s' x) = t_state (tasks s x) \<and> t_pml4 (tasks s' x) = t_pml4 (tasks s x) \<and>
      t_kstack_top (tasks s' x) = t_kstack_top (tasks s x)" for x using keep [of x] by auto
  qed
  have tr: "vmm_state.truncate sa = vmm_state.truncate s" "vmm_state.truncate s' = vmm_state.truncate sb"
    by (simp add: sa_def, subst kf, simp)
  have pa: "pt_ok sa ?p4" "pages_in_ram sa ?p4" and ow: "owned_frames sa ?p4 = owned_frames s ?p4" "used_set sa = used_set s"
    using vmm_cong [OF tr(1)] assms(9,10) reap_truncate(1,2) [of sa] reap_truncate(1,2) [of s] tr(1) by simp_all
  have fd: "freed_from sa ?p4 256 (owned_frames sa ?p4) (card (owned_entries sa ?p4)) (fr, sb)" using destroy_result [OF pa _ _ sb] assms(11,12) ta by simp
  then have "used_set s' = used_set s - owned_frames s ?p4" using ow vmm_cong(4) [OF tr(2)] by (simp add: freed_from_def)
  moreover have "untouched U s s' \<and> pmm_inv s'" if U: "accounts U s ?p4" for U
  proof -
    have "accounts U sa ?p4" using U ow by (simp add: accounts_def)
    from freed_untouched [OF pa(1) this fd] show ?thesis
      using untouched_truncate [OF tr(1)] untouched_truncate [OF tr(2)] pmm_inv_truncate [OF tr(2)] by metis
  qed
  moreover have "kernel_pml4 s' = kernel_pml4 s" by (subst kf, simp add: mf ta)
  ultimately show ?thesis using run inv' h2 fs(6) keep unfolding rem by blast
qed

text \<open>
  C21. Reaping a task. \<open>task_reap\<close> on a task of the ring that is neither the boot task nor the running
  one always returns; the task is taken out of the ring, which otherwise keeps its order, its structure
  and its stack go back to the heap and no other region does, and interrupts are on again. The frames
  its address space owned become free, and no others.
\<close>

theorem task_reap_correct:
  fixes s :: "'a sched_state_scheme"
  assumes "sched_inv s ts" "heap_ok s" "t \<in> set ts" "t \<noteq> task_list s" "t \<noteq> current s"
    and "live s t = Some y" "live s (t_stack_base (tasks s t)) = Some z" "t_stack_base (tasks s t) \<noteq> t"
    and "pt_ok s (t_pml4 (tasks s t))" "pages_in_ram s (t_pml4 (tasks s t))"
    and "t_pml4 (tasks s t) \<noteq> kernel_pml4 s" "t_pml4 (tasks s t) \<noteq> cr3 s AND 0x000FFFFFFFFFF000"
  shows "\<exists>s'. task_reap t s = Some s' \<and> sched_inv s' (remove1 t ts) \<and> heap_ok s' \<and>
    live s' = (live s)(t_stack_base (tasks s t) := None, t := None) \<and> iflag s' \<and>
    used_set s' = used_set s - owned_frames s (t_pml4 (tasks s t)) \<and>
    (\<forall>x. \<exists>n. tasks s' x = (tasks s x)\<lparr>t_next := n\<rparr>)"
  using reap_result [OF assms] by blast

text \<open>
  \<open>sched_has_other_runnable\<close> always returns, and says whether some task other than the current
  one is not done; so it is false exactly when \<open>schedule\<close> has nothing to switch to.
\<close>

theorem sched_has_other_runnable_correct:
  fixes s :: "'a sched_state_scheme"
  assumes "sched_inv s ts"
  shows "sched_has_other_runnable s = Some (\<exists>t \<in> set ts. t \<noteq> current s \<and> t_state (tasks s t) \<noteq> TASK_DONE) \<and>
    (sched_has_other_runnable s = Some False \<longrightarrow> schedule c s = Some s)"
proof -
  have i: "ring s ts" "current s \<in> set ts" using assms by (simp_all add: sched_inv_def)
  note r = inv_ring_from [OF i]
  have ch: "chain (\<lambda>t. t_next (tasks s t)) (after (current s) ts) (current s)"
    "t_next (tasks s (current s)) = hd (after (current s) ts @ [current s])" "current s \<notin> set (after (current s) ts)"
    using r by (auto simp: nxt_def [abs_def])
  have eq: "sched_has_other_runnable s = Some (\<exists>t \<in> set (after (current s) ts). t_state (tasks s t) \<noteq> TASK_DONE)"
    unfolding sched_has_other_runnable_def ch(2) by (rule other_runnable_chain [OF ch(1,3)])
  have "set (after (current s) ts) = set ts - {current s}" using r(2,3) by auto
  moreover have "schedule c s = Some s" if "\<forall>t \<in> set (after (current s) ts). t_state (tasks s t) = TASK_DONE"
    using schedule_result [OF i, of c] that find_None_iff [of "runnable s" "after (current s) ts"] by simp
  ultimately show ?thesis using eq by auto
qed

end
