(* ===== verification/SchedExample.thy ===== *)
theory SchedExample
  imports SchedTasks
begin

text \<open>
  The scheduler from boot: \<open>sched_init\<close> and concrete systems on which the
  properties of \<^verbatim>\<open>SchedSpec\<close> and \<^verbatim>\<open>SchedTasks\<close> are exercised.
\<close>

section \<open>From boot to the first task\<close>

lemma init_result:
  fixes s :: "'a sched_state_scheme"
  assumes "heap_ok s" "kmalloc TASK_SIZE s = Some (b, s1)" "b \<noteq> 0" "cr3 s = kernel_pml4 s"
  shows "\<exists>s'. sched_init s = Some s' \<and> sched_inv s' [b] \<and> heap_ok s' \<and> current s' = b \<and>
    t_state (tasks s' b) = TASK_RUNNING \<and> t_id (tasks s' b) = next_id s \<and> next_id s' = next_id s + 1 \<and>
    (\<exists>y. live s' = (live s)(b \<mapsto> y)) \<and> s' = s1\<lparr>tasks := tasks s', next_id := next_id s', task_list := b, current := b\<rparr>"
proof -
  define s' where "s' = (set_task b (\<lambda>t. t\<lparr>t_id := next_id s1, t_state := TASK_RUNNING, t_stack_base := 0,
           t_pml4 := vmm_kernel_pml4 s1, t_kstack_top := tss_get_rsp0 s1, t_next := b\<rparr>) s1)
      \<lparr>next_id := next_id s1 + 1, task_list := b, current := b\<rparr>"
  have n: "next_id s1 = next_id s" "cr3 s1 = cr3 s" "kernel_pml4 s1 = kernel_pml4 s"
    by (subst kmalloc_kmem [OF assms(2)], simp)+
  have r: "sched_init s = Some s'" using assms(2) by (simp add: sched_init_def s'_def Let_def)
  have f: "tasks s' b = (tasks s1 b)\<lparr>t_id := next_id s1, t_state := TASK_RUNNING, t_stack_base := 0,
      t_pml4 := kernel_pml4 s1, t_kstack_top := tss_rsp0 s1, t_next := b\<rparr>"
    "task_list s' = b" "current s' = b" "cr3 s' = cr3 s" "tss_rsp0 s' = tss_rsp0 s1" "next_id s' = next_id s + 1"
    using n by (simp_all add: s'_def set_task_def vmm_kernel_pml4_def tss_get_rsp0_def)
  have ring: "ring s' [b]" using assms(3) f by (simp add: ring_def nxt_def)
  have i: "sched_inv s' [b]" unfolding sched_inv_def using ring f n assms(4) by simp
  have h: "heap_ok s' = heap_ok s1" "live s' = live s1" by (rule heap_cong; simp add: s'_def set_task_def)+
  have "unat TASK_SIZE + 7 < 2 ^ 64" by (simp add: TASK_SIZE_def)
  then have "\<exists>y. live s1 = (live s)(b \<mapsto> y)" using kheap.alloc_region [OF assms(1-3)] by blast
  moreover have "s' = s1\<lparr>tasks := tasks s', next_id := next_id s', task_list := b, current := b\<rparr>"
    by (simp add: s'_def set_task_def)
  moreover have "heap_ok s'" using h kheap.alloc_inv [OF assms(1,2)] by simp
  ultimately show ?thesis using r i f n(1) h(2) by (intro exI [of _ s']) simp
qed

text \<open>
  \<open>sched_init\<close> establishes the scheduler's invariant: the boot context becomes a ring of one
  running task, on the kernel's page tables and on the kernel stack the TSS already names.
\<close>

theorem sched_init_correct:
  fixes s :: "'a sched_state_scheme"
  assumes "heap_ok s" "kmalloc TASK_SIZE s = Some (b, s1)" "b \<noteq> 0" "cr3 s = kernel_pml4 s"
  shows "\<exists>s'. sched_init s = Some s' \<and> sched_inv s' [b] \<and> heap_ok s' \<and> current s' = b \<and>
    t_state (tasks s' b) = TASK_RUNNING \<and> t_id (tasks s' b) = next_id s \<and> next_id s' = next_id s + 1"
  using init_result [OF assms] by blast

section \<open>A small system\<close>

text \<open>
  The memory of the small machine of \<^verbatim>\<open>VmmMap\<close>, a heap of 128 KB that is one free block, and no task
  yet.
\<close>

definition sys_example :: sched_state where
  "sys_example = \<lparr>ram = ram vmm_example, bitmap = 0x1000, bitmap_phys = 0x1000, total_frames = 16, used_frames = 5,
     bitmap_size = 2, module_start = 0, module_end = 0, kernel_pml4 = 0x2000, vmm_active = True,
     hhdm_end = 0x200000, cr3 = 0x2000,
     kmem = set_prev HEAP_START 0 (set_next HEAP_START 0 (set_free HEAP_START 1 (set_size HEAP_START 0x1FFE0 (\<lambda>_. 0)))),
     heap_head = HEAP_START, heap_end = HEAP_START + 0x20000,
     tasks = (\<lambda>_. \<lparr>t_rsp = 0, t_stack_base = 0, t_pml4 = 0, t_kstack_top = 0, t_id = 0, t_state = TASK_DONE, t_next = 0\<rparr>),
     current = 0, task_list = 0, next_id = 0, tss_rsp0 = 0x9000, iflag = True,
     cpu = \<lparr>r_rsp = 0x8000, r_rbp = 0, r_rbx = 0, r_r12 = 0, r_r13 = 0, r_r14 = 0, r_r15 = 0, r_rip = 0\<rparr>\<rparr>"

definition sys_block :: blk where
  "sys_block = \<lparr>bk_addr = HEAP_START, bk_size = 0x1FFE0, bk_free = True\<rparr>"

lemma sys_heap: "heap_rep sys_example [sys_block]"
proof -
  have "HEAP_START \<noteq> 0" "unat HEAP_START mod 8 = 0" "unat HEAP_START + 32 + unat (0x1FFE0::u64) = unat (HEAP_START + 0x20000)"
    by (simp_all add: HEAP_START_def)
  then show ?thesis by (simp add: heap_rep_def sys_example_def sys_block_def)
qed

lemma sys_heap_ok: "heap_ok sys_example"
  using sys_heap coalesced_Cons [of sys_block "[]"] by (auto simp: heap_ok_def)

lemma sys_vmm: "pt_ok sys_example 0x2000" "0 < free_frames sys_example" "used_set sys_example = {0, 1, 2, 3, 6}"
proof -
  have "vmm_state.truncate sys_example = vmm_state.truncate vmm_example"
    by (simp add: vmm_state.truncate_def sys_example_def) (simp add: vmm_example_def)
  note c = vmm_cong [OF this]
  show "pt_ok sys_example 0x2000" "0 < free_frames sys_example" "used_set sys_example = {0, 1, 2, 3, 6}"
    using c vmm_example_pt_ok vmm_example_free vmm_example_used by simp_all
qed

text \<open>After \<open>sched_init\<close>: the boot task is the first block, the rest of the heap is free.\<close>

lemma sizes: "ALIGN8 TASK_SIZE = 48" "ALIGN8 STACK_SIZE = 16384" "TASK_SIZE \<noteq> 0" "STACK_SIZE \<noteq> 0"
  by (simp_all add: ALIGN8_def TASK_SIZE_def STACK_SIZE_def)

definition boot_blocks :: "blk list" where
  "boot_blocks = [\<lparr>bk_addr = HEAP_START, bk_size = 48, bk_free = False\<rparr>,
     \<lparr>bk_addr = HEAP_START + 80, bk_size = 0x1FF90, bk_free = True\<rparr>]"

lemma sys_boot:
  "\<exists>s1 s. kmalloc TASK_SIZE sys_example = Some (HEAP_START + 32, s1) \<and> sched_init sys_example = Some s \<and>
     sched_inv s [HEAP_START + 32] \<and> heap_rep s boot_blocks \<and> heap_ok s \<and> live s (HEAP_START + 32) \<noteq> None \<and>
     vmm_state.truncate s = vmm_state.truncate sys_example"
proof -
  have am: "amalloc 48 [sys_block] = Some (HEAP_START + 32, boot_blocks)"
    by (simp add: fits_def alloc_blk_def sys_block_def boot_blocks_def HEAP_START_def)
  obtain s1 where s1: "kmalloc TASK_SIZE sys_example = Some (HEAP_START + 32, s1)" "heap_rep s1 boot_blocks"
    "s1 = sys_example\<lparr>kmem := kmem s1\<rparr>"
    using kmalloc_result [OF sys_heap sizes(3)] unfolding sizes am by auto
  have "HEAP_START + 32 \<noteq> 0" "cr3 sys_example = kernel_pml4 sys_example" by (simp_all add: HEAP_START_def sys_example_def)
  from init_result [OF sys_heap_ok s1(1) this] obtain s where s: "sched_init sys_example = Some s"
    "sched_inv s [HEAP_START + 32]" "heap_ok s" "\<exists>y. live s = (live sys_example)(HEAP_START + 32 \<mapsto> y)"
    "s = s1\<lparr>tasks := tasks s, next_id := next_id s, task_list := HEAP_START + 32, current := HEAP_START + 32\<rparr>" by blast
  have "vmm_state.truncate s = vmm_state.truncate sys_example"
    by (subst s(5), subst s1(3)) (simp add: vmm_state.truncate_def)
  moreover have "heap_rep s boot_blocks"
    using s1(2) by (subst s(5)) (simp add: heap_rep_def)
  ultimately show ?thesis using s1(1) s by auto
qed

text \<open>There is room for a task and its stack.\<close>

lemma boot_room:
  fixes s :: "'a sched_state_scheme"
  assumes "heap_rep s boot_blocks"
  shows "\<exists>s1 s2. kmalloc TASK_SIZE s = Some (HEAP_START + 112, s1) \<and> kmalloc STACK_SIZE s1 = Some (HEAP_START + 192, s2)"
proof -
  have am: "amalloc 48 boot_blocks = Some (HEAP_START + 112, [\<lparr>bk_addr = HEAP_START, bk_size = 48, bk_free = False\<rparr>,
     \<lparr>bk_addr = HEAP_START + 80, bk_size = 48, bk_free = False\<rparr>,
     \<lparr>bk_addr = HEAP_START + 160, bk_size = 0x1FF40, bk_free = True\<rparr>])"
    by (simp add: fits_def alloc_blk_def boot_blocks_def HEAP_START_def)
  obtain s1 where s1: "kmalloc TASK_SIZE s = Some (HEAP_START + 112, s1)"
    "heap_rep s1 [\<lparr>bk_addr = HEAP_START, bk_size = 48, bk_free = False\<rparr>,
     \<lparr>bk_addr = HEAP_START + 80, bk_size = 48, bk_free = False\<rparr>,
     \<lparr>bk_addr = HEAP_START + 160, bk_size = 0x1FF40, bk_free = True\<rparr>]"
    using kmalloc_result [OF assms sizes(3)] unfolding sizes am by auto
  then show ?thesis
    using kmalloc_result [OF s1(2) sizes(4)] by (auto simp: sizes fits_def HEAP_START_def)
qed

definition code_example :: code where
  "code_example = \<lparr>c_task_exit = 0x100100, c_task_entry_trampoline = 0x100200, c_user_entry_trampoline = 0x100300,
     c_resume = 0x100400\<rparr>"

abbreviation boot_task :: u64 where
  "boot_task \<equiv> HEAP_START + 32"

abbreviation user_task :: u64 where
  "user_task \<equiv> HEAP_START + 112"

lemma example_addrs: "HEAP_START + 32 \<noteq> 0" "HEAP_START + 112 \<noteq> 0" "HEAP_START + 192 \<noteq> 0" "HEAP_START + 112 \<noteq> HEAP_START + 32"
  by (simp_all add: HEAP_START_def)

text \<open>A system with the boot task running and a user task ready.\<close>

lemma two_tasks:
  "\<exists>s s'. sched_init sys_example = Some s \<and> task_create_user code_example 0x400000 0x2000 0x7FF000 s = Some (user_task, s') \<and>
     sched_inv s' [boot_task, user_task] \<and> current s' = boot_task \<and> t_state (tasks s' user_task) = TASK_READY"
proof -
  obtain s where s: "sched_init sys_example = Some s" "sched_inv s [boot_task]" "heap_rep s boot_blocks" "heap_ok s"
    "live s boot_task \<noteq> None" using sys_boot by blast
  obtain s1 s2 where k: "kmalloc TASK_SIZE s = Some (user_task, s1)" "kmalloc STACK_SIZE s1 = Some (HEAP_START + 192, s2)"
    using boot_room [OF s(3)] by blast
  have "\<forall>x \<in> set [boot_task]. live s x \<noteq> None" using s(5) by simp
  from task_create_user_result [OF s(2,4) this k(1) example_addrs(2) k(2) example_addrs(3), of code_example "0x400000" "0x2000" "0x7FF000"]
  obtain s' where s': "task_create_user code_example 0x400000 0x2000 0x7FF000 s = Some (user_task, s')"
    and n: "new_task_ok s [boot_task] user_task (HEAP_START + 192) 0x2000
      [0, 0, 0, 0, 0, 0, c_user_entry_trampoline code_example, 0x400000, 0x7FF000] s'" by blast
  have "current s = boot_task" using s(2) by (simp add: sched_inv_def)
  then show ?thesis using s(1) s' n by (intro exI [of _ s] exI [of _ s']) (simp add: new_task_ok_def)
qed

theorem sched_init_correct_witness:
  "\<exists>s. sched_init sys_example = Some s \<and> sched_inv s [boot_task] \<and> next_id s = 1"
proof -
  obtain s1 where s1: "kmalloc TASK_SIZE sys_example = Some (boot_task, s1)" using sys_boot by blast
  have e: "cr3 sys_example = kernel_pml4 sys_example" "next_id sys_example = 0" by (simp_all add: sys_example_def)
  from sched_init_correct [OF sys_heap_ok s1 example_addrs(1) e(1)] e(2) show ?thesis by auto
qed

theorem schedule_correct_witness:
  "\<exists>s s' s''. sched_init sys_example = Some s \<and>
     task_create_user code_example 0x400000 0x2000 0x7FF000 s = Some (user_task, s') \<and>
     schedule code_example s' = Some s'' \<and> current s'' = user_task \<and> t_state (tasks s'' boot_task) \<noteq> TASK_RUNNING"
proof -
  obtain s s' where s: "sched_init sys_example = Some s"
    "task_create_user code_example 0x400000 0x2000 0x7FF000 s = Some (user_task, s')"
    "sched_inv s' [boot_task, user_task]" "current s' = boot_task" "t_state (tasks s' user_task) = TASK_READY"
    using two_tasks by blast
  have "after boot_task [boot_task, user_task] = [user_task]" using example_addrs(4) by (simp add: after_def)
  then show ?thesis using schedule_correct [OF s(3), of code_example] s by auto
qed

theorem schedule_no_starvation_witness:
  "\<exists>s s' n s''. sched_init sys_example = Some s \<and>
     task_create_user code_example 0x400000 0x2000 0x7FF000 s = Some (user_task, s') \<and>
     n < 2 \<and> ticks code_example n s' = Some s'' \<and> current s'' = user_task"
proof -
  obtain s s' where s: "sched_init sys_example = Some s"
    "task_create_user code_example 0x400000 0x2000 0x7FF000 s = Some (user_task, s')"
    "sched_inv s' [boot_task, user_task]" "t_state (tasks s' user_task) = TASK_READY"
    using two_tasks by blast
  moreover obtain n s'' where "n < length [boot_task, user_task]" "ticks code_example n s' = Some s''" "current s'' = user_task"
    using schedule_no_starvation [OF s(3), of user_task code_example] s(4) by auto
  ultimately show ?thesis by (intro exI [of _ s] exI [of _ s'] exI [of _ n] exI [of _ s'']) simp
qed

theorem sched_has_other_runnable_correct_witness:
  "\<exists>s s'. sched_init sys_example = Some s \<and>
     task_create_user code_example 0x400000 0x2000 0x7FF000 s = Some (user_task, s') \<and>
     sched_has_other_runnable s' = Some True"
proof -
  obtain s s' where s: "sched_init sys_example = Some s"
    "task_create_user code_example 0x400000 0x2000 0x7FF000 s = Some (user_task, s')"
    "sched_inv s' [boot_task, user_task]" "current s' = boot_task" "t_state (tasks s' user_task) = TASK_READY"
    using two_tasks by blast
  then show ?thesis using sched_has_other_runnable_correct [OF s(3)] example_addrs(4) by auto
qed

text \<open>What task creation needs, at the booted system.\<close>

lemma booted:
  "\<exists>s s1 s2. sched_init sys_example = Some s \<and> sched_inv s [boot_task] \<and> heap_ok s \<and>
     (\<forall>x \<in> set [boot_task]. live s x \<noteq> None) \<and> kmalloc TASK_SIZE s = Some (user_task, s1) \<and>
     kmalloc STACK_SIZE s1 = Some (HEAP_START + 192, s2) \<and> pt_ok s (kernel_pml4 s) \<and> 0 < free_frames s \<and>
     used_set s = {0, 1, 2, 3, 6} \<and> cr3 s = 0x2000"
proof -
  obtain s where s: "sched_init sys_example = Some s" "sched_inv s [boot_task]" "heap_rep s boot_blocks" "heap_ok s"
    "live s boot_task \<noteq> None" "vmm_state.truncate s = vmm_state.truncate sys_example" using sys_boot by blast
  note c = vmm_cong [OF s(6)] and t = reap_truncate(3) [of s] reap_truncate(3) [of sys_example]
  have "kernel_pml4 sys_example = 0x2000" "cr3 sys_example = 0x2000" by (simp_all add: sys_example_def)
  then have "pt_ok s (kernel_pml4 s)" "0 < free_frames s" "used_set s = {0, 1, 2, 3, 6}" "cr3 s = 0x2000"
    using c sys_vmm t s(6) by simp_all
  then show ?thesis using s boot_room [OF s(3)] by auto
qed

theorem task_create_user_correct_witness:
  "\<exists>s s'. sched_init sys_example = Some s \<and>
     task_create_user code_example 0x400000 0x2000 0x7FF000 s = Some (user_task, s') \<and>
     sched_inv s' [boot_task, user_task] \<and> load64 (kmem s') (t_rsp (tasks s' user_task) + 56) = 0x400000"
proof -
  obtain s s1 s2 where b: "sched_init sys_example = Some s" "sched_inv s [boot_task]" "heap_ok s"
     "\<forall>x \<in> set [boot_task]. live s x \<noteq> None" "kmalloc TASK_SIZE s = Some (user_task, s1)"
     "kmalloc STACK_SIZE s1 = Some (HEAP_START + 192, s2)" using booted by blast
  obtain s' where s': "task_create_user code_example 0x400000 0x2000 0x7FF000 s = Some (user_task, s')"
    and n: "new_task_ok s [boot_task] user_task (HEAP_START + 192) 0x2000
      [0, 0, 0, 0, 0, 0, c_user_entry_trampoline code_example, 0x400000, 0x7FF000] s'"
    using task_create_user_correct [OF b(2-5) example_addrs(2) b(6) example_addrs(3)] by blast
  then have f: "\<forall>i < 9. load64 (kmem s') (t_rsp (tasks s' user_task) + of_nat (8 * i)) =
      [0, 0, 0, 0, 0, 0, c_user_entry_trampoline code_example, 0x400000, 0x7FF000] ! i"
    unfolding new_task_ok_def by blast
  have "load64 (kmem s') (t_rsp (tasks s' user_task) + 56) = 0x400000" using f [rule_format, of 7] by simp
  then show ?thesis using b(1) s' n by (intro exI [of _ s] exI [of _ s']) (simp add: new_task_ok_def)
qed

theorem task_create_correct_witness:
  "\<exists>s s' pml4. sched_init sys_example = Some s \<and> task_create code_example 0x101000 s = Some (user_task, s') \<and>
     sched_inv s' [boot_task, user_task] \<and> pt_ok s' pml4 \<and> used_set s' = insert (unat pml4 div 4096) {0, 1, 2, 3, 6}"
proof -
  obtain s s1 s2 where b: "sched_init sys_example = Some s" "sched_inv s [boot_task]" "heap_ok s"
     "\<forall>x \<in> set [boot_task]. live s x \<noteq> None" "kmalloc TASK_SIZE s = Some (user_task, s1)"
     "kmalloc STACK_SIZE s1 = Some (HEAP_START + 192, s2)" "pt_ok s (kernel_pml4 s)" "0 < free_frames s"
     "used_set s = {0, 1, 2, 3, 6}" using booted by blast
  from task_create_correct [OF b(2-5) example_addrs(2) b(6) example_addrs(3) b(7,8), of code_example "0x101000"]
  obtain pml4 s' where "task_create code_example 0x101000 s = Some (user_task, s')" "pt_ok s' pml4"
    "used_set s' = insert (unat pml4 div 4096) (used_set s)" "sched_inv s' ([boot_task] @ [user_task])"
    by (auto simp: new_task_ok_def)
  then show ?thesis using b(1,9) by auto
qed

theorem task_reap_correct_witness:
  "\<exists>s s' s''. sched_init sys_example = Some s \<and> task_create code_example 0x101000 s = Some (user_task, s') \<and>
     task_reap user_task s' = Some s'' \<and> sched_inv s'' [boot_task] \<and> live s'' user_task = None"
proof -
  obtain s s1 s2 where b: "sched_init sys_example = Some s" "sched_inv s [boot_task]" "heap_ok s"
     "\<forall>x \<in> set [boot_task]. live s x \<noteq> None" "kmalloc TASK_SIZE s = Some (user_task, s1)"
     "kmalloc STACK_SIZE s1 = Some (HEAP_START + 192, s2)" "pt_ok s (kernel_pml4 s)" "0 < free_frames s"
     "used_set s = {0, 1, 2, 3, 6}" "cr3 s = 0x2000" using booted by blast
  obtain p s' where cr: "task_create code_example 0x101000 s = Some (user_task, s')" "pt_ok s' p" "pages_in_ram s' p"
    "kernel_pml4 s' = kernel_pml4 s" "unat p div 4096 \<notin> used_set s"
    and n: "new_task_ok s [boot_task] user_task (HEAP_START + 192) p
      [0, 0, 0, 0, 0, 0, c_task_entry_trampoline code_example, 0x101000, c_task_exit code_example] s'"
    using task_create_result [OF b(2-5) example_addrs(2) b(6) example_addrs(3) b(7,8), of code_example "0x101000"] by blast
  note nd = new_task_okD [OF n]
  obtain y z where yz: "live s' = (live s)(user_task \<mapsto> y, HEAP_START + 192 \<mapsto> z)" using nd(9) by blast
  have t: "sched_inv s' [boot_task, user_task]" "heap_ok s'" "t_stack_base (tasks s' user_task) = HEAP_START + 192"
    "t_pml4 (tasks s' user_task) = p" "cr3 s' = 0x2000" "current s' = current s"
    using nd(2-7) b(10) by simp_all
  have h: "task_list s' = boot_task" "current s' = boot_task" using t(1,6) b(2) by (simp_all add: sched_inv_def ring_def)
  have m: "user_task \<in> set [boot_task, user_task]" "user_task \<noteq> task_list s'" "user_task \<noteq> current s'"
    using example_addrs(4) h by simp_all
  have "unat (kernel_pml4 s) div 4096 \<in> used_set s" using pt_okD(2) [OF b(7), of "[]"] by (simp add: table_frame_def)
  moreover have "unat (cr3 s' AND 0x000FFFFFFFFFF000) div 4096 \<in> used_set s" unfolding t(5) b(9) by simp
  ultimately have p: "p \<noteq> kernel_pml4 s'" "p \<noteq> cr3 s' AND 0x000FFFFFFFFFF000" using cr(4,5) by metis+
  have l: "live s' user_task = Some y" "live s' (HEAP_START + 192) = Some z" "HEAP_START + 192 \<noteq> user_task"
    using yz by (simp, simp, simp add: HEAP_START_def)
  obtain s'' where "task_reap user_task s' = Some s''" "sched_inv s'' (remove1 user_task [boot_task, user_task])"
    "live s'' = (live s')(HEAP_START + 192 := None, user_task := None)"
    using task_reap_correct [OF t(1,2) m l(1), unfolded t(3,4), OF l(2,3) cr(2,3) p] by blast
  moreover have "remove1 user_task [boot_task, user_task] = [boot_task]" using example_addrs(4) by simp
  ultimately show ?thesis using b(1) cr(1) by (metis fun_upd_same)
qed

theorem context_switch_resumes_witness:
  "cpu (context_switch 2 (t_rsp (tasks (context_switch 1 0x6000 sys_example) 1)) (context_switch 1 0x6000 sys_example)) =
     (cpu sys_example)\<lparr>r_rsp := 0x8008, r_rip := load64 (kmem sys_example) 0x8000\<rparr>"
proof -
  let ?s = "context_switch 1 0x6000 sys_example"
  have f: "t_rsp (tasks ?s 1) = 0x7FD0" "r_rsp (cpu ?s) = 0x6038" "r_rsp (cpu sys_example) = 0x8000"
    by (simp_all add: context_switch_cpu Let_def) (simp_all add: sys_example_def)
  have "48 \<le> unat (0x7FD0 + k - (r_rsp (cpu ?s) - 48))" if "k < 56" for k :: u64
  proof -
    have "0x7FD0 + k - (r_rsp (cpu ?s) - 48) = 0x1FC8 + k" by (simp add: f)
    moreover have "unat (0x1FC8 + k) = 0x1FC8 + unat k"
      using that by (subst unat_add_nowrap) (simp_all add: word_less_nat_alt)
    ultimately show ?thesis by simp
  qed
  then show ?thesis using context_switch_resumes [of "0x7FD0" 1 "0x6000" sys_example ?s 2] f by simp
qed

end
