(* ===== verification/Block.thy ===== *)
theory Block
  imports Machine
begin

text \<open>
  Block devices, \<^verbatim>\<open>kernel/drivers/block.h\<close>, and the RAM disk, \<^verbatim>\<open>kernel/drivers/ramdisk.c\<close>. A device is
  a record whose read function threads the state \<open>'st\<close> of the hardware behind it; a read gives the
  bytes of the sectors, or \<open>None\<close> for a non-zero return value. A null pointer is \<open>None\<close>.
\<close>

definition BLOCK_SECTOR_SIZE :: u64 where
  "BLOCK_SECTOR_SIZE = 512"

record 'st block_device =
  bd_name :: string
  bd_sectors :: u64
  bd_read :: "(u64 \<Rightarrow> u64 \<Rightarrow> u32 \<Rightarrow> 'st \<Rightarrow> u8 list option \<times> 'st) option"
  bd_priv :: u64

text \<open>The first argument of \<open>bd_read\<close> is the \<open>priv\<close> field of the device it is called on.\<close>

definition block_read :: "'st block_device option \<Rightarrow> u64 \<Rightarrow> u32 \<Rightarrow> 'st \<Rightarrow> u8 list option \<times> 'st" where
  "block_read dev lba count st =
     (case dev of None \<Rightarrow> (None, st)
      | Some d \<Rightarrow> (case bd_read d of None \<Rightarrow> (None, st)
        | Some rd \<Rightarrow>
            if count = 0 \<or> lba \<ge> bd_sectors d \<or> ucast count > bd_sectors d - lba then (None, st)
            else rd (bd_priv d) lba count st))"

section \<open>The RAM disk\<close>

definition ramdisk_read :: "u64 \<Rightarrow> u64 \<Rightarrow> u32 \<Rightarrow> memory \<Rightarrow> u8 list option \<times> memory" where
  "ramdisk_read priv lba count m =
     (let src = priv + lba * BLOCK_SECTOR_SIZE;
          bytes = ucast count * BLOCK_SECTOR_SIZE :: u64
      in (Some (map (\<lambda>i. m (kaddr (src + of_nat i))) [0..<unat bytes]), m))"

definition ramdisk_init :: "u64 \<Rightarrow> u64 \<Rightarrow> memory block_device option" where
  "ramdisk_init phys sz =
     (if sz < BLOCK_SECTOR_SIZE then None
      else Some \<lparr>bd_name = ''ram0'', bd_sectors = sz div BLOCK_SECTOR_SIZE, bd_read = Some ramdisk_read,
                 bd_priv = phys_to_virt phys\<rparr>)"

section \<open>What a file system relies on\<close>

text \<open>
  A device that serves its sectors: from every good state, reading a sector inside the device gives its
  512 bytes, leads to a good state, and changes no sector.
\<close>

locale sector_store =
  fixes dev :: "'st block_device"
    and ok :: "'st \<Rightarrow> bool"
    and content :: "'st \<Rightarrow> nat \<Rightarrow> u8 list"
  assumes read_sector: "\<lbrakk>ok st; lba < bd_sectors dev\<rbrakk> \<Longrightarrow>
      \<exists>st'. block_read (Some dev) lba 1 st = (Some (content st (unat lba)), st') \<and> ok st' \<and> content st' = content st"
    and content_length: "\<lbrakk>ok st; n < unat (bd_sectors dev)\<rbrakk> \<Longrightarrow> length (content st n) = 512"
begin

text \<open>A read outside the device is refused before it reaches the hardware.\<close>

lemma read_outside: "\<not> lba < bd_sectors dev \<Longrightarrow> block_read (Some dev) lba n st = (None, st)"
  by (simp add: block_read_def not_less split: option.split)

lemma read_any:
  assumes "ok st"
  shows "\<exists>r st'. block_read (Some dev) lba 1 st = (r, st') \<and> ok st' \<and> content st' = content st \<and>
    r = (if lba < bd_sectors dev then Some (content st (unat lba)) else None)"
proof (cases "lba < bd_sectors dev")
  case True
  then show ?thesis using read_sector [OF assms True] by auto
next
  case False
  then show ?thesis using read_outside assms by simp
qed

end

section \<open>The RAM disk serves its image\<close>

definition image_sector :: "u64 \<Rightarrow> memory \<Rightarrow> nat \<Rightarrow> u8 list" where
  "image_sector phys m n = map (\<lambda>i. m (phys + of_nat (512 * n + i))) [0..<512]"

text \<open>An image that lies in the direct map.\<close>

definition image_ok :: "u64 \<Rightarrow> u64 \<Rightarrow> bool" where
  "image_ok phys sz \<longleftrightarrow> 512 \<le> unat sz \<and> unat phys + unat sz \<le> 2 ^ 47"

definition ramdisk :: "u64 \<Rightarrow> u64 \<Rightarrow> memory block_device" where
  "ramdisk phys sz = the (ramdisk_init phys sz)"

lemma ramdisk_sector:
  assumes "image_ok phys sz" "unat lba < unat sz div 512"
  shows "block_read (Some (ramdisk phys sz)) lba 1 m = (Some (image_sector phys m (unat lba)), m)"
proof -
  have init: "ramdisk phys sz = \<lparr>bd_name = ''ram0'', bd_sectors = sz div 512, bd_read = Some ramdisk_read,
      bd_priv = phys_to_virt phys\<rparr>"
    using assms(1) by (simp add: ramdisk_def ramdisk_init_def image_ok_def BLOCK_SECTOR_SIZE_def word_less_nat_alt)
  have u: "unat (sz div 512) = unat sz div 512" by (simp add: unat_div)
  then have lt: "lba < sz div 512" using assms(2) by (simp add: word_less_nat_alt)
  have "1 \<le> unat (sz div 512 - lba)" using lt u assms(2) by (subst unat_sub) (simp_all add: word_le_nat_alt word_less_nat_alt)
  then have c: "\<not> sz div 512 - lba < 1" by (simp add: word_less_nat_alt)
  have sec: "Suc (unat lba) * 512 \<le> unat sz"
    using mult_le_mono1 [of "Suc (unat lba)" "unat sz div 512" 512] assms(2) by simp
  have b: "m (kaddr (phys_to_virt phys + lba * 512 + of_nat i)) = m (phys + of_nat (512 * unat lba + i))" if "i < 512" for i
  proof -
    have k: "unat (of_nat (512 * unat lba + i) :: u64) = 512 * unat lba + i"
      using sec that assms(1) by (intro unat_of_nat_small) (simp add: image_ok_def)
    have p: "kaddr (phys_to_virt phys) = phys" using assms(1) by (intro kaddr_phys_to_virt) (simp add: image_ok_def)
    have "phys_to_virt phys + lba * 512 + of_nat i = phys_to_virt phys + of_nat (512 * unat lba + i)"
      by (simp add: mult.commute)
    also have "kaddr \<dots> = phys + of_nat (512 * unat lba + i)"
      using sec that assms(1) kaddr_add [of "phys_to_virt phys" "of_nat (512 * unat lba + i)"] k p
      by (simp add: image_ok_def)
    finally show ?thesis by simp
  qed
  have "bd_sectors (ramdisk phys sz) = sz div 512" "bd_read (ramdisk phys sz) = Some ramdisk_read"
    "bd_priv (ramdisk phys sz) = phys_to_virt phys" by (simp_all add: init)
  then show ?thesis using lt c b
    by (simp add: block_read_def ramdisk_read_def image_sector_def BLOCK_SECTOR_SIZE_def Let_def)
qed

lemma ramdisk_sectors: "image_ok phys sz \<Longrightarrow> unat (bd_sectors (ramdisk phys sz)) = unat sz div 512"
  by (simp add: ramdisk_def ramdisk_init_def image_ok_def BLOCK_SECTOR_SIZE_def word_less_nat_alt unat_div)

interpretation ram0: sector_store "ramdisk phys sz" "\<lambda>_. image_ok phys sz" "image_sector phys" for phys sz
proof (unfold_locales, goal_cases)
  case (1 m lba)
  then show ?case using ramdisk_sector [OF 1(1), of lba m] ramdisk_sectors [OF 1(1)] by (simp add: word_less_nat_alt)
next
  case (2 m n)
  then show ?case by (simp add: image_sector_def)
qed

end
