(* ===== verification/Fat32.thy ===== *)
theory Fat32
  imports Block
begin

text \<open>
  The FAT32 reader, \<^verbatim>\<open>kernel/fs/fat32.c\<close>. Sectors are lists of 512 bytes; on-disk structures are read at
  their packed offsets; cluster numbers, LBAs and sizes are 32-bit and wrap as in C. Every function
  threads the state of the block device. C strings are byte lists, ending at their first zero byte or
  at the end of the list. The messages printed on failure are left out.
\<close>

section \<open>On-disk structures\<close>

type_synonym sector = "u8 list"

definition le16 :: "sector \<Rightarrow> nat \<Rightarrow> u16" where
  "le16 s o' = ucast (s ! o') OR push_bit 8 (ucast (s ! (o' + 1)))"

definition le32 :: "sector \<Rightarrow> nat \<Rightarrow> u32" where
  "le32 s o' = ucast (s ! o') OR push_bit 8 (ucast (s ! (o' + 1))) OR
     push_bit 16 (ucast (s ! (o' + 2))) OR push_bit 24 (ucast (s ! (o' + 3)))"

definition FAT32_EOC :: u32 where
  "FAT32_EOC = 0x0FFFFFF8"

record fat32_bpb =
  bpb_jmp :: "u8 list"
  bpb_oem :: "u8 list"
  bytes_per_sector :: u16
  bpb_sectors_per_cluster :: u8
  reserved_sectors :: u16
  num_fats :: u8
  root_entry_count :: u16
  total_sectors_16 :: u16
  bpb_media :: u8
  fat_size_16 :: u16
  sectors_per_track :: u16
  num_heads :: u16
  hidden_sectors :: u32
  total_sectors_32 :: u32
  fat_size_32 :: u32
  ext_flags :: u16
  fs_version :: u16
  bpb_root_cluster :: u32
  fs_info :: u16
  backup_boot_sector :: u16
  bpb_reserved :: "u8 list"
  drive_number :: u8
  bpb_reserved1 :: u8
  boot_signature :: u8
  volume_id :: u32
  volume_label :: "u8 list"
  fs_type :: "u8 list"

definition bpb_of :: "sector \<Rightarrow> fat32_bpb" where
  "bpb_of s = \<lparr>bpb_jmp = take 3 s, bpb_oem = take 8 (drop 3 s), bytes_per_sector = le16 s 11,
     bpb_sectors_per_cluster = s ! 13, reserved_sectors = le16 s 14, num_fats = s ! 16, root_entry_count = le16 s 17,
     total_sectors_16 = le16 s 19, bpb_media = s ! 21, fat_size_16 = le16 s 22, sectors_per_track = le16 s 24,
     num_heads = le16 s 26, hidden_sectors = le32 s 28, total_sectors_32 = le32 s 32, fat_size_32 = le32 s 36,
     ext_flags = le16 s 40, fs_version = le16 s 42, bpb_root_cluster = le32 s 44, fs_info = le16 s 48,
     backup_boot_sector = le16 s 50, bpb_reserved = take 12 (drop 52 s), drive_number = s ! 64, bpb_reserved1 = s ! 65,
     boot_signature = s ! 66, volume_id = le32 s 67, volume_label = take 11 (drop 71 s), fs_type = take 8 (drop 82 s)\<rparr>"

record 'st fat32_fs =
  fat_start_lba :: u32
  data_start_lba :: u32
  sectors_per_cluster :: u32
  fs_bytes_per_sector :: u32
  root_cluster :: u32
  fs_dev :: "'st block_device option"

record fat32_dirent =
  de_name :: "u8 list"
  de_attr :: u8
  de_nt_reserved :: u8
  de_create_tenth :: u8
  de_create_time :: u16
  de_create_date :: u16
  de_access_date :: u16
  de_cluster_hi :: u16
  de_write_time :: u16
  de_write_date :: u16
  de_cluster_lo :: u16
  de_size :: u32

definition dirent_at :: "sector \<Rightarrow> nat \<Rightarrow> fat32_dirent" where
  "dirent_at s i = (let e = drop (32 * i) s in
     \<lparr>de_name = take 11 e, de_attr = e ! 11, de_nt_reserved = e ! 12, de_create_tenth = e ! 13,
      de_create_time = le16 e 14, de_create_date = le16 e 16, de_access_date = le16 e 18, de_cluster_hi = le16 e 20,
      de_write_time = le16 e 22, de_write_date = le16 e 24, de_cluster_lo = le16 e 26, de_size = le32 e 28\<rparr>)"

definition FAT_ATTR_LFN :: u8 where
  "FAT_ATTR_LFN = 0x0F"

definition FAT_ATTR_DIRECTORY :: u8 where
  "FAT_ATTR_DIRECTORY = 0x10"

definition FAT_ATTR_VOLUME_ID :: u8 where
  "FAT_ATTR_VOLUME_ID = 0x08"

definition DIRENT_END :: u8 where
  "DIRENT_END = 0"

definition DIRENT_DELETED :: u8 where
  "DIRENT_DELETED = 0xE5"

record fat32_file =
  start_cluster :: u32
  f_size :: u32

section \<open>Names\<close>

text \<open>The copying loops of \<open>fat32_format_name\<close>: up to the first padding blank.\<close>

fun until_space :: "u8 list \<Rightarrow> u8 list" where
  "until_space [] = []"
| "until_space (c # cs) = (if c = 0x20 then [] else c # until_space cs)"

definition fat32_format_name :: "u8 list \<Rightarrow> u8 list" where
  "fat32_format_name name =
     until_space (take 8 name) @
     (if name ! 8 \<noteq> 0x20 then 0x2E # until_space (take 3 (drop 8 name)) else [])"

text \<open>The end of a list stands for the terminating zero.\<close>

fun fat_streq :: "u8 list \<Rightarrow> u8 list \<Rightarrow> bool" where
  "fat_streq (a # as) (b # bs) =
     (if a \<noteq> 0 \<and> b \<noteq> 0 then if a \<noteq> b then False else fat_streq as bs else a = b)"
| "fat_streq [] (b # bs) = (b = 0)"
| "fat_streq (a # as) [] = (a = 0)"
| "fat_streq [] [] = True"

section \<open>Mounting\<close>

definition fat32_init :: "'st block_device option \<Rightarrow> 'st \<Rightarrow> 'st fat32_fs option \<times> 'st" where
  "fat32_init dev st =
     (case block_read dev 0 1 st of
        (None, st) \<Rightarrow> (None, st)
      | (Some sector, st) \<Rightarrow>
          if sector ! 510 \<noteq> 0x55 \<or> sector ! 511 \<noteq> 0xAA then (None, st)
          else let bpb = bpb_of sector in
          if root_entry_count bpb \<noteq> 0 \<or> fat_size_16 bpb \<noteq> 0 then (None, st)
          else if bytes_per_sector bpb \<noteq> 512 then (None, st)
          else (Some \<lparr>fat_start_lba = ucast (reserved_sectors bpb),
                  data_start_lba = ucast (reserved_sectors bpb) + ucast (num_fats bpb) * fat_size_32 bpb,
                  sectors_per_cluster = ucast (bpb_sectors_per_cluster bpb),
                  fs_bytes_per_sector = ucast (bytes_per_sector bpb),
                  root_cluster = bpb_root_cluster bpb, fs_dev = dev\<rparr>, st))"

section \<open>Cluster chains\<close>

definition fat32_next_cluster :: "'st fat32_fs \<Rightarrow> u32 \<Rightarrow> 'st \<Rightarrow> u32 \<times> 'st" where
  "fat32_next_cluster fs cluster st =
     (let fat_offset = cluster * 4;
          fat_sector = fat_start_lba fs + fat_offset div 512;
          offset_in_sector = fat_offset mod 512
      in case block_read (fs_dev fs) (ucast fat_sector) 1 st of
           (None, st) \<Rightarrow> (0, st)
         | (Some sector, st) \<Rightarrow> (le32 sector (unat offset_in_sector) AND 0x0FFFFFFF, st))"

definition in_chain :: "u32 \<Rightarrow> bool" where
  "in_chain cluster \<longleftrightarrow> cluster \<ge> 2 \<and> cluster < FAT32_EOC"

definition cluster_lba :: "'st fat32_fs \<Rightarrow> u32 \<Rightarrow> u32" where
  "cluster_lba fs cluster = data_start_lba fs + (cluster - 2) * sectors_per_cluster fs"

definition sector_offsets :: "'st fat32_fs \<Rightarrow> u32 list" where
  "sector_offsets fs = map of_nat [0..<unat (sectors_per_cluster fs)]"

section \<open>Directory search\<close>

definition skipped :: "fat32_dirent \<Rightarrow> bool" where
  "skipped e \<longleftrightarrow> hd (de_name e) = DIRENT_DELETED \<or> de_attr e = FAT_ATTR_LFN \<or> de_attr e AND FAT_ATTR_VOLUME_ID \<noteq> 0"

definition file_of :: "fat32_dirent \<Rightarrow> fat32_file" where
  "file_of e = \<lparr>start_cluster = push_bit 16 (ucast (de_cluster_hi e)) OR ucast (de_cluster_lo e), f_size = de_size e\<rparr>"

text \<open>\<open>Stop r\<close> is a \<open>return\<close> out of the loops, \<open>Go\<close> their normal end.\<close>

datatype 'r scan = Stop 'r | Go

fun find_entries :: "u8 list \<Rightarrow> fat32_dirent list \<Rightarrow> fat32_file option scan" where
  "find_entries name [] = Go"
| "find_entries name (e # es) =
     (if hd (de_name e) = DIRENT_END then Stop None
      else if skipped e then find_entries name es
      else if fat_streq (fat32_format_name (de_name e)) name then Stop (Some (file_of e))
      else find_entries name es)"

definition dirents :: "sector \<Rightarrow> fat32_dirent list" where
  "dirents sector = map (dirent_at sector) [0..<16]"

fun find_sectors :: "'st fat32_fs \<Rightarrow> u8 list \<Rightarrow> u32 \<Rightarrow> u32 list \<Rightarrow> 'st \<Rightarrow> fat32_file option scan \<times> 'st" where
  "find_sectors fs name lba [] st = (Go, st)"
| "find_sectors fs name lba (s # ss) st =
     (case block_read (fs_dev fs) (ucast (lba + s)) 1 st of
        (None, st) \<Rightarrow> (Stop None, st)
      | (Some sector, st) \<Rightarrow>
          (case find_entries name (dirents sector) of
             Stop r \<Rightarrow> (Stop r, st)
           | Go \<Rightarrow> find_sectors fs name lba ss st))"

function find_clusters :: "'st fat32_fs \<Rightarrow> u8 list \<Rightarrow> nat \<Rightarrow> u32 \<Rightarrow> 'st \<Rightarrow> fat32_file option \<times> 'st" where
  "find_clusters fs name guard cluster st =
     (if in_chain cluster then
        case find_sectors fs name (cluster_lba fs cluster) (sector_offsets fs) st of
          (Stop r, st) \<Rightarrow> (r, st)
        | (Go, st) \<Rightarrow>
            let (cluster, st) = fat32_next_cluster fs cluster st in
            if guard + 1 > 64 then (None, st) else find_clusters fs name (guard + 1) cluster st
      else (None, st))"
  by pat_completeness auto
termination
  by (relation "measure (\<lambda>(fs, name, guard, cluster, st). 65 - guard)") auto

declare find_clusters.simps [simp del]

definition fat32_find :: "'st fat32_fs \<Rightarrow> u8 list \<Rightarrow> 'st \<Rightarrow> fat32_file option \<times> 'st" where
  "fat32_find fs name st = find_clusters fs name 0 (root_cluster fs) st"

section \<open>Directory listing\<close>

text \<open>One line of the listing: name, start cluster, size, directory flag.\<close>

type_synonym line = "u8 list \<times> u32 \<times> u32 \<times> bool"

fun list_entries :: "fat32_dirent list \<Rightarrow> line list \<times> unit scan" where
  "list_entries [] = ([], Go)"
| "list_entries (e # es) =
     (if hd (de_name e) = DIRENT_END then ([], Stop ())
      else if skipped e then list_entries es
      else apfst (Cons (fat32_format_name (de_name e), start_cluster (file_of e), de_size e,
             de_attr e AND FAT_ATTR_DIRECTORY \<noteq> 0)) (list_entries es))"

fun list_sectors :: "'st fat32_fs \<Rightarrow> u32 \<Rightarrow> u32 list \<Rightarrow> 'st \<Rightarrow> (line list \<times> unit scan) \<times> 'st" where
  "list_sectors fs lba [] st = (([], Go), st)"
| "list_sectors fs lba (s # ss) st =
     (case block_read (fs_dev fs) (ucast (lba + s)) 1 st of
        (None, st) \<Rightarrow> (([], Stop ()), st)
      | (Some sector, st) \<Rightarrow>
          (case list_entries (dirents sector) of
             (ls, Stop u) \<Rightarrow> ((ls, Stop u), st)
           | (ls, Go) \<Rightarrow> apfst (apfst (append ls)) (list_sectors fs lba ss st)))"

function list_clusters :: "'st fat32_fs \<Rightarrow> nat \<Rightarrow> u32 \<Rightarrow> 'st \<Rightarrow> line list \<times> 'st" where
  "list_clusters fs guard cluster st =
     (if in_chain cluster then
        case list_sectors fs (cluster_lba fs cluster) (sector_offsets fs) st of
          ((ls, Stop u), st) \<Rightarrow> (ls, st)
        | ((ls, Go), st) \<Rightarrow>
            let (cluster, st) = fat32_next_cluster fs cluster st in
            if guard + 1 > 64 then (ls, st)
            else apfst (append ls) (list_clusters fs (guard + 1) cluster st)
      else ([], st))"
  by pat_completeness auto
termination
  by (relation "measure (\<lambda>(fs, guard, cluster, st). 65 - guard)") auto

declare list_clusters.simps [simp del]

definition fat32_list_root :: "'st fat32_fs \<Rightarrow> 'st \<Rightarrow> line list \<times> 'st" where
  "fat32_list_root fs st = list_clusters fs 0 (root_cluster fs) st"

section \<open>Reading a file\<close>

text \<open>\<open>buf[off + b] = src[b]\<close> for every byte of \<open>src\<close>.\<close>

definition copy_into :: "u8 list \<Rightarrow> nat \<Rightarrow> u8 list \<Rightarrow> u8 list" where
  "copy_into buf off src = take off buf @ src @ drop (off + length src) buf"

fun read_sectors ::
  "'st fat32_fs \<Rightarrow> u32 \<Rightarrow> u32 \<Rightarrow> u32 list \<Rightarrow> u32 \<Rightarrow> u8 list \<Rightarrow> 'st \<Rightarrow> (u32 option \<times> u8 list) \<times> 'st" where
  "read_sectors fs lba sz [] copied buf st = ((Some copied, buf), st)"
| "read_sectors fs lba sz (s # ss) copied buf st =
     (if copied < sz then
        case block_read (fs_dev fs) (ucast (lba + s)) 1 st of
          (None, st) \<Rightarrow> ((None, buf), st)
        | (Some sector, st) \<Rightarrow>
            let remaining = sz - copied;
                tk = (if remaining < 512 then remaining else 512)
            in read_sectors fs lba sz ss (copied + tk) (copy_into buf (unat copied) (take (unat tk) sector)) st
      else ((Some copied, buf), st))"

function read_clusters ::
  "'st fat32_fs \<Rightarrow> u32 \<Rightarrow> nat \<Rightarrow> u32 \<Rightarrow> u32 \<Rightarrow> u8 list \<Rightarrow> 'st \<Rightarrow> (u32 option \<times> u8 list) \<times> 'st" where
  "read_clusters fs sz guard cluster copied buf st =
     (if in_chain cluster \<and> copied < sz then
        case read_sectors fs (cluster_lba fs cluster) sz (sector_offsets fs) copied buf st of
          ((None, buf), st) \<Rightarrow> ((None, buf), st)
        | ((Some copied, buf), st) \<Rightarrow>
            let (cluster, st) = fat32_next_cluster fs cluster st in
            if guard + 1 > 1024 then ((None, buf), st)
            else read_clusters fs sz (guard + 1) cluster copied buf st
      else ((if copied \<noteq> sz then None else Some copied, buf), st))"
  by pat_completeness auto
termination
  by (relation "measure (\<lambda>(fs, sz, guard, cluster, copied, buf, st). 1025 - guard)") auto

declare read_clusters.simps [simp del]

text \<open>The result is the returned \<open>int\<close>, the buffer and the device.\<close>

definition fat32_read_file ::
  "'st fat32_fs \<Rightarrow> fat32_file \<Rightarrow> u8 list \<Rightarrow> u32 \<Rightarrow> 'st \<Rightarrow> (int \<times> u8 list) \<times> 'st" where
  "fat32_read_file fs file buf buf_size st =
     (if buf_size < f_size file then ((- 1, buf), st)
      else case read_clusters fs (f_size file) 0 (start_cluster file) 0 buf st of
             ((None, buf), st) \<Rightarrow> ((- 1, buf), st)
           | ((Some copied, buf), st) \<Rightarrow> ((sint copied, buf), st))"

end
