(* ===== verification/Fat32Spec.thy ===== *)
theory Fat32Spec
  imports Fat32
begin

text \<open>
  What the FAT32 reader returns: names, the listing and the search, and the contents of files on a
  device that serves its sectors. The clients' lemmas are proved once over \<open>sector_store\<close> and reach
  the RAM disk through its interpretation.
\<close>

text \<open>Loops over the 512 bytes of a sector stay folded.\<close>

declare upt_rec_numeral [simp del]

section \<open>Names\<close>

lemma until_space_takeWhile: "until_space cs = takeWhile (\<lambda>c. c \<noteq> 0x20) cs"
  by (induction cs) auto

lemma fat_streq_cstr: "fat_streq a b \<longleftrightarrow> takeWhile (\<lambda>c. c \<noteq> 0) a = takeWhile (\<lambda>c. c \<noteq> 0) b"
  by (induction a b rule: fat_streq.induct) auto

text \<open>A name as the disk stores it: base and extension padded with blanks to 8 and 3 bytes.\<close>

definition pad83 :: "u8 list \<Rightarrow> u8 list \<Rightarrow> u8 list" where
  "pad83 b e = b @ replicate (8 - length b) 0x20 @ e @ replicate (3 - length e) 0x20"

definition no_blank :: "u8 list \<Rightarrow> bool" where
  "no_blank cs \<longleftrightarrow> 0x20 \<notin> set cs"

lemma takeWhile_pad: "no_blank b \<Longrightarrow> takeWhile (\<lambda>c. c \<noteq> 0x20) (b @ replicate n 0x20) = b"
  by (subst takeWhile_append2) (auto simp: no_blank_def takeWhile_eq_Nil_iff)

lemma format_pad83:
  assumes "length b \<le> 8" "length e \<le> 3" "no_blank b" "no_blank e"
  shows "fat32_format_name (pad83 b e) = b @ (if e = [] then [] else 0x2E # e)"
proof -
  have base: "take 8 (pad83 b e) = b @ replicate (8 - length b) 0x20"
    and ext: "drop 8 (pad83 b e) = e @ replicate (3 - length e) 0x20"
    using assms(1) by (simp_all add: pad83_def)
  have "8 \<le> length (pad83 b e)" using assms(1) by (simp add: pad83_def)
  then have "pad83 b e ! 8 = drop 8 (pad83 b e) ! 0" by (simp add: nth_drop)
  then have "pad83 b e ! 8 = (if e = [] then 0x20 else hd e)" unfolding ext by (cases e) auto
  moreover have "hd e \<noteq> 0x20" if "e \<noteq> []" using that assms(4) by (cases e) (auto simp: no_blank_def)
  moreover have "take 3 (e @ replicate (3 - length e) 0x20) = e @ replicate (3 - length e) 0x20"
    using assms(2) by simp
  ultimately show ?thesis unfolding fat32_format_name_def base ext until_space_takeWhile
    by (simp add: takeWhile_pad assms(3,4))
qed

text \<open>
  C25. Printing 8.3 names inverts padding them: a base of up to 8 and an extension of up to 3 bytes without
  blanks, padded as on disk, print as the base, a dot and the extension, without the dot when there
  is none. Whatever the 11 bytes are, the printed name with its terminating zero fits the 13 bytes of the
  caller's buffer.
\<close>

theorem fat32_format_name_correct:
  "(\<forall>b e. length b \<le> 8 \<longrightarrow> length e \<le> 3 \<longrightarrow> no_blank b \<longrightarrow> no_blank e \<longrightarrow>
      fat32_format_name (pad83 b e) = b @ (if e = [] then [] else 0x2E # e)) \<and>
   (\<forall>name. length (fat32_format_name name) + 1 \<le> 13)"
proof -
  have len: "length (until_space (take n cs)) \<le> n" for n cs
    using length_takeWhile_le [of _ "take n cs"] by (simp add: until_space_takeWhile le_trans)
  have "length (fat32_format_name name) + 1 \<le> 13" for name
    using len [of 8 name] len [of 3 "drop 8 name"] by (simp add: fat32_format_name_def)
  then show ?thesis using format_pad83 by blast
qed

theorem fat32_format_name_correct_witness:
  "fat32_format_name (pad83 [0x49, 0x4E, 0x49, 0x54] [0x45, 0x4C, 0x46]) = [0x49, 0x4E, 0x49, 0x54, 0x2E, 0x45, 0x4C, 0x46]"
  using fat32_format_name_correct by (simp add: no_blank_def)

section \<open>The search and the listing\<close>

definition line_file :: "line \<Rightarrow> fat32_file" where
  "line_file l = \<lparr>start_cluster = fst (snd l), f_size = fst (snd (snd l))\<rparr>"

text \<open>The first line of a listing with a given name.\<close>

definition pick :: "u8 list \<Rightarrow> line list \<Rightarrow> fat32_file option" where
  "pick name ls = map_option line_file (find (\<lambda>l. fat_streq (fst l) name) ls)"

lemma pick_simps [simp]:
  "pick name [] = None"
  "pick name (l # ls) = (if fat_streq (fst l) name then Some (line_file l) else pick name ls)"
  by (simp_all add: pick_def)

lemma pick_append: "pick name (ks @ ls) = (case pick name ks of Some f \<Rightarrow> Some f | None \<Rightarrow> pick name ls)"
  by (induction ks) auto

lemma entries_agree:
  "find_entries name es = (case list_entries es of (ls, r) \<Rightarrow>
     (case pick name ls of Some f \<Rightarrow> Stop (Some f) | None \<Rightarrow> (case r of Stop u \<Rightarrow> Stop None | Go \<Rightarrow> Go)))"
  by (induction es) (auto simp: line_file_def file_of_def split: prod.splits scan.splits option.splits)

lemma sectors_agree:
  "case list_sectors fs lba ss st of ((ls, r), st1) \<Rightarrow>
     (case pick name ls of
        Some f \<Rightarrow> fst (find_sectors fs name lba ss st) = Stop (Some f)
      | None \<Rightarrow> find_sectors fs name lba ss st = ((case r of Stop u \<Rightarrow> Stop None | Go \<Rightarrow> Go), st1))"
proof (induction ss arbitrary: st)
  case (Cons s ss)
  obtain o' st1 where r: "block_read (fs_dev fs) (ucast (lba + s)) 1 st = (o', st1)" by fastforce
  show ?case
  proof (cases o')
    case None
    then show ?thesis by (simp add: r)
  next
    case (Some sec)
    obtain ls e where l: "list_entries (dirents sec) = (ls, e)" by fastforce
    obtain ks r2 st2 where k: "list_sectors fs lba ss st1 = ((ks, r2), st2)" by (metis surj_pair)
    show ?thesis using Cons.IH [of st1]
      by (cases e) (auto simp: r Some l k entries_agree pick_append split: option.splits)
  qed
qed simp

lemma clusters_agree:
  "fst (find_clusters fs name guard c st) = pick name (fst (list_clusters fs guard c st))"
proof (induction fs guard c st rule: list_clusters.induct)
  case (1 fs guard c st)
  obtain ls r st1 where l: "list_sectors fs (cluster_lba fs c) (sector_offsets fs) st = ((ls, r), st1)" by (metis surj_pair)
  obtain c' st2 where n: "fat32_next_cluster fs c st1 = (c', st2)" by fastforce
  note a = sectors_agree [where fs = fs and lba = "cluster_lba fs c" and ss = "sector_offsets fs" and st = st and name = name,
    unfolded l prod.case]
  show ?case
  proof (cases "in_chain c")
    case True
    then show ?thesis
      using a n "1" [OF True l [symmetric] refl _ n [symmetric] refl]
      by (subst find_clusters.simps, subst list_clusters.simps)
        (auto simp: l pick_append split: option.splits scan.splits prod.splits)
  qed (simp add: find_clusters.simps list_clusters.simps)
qed

text \<open>
  Searching and listing agree: on every device and in every state, \<open>fat32_find\<close> returns the file of
  the first line with the given name that \<open>fat32_list_root\<close> prints, and fails exactly when no line has it.
  Both skip deleted entries, long-name fragments and volume labels, stop at the end marker or at a read
  error, and follow at most 65 clusters.
\<close>

theorem fat32_find_is_listing:
  "fst (fat32_find fs name st) = pick name (fst (fat32_list_root fs st))"
  by (simp add: fat32_find_def fat32_list_root_def clusters_agree)

section \<open>The volume as an array of clusters\<close>

text \<open>
  The FAT entry of a cluster and the bytes of a cluster, read off the contents \<open>D\<close> of a device of \<open>n\<close>
  sectors.
\<close>

definition fat_next :: "u64 \<Rightarrow> (nat \<Rightarrow> sector) \<Rightarrow> 'st fat32_fs \<Rightarrow> u32 \<Rightarrow> u32" where
  "fat_next n D fs c =
     (let sec = fat_start_lba fs + (c * 4) div 512 in
      if ucast sec < n then le32 (D (unat sec)) (unat (c * 4 mod 512)) AND 0x0FFFFFFF else 0)"

definition cluster_data :: "(nat \<Rightarrow> sector) \<Rightarrow> 'st fat32_fs \<Rightarrow> u32 \<Rightarrow> u8 list" where
  "cluster_data D fs c = concat (map (\<lambda>s. D (unat (cluster_lba fs c + s))) (sector_offsets fs))"

text \<open>The clusters \<open>cs\<close> a chain starts with: each inside the volume, each leading to the next.\<close>

fun file_chain :: "u64 \<Rightarrow> (nat \<Rightarrow> sector) \<Rightarrow> 'st fat32_fs \<Rightarrow> u32 \<Rightarrow> u32 list \<Rightarrow> bool" where
  "file_chain n D fs c [] \<longleftrightarrow> True"
| "file_chain n D fs c (x # xs) \<longleftrightarrow> c = x \<and> in_chain x \<and>
     (\<forall>s \<in> set (sector_offsets fs). (ucast (cluster_lba fs x + s) :: u64) < n) \<and>
     file_chain n D fs (fat_next n D fs x) xs"

lemma copy_into_append:
  assumes "o' + length a \<le> length buf"
  shows "copy_into (copy_into buf o' a) (o' + length a) b = copy_into buf o' (a @ b)"
  using assms by (simp add: copy_into_def ac_simps)

lemma length_copy_into: "o' + length a \<le> length buf \<Longrightarrow> length (copy_into buf o' a) = length buf"
  by (simp add: copy_into_def)

lemma copy_into_Nil [simp]: "copy_into buf o' [] = buf"
  by (simp add: copy_into_def)

lemma unat_add_nowrap32:
  "unat x + unat y < 4294967296 \<Longrightarrow> unat (x + y) = unat x + unat (y::u32)"
  by (simp add: unat_word_ariths)

text \<open>The part of a sector the copy loop takes.\<close>

definition take_of :: "u32 \<Rightarrow> u32 \<Rightarrow> u32" where
  "take_of sz copied = (if sz - copied < 512 then sz - copied else 512)"

lemma take_of:
  assumes "copied < sz"
  shows "unat (take_of sz copied) = min (unat sz - unat copied) 512"
    "unat (copied + take_of sz copied) = unat copied + min (unat sz - unat copied) 512"
proof -
  have lt: "unat copied < unat sz" using assms by (simp add: word_less_nat_alt)
  have "unat (sz - copied) = unat sz - unat copied" using lt by (subst unat_sub) (simp_all add: word_le_nat_alt)
  then show t: "unat (take_of sz copied) = min (unat sz - unat copied) 512"
    by (auto simp: take_of_def word_less_nat_alt)
  have "unat sz < 4294967296" by simp
  then have "unat copied + unat (take_of sz copied) < 4294967296" using t lt by linarith
  then show "unat (copied + take_of sz copied) = unat copied + min (unat sz - unat copied) 512"
    using t by (subst unat_add_nowrap32) simp_all
qed

lemma read_sectors_Cons:
  "copied < sz \<Longrightarrow> read_sectors fs lba sz (s # ss) copied buf st =
     (case block_read (fs_dev fs) (ucast (lba + s)) 1 st of
        (None, st) \<Rightarrow> ((None, buf), st)
      | (Some sector, st) \<Rightarrow> read_sectors fs lba sz ss (copied + take_of sz copied)
          (copy_into buf (unat copied) (take (unat (take_of sz copied)) sector)) st)"
  by (auto simp: take_of_def Let_def split: prod.split option.split)

lemma length_concat_const: "(\<And>x. x \<in> set xs \<Longrightarrow> length (f x) = n) \<Longrightarrow> length (concat (map f xs)) = n * length xs"
  by (induction xs) auto

section \<open>The root directory\<close>

definition line_of :: "fat32_dirent \<Rightarrow> line" where
  "line_of e = (fat32_format_name (de_name e), start_cluster (file_of e), de_size e, de_attr e AND FAT_ATTR_DIRECTORY \<noteq> 0)"

text \<open>What a directory lists: its entries up to the end marker, less those that are skipped.\<close>

definition listed :: "fat32_dirent list \<Rightarrow> line list" where
  "listed es = map line_of (filter (\<lambda>e. \<not> skipped e) (takeWhile (\<lambda>e. hd (de_name e) \<noteq> DIRENT_END) es))"

lemma list_entries_listed: "fst (list_entries es) = listed es"
  by (induction es) (auto simp: listed_def line_of_def)

lemma list_entries_append:
  "list_entries (xs @ ys) = (case list_entries xs of (ls, Stop u) \<Rightarrow> (ls, Stop u)
     | (ls, Go) \<Rightarrow> apfst (append ls) (list_entries ys))"
  by (induction xs; cases "list_entries ys") (auto split: prod.splits scan.splits)

definition cluster_entries :: "(nat \<Rightarrow> sector) \<Rightarrow> 'st fat32_fs \<Rightarrow> u32 \<Rightarrow> fat32_dirent list" where
  "cluster_entries D fs c = concat (map (\<lambda>s. dirents (D (unat (cluster_lba fs c + s)))) (sector_offsets fs))"

text \<open>A whole chain, to its end.\<close>

definition whole_chain :: "u64 \<Rightarrow> (nat \<Rightarrow> sector) \<Rightarrow> 'st fat32_fs \<Rightarrow> u32 \<Rightarrow> u32 list \<Rightarrow> bool" where
  "whole_chain n D fs c cs \<longleftrightarrow> file_chain n D fs c cs \<and>
     \<not> in_chain (if cs = [] then c else fat_next n D fs (last cs))"

lemma whole_chain_simps [simp]:
  "whole_chain n D fs c [] \<longleftrightarrow> \<not> in_chain c"
  "whole_chain n D fs c (x # xs) \<longleftrightarrow> c = x \<and> in_chain x \<and>
     (\<forall>s \<in> set (sector_offsets fs). (ucast (cluster_lba fs x + s) :: u64) < n) \<and>
     whole_chain n D fs (fat_next n D fs x) xs"
  by (auto simp: whole_chain_def)

section \<open>Reading files\<close>

context sector_store
begin

lemma next_cluster:
  assumes "ok st" "fs_dev fs = Some dev"
  shows "\<exists>st'. fat32_next_cluster fs c st = (fat_next (bd_sectors dev) (content st) fs c, st') \<and> ok st' \<and> content st' = content st"
  using read_any [OF assms(1), of "ucast (fat_start_lba fs + (c * 4) div 512)"]
  by (auto simp: fat32_next_cluster_def fat_next_def Let_def assms(2))

lemma sectors_copied:
  assumes "ok st" "fs_dev fs = Some dev" "\<forall>s \<in> set ss. (ucast (lba + s) :: u64) < bd_sectors dev"
    and "unat copied \<le> unat sz" "unat sz \<le> length buf" "k = min (unat sz - unat copied) (512 * length ss)"
  shows "\<exists>copied' st'. read_sectors fs lba sz ss copied buf st = ((Some copied',
      copy_into buf (unat copied) (take k (concat (map (\<lambda>s. content st (unat (lba + s))) ss)))), st') \<and>
    unat copied' = unat copied + k \<and> ok st' \<and> content st' = content st"
  using assms
proof (induction ss arbitrary: st copied buf k)
  case Nil
  then show ?case by simp
next
  case (Cons s ss)
  show ?case
  proof (cases "copied < sz")
    case False
    then have "k = 0" using Cons.prems(4,6) by (simp add: word_less_nat_alt)
    then show ?thesis using False Cons.prems(1) by simp
  next
    case True
    let ?D = "\<lambda>s. content st (unat (lba + s))" and ?rest = "concat (map (\<lambda>s. content st (unat (lba + s))) ss)"
    note tk = take_of [OF True]
    have lt: "unat copied < unat sz" using True by (simp add: word_less_nat_alt)
    have s: "(ucast (lba + s) :: u64) < bd_sectors dev" using Cons.prems(3) by simp
    obtain st1 where st1: "block_read (Some dev) (ucast (lba + s)) 1 st = (Some (?D s), st1)" "ok st1" "content st1 = content st"
      using read_sector [OF Cons.prems(1) s] by auto
    have l: "length (?D s) = 512"
      using content_length [OF Cons.prems(1), of "unat (lba + s)"] s by (simp add: word_less_nat_alt)
    define m where "m = min (unat sz - unat copied) 512"
    define b1 where "b1 = copy_into buf (unat copied) (take m (?D s))"
    have m: "length (take m (?D s)) = m" "unat copied + m \<le> unat sz" using l lt by (simp_all add: m_def)
    have lb: "length b1 = length buf" unfolding b1_def using m Cons.prems(5) by (intro length_copy_into) simp
    define k' where "k' = min (unat sz - (unat copied + m)) (512 * length ss)"
    have c1: "unat (copied + take_of sz copied) = unat copied + m" using tk(2) by (simp add: m_def)
    have "\<exists>copied' st'. read_sectors fs lba sz ss (copied + take_of sz copied) b1 st1 = ((Some copied',
          copy_into b1 (unat copied + m) (take k' ?rest)), st') \<and>
        unat copied' = unat copied + m + k' \<and> ok st' \<and> content st' = content st1"
      using Cons.IH [of st1 "copied + take_of sz copied" b1 k'] st1(2,3) Cons.prems(2,3,5) m(2) lb
      unfolding c1 k'_def by simp
    then obtain copied' st' where r: "read_sectors fs lba sz ss (copied + take_of sz copied) b1 st1 = ((Some copied',
          copy_into b1 (unat copied + m) (take k' ?rest)), st')"
        "unat copied' = unat copied + m + k'" "ok st'" "content st' = content st1" by blast
    have "copy_into b1 (unat copied + m) (take k' ?rest) = copy_into buf (unat copied) (take m (?D s) @ take k' ?rest)"
      using copy_into_append [of "unat copied" "take m (?D s)" buf "take k' ?rest"] m Cons.prems(5) by (simp add: b1_def)
    moreover have "take m (?D s) @ take k' ?rest = take k (?D s @ ?rest)" "k = m + k'"
      using l lt by (auto simp: Cons.prems(6) m_def k'_def min_def)
    moreover have "unat (take_of sz copied) = m" using tk(1) by (simp add: m_def)
    ultimately show ?thesis
      using r st1(1,3) Cons.prems(2) read_sectors_Cons [OF True, of fs lba s ss buf st] b1_def by auto
  qed
qed

lemma cluster_length:
  assumes "ok st" "\<forall>s \<in> set (sector_offsets fs). (ucast (cluster_lba fs x + s) :: u64) < bd_sectors dev"
  shows "length (cluster_data (content st) fs x) = 512 * unat (sectors_per_cluster fs)"
proof -
  have "length (content st (unat (cluster_lba fs x + s))) = 512" if "s \<in> set (sector_offsets fs)" for s
    using content_length [OF assms(1), of "unat (cluster_lba fs x + s)"] assms(2) that by (simp add: word_less_nat_alt)
  then have "length (cluster_data (content st) fs x) = 512 * length (sector_offsets fs)"
    unfolding cluster_data_def by (rule length_concat_const)
  then show ?thesis by (simp add: sector_offsets_def)
qed

lemma chain_length:
  "\<lbrakk>ok st; file_chain (bd_sectors dev) (content st) fs c cs\<rbrakk> \<Longrightarrow>
   length (concat (map (cluster_data (content st) fs) cs)) = 512 * unat (sectors_per_cluster fs) * length cs"
proof (induction cs arbitrary: c)
  case (Cons x cs)
  then show ?case using Cons.IH [of "fat_next (bd_sectors dev) (content st) fs x"] by (simp add: cluster_length)
qed simp

lemma clusters_read:
  assumes "ok st" "fs_dev fs = Some dev" "file_chain (bd_sectors dev) (content st) fs c cs"
    and "guard + length cs \<le> 1024" "unat copied \<le> unat sz" "unat sz \<le> length buf"
    and "unat sz - unat copied \<le> 512 * unat (sectors_per_cluster fs) * length cs"
  shows "\<exists>st'. read_clusters fs sz guard c copied buf st = ((Some sz, copy_into buf (unat copied)
      (take (unat sz - unat copied) (concat (map (cluster_data (content st) fs) cs)))), st') \<and>
    ok st' \<and> content st' = content st"
  using assms
proof (induction cs arbitrary: st c guard copied buf)
  case Nil
  then have "copied = sz" by (simp add: word_unat_eq_iff)
  then show ?case using Nil.prems(1) by (simp add: read_clusters.simps)
next
  case (Cons x cs)
  show ?case
  proof (cases "copied < sz")
    case False
    then have "copied = sz" using Cons.prems(5) by (simp add: word_less_nat_alt word_unat_eq_iff)
    then show ?thesis using Cons.prems(1) by (simp add: read_clusters.simps)
  next
    case True
    have c: "c = x" "in_chain x" "\<forall>s \<in> set (sector_offsets fs). (ucast (cluster_lba fs x + s) :: u64) < bd_sectors dev"
      "file_chain (bd_sectors dev) (content st) fs (fat_next (bd_sectors dev) (content st) fs x) cs"
      using Cons.prems(3) by simp_all
    let ?spc = "unat (sectors_per_cluster fs)" and ?d = "cluster_data (content st) fs x"
    let ?rest = "concat (map (cluster_data (content st) fs) cs)"
    define k where "k = min (unat sz - unat copied) (512 * ?spc)"
    have ls: "length (sector_offsets fs) = ?spc" by (simp add: sector_offsets_def)
    obtain copied' st1 where r1: "read_sectors fs (cluster_lba fs x) sz (sector_offsets fs) copied buf st =
        ((Some copied', copy_into buf (unat copied) (take k ?d)), st1)" "unat copied' = unat copied + k"
        "ok st1" "content st1 = content st"
      using sectors_copied [OF Cons.prems(1,2) c(3) Cons.prems(5,6), of k] ls by (auto simp: k_def cluster_data_def)
    have ld: "length ?d = 512 * ?spc" by (rule cluster_length [OF Cons.prems(1) c(3)])
    obtain st2 where r2: "fat32_next_cluster fs x st1 = (fat_next (bd_sectors dev) (content st) fs x, st2)"
      "ok st2" "content st2 = content st" using next_cluster [OF r1(3) Cons.prems(2)] r1(4) by metis
    define b1 where "b1 = copy_into buf (unat copied) (take k ?d)"
    have lk: "length (take k ?d) = k" "unat copied + k \<le> unat sz" using ld Cons.prems(5) by (simp_all add: k_def)
    have lb: "length b1 = length buf" unfolding b1_def using lk Cons.prems(6) by (intro length_copy_into) simp
    have "\<exists>st'. read_clusters fs sz (guard + 1) (fat_next (bd_sectors dev) (content st) fs x) copied' b1 st2 =
        ((Some sz, copy_into b1 (unat copied') (take (unat sz - unat copied') ?rest)), st') \<and> ok st' \<and> content st' = content st"
      using Cons.IH [of st2 "fat_next (bd_sectors dev) (content st) fs x" "guard + 1" copied' b1]
        r2(2,3) Cons.prems(2,4,6,7) c(4) r1(2) lk(2) lb by (auto simp: k_def min_def split: if_splits)
    then obtain st' where r3: "read_clusters fs sz (guard + 1) (fat_next (bd_sectors dev) (content st) fs x) copied' b1 st2 =
        ((Some sz, copy_into b1 (unat copied') (take (unat sz - unat copied') ?rest)), st')" "ok st'" "content st' = content st"
      by blast
    have "copy_into b1 (unat copied') (take (unat sz - unat copied') ?rest) =
        copy_into buf (unat copied) (take k ?d @ take (unat sz - unat copied') ?rest)"
      using copy_into_append [of "unat copied" "take k ?d" buf] lk Cons.prems(6) r1(2) by (simp add: b1_def)
    moreover have "take k ?d @ take (unat sz - unat copied') ?rest = take (unat sz - unat copied) (?d @ ?rest)"
      using ld r1(2) by (auto simp: k_def min_def)
    ultimately show ?thesis
      using True c(1,2) r1(1) r2(1) r3 Cons.prems(4) by (subst read_clusters.simps) (simp add: b1_def)
  qed
qed

lemma file_read:
  assumes "ok st" "fs_dev fs = Some dev" "file_chain (bd_sectors dev) (content st) fs (start_cluster file) cs"
    and "length cs \<le> 1024" "unat (f_size file) \<le> 512 * unat (sectors_per_cluster fs) * length cs"
    and "f_size file \<le> buf_size" "length buf = unat buf_size"
  shows "\<exists>st'. fat32_read_file fs file buf buf_size st = ((sint (f_size file),
      take (unat (f_size file)) (concat (map (cluster_data (content st) fs) cs)) @ drop (unat (f_size file)) buf), st') \<and>
    ok st' \<and> content st' = content st"
proof -
  let ?all = "concat (map (cluster_data (content st) fs) cs)"
  have sz: "unat (f_size file) \<le> length buf" using assms(6,7) by (simp add: word_le_nat_alt)
  obtain st' where r: "read_clusters fs (f_size file) 0 (start_cluster file) 0 buf st =
      ((Some (f_size file), copy_into buf 0 (take (unat (f_size file)) ?all)), st')" "ok st'" "content st' = content st"
    using clusters_read [OF assms(1-3), of 0 0 "f_size file" buf] assms(4,5) sz by auto
  have "length (take (unat (f_size file)) ?all) = unat (f_size file)"
    using chain_length [OF assms(1,3)] assms(5) by simp
  then have "copy_into buf 0 (take (unat (f_size file)) ?all) =
      take (unat (f_size file)) ?all @ drop (unat (f_size file)) buf" by (simp add: copy_into_def)
  then show ?thesis using r assms(6) by (simp add: fat32_read_file_def not_less [symmetric])
qed

lemma sectors_listed:
  assumes "ok st" "fs_dev fs = Some dev" "\<forall>s \<in> set ss. (ucast (lba + s) :: u64) < bd_sectors dev"
  shows "\<exists>st'. list_sectors fs lba ss st = (list_entries (concat (map (\<lambda>s. dirents (content st (unat (lba + s)))) ss)), st') \<and>
    ok st' \<and> content st' = content st"
  using assms
proof (induction ss arbitrary: st)
  case (Cons s ss)
  have s: "(ucast (lba + s) :: u64) < bd_sectors dev" using Cons.prems(3) by simp
  obtain st1 where st1: "block_read (Some dev) (ucast (lba + s)) 1 st = (Some (content st (unat (lba + s))), st1)" "ok st1"
    "content st1 = content st" using read_sector [OF Cons.prems(1) s] by auto
  obtain st2 where st2: "list_sectors fs lba ss st1 = (list_entries (concat (map (\<lambda>s. dirents (content st (unat (lba + s)))) ss)), st2)"
    "ok st2" "content st2 = content st" using Cons.IH [OF st1(2) Cons.prems(2)] Cons.prems(3) st1(3) by auto
  show ?case using st1 st2 Cons.prems(2)
    by (auto simp: list_entries_append split: prod.splits scan.splits)
qed simp

lemma clusters_listed:
  assumes "ok st" "fs_dev fs = Some dev" "whole_chain (bd_sectors dev) (content st) fs c cs" "guard + length cs \<le> 65"
  shows "\<exists>st'. list_clusters fs guard c st = (fst (list_entries (concat (map (cluster_entries (content st) fs) cs))), st')"
  using assms
proof (induction cs arbitrary: st c guard)
  case Nil
  then show ?case by (simp add: list_clusters.simps)
next
  case (Cons x cs)
  have c: "c = x" "in_chain x" "\<forall>s \<in> set (sector_offsets fs). (ucast (cluster_lba fs x + s) :: u64) < bd_sectors dev"
    "whole_chain (bd_sectors dev) (content st) fs (fat_next (bd_sectors dev) (content st) fs x) cs"
    using Cons.prems(3) by simp_all
  obtain st1 where r1: "list_sectors fs (cluster_lba fs x) (sector_offsets fs) st = (list_entries (cluster_entries (content st) fs x), st1)"
    "ok st1" "content st1 = content st"
    using sectors_listed [OF Cons.prems(1,2) c(3)] by (auto simp: cluster_entries_def)
  obtain st2 where r2: "fat32_next_cluster fs x st1 = (fat_next (bd_sectors dev) (content st) fs x, st2)"
    "ok st2" "content st2 = content st" using next_cluster [OF r1(2) Cons.prems(2)] r1(3) by metis
  show ?case
  proof (cases "guard + 1 > 64")
    case True
    then have "cs = []" using Cons.prems(4) by (cases cs) simp_all
    then show ?thesis using True c(1,2) r1(1) r2(1)
      by (subst list_clusters.simps) (auto simp: list_entries_append split: prod.splits scan.splits)
  next
    case False
    obtain st3 where "list_clusters fs (guard + 1) (fat_next (bd_sectors dev) (content st) fs x) st2 =
        (fst (list_entries (concat (map (cluster_entries (content st) fs) cs))), st3)"
      using Cons.IH [of st2 "fat_next (bd_sectors dev) (content st) fs x" "guard + 1"] r2(2,3) Cons.prems(2,4) c(4) by auto
    then show ?thesis using False c(1,2) r1(1) r2(1)
      by (subst list_clusters.simps) (auto simp: list_entries_append split: prod.splits scan.splits)
  qed
qed

end

section \<open>On the RAM disk\<close>

text \<open>
  C23. Reading a file from the RAM disk gives exactly the file. When the chain of the file has enough
  clusters for its size, at most 1024, and the buffer is large enough, \<open>fat32_read_file\<close> returns the size,
  the buffer starts with the first \<open>size\<close> bytes of the concatenated clusters, and the rest of the buffer
  and the image are untouched.
\<close>

theorem fat32_read_file_exact:
  assumes "image_ok phys sz" "fs_dev fs = Some (ramdisk phys sz)"
    and "file_chain (bd_sectors (ramdisk phys sz)) (image_sector phys m) fs (start_cluster file) cs" "length cs \<le> 1024"
    and "unat (f_size file) \<le> 512 * unat (sectors_per_cluster fs) * length cs"
    and "f_size file \<le> buf_size" "length buf = unat buf_size"
  shows "\<exists>m'. fat32_read_file fs file buf buf_size m = ((sint (f_size file),
      take (unat (f_size file)) (concat (map (cluster_data (image_sector phys m) fs) cs)) @
      drop (unat (f_size file)) buf), m') \<and> image_sector phys m' = image_sector phys m"
  using ram0.file_read [OF assms(1) assms(2-7)] by blast

text \<open>
  C24. The listing of the root directory of a volume on the RAM disk is the formatted names, clusters and
  sizes of the entries of its chain of up to 65 clusters, up to the end marker and without deleted
  entries, long-name fragments and volume labels; and a search finds a file exactly when its name is
  there.
\<close>

theorem fat32_root_correct:
  assumes "image_ok phys sz" "fs_dev fs = Some (ramdisk phys sz)" "length cs \<le> 65"
    and "whole_chain (bd_sectors (ramdisk phys sz)) (image_sector phys m) fs (root_cluster fs) cs"
  shows "fst (fat32_list_root fs m) = listed (concat (map (cluster_entries (image_sector phys m) fs) cs)) \<and>
    fst (fat32_find fs name m) = pick name (listed (concat (map (cluster_entries (image_sector phys m) fs) cs)))"
proof -
  have "\<exists>m'. list_clusters fs 0 (root_cluster fs) m =
      (fst (list_entries (concat (map (cluster_entries (image_sector phys m) fs) cs))), m')"
    using ram0.clusters_listed [OF assms(1,2,4)] assms(3) by simp
  then show ?thesis
    unfolding fat32_list_root_def fat32_find_def clusters_agree list_entries_listed by auto
qed

section \<open>A small volume\<close>

text \<open>
  Eight sectors at 1 MB: the FAT is sector 1, the root directory cluster 2 in sector 2, and
  the bytes of the file \<open>A.B\<close>, at most 512, are in cluster 3, sector 3. The first directory entry names it. In
  \<open>volume_example\<close> the file has three bytes.
\<close>

definition volume_with :: "u8 \<Rightarrow> (nat \<Rightarrow> u8) \<Rightarrow> memory" where
  "volume_with n d = (\<lambda>a. if 0x100600 \<le> a \<and> a < 0x100800 then d (unat (a - 0x100600))
     else ((\<lambda>_. 0)(0x100208 := 0xF8, 0x100209 := 0xFF, 0x10020A := 0xFF, 0x10020B := 0x0F,
     0x100400 := 0x41, 0x100401 := 0x20, 0x100402 := 0x20, 0x100403 := 0x20, 0x100404 := 0x20, 0x100405 := 0x20,
     0x100406 := 0x20, 0x100407 := 0x20, 0x100408 := 0x42, 0x100409 := 0x20, 0x10040A := 0x20, 0x10041A := 3,
     0x10041C := n)) a)"

definition volume_example :: memory where
  "volume_example = volume_with 3 ((\<lambda>_. 0)(0 := 0x58, 1 := 0x59, 2 := 0x5A))"

definition fs_example :: "memory fat32_fs" where
  "fs_example = \<lparr>fat_start_lba = 1, data_start_lba = 2, sectors_per_cluster = 1, fs_bytes_per_sector = 512,
     root_cluster = 2, fs_dev = Some (ramdisk 0x100000 0x1000)\<rparr>"

lemma image_example: "image_ok 0x100000 0x1000"
  by (simp add: image_ok_def)

lemma sectors_example: "bd_sectors (ramdisk 0x100000 0x1000) = 8"
  by (simp add: ramdisk_def ramdisk_init_def BLOCK_SECTOR_SIZE_def)

lemma image_nth: "i < 512 \<Longrightarrow> image_sector phys m n ! i = m (phys + of_nat (512 * n + i))"
  by (simp add: image_sector_def)

lemma image_take: "k \<le> 512 \<Longrightarrow> take k (image_sector phys m n) = map (\<lambda>i. m (phys + of_nat (512 * n + i))) [0..<k]"
  by (simp add: image_sector_def take_map)

lemma upt_small: "[0..<3] = [0, 1, 2]" "[0..<11] = [0, 1, 2, 3, 4, 5, 6, 7, 8, 9, 10]"
  by (simp_all add: upt_conv_Cons)

lemma offsets_example: "sector_offsets fs_example = [0]"
  by (simp add: sector_offsets_def fs_example_def)

lemma chain_example: "file_chain 8 (image_sector 0x100000 (volume_with n d)) fs_example 3 [3]"
  by (simp add: in_chain_def FAT32_EOC_def offsets_example cluster_lba_def) (simp add: fs_example_def)

lemma fs_example_simps: "fs_dev fs_example = Some (ramdisk 0x100000 0x1000)" "sectors_per_cluster fs_example = 1"
  by (simp_all add: fs_example_def)

lemma data_of_volume:
  assumes "k \<le> 512"
  shows "take k (cluster_data (image_sector 0x100000 (volume_with n d)) fs_example 3) = map d [0..<k]"
proof -
  have "cluster_lba fs_example 3 = 3" by (simp add: cluster_lba_def fs_example_def)
  moreover have "volume_with n d (0x100000 + of_nat (512 * 3 + i)) = d i" if "i < 512" for i
  proof -
    have u: "unat (of_nat i :: u64) = i" using that by (intro unat_of_nat_small) simp
    then have "unat (0x100600 + of_nat i :: u64) = 0x100600 + i" using that by (subst unat_add_nowrap) simp_all
    then show ?thesis using that u by (simp add: volume_with_def word_le_nat_alt word_less_nat_alt add.assoc [symmetric])
  qed
  ultimately show ?thesis using assms by (simp add: cluster_data_def offsets_example image_take)
qed

lemma data_example: "take 3 (cluster_data (image_sector 0x100000 volume_example) fs_example 3) = [0x58, 0x59, 0x5A]"
  unfolding volume_example_def by (subst data_of_volume) (simp_all add: upt_small)

theorem fat32_read_file_exact_witness:
  "\<exists>m'. fat32_read_file fs_example \<lparr>start_cluster = 3, f_size = 3\<rparr> [0, 0, 0, 7] 4 volume_example =
     ((3, [0x58, 0x59, 0x5A, 7]), m')"
proof -
  let ?f = "\<lparr>start_cluster = 3, f_size = 3\<rparr>"
  have ch: "file_chain (bd_sectors (ramdisk 0x100000 0x1000)) (image_sector 0x100000 volume_example) fs_example (start_cluster ?f) [3]"
    unfolding sectors_example volume_example_def using chain_example by simp
  have "\<exists>m'. fat32_read_file fs_example ?f [0, 0, 0, 7] 4 volume_example = ((sint (f_size ?f),
      take (unat (f_size ?f)) (concat (map (cluster_data (image_sector 0x100000 volume_example) fs_example) [3])) @
      drop (unat (f_size ?f)) [0, 0, 0, 7]), m') \<and> image_sector 0x100000 m' = image_sector 0x100000 volume_example"
    by (rule fat32_read_file_exact [OF image_example fs_example_simps(1) ch]) (simp_all add: fs_example_simps(2))
  then show ?thesis using data_example by auto
qed

lemma first_entry_example:
  "dirent_at (image_sector 0x100000 (volume_with n d) 2) 0 =
     \<lparr>de_name = [0x41, 0x20, 0x20, 0x20, 0x20, 0x20, 0x20, 0x20, 0x42, 0x20, 0x20], de_attr = 0,
      de_nt_reserved = 0, de_create_tenth = 0, de_create_time = 0, de_create_date = 0, de_access_date = 0, de_cluster_hi = 0,
      de_write_time = 0, de_write_date = 0, de_cluster_lo = 3, de_size = ucast n\<rparr>"
proof -
  have "take 11 (image_sector 0x100000 (volume_with n d) 2) =
      [0x41, 0x20, 0x20, 0x20, 0x20, 0x20, 0x20, 0x20, 0x42, 0x20, 0x20]"
    by (simp add: image_take upt_small) (simp add: volume_with_def)
  then show ?thesis by (simp add: dirent_at_def le16_def le32_def image_nth) (simp add: volume_with_def)
qed

lemma second_entry_example: "hd (de_name (dirent_at (image_sector 0x100000 (volume_with n d) 2) 1)) = DIRENT_END"
proof -
  have "hd (take 11 (drop 32 (image_sector 0x100000 (volume_with n d) 2))) = image_sector 0x100000 (volume_with n d) 2 ! 32"
    by (subst hd_conv_nth) (simp_all add: image_sector_def)
  then show ?thesis by (simp add: dirent_at_def image_nth DIRENT_END_def Let_def) (simp add: volume_with_def)
qed

lemma root_of_volume:
  "whole_chain (bd_sectors (ramdisk 0x100000 0x1000)) (image_sector 0x100000 (volume_with n d)) fs_example (root_cluster fs_example) [2]"
  "listed (concat (map (cluster_entries (image_sector 0x100000 (volume_with n d)) fs_example) [2])) = [([0x41, 0x2E, 0x42], 3, ucast n, False)]"
proof -
  let ?D = "image_sector 0x100000 (volume_with n d)"
  have lba: "cluster_lba fs_example 2 = 2" by (simp add: cluster_lba_def fs_example_def)
  have nx: "fat_next 8 ?D fs_example 2 = 0x0FFFFFF8"
    by (simp add: fat_next_def fs_example_def le32_def image_nth) (simp add: volume_with_def)
  show "whole_chain (bd_sectors (ramdisk 0x100000 0x1000)) ?D fs_example (root_cluster fs_example) [2]"
    unfolding sectors_example using nx
    by (simp add: in_chain_def FAT32_EOC_def offsets_example lba) (simp add: fs_example_def)
  have "[0..<16] = 0 # 1 # [2..<16]" by (simp add: upt_conv_Cons)
  then show "listed (concat (map (cluster_entries ?D fs_example) [2])) = [([0x41, 0x2E, 0x42], 3, ucast n, False)]"
    using second_entry_example
    by (simp add: cluster_entries_def offsets_example lba dirents_def listed_def first_entry_example line_of_def
        file_of_def fat32_format_name_def skipped_def DIRENT_END_def DIRENT_DELETED_def FAT_ATTR_LFN_def)
qed

lemma root_example:
  "whole_chain (bd_sectors (ramdisk 0x100000 0x1000)) (image_sector 0x100000 volume_example) fs_example (root_cluster fs_example) [2]"
  "listed (concat (map (cluster_entries (image_sector 0x100000 volume_example) fs_example) [2])) = [([0x41, 0x2E, 0x42], 3, 3, False)]"
  unfolding volume_example_def using root_of_volume by simp_all

lemma listing_of_volume: "fst (fat32_list_root fs_example (volume_with n d)) = [([0x41, 0x2E, 0x42], 3, ucast n, False)]"
proof -
  obtain m1 where "list_clusters fs_example 0 (root_cluster fs_example) (volume_with n d) =
      (fst (list_entries (concat (map (cluster_entries (image_sector 0x100000 (volume_with n d)) fs_example) [2]))), m1)"
    using ram0.clusters_listed [OF image_example fs_example_simps(1) root_of_volume(1), of 0] by auto
  then show ?thesis unfolding fat32_list_root_def list_entries_listed root_of_volume(2) by simp
qed

theorem fat32_root_correct_witness:
  "fst (fat32_list_root fs_example volume_example) = [([0x41, 0x2E, 0x42], 3, 3, False)] \<and>
   fst (fat32_find fs_example [0x41, 0x2E, 0x42] volume_example) = Some \<lparr>start_cluster = 3, f_size = 3\<rparr>"
  using fat32_root_correct [OF image_example fs_example_simps(1) _ root_example(1), of "[0x41, 0x2E, 0x42]"]
  unfolding root_example(2) by (simp add: line_file_def)

end
