(* ===== verification/Vfs.thy ===== *)
theory Vfs
  imports Fat32Spec
begin

text \<open>
  The virtual file system, \<^verbatim>\<open>kernel/fs/vfs.c\<close>: one mounted volume and file handles that dispatch through
  a table of operations. The only table is that of FAT32.
\<close>

datatype vfs_ops = Fat32_ops

record vfs_file =
  vf_ops :: "vfs_ops option"
  vf_size :: u32
  vf_valid :: bool
  vf_fat :: fat32_file

record 'st vfs_state =
  mounted_fs :: "'st fat32_fs"
  mounted :: bool

definition fat32_backend_read ::
  "'st vfs_state \<Rightarrow> vfs_file \<Rightarrow> u8 list \<Rightarrow> u32 \<Rightarrow> 'st \<Rightarrow> (int \<times> u8 list) \<times> 'st" where
  "fat32_backend_read v f buf buf_size st = fat32_read_file (mounted_fs v) (vf_fat f) buf buf_size st"

definition vfs_mount :: "'st fat32_fs \<Rightarrow> 'st vfs_state \<Rightarrow> 'st vfs_state" where
  "vfs_mount fs v = v\<lparr>mounted_fs := fs, mounted := True\<rparr>"

definition vfs_is_mounted :: "'st vfs_state \<Rightarrow> bool" where
  "vfs_is_mounted v = mounted v"

text \<open>The value returned and the handle, which the caller provides.\<close>

definition vfs_open :: "'st vfs_state \<Rightarrow> u8 list \<Rightarrow> vfs_file \<Rightarrow> 'st \<Rightarrow> (int \<times> vfs_file) \<times> 'st" where
  "vfs_open v name out st =
     (let out = out\<lparr>vf_valid := False\<rparr> in
      if \<not> mounted v then ((- 1, out), st)
      else case fat32_find (mounted_fs v) name st of
             (None, st) \<Rightarrow> ((- 1, out), st)
           | (Some fat, st) \<Rightarrow> ((0, out\<lparr>vf_fat := fat, vf_ops := Some Fat32_ops, vf_size := f_size fat, vf_valid := True\<rparr>), st))"

definition vfs_read :: "'st vfs_state \<Rightarrow> vfs_file \<Rightarrow> u8 list \<Rightarrow> u32 \<Rightarrow> 'st \<Rightarrow> (int \<times> u8 list) \<times> 'st" where
  "vfs_read v f buf buf_size st =
     (if \<not> vf_valid f then ((- 1, buf), st)
      else case vf_ops f of None \<Rightarrow> ((- 1, buf), st)
           | Some Fat32_ops \<Rightarrow> fat32_backend_read v f buf buf_size st)"

section \<open>Opening and reading\<close>

text \<open>Looking a name up leaves a good device good.\<close>

context sector_store
begin

lemma find_sectors_ok:
  assumes "ok st" "fs_dev fs = Some dev"
  shows "\<exists>r st'. find_sectors fs name lba ss st = (r, st') \<and> ok st' \<and> content st' = content st"
  using assms(1)
proof (induction ss arbitrary: st)
  case (Cons s ss)
  obtain r st1 where r: "block_read (Some dev) (ucast (lba + s)) 1 st = (r, st1)" "ok st1" "content st1 = content st"
    using read_any [OF Cons.prems] by blast
  show ?case using Cons.IH [OF r(2)] r assms(2) by (auto split: option.split scan.split)
qed simp

lemma find_clusters_ok:
  assumes "ok st" "fs_dev fs = Some dev"
  shows "\<exists>r st'. find_clusters fs name guard c st = (r, st') \<and> ok st' \<and> content st' = content st"
  using assms
proof (induction fs name guard c st rule: find_clusters.induct)
  case (1 fs name guard c st)
  obtain r st1 where s: "find_sectors fs name (cluster_lba fs c) (sector_offsets fs) st = (r, st1)" "ok st1" "content st1 = content st"
    using find_sectors_ok [OF "1.prems"] by blast
  obtain c' st2 where n: "fat32_next_cluster fs c st1 = (c', st2)" "ok st2" "content st2 = content st"
    using next_cluster [OF s(2) "1.prems"(2)] s(3) by metis
  show ?case
  proof (cases "in_chain c \<and> r = Go \<and> \<not> guard + 1 > 64")
    case True
    then have "\<exists>r st'. find_clusters fs name (guard + 1) c' st2 = (r, st') \<and> ok st' \<and> content st' = content st2"
      using "1.IH" [OF _ s(1) [symmetric] _ n(1) [symmetric] refl] n(2) "1.prems"(2) by simp
    then show ?thesis using True s(1) n by (subst find_clusters.simps) simp
  next
    case False
    then show ?thesis using s n "1.prems"(1) by (subst find_clusters.simps) (auto split: scan.split)
  qed
qed

end

text \<open>
  C26. Opening and reading through the VFS, on a volume in the RAM disk. When nothing is mounted or the
  listing of the root has no file of that name, \<open>vfs_open\<close> fails, and the handle it leaves is refused by
  \<open>vfs_read\<close>. Otherwise the handle describes the first file listed under that name, and reading it
  with a large enough buffer gives exactly the bytes of that file's clusters.
\<close>

theorem vfs_open_read_correct:
  assumes "image_ok phys sz" "fs_dev fs = Some (ramdisk phys sz)"
  shows "(case pick name (fst (fat32_list_root fs m)) of
      None \<Rightarrow> \<exists>h m'. vfs_open (vfs_mount fs v) name out m = ((- 1, h), m') \<and>
        (\<forall>buf n m''. vfs_read (vfs_mount fs v) h buf n m'' = ((- 1, buf), m''))
    | Some file \<Rightarrow> \<exists>h m'. vfs_open (vfs_mount fs v) name out m = ((0, h), m') \<and> vf_size h = f_size file \<and>
        (\<forall>cs buf n. file_chain (bd_sectors (ramdisk phys sz)) (image_sector phys m) fs (start_cluster file) cs \<longrightarrow>
           length cs \<le> 1024 \<longrightarrow> unat (f_size file) \<le> 512 * unat (sectors_per_cluster fs) * length cs \<longrightarrow>
           f_size file \<le> n \<longrightarrow> length buf = unat n \<longrightarrow>
           (\<exists>m''. vfs_read (vfs_mount fs v) h buf n m' = ((sint (f_size file),
              take (unat (f_size file)) (concat (map (cluster_data (image_sector phys m) fs) cs)) @
              drop (unat (f_size file)) buf), m'')))) \<and>
    (\<not> mounted v \<longrightarrow> fst (fst (vfs_open v name out m)) = - 1)"
proof -
  obtain r m' where r: "fat32_find fs name m = (r, m')" "image_sector phys m' = image_sector phys m"
    using ram0.find_clusters_ok [OF assms] by (metis fat32_find_def)
  have p: "pick name (fst (fat32_list_root fs m)) = r"
    using r(1) clusters_agree [of fs name 0 "root_cluster fs" m] by (simp add: fat32_find_def fat32_list_root_def)
  have v: "mounted (vfs_mount fs v)" "mounted_fs (vfs_mount fs v) = fs" by (simp_all add: vfs_mount_def)
  have unm: "\<not> mounted v \<longrightarrow> fst (fst (vfs_open v name out m)) = - 1" by (simp add: vfs_open_def)
  show ?thesis
  proof (cases r)
    case None
    then show ?thesis using unm r(1) v by (simp add: p vfs_open_def vfs_read_def)
  next
    case (Some f)
    let ?h = "out\<lparr>vf_fat := f, vf_ops := Some Fat32_ops, vf_size := f_size f, vf_valid := True\<rparr>"
    have o: "vfs_open (vfs_mount fs v) name out m = ((0, ?h), m')" using Some r(1) v by (simp add: vfs_open_def)
    have "\<exists>m''. vfs_read (vfs_mount fs v) ?h buf n m' = ((sint (f_size f),
        take (unat (f_size f)) (concat (map (cluster_data (image_sector phys m) fs) cs)) @ drop (unat (f_size f)) buf), m'')"
      if "file_chain (bd_sectors (ramdisk phys sz)) (image_sector phys m) fs (start_cluster f) cs" "length cs \<le> 1024"
        "unat (f_size f) \<le> 512 * unat (sectors_per_cluster fs) * length cs" "f_size f \<le> n" "length buf = unat n"
      for cs buf n
      using ram0.file_read [OF assms(1,2), of m' f cs n buf] that r(2) v
      by (auto simp: vfs_read_def fat32_backend_read_def)
    then show ?thesis using unm o Some by (simp add: p)
  qed
qed

theorem vfs_open_read_correct_witness:
  "\<exists>h m' m''. vfs_open (vfs_mount fs_example \<lparr>mounted_fs = fs_example, mounted = False\<rparr>) [0x41, 0x2E, 0x42]
      \<lparr>vf_ops = None, vf_size = 0, vf_valid = False, vf_fat = \<lparr>start_cluster = 0, f_size = 0\<rparr>\<rparr> volume_example = ((0, h), m') \<and>
     vfs_read (vfs_mount fs_example \<lparr>mounted_fs = fs_example, mounted = False\<rparr>) h [0, 0, 0, 7] 4 m' = ((3, [0x58, 0x59, 0x5A, 7]), m'')"
proof -
  let ?v = "\<lparr>mounted_fs = fs_example, mounted = False\<rparr>" and ?n = "[0x41, 0x2E, 0x42] :: u8 list"
  let ?f = "\<lparr>start_cluster = 3, f_size = 3\<rparr>"
  have "fst (fat32_list_root fs_example volume_example) = [([0x41, 0x2E, 0x42], 3, 3, False)]"
    unfolding volume_example_def listing_of_volume by simp
  then have pk: "pick ?n (fst (fat32_list_root fs_example volume_example)) = Some ?f" by (simp add: line_file_def)
  have ch: "file_chain (bd_sectors (ramdisk 0x100000 0x1000)) (image_sector 0x100000 volume_example) fs_example (start_cluster ?f) [3]"
    unfolding sectors_example volume_example_def using chain_example by simp
  let ?out = "\<lparr>vf_ops = None, vf_size = 0, vf_valid = False, vf_fat = \<lparr>start_cluster = 0, f_size = 0\<rparr>\<rparr>"
  note r = vfs_open_read_correct [OF image_example fs_example_simps(1), where name = ?n and m = volume_example and v = ?v and out = ?out, unfolded pk option.case]
  from conjunct1 [OF r] show ?thesis
  proof (elim exE conjE, goal_cases)
    case (1 h m')
    note rd = 1(3) [rule_format, OF ch, of 4 "[0, 0, 0, 7]"]
    have "\<exists>m''. vfs_read (vfs_mount fs_example ?v) h [0, 0, 0, 7] 4 m' = ((3, [0x58, 0x59, 0x5A, 7]), m'')"
      using rd data_example by (simp add: fs_example_simps(2))
    then show ?case using 1(1) by blast
  qed
qed

end
