(* ===== verification/Ata.thy ===== *)
theory Ata
  imports Ports Block
begin

text \<open>
  The ATA driver, \<^verbatim>\<open>kernel/drivers/ata.c\<close>: polled LBA28 transfers on the primary master. The
  driver's variables and the hardware behind the ports form its state. Polling loops are recursions on
  the number of polls left. The messages printed are left out, but not the status reads they make
  (\<open>ata_status_read\<close>); the model string is built for a message only.
\<close>

definition ATA_DATA :: u16 where "ATA_DATA = 0x1F0"
definition ATA_SECCOUNT :: u16 where "ATA_SECCOUNT = 0x1F2"
definition ATA_LBA_LO :: u16 where "ATA_LBA_LO = 0x1F3"
definition ATA_LBA_MID :: u16 where "ATA_LBA_MID = 0x1F4"
definition ATA_LBA_HI :: u16 where "ATA_LBA_HI = 0x1F5"
definition ATA_DRIVE :: u16 where "ATA_DRIVE = 0x1F6"
definition ATA_STATUS :: u16 where "ATA_STATUS = 0x1F7"
definition ATA_COMMAND :: u16 where "ATA_COMMAND = 0x1F7"
definition ATA_ALTSTATUS :: u16 where "ATA_ALTSTATUS = 0x3F6"

definition ST_ERR :: u8 where "ST_ERR = 0x01"
definition ST_DRQ :: u8 where "ST_DRQ = 0x08"
definition ST_DF :: u8 where "ST_DF = 0x20"
definition ST_BSY :: u8 where "ST_BSY = 0x80"

definition CMD_READ_SECTORS :: u8 where "CMD_READ_SECTORS = 0x20"
definition CMD_WRITE_SECTORS :: u8 where "CMD_WRITE_SECTORS = 0x30"
definition CMD_CACHE_FLUSH :: u8 where "CMD_CACHE_FLUSH = 0xE7"
definition CMD_IDENTIFY :: u8 where "CMD_IDENTIFY = 0xEC"

definition ATA_TIMEOUT :: nat where
  "ATA_TIMEOUT = 1000000"

definition ATA_SECTOR_SIZE :: nat where
  "ATA_SECTOR_SIZE = 512"

record 'hw ata_state =
  ata_present :: bool
  ata_writes_ok :: bool
  ata_sectors :: u32
  ata_hw :: 'hw

section \<open>Waiting\<close>

definition ata_inb :: "'hw ports \<Rightarrow> u16 \<Rightarrow> 'hw ata_state \<Rightarrow> u8 \<times> 'hw ata_state" where
  "ata_inb P port s = (let (v, h) = inb P port (ata_hw s) in (v, s\<lparr>ata_hw := h\<rparr>))"

definition ata_outb :: "'hw ports \<Rightarrow> u16 \<Rightarrow> u8 \<Rightarrow> 'hw ata_state \<Rightarrow> 'hw ata_state" where
  "ata_outb P port v s = s\<lparr>ata_hw := outb P port v (ata_hw s)\<rparr>"

definition ata_delay400 :: "'hw ports \<Rightarrow> 'hw ata_state \<Rightarrow> 'hw ata_state" where
  "ata_delay400 P s = ((\<lambda>s. snd (ata_inb P ATA_ALTSTATUS s)) ^^ 4) s"

fun wait_not_busy :: "'hw ports \<Rightarrow> nat \<Rightarrow> 'hw ata_state \<Rightarrow> u8 option \<times> 'hw ata_state" where
  "wait_not_busy P 0 s = (None, s)"
| "wait_not_busy P (Suc n) s =
     (let (v, s) = ata_inb P ATA_STATUS s in
      if v = 0xFF then (None, s) else if v AND ST_BSY = 0 then (Some v, s) else wait_not_busy P n s)"

definition ata_wait_not_busy :: "'hw ports \<Rightarrow> 'hw ata_state \<Rightarrow> u8 option \<times> 'hw ata_state" where
  "ata_wait_not_busy P s = wait_not_busy P ATA_TIMEOUT s"

fun poll_drq :: "'hw ports \<Rightarrow> nat \<Rightarrow> u8 \<Rightarrow> 'hw ata_state \<Rightarrow> bool \<times> 'hw ata_state" where
  "poll_drq P 0 v s = (False, s)"
| "poll_drq P (Suc n) v s =
     (if v AND (ST_ERR OR ST_DF) \<noteq> 0 then (False, s)
      else if v AND ST_DRQ \<noteq> 0 then (True, s)
      else let (v, s) = ata_inb P ATA_STATUS s in poll_drq P n v s)"

text \<open>\<open>True\<close> is the return value 0.\<close>

definition ata_poll :: "'hw ports \<Rightarrow> 'hw ata_state \<Rightarrow> bool \<times> 'hw ata_state" where
  "ata_poll P s =
     (case ata_wait_not_busy P s of
        (None, s) \<Rightarrow> (False, s)
      | (Some v, s) \<Rightarrow> poll_drq P ATA_TIMEOUT v s)"

text \<open>The status byte that the failure messages print: the read may have effects on the hardware.\<close>

definition ata_status_read :: "'hw ports \<Rightarrow> 'hw ata_state \<Rightarrow> 'hw ata_state" where
  "ata_status_read P s = snd (ata_inb P ATA_STATUS s)"

section \<open>Probing\<close>

definition id_word :: "u8 list \<Rightarrow> nat \<Rightarrow> u16" where
  "id_word bs i = ucast (bs ! (2 * i)) OR push_bit 8 (ucast (bs ! (2 * i + 1)))"

text \<open>The model string of the message: two characters in a word, the high byte first, without the spaces at the end.\<close>

definition ata_model :: "u8 list \<Rightarrow> string" where
  "ata_model bs =
     (let model = concat (map (\<lambda>i. [char_of (unat (drop_bit 8 (id_word bs (27 + i)))), char_of (unat (id_word bs (27 + i) AND 0xFF))]) [0..<20])
      in rev (dropWhile (\<lambda>c. c = CHR '' '') (rev model)))"

lemma ata_model_fits: "length (ata_model bs) \<le> 40" "ata_model bs \<noteq> [] \<Longrightarrow> last (ata_model bs) \<noteq> CHR '' ''"
proof -
  let ?m = "concat (map (\<lambda>i. [char_of (unat (drop_bit 8 (id_word bs (27 + i)))), char_of (unat (id_word bs (27 + i) AND 0xFF))]) [0..<20])"
  have "length ?m = 40" by (simp add: length_concat o_def sum_list_triv)
  then show "length (ata_model bs) \<le> 40"
    using length_dropWhile_le [of "\<lambda>c. c = CHR '' ''" "rev ?m"] by (simp add: ata_model_def Let_def)
  show "ata_model bs \<noteq> [] \<Longrightarrow> last (ata_model bs) \<noteq> CHR '' ''"
    using hd_dropWhile [of "\<lambda>c. c = CHR '' ''" "rev ?m"] by (simp add: ata_model_def Let_def last_rev)
qed

definition ata_identify :: "'hw ports \<Rightarrow> 'hw ata_state \<Rightarrow> 'hw ata_state" where
  "ata_identify P s =
     (let s = ata_outb P ATA_DRIVE 0xA0 s;
          s = ata_delay400 P s;
          s = ata_outb P ATA_SECCOUNT 0 s;
          s = ata_outb P ATA_LBA_LO 0 s;
          s = ata_outb P ATA_LBA_MID 0 s;
          s = ata_outb P ATA_LBA_HI 0 s;
          s = ata_outb P ATA_COMMAND CMD_IDENTIFY s
      in ata_delay400 P s)"

text \<open>The second of the two signature reads happens only when the first gave zero.\<close>

definition ata_is_plain :: "'hw ports \<Rightarrow> 'hw ata_state \<Rightarrow> bool \<times> 'hw ata_state" where
  "ata_is_plain P s =
     (let (m, s) = ata_inb P ATA_LBA_MID s in
      if m \<noteq> 0 then (False, s)
      else let (h, s) = ata_inb P ATA_LBA_HI s in (h = 0, s))"

definition ata_init :: "'hw ports \<Rightarrow> 'hw ata_state \<Rightarrow> bool \<times> 'hw ata_state" where
  "ata_init P s =
     (let s = s\<lparr>ata_present := False\<rparr>;
          (v, s) = ata_inb P ATA_STATUS s in
      if v = 0xFF then (False, s) else
      let s = ata_identify P s;
          (v, s) = ata_inb P ATA_STATUS s in
      if v = 0 then (False, s) else
      let (w, s) = ata_wait_not_busy P s in
      if w = None then (False, s) else
      let (plain, s) = ata_is_plain P s in
      if \<not> plain then (False, s) else
      let (rdy, s) = ata_poll P s in
      if \<not> rdy then (False, ata_status_read P s) else
      let (bs, h) = insw P ATA_DATA 256 (ata_hw s);
          s = s\<lparr>ata_hw := h\<rparr> in
      if \<not> bit (id_word bs 49) 9 then (False, s) else
      let s = s\<lparr>ata_sectors := ucast (id_word bs 60) OR push_bit 16 (ucast (id_word bs 61))\<rparr> in
      if ata_sectors s = 0 then (False, s)
      else (True, s\<lparr>ata_present := True\<rparr>))"

definition ata_allow_writes :: "bool \<Rightarrow> 'hw ata_state \<Rightarrow> 'hw ata_state" where
  "ata_allow_writes on s = s\<lparr>ata_writes_ok := on\<rparr>"

section \<open>Transfers\<close>

definition ata_check :: "u32 \<Rightarrow> u8 \<Rightarrow> 'hw ata_state \<Rightarrow> bool" where
  "ata_check lba count s \<longleftrightarrow> ata_present s \<and>
     \<not> (count = 0 \<or> lba \<ge> ata_sectors s \<or> ucast count > ata_sectors s - lba)"

definition ata_setup :: "'hw ports \<Rightarrow> u32 \<Rightarrow> u8 \<Rightarrow> 'hw ata_state \<Rightarrow> 'hw ata_state" where
  "ata_setup P lba count s =
     (let s = ata_outb P ATA_DRIVE (0xE0 OR ucast (drop_bit 24 lba AND 0x0F)) s;
          s = ata_outb P ATA_SECCOUNT count s;
          s = ata_outb P ATA_LBA_LO (ucast lba) s;
          s = ata_outb P ATA_LBA_MID (ucast (drop_bit 8 lba)) s
      in ata_outb P ATA_LBA_HI (ucast (drop_bit 16 lba)) s)"

fun ata_read_loop :: "'hw ports \<Rightarrow> nat \<Rightarrow> 'hw ata_state \<Rightarrow> u8 list option \<times> 'hw ata_state" where
  "ata_read_loop P 0 s = (Some [], s)"
| "ata_read_loop P (Suc n) s =
     (let (rdy, s) = ata_poll P s in
      if \<not> rdy then (None, ata_status_read P s)
      else let (bs, h) = insw P ATA_DATA (ATA_SECTOR_SIZE div 2) (ata_hw s);
               (r, s) = ata_read_loop P n (s\<lparr>ata_hw := h\<rparr>)
           in (map_option (append bs) r, s))"

definition ata_read :: "'hw ports \<Rightarrow> u32 \<Rightarrow> u8 \<Rightarrow> 'hw ata_state \<Rightarrow> u8 list option \<times> 'hw ata_state" where
  "ata_read P lba count s =
     (if \<not> ata_check lba count s then (None, s)
      else let s = ata_setup P lba count s;
               s = ata_outb P ATA_COMMAND CMD_READ_SECTORS s
           in ata_read_loop P (unat count) s)"

fun ata_write_loop :: "'hw ports \<Rightarrow> nat \<Rightarrow> u8 list \<Rightarrow> 'hw ata_state \<Rightarrow> bool \<times> 'hw ata_state" where
  "ata_write_loop P 0 buf s = (True, s)"
| "ata_write_loop P (Suc n) buf s =
     (let (rdy, s) = ata_poll P s in
      if \<not> rdy then (False, ata_status_read P s)
      else ata_write_loop P n (drop ATA_SECTOR_SIZE buf)
             (s\<lparr>ata_hw := outsw P ATA_DATA (take ATA_SECTOR_SIZE buf) (ata_hw s)\<rparr>))"

definition ata_write :: "'hw ports \<Rightarrow> u32 \<Rightarrow> u8 \<Rightarrow> u8 list \<Rightarrow> 'hw ata_state \<Rightarrow> bool \<times> 'hw ata_state" where
  "ata_write P lba count buf s =
     (if \<not> ata_writes_ok s then (False, s)
      else if \<not> ata_check lba count s then (False, s)
      else let s = ata_setup P lba count s;
               s = ata_outb P ATA_COMMAND CMD_WRITE_SECTORS s;
               (done, s) = ata_write_loop P (unat count) buf s
           in if \<not> done then (False, s)
              else let s = ata_outb P ATA_COMMAND CMD_CACHE_FLUSH s;
                       (w, s) = ata_wait_not_busy P s
                   in (w \<noteq> None, s))"

section \<open>The block device\<close>

definition ata_chunk :: "u32 \<Rightarrow> u8" where
  "ata_chunk count = (if count > 255 then 255 else ucast count)"

lemma unat_ata_chunk: "unat (ata_chunk count) = min (unat count) 255"
proof (cases "count > 255")
  case True
  then show ?thesis by (simp add: ata_chunk_def word_less_nat_alt)
next
  case False
  then have "unat count \<le> 255" by (simp add: word_less_nat_alt)
  then show ?thesis using False by (simp add: ata_chunk_def unsigned_ucast_eq take_bit_nat_eq_self)
qed

lemma ata_chunk_left: "unat (count - ucast (ata_chunk count)) = unat count - unat (ata_chunk count)"
proof -
  have u: "unat (ucast (ata_chunk count) :: u32) = unat (ata_chunk count)"
    using unat_lt_8 [of "ata_chunk count"] by (simp add: unsigned_ucast_eq take_bit_nat_eq_self del: unat_lt_8)
  then show ?thesis by (subst unat_sub) (simp_all add: word_le_nat_alt unat_ata_chunk)
qed

function ata_block_read ::
  "'hw ports \<Rightarrow> u64 \<Rightarrow> u64 \<Rightarrow> u32 \<Rightarrow> 'hw ata_state \<Rightarrow> u8 list option \<times> 'hw ata_state" where
  "ata_block_read P priv lba count s =
     (if count > 0 then
        let n = ata_chunk count in
        case ata_read P (ucast lba) n s of
          (None, s) \<Rightarrow> (None, s)
        | (Some bs, s) \<Rightarrow>
            let (r, s) = ata_block_read P priv (lba + ucast n) (count - ucast n) s
            in (map_option (append bs) r, s)
      else (Some [], s))"
  by pat_completeness auto
termination
  by (relation "measure (\<lambda>(P, priv, lba, count, s). unat count)")
    (auto simp: ata_chunk_left unat_ata_chunk word_less_nat_alt)

declare ata_block_read.simps [simp del]

definition ata_blockdev :: "'hw ports \<Rightarrow> 'hw ata_state \<Rightarrow> 'hw ata_state block_device option" where
  "ata_blockdev P s =
     (if \<not> ata_present s then None
      else Some \<lparr>bd_name = ''ata0'', bd_sectors = ucast (ata_sectors s), bd_read = Some (ata_block_read P), bd_priv = 0\<rparr>)"

end
