(* ===== verification/AtaSpec.thy ===== *)
theory AtaSpec
  imports Ata "HOL-Library.Sublist"
begin

text \<open>
  What the ATA driver does to the controller, read off a recording of the register writes, for every
  behaviour of the hardware: a request that is refused reaches no port; a transfer addresses
  exactly the sectors asked for; and a success delivers exactly the bytes the data port gave.
\<close>

section \<open>The recorded register writes\<close>

abbreviation writes :: "('hw \<times> (u16 \<times> u8) list) ata_state \<Rightarrow> (u16 \<times> u8) list" where
  "writes s \<equiv> snd (ata_hw s)"

abbreviation same_disk :: "'hw ata_state \<Rightarrow> 'hw ata_state \<Rightarrow> bool" where
  "same_disk s t \<equiv> ata_present t = ata_present s \<and> ata_writes_ok t = ata_writes_ok s \<and> ata_sectors t = ata_sectors s"

named_theorems quiet \<open>driver steps that write no register and keep the driver's variables\<close>

lemma inb_quiet [quiet]:
  "same_disk s (snd (ata_inb P port s))"
  "writes (snd (ata_inb (recording P) port t)) = writes t"
  by (simp_all add: ata_inb_def inb_def case_prod_beta)

lemma outb_recorded:
  "same_disk s (ata_outb P port v s)"
  "writes (ata_outb (recording P) port v t) = writes t @ [(port, v)]"
  by (simp_all add: ata_outb_def outb_def)

lemma insw_quiet [quiet]: "snd (snd (insw (recording P) port n h)) = snd h"
  by (induction n arbitrary: h) (simp_all add: case_prod_beta)

lemma outsw_quiet [quiet]: "snd (outsw (recording P) port bs h) = snd h"
  by (induction "recording P" port bs h rule: outsw.induct) simp_all

lemma status_read_quiet [quiet]:
  "same_disk s (ata_status_read P s)"
  "writes (ata_status_read (recording P) t) = writes t"
  by (simp_all add: ata_status_read_def quiet)

lemma wait_not_busy_quiet [quiet]:
  "same_disk s (snd (wait_not_busy P n s))"
  "writes (snd (wait_not_busy (recording P) n t)) = writes t"
  by (induction n arbitrary: s t) (simp_all add: case_prod_beta quiet)

lemma poll_drq_quiet [quiet]:
  "same_disk s (snd (poll_drq P n v s))"
  "writes (snd (poll_drq (recording P) n v t)) = writes t"
  by (induction n arbitrary: s t v) (simp_all add: case_prod_beta quiet)

lemma ata_wait_not_busy_quiet [quiet]:
  "same_disk s (snd (ata_wait_not_busy P s))"
  "writes (snd (ata_wait_not_busy (recording P) t)) = writes t"
  by (simp_all add: ata_wait_not_busy_def quiet)

lemma ata_poll_quiet [quiet]:
  "same_disk s (snd (ata_poll P s))"
  "writes (snd (ata_poll (recording P) t)) = writes t"
proof -
  show "same_disk s (snd (ata_poll P s))"
    using ata_wait_not_busy_quiet(1) [where P = P and s = s]
    by (cases "ata_wait_not_busy P s") (auto simp: ata_poll_def quiet split: option.split)
  show "writes (snd (ata_poll (recording P) t)) = writes t"
    using ata_wait_not_busy_quiet(2) [of P t]
    by (cases "ata_wait_not_busy (recording P) t") (auto simp: ata_poll_def quiet split: option.split)
qed

section \<open>One transfer\<close>

definition transfer_log :: "u32 \<Rightarrow> u8 \<Rightarrow> u8 \<Rightarrow> (u16 \<times> u8) list" where
  "transfer_log lba count cmd =
     [(ATA_DRIVE, 0xE0 OR ucast (drop_bit 24 lba AND 0x0F)), (ATA_SECCOUNT, count), (ATA_LBA_LO, ucast lba),
      (ATA_LBA_MID, ucast (drop_bit 8 lba)), (ATA_LBA_HI, ucast (drop_bit 16 lba)), (ATA_COMMAND, cmd)]"

lemma setup_recorded:
  "same_disk s (ata_outb P ATA_COMMAND cmd (ata_setup P lba count s))"
  "writes (ata_outb (recording P) ATA_COMMAND cmd (ata_setup (recording P) lba count t)) = writes t @ transfer_log lba count cmd"
  by (simp_all add: ata_setup_def transfer_log_def outb_recorded Let_def)

lemma ata_read_loop_quiet [quiet]:
  "same_disk s (snd (ata_read_loop P n s))"
  "writes (snd (ata_read_loop (recording P) n t)) = writes t"
  by (induction n arbitrary: s t) (simp_all add: case_prod_beta Let_def quiet)

lemma ata_read_loop_length: "fst (ata_read_loop P n s) = Some bs \<Longrightarrow> length bs = 512 * n"
proof (induction n arbitrary: s bs)
  case (Suc n)
  then show ?case using insw_length [of P ATA_DATA "ATA_SECTOR_SIZE div 2"]
    by (auto simp: case_prod_beta Let_def ATA_SECTOR_SIZE_def split: if_splits)
qed simp

lemma ata_read_result:
  assumes "ata_check lba count s"
  shows "same_disk s (snd (ata_read P lba count s))"
    and "fst (ata_read P lba count s) = Some bs \<Longrightarrow> length bs = 512 * unat count"
  using assms ata_read_loop_length by (auto simp: ata_read_def Let_def quiet setup_recorded(1))

lemma ata_read_recorded:
  assumes "ata_check lba count s"
  shows "writes (snd (ata_read (recording P) lba count s)) = writes s @ transfer_log lba count CMD_READ_SECTORS"
  using assms by (simp add: ata_read_def Let_def quiet setup_recorded(2))

section \<open>What the controller is asked for\<close>

text \<open>
  The controller's view of the writes: each transfer is six register writes, whose LBA28 address is
  gathered from four of them.
\<close>

definition lba28 :: "u8 \<Rightarrow> u8 \<Rightarrow> u8 \<Rightarrow> u8 \<Rightarrow> u32" where
  "lba28 d hi mid lo =
     push_bit 24 (ucast (d AND 0x0F)) OR push_bit 16 (ucast hi) OR push_bit 8 (ucast mid) OR ucast lo"

fun commands :: "u8 \<Rightarrow> (u16 \<times> u8) list \<Rightarrow> (u32 \<times> u8) list option" where
  "commands cmd [] = Some []"
| "commands cmd ((p, d) # (p1, n) # (p2, lo) # (p3, mid) # (p4, hi) # (p5, c) # l) =
     (if p = ATA_DRIVE \<and> p1 = ATA_SECCOUNT \<and> p2 = ATA_LBA_LO \<and> p3 = ATA_LBA_MID \<and> p4 = ATA_LBA_HI \<and> p5 = ATA_COMMAND
         \<and> c = cmd \<and> d AND 0xF0 = 0xE0
      then map_option (Cons (lba28 d hi mid lo, n)) (commands cmd l) else None)"
| "commands cmd _ = None"

abbreviation sectors_of :: "(u32 \<times> u8) list \<Rightarrow> nat list" where
  "sectors_of cs \<equiv> concat (map (\<lambda>(lba, n). [unat lba..<unat lba + unat n]) cs)"

lemma drive_register:
  fixes x :: u8
  shows "(0xE0 OR (x AND 0x0F)) AND 0x0F = x AND 0x0F" and "(0xE0 OR (x AND 0x0F)) AND 0xF0 = 0xE0"
  by (simp_all add: bit.conj_disj_distrib2 and.assoc)

lemma lba28_setup:
  fixes lba :: u32
  shows "lba28 (0xE0 OR ucast (drop_bit 24 lba AND 0x0F)) (ucast (drop_bit 16 lba)) (ucast (drop_bit 8 lba)) (ucast lba) = take_bit 28 lba"
proof -
  have nib: "ucast (drop_bit 24 lba AND 0x0F) = (ucast (drop_bit 24 lba) AND 0x0F :: u8)"
    by (simp add: unsigned_and_eq)
  let ?w = "push_bit 24 (ucast (ucast (drop_bit 24 lba) AND mask 4 :: u8)) OR push_bit 16 (ucast (ucast (drop_bit 16 lba) :: u8)) OR
      push_bit 8 (ucast (ucast (drop_bit 8 lba) :: u8)) OR ucast (ucast lba :: u8) :: u32"
  have "?w = take_bit 28 lba"
  proof (rule bit_word_eqI)
    fix n assume n: "n < LENGTH(32)"
    consider "n < 8" | "8 \<le> n" "n < 16" | "16 \<le> n" "n < 24" | "24 \<le> n" "n < 28" | "28 \<le> n" by linarith
    then show "bit ?w n = bit (take_bit 28 lba) n"
      using n by cases (auto simp: bit_simps)
  qed
  moreover have "mask 4 = (0x0F :: u8)" by (simp add: mask_eq_exp_minus_1)
  ultimately show ?thesis by (simp add: lba28_def nib drive_register)
qed

lemma commands_transfer:
  "commands cmd (transfer_log lba count cmd @ l) = map_option (Cons (take_bit 28 lba, count)) (commands cmd l)"
proof -
  have "(0xE0 OR ucast (drop_bit 24 lba AND 0x0F)) AND 0xF0 = (0xE0 :: u8)"
    using drive_register(2) [of "ucast (drop_bit 24 lba)"] by (simp add: unsigned_and_eq)
  then show ?thesis unfolding transfer_log_def append.simps commands.simps lba28_setup by simp
qed

text \<open>
  LBA28 has no room for the upper four bits of an address, and the driver drops them without a check: a
  sector from $2^{28}$ on is set up like the sector $2^{28}$ (or a multiple of it) before it.
\<close>

lemma ata_setup_truncates: "ata_setup P lba count s = ata_setup P (take_bit 28 lba) count s"
proof -
  have m: "0x0F = (mask 4 :: u32)" by (simp add: mask_eq_exp_minus_1)
  have "drop_bit 24 (take_bit 28 lba) AND 0x0F = drop_bit 24 lba AND 0x0F"
    unfolding m by (rule bit_word_eqI) (auto simp: bit_simps)
  moreover have "ucast (take_bit 28 lba) = (ucast lba :: u8)" "ucast (drop_bit 8 (take_bit 28 lba)) = (ucast (drop_bit 8 lba) :: u8)"
      "ucast (drop_bit 16 (take_bit 28 lba)) = (ucast (drop_bit 16 lba) :: u8)"
    by (rule bit_word_eqI, simp add: bit_simps)+
  ultimately show ?thesis by (simp add: ata_setup_def)
qed

lemma take_bit_28: "unat (lba::u32) < 2 ^ 28 \<Longrightarrow> take_bit 28 lba = lba"
  by (simp add: word_unat_eq_iff unsigned_take_bit_eq take_bit_nat_eq_self)

section \<open>Reading through the block device\<close>

text \<open>The request is inside the disk.\<close>

definition on_disk :: "'hw ata_state \<Rightarrow> u64 \<Rightarrow> u32 \<Rightarrow> bool" where
  "on_disk s lba count \<longleftrightarrow>
     ata_present s \<and> unat lba + unat count \<le> unat (ata_sectors s)"

lemma unat_ucast_u8 [simp]: "unat (ucast (n::u8) :: u32) = unat n" "unat (ucast n :: u64) = unat n"
  using unat_lt_8 [of n] by (simp_all add: unsigned_ucast_eq take_bit_nat_eq_self del: unat_lt_8)

lemma ata_check_iff:
  "ata_check lba count s \<longleftrightarrow> ata_present s \<and> 0 < unat count \<and> unat lba + unat count \<le> unat (ata_sectors s)"
proof (cases "ata_sectors s \<le> lba")
  case False
  then have "unat (ata_sectors s - lba) = unat (ata_sectors s) - unat lba"
    by (subst unat_sub) (simp_all add: word_le_nat_alt)
  then show ?thesis using False by (auto simp: ata_check_def word_le_nat_alt word_less_nat_alt unat_gt_0)
qed (auto simp: ata_check_def word_le_nat_alt)

lemma on_disk_cong: "same_disk s t \<Longrightarrow> on_disk t lba count = on_disk s lba count"
  by (simp add: on_disk_def)

lemma on_disk_chunk:
  assumes "on_disk s lba count" "count > 0"
  defines "n \<equiv> ata_chunk count"
  shows "ata_check (ucast lba) n s" and "unat (ucast lba :: u32) = unat lba"
    and "on_disk s (lba + ucast n) (count - ucast n)" and "unat (lba + ucast n) = unat lba + unat n"
    and "unat (count - ucast n) = unat count - unat n" and "0 < unat n" and "unat n \<le> unat count"
proof -
  have d: "ata_present s" "unat lba + unat count \<le> unat (ata_sectors s)"
    using assms(1) by (auto simp: on_disk_def)
  have c: "0 < unat count" using assms(2) by (simp add: word_less_nat_alt)
  have lt: "unat lba < 2 ^ 32" using d c unat_lt_32 [of "ata_sectors s"] by (simp del: unat_lt_32)
  then show u: "unat (ucast lba :: u32) = unat lba" by (simp add: unsigned_ucast_eq take_bit_nat_eq_self)
  show n: "0 < unat n" and le: "unat n \<le> unat count" using c by (simp_all add: n_def unat_ata_chunk)
  show l: "unat (lba + ucast n) = unat lba + unat n"
    proof (subst unat_add_nowrap)
    show "unat lba + unat (ucast n :: u64) < 18446744073709551616"
      using lt unat_lt_8 [of n] by (simp del: unat_lt_8 unat_lt_64)
  qed simp
  show m: "unat (count - ucast n) = unat count - unat n" unfolding n_def by (rule ata_chunk_left)
  show "on_disk s (lba + ucast n) (count - ucast n)" using d le by (simp add: on_disk_def l m)
  show "ata_check (ucast lba) n s" using d n le u by (simp add: ata_check_iff)
qed

lemma ata_block_read_step:
  "count > 0 \<Longrightarrow> ata_block_read P priv lba count s =
     (let n = ata_chunk count; (r, t) = ata_read P (ucast lba) n s in
      case r of None \<Rightarrow> (None, t)
      | Some bs \<Rightarrow> let (r, t) = ata_block_read P priv (lba + ucast n) (count - ucast n) t
                  in (map_option (append bs) r, t))"
  "ata_block_read P priv lba 0 s = (Some [], s)"
  by (subst ata_block_read.simps, simp add: Let_def split: prod.split option.split)
    (subst ata_block_read.simps, simp)

lemma ata_block_read_recorded:
  assumes "on_disk s lba count" and "ata_block_read (recording P) priv lba count s = (r, t)"
  shows "same_disk s t \<and> (\<exists>l cs. writes t = writes s @ l \<and> commands CMD_READ_SECTORS l = Some (map (apfst (take_bit 28)) cs) \<and>
      (\<forall>(a, k) \<in> set cs. 0 < unat k \<and> unat a + unat k \<le> unat lba + unat count) \<and> prefix (sectors_of cs) [unat lba..<unat lba + unat count] \<and>
      (\<forall>bs. r = Some bs \<longrightarrow> length bs = 512 * unat count \<and> sectors_of cs = [unat lba..<unat lba + unat count]))"
  using assms
proof (induction "unat count" arbitrary: lba count s r rule: less_induct)
  case less
  show ?case
  proof (cases "count > 0")
    case False
    then have "count = 0" by (simp add: word_less_nat_alt unat_eq_zero)
    then show ?thesis using less.prems by (auto simp: ata_block_read_step(2) intro!: exI [of _ "[]"])
  next
    case True
    define n where "n = ata_chunk count"
    note ch = on_disk_chunk [OF less.prems(1) True, folded n_def]
    obtain rd u where rd: "ata_read (recording P) (ucast lba) n s = (rd, u)" by fastforce
    have u: "same_disk s u" "writes u = writes s @ transfer_log (ucast lba) n CMD_READ_SECTORS"
      using ata_read_result(1) [OF ch(1), of "recording P"] ata_read_recorded [OF ch(1), of P] by (simp_all add: rd)
    have com: "commands CMD_READ_SECTORS (transfer_log (ucast lba) n CMD_READ_SECTORS @ l) =
        map_option (Cons (take_bit 28 (ucast lba), n)) (commands CMD_READ_SECTORS l)" for l
      by (rule commands_transfer)
    have split: "[unat lba..<unat lba + unat count] =
        [unat lba..<unat lba + unat n] @ [unat (lba + ucast n)..<unat (lba + ucast n) + unat (count - ucast n)]"
      using ch(4,5,7) upt_add_eq_append [of "unat lba" "unat lba + unat n" "unat count - unat n"] by simp
    show ?thesis
    proof (cases rd)
      case None
      then have "t = u" "r = None" using less.prems(2) rd by (simp_all add: ata_block_read_step(1) [OF True] Let_def n_def)
      then show ?thesis using u com [of "[]"] ch(2,6,7) split
        by (intro conjI exI [of _ "transfer_log (ucast lba) n CMD_READ_SECTORS"] exI [of _ "[(ucast lba, n)]"]) auto
    next
      case (Some bs)
      obtain r' where r': "ata_block_read (recording P) priv (lba + ucast n) (count - ucast n) u = (r', t)"
        "r = map_option (append bs) r'"
        using less.prems(2) rd Some by (auto simp: ata_block_read_step(1) [OF True] Let_def n_def split: prod.splits)
      have len: "length bs = 512 * unat n" using ata_read_result(2) [OF ch(1), of "recording P" bs] by (simp add: rd Some)
      have "unat (count - ucast n) < unat count" using ch(5,6,7) by linarith
      from less.hyps [OF this _ r'(1)] on_disk_cong [OF u(1)] ch(3)
      obtain l cs where "same_disk u t" "writes t = writes u @ l" "commands CMD_READ_SECTORS l = Some (map (apfst (take_bit 28)) cs)"
          "\<forall>(a, k) \<in> set cs. 0 < unat k \<and> unat a + unat k \<le> unat (lba + ucast n) + unat (count - ucast n)"
          "prefix (sectors_of cs) [unat (lba + ucast n)..<unat (lba + ucast n) + unat (count - ucast n)]"
          "\<forall>bs. r' = Some bs \<longrightarrow> length bs = 512 * unat (count - ucast n) \<and>
             sectors_of cs = [unat (lba + ucast n)..<unat (lba + ucast n) + unat (count - ucast n)]"
        by auto
      then show ?thesis using u com [of l] ch(2,4-7) split len r'(2)
        by (intro conjI exI [of _ "transfer_log (ucast lba) n CMD_READ_SECTORS @ l"] exI [of _ "(ucast lba, n) # cs"])
          (auto simp: algebra_simps)
    qed
  qed
qed

lemma block_read_ata_refused:
  assumes "ata_blockdev P s = Some dev" and "unat count = 0 \<or> unat (ata_sectors s) < unat lba + unat count"
  shows "block_read (Some dev) lba count s = (None, s)"
proof (cases "count = 0 \<or> ucast (ata_sectors s) \<le> lba")
  case True
  then show ?thesis using assms(1) by (auto simp: ata_blockdev_def block_read_def split: if_splits)
next
  case False
  then have "unat (ucast (ata_sectors s) - lba) = unat (ata_sectors s) - unat lba"
    by (subst unat_sub) (simp_all add: word_le_nat_alt)
  then have "ucast (ata_sectors s) - lba < ucast count"
    using assms(2) False by (auto simp: word_less_nat_alt word_le_nat_alt unat_eq_zero)
  then show ?thesis using assms(1) by (auto simp: ata_blockdev_def block_read_def split: if_splits)
qed

lemma block_read_ata_accepted:
  assumes "ata_blockdev P s = Some dev" and "0 < unat count" "unat lba + unat count \<le> unat (ata_sectors s)"
  shows "block_read (Some dev) lba count s = ata_block_read P 0 lba count s"
proof -
  have "unat (ucast (ata_sectors s) - lba) = unat (ata_sectors s) - unat lba"
    using assms(3) by (subst unat_sub) (simp_all add: word_le_nat_alt)
  then have "\<not> (count = 0 \<or> ucast (ata_sectors s) \<le> lba \<or> ucast (ata_sectors s) - lba < ucast count)"
    using assms(2,3) by (auto simp: word_less_nat_alt word_le_nat_alt)
  then show ?thesis using assms(1) by (auto simp: ata_blockdev_def block_read_def split: if_splits)
qed

text \<open>
  C27. Reading the ATA block device, for any responses of the controller and any number of sectors it
  reported. A request that is empty or not inside the disk fails without an access to a port of the controller.
  Every other request is cut into ranges of at most 255 sectors that, one after the other, are a
  prefix of the range asked for, and the whole of it when the read succeeds, which delivers 512 bytes for each sector. The registers
  written are one read command for each of these ranges, in order, and nothing else. LBA28 keeps 28 bits of the address of a command:
  for a request that ends at or below sector $2^{28}$ the commands address exactly these ranges; on a larger disk, which the driver
  accepts, the address of a command is taken modulo $2^{28}$.
\<close>

theorem ata_block_device_correct:
  assumes "ata_blockdev (recording P) s = Some dev"
    and "block_read (Some dev) lba count s = (r, t)"
  shows "if unat count = 0 \<or> unat (ata_sectors s) < unat lba + unat count then r = None \<and> t = s
    else same_disk s t \<and> (\<exists>l cs. writes t = writes s @ l \<and>
      commands CMD_READ_SECTORS l = Some (map (apfst (take_bit 28)) cs) \<and>
      (unat lba + unat count \<le> 2 ^ 28 \<longrightarrow> commands CMD_READ_SECTORS l = Some cs) \<and>
      prefix (sectors_of cs) [unat lba..<unat lba + unat count] \<and>
      (\<forall>bs. r = Some bs \<longrightarrow> length bs = 512 * unat count \<and> sectors_of cs = [unat lba..<unat lba + unat count]))"
proof (cases "unat count = 0 \<or> unat (ata_sectors s) < unat lba + unat count")
  case True
  then show ?thesis using block_read_ata_refused [OF assms(1) True] assms(2) by simp
next
  case False
  then have rd: "ata_block_read (recording P) 0 lba count s = (r, t)"
    using block_read_ata_accepted [OF assms(1)] assms(2) by simp
  have "on_disk s lba count"
    using assms(1) False by (auto simp: on_disk_def ata_blockdev_def split: if_splits)
  from ata_block_read_recorded [OF this rd] obtain l cs where
    l: "same_disk s t" "writes t = writes s @ l" "commands CMD_READ_SECTORS l = Some (map (apfst (take_bit 28)) cs)"
      "prefix (sectors_of cs) [unat lba..<unat lba + unat count]"
      "\<forall>bs. r = Some bs \<longrightarrow> length bs = 512 * unat count \<and> sectors_of cs = [unat lba..<unat lba + unat count]"
    and b: "\<forall>(a, k) \<in> set cs. 0 < unat k \<and> unat a + unat k \<le> unat lba + unat count" by blast
  have "map (apfst (take_bit 28)) cs = cs" if "unat lba + unat count \<le> 2 ^ 28"
  proof (rule map_idI)
    fix c assume "c \<in> set cs"
    then have "0 < unat (snd c)" "unat (fst c) + unat (snd c) \<le> unat lba + unat count" using b by auto
    then have "unat (fst c) < 2 ^ 28" using that by linarith
    then show "apfst (take_bit 28) c = c" by (cases c) (simp add: take_bit_28)
  qed
  then show ?thesis using l False by auto
qed

text \<open>A controller that is always ready and whose data port always reads as the same word.\<close>

definition ready_ports :: "unit ports" where
  "ready_ports = \<lparr>p_inb = (\<lambda>port h. (0x58, h)), p_outb = (\<lambda>port v h. h), p_inw = (\<lambda>port h. (0xAA55, h)), p_outw = (\<lambda>port v h. h)\<rparr>"

definition disk_example :: "(unit \<times> (u16 \<times> u8) list) ata_state" where
  "disk_example = \<lparr>ata_present = True, ata_writes_ok = True, ata_sectors = 1000, ata_hw = ((), [])\<rparr>"

lemma ready_inb: "ata_inb (recording ready_ports) port s = (0x58, s)"
  by (simp add: ata_inb_def inb_def recording_def ready_ports_def split: prod.split)

lemma ready_poll: "ata_poll (recording ready_ports) s = (True, s)"
proof -
  have T: "ATA_TIMEOUT = Suc 999999" by (simp add: ATA_TIMEOUT_def)
  show ?thesis unfolding ata_poll_def ata_wait_not_busy_def T wait_not_busy.simps poll_drq.simps ready_inb
    by (simp add: poll_drq.simps(2) [of _ 999999, simplified] ready_inb ST_BSY_def ST_ERR_def ST_DF_def ST_DRQ_def)
qed

lemma ready_read_loop: "\<exists>bs t. ata_read_loop (recording ready_ports) n s = (Some bs, t)"
proof (induction n arbitrary: s)
  case (Suc n)
  obtain bs h where "insw (recording ready_ports) ATA_DATA (ATA_SECTOR_SIZE div 2) (ata_hw s) = (bs, h)"
    by (rule prod.exhaust)
  then show ?case using Suc [of "s\<lparr>ata_hw := h\<rparr>"] by (auto simp: ready_poll)
qed simp

lemma ready_read: "ata_check lba n s \<Longrightarrow> \<exists>bs t. ata_read (recording ready_ports) lba n s = (Some bs, t)"
  using ready_read_loop by (simp add: ata_read_def)

lemma disk_example_read:
  "\<exists>bs t. ata_block_read (recording ready_ports) 0 5 2 disk_example = (Some bs, t)"
proof -
  have "ata_check 5 2 disk_example" by (simp add: ata_check_def disk_example_def)
  from ready_read [OF this] obtain bs t where "ata_read (recording ready_ports) 5 2 disk_example = (Some bs, t)" by blast
  then show ?thesis by (simp add: ata_block_read_step ata_chunk_def)
qed

theorem ata_block_device_correct_witness:
  "\<exists>dev bs t. ata_blockdev (recording ready_ports) disk_example = Some dev \<and>
     block_read (Some dev) 5 2 disk_example = (Some bs, t) \<and> length bs = 1024 \<and>
     (\<exists>cs. commands CMD_READ_SECTORS (writes t) = Some cs \<and> sectors_of cs = [5, 6])"
proof -
  obtain dev where dev: "ata_blockdev (recording ready_ports) disk_example = Some dev"
    by (simp add: ata_blockdev_def disk_example_def)
  obtain bs t where rd: "block_read (Some dev) 5 2 disk_example = (Some bs, t)"
    using disk_example_read block_read_ata_accepted [OF dev, of 2 5] by (auto simp: disk_example_def)
  have "[5..<7] = [5, 6::nat]" by (simp add: upt_rec)
  then show ?thesis using ata_block_device_correct [OF dev rd] dev rd
    by (auto simp: disk_example_def)
qed

section \<open>Writing\<close>

lemma ata_write_loop_quiet [quiet]:
  "same_disk s (snd (ata_write_loop P n buf s))"
  "writes (snd (ata_write_loop (recording P) n buf t)) = writes t"
  by (induction n arbitrary: buf s t) (simp_all add: case_prod_beta Let_def quiet)

text \<open>
  C28. Writing is guarded: unless writes have been allowed and the request is a non-empty range of sectors inside
  a disk that was found, \<open>ata_write\<close> fails without an access to a port of the controller. Otherwise the registers
  written are the setup of one write command for exactly that range, followed by a cache flush only when every sector
  was handed over, which is always so when the write reports success. The address of the command is the one asked for when that is
  below $2^{28}$, which is all that LBA28 can address; on a larger disk, which the driver accepts, it is taken
  modulo $2^{28}$.
\<close>

theorem ata_write_guarded:
  assumes "ata_write (recording P) lba count buf s = (ok, t)"
  shows "if \<not> ata_writes_ok s \<or> \<not> ata_present s \<or> count = 0 \<or> unat (ata_sectors s) < unat lba + unat count
    then \<not> ok \<and> t = s
    else same_disk s t \<and> (\<exists>l fl. writes t = writes s @ l @ fl \<and>
      commands CMD_WRITE_SECTORS l = Some [(take_bit 28 lba, count)] \<and>
      (unat lba < 2 ^ 28 \<longrightarrow> commands CMD_WRITE_SECTORS l = Some [(lba, count)]) \<and>
      (fl = [(ATA_COMMAND, CMD_CACHE_FLUSH)] \<or> fl = [] \<and> \<not> ok))"
proof -
  let ?s = "ata_outb (recording P) ATA_COMMAND CMD_WRITE_SECTORS (ata_setup (recording P) lba count s)"
  have com: "commands CMD_WRITE_SECTORS (transfer_log lba count CMD_WRITE_SECTORS) = Some [(take_bit 28 lba, count)]"
    using commands_transfer [of CMD_WRITE_SECTORS lba count "[]"] by simp
  show ?thesis
  proof (cases "ata_writes_ok s \<and> ata_check lba count s")
    case False
    then have "ata_write (recording P) lba count buf s = (False, s)" by (auto simp: ata_write_def)
    then show ?thesis using False assms(1) by (auto simp: ata_check_iff unat_gt_0)
  next
    case True
    obtain fin u where u: "ata_write_loop (recording P) (unat count) buf ?s = (fin, u)" by (rule prod.exhaust)
    have keep: "same_disk s u" "writes u = writes s @ transfer_log lba count CMD_WRITE_SECTORS"
      using ata_write_loop_quiet(1) [where P = "recording P" and n = "unat count" and buf = buf and s = ?s]
        ata_write_loop_quiet(2) [of P "unat count" buf ?s]
      by (simp_all add: u setup_recorded)
    have "if fin then same_disk u t \<and> writes t = writes u @ [(ATA_COMMAND, CMD_CACHE_FLUSH)] else t = u \<and> \<not> ok"
      using assms(1) True u by (auto simp: ata_write_def Let_def case_prod_beta outb_recorded quiet)
    then have "same_disk s t \<and> (\<exists>fl. writes t = writes s @ transfer_log lba count CMD_WRITE_SECTORS @ fl \<and>
        (fl = [(ATA_COMMAND, CMD_CACHE_FLUSH)] \<or> fl = [] \<and> \<not> ok))"
      using keep by (cases fin) simp_all
    moreover have "unat lba < 2 ^ 28 \<longrightarrow>
        commands CMD_WRITE_SECTORS (transfer_log lba count CMD_WRITE_SECTORS) = Some [(lba, count)]"
      using com take_bit_28 [of lba] by simp
    moreover have "\<not> (\<not> ata_writes_ok s \<or> \<not> ata_present s \<or> count = 0 \<or> unat (ata_sectors s) < unat lba + unat count)"
      using True by (auto simp: ata_check_iff)
    ultimately show ?thesis using com by (subst if_not_P, blast, blast)
  qed
qed

theorem ata_write_guarded_witness:
  "ata_write (recording ready_ports) 1000 1 [] disk_example = (False, disk_example) \<and>
   (\<exists>ok t l fl. ata_write (recording ready_ports) 7 1 (replicate 512 0) disk_example = (ok, t) \<and>
      writes t = l @ fl \<and> commands CMD_WRITE_SECTORS l = Some [(7, 1)])"
proof -
  obtain ok t where w: "ata_write (recording ready_ports) 7 1 (replicate 512 0) disk_example = (ok, t)"
    by (rule prod.exhaust)
  obtain ok' t' where w': "ata_write (recording ready_ports) 1000 1 [] disk_example = (ok', t')"
    by (rule prod.exhaust)
  show ?thesis using ata_write_guarded [OF w] ata_write_guarded [OF w'] w w'
    by (auto simp: disk_example_def)
qed

end
