(* ===== verification/Keyboard.thy ===== *)
theory Keyboard
  imports Prelude
begin

text \<open>
  The keyboard driver, \<^verbatim>\<open>kernel/drivers/keyboard.c\<close>: scan codes to characters, a line editor with a
  128-byte buffer, and the completed line latched for the shell. What the driver prints as echo is
  part of the result. The driver refines a line editor on plain strings.
\<close>

section \<open>The driver\<close>

definition KB_BUF_SIZE :: u32 where
  "KB_BUF_SIZE = 128"

abbreviation NUL :: char where
  "NUL \<equiv> CHR 0x00"

abbreviation BS :: char where
  "BS \<equiv> CHR 0x08"

abbreviation NL :: char where
  "NL \<equiv> CHR 0x0A"

definition kbd_map :: string where
  "kbd_map =
     [NUL, CHR 27] @ ''1234567890-='' @ [BS, CHR 9] @ ''qwertyuiop[]'' @ [NL, NUL] @ ''asdfghjkl;'' @
     [CHR 39, CHR 96, NUL, CHR 92] @ ''zxcvbnm,./'' @ [NUL, CHR ''*'', NUL, CHR '' '', NUL, NUL] @ replicate 68 NUL"

definition kbd_map_shift :: string where
  "kbd_map_shift =
     [NUL, CHR 27] @ ''!@#$%^&*()_+'' @ [BS, CHR 9] @ ''QWERTYUIOP{}'' @ [NL, NUL] @ ''ASDFGHJKL:'' @
     [CHR 34, CHR 126, NUL, CHR 124] @ ''ZXCVBNM<>?'' @ [NUL, CHR ''*'', NUL, CHR '' '', NUL, NUL] @ replicate 68 NUL"

record kbd_state =
  line_buf :: string
  line_len :: u32
  shift_down :: bool
  ready_line :: string
  line_ready :: bool

definition kbd_reset :: kbd_state where
  "kbd_reset = \<lparr>line_buf = replicate 128 NUL, line_len = 0, shift_down = False,
     ready_line = replicate 128 NUL, line_ready = False\<rparr>"

text \<open>The loop that latches the line: \<open>ready_line[i] = line_buf[i]\<close> for \<open>i\<close> up to \<open>line_len\<close>.\<close>

definition latch_line :: "string \<Rightarrow> u32 \<Rightarrow> string \<Rightarrow> string" where
  "latch_line buf len ready = fold (\<lambda>i r. r[i := buf ! i]) [0..<Suc (unat len)] ready"

text \<open>The handler from where it has a character.\<close>

definition handle_char :: "char \<Rightarrow> kbd_state \<Rightarrow> string \<times> kbd_state" where
  "handle_char c s =
     (if c = NL then
        (let buf = (line_buf s)[unat (line_len s) := NUL] in
         ([NL], s\<lparr>line_buf := buf, ready_line := latch_line buf (line_len s) (ready_line s),
                  line_ready := True, line_len := 0\<rparr>))
      else if c = BS then
        (if line_len s > 0 then ([BS, CHR '' '', BS], s\<lparr>line_len := line_len s - 1\<rparr>) else ([], s))
      else if line_len s < KB_BUF_SIZE - 1 then
        ([c], s\<lparr>line_buf := (line_buf s)[unat (line_len s) := c], line_len := line_len s + 1\<rparr>)
      else ([], s))"

definition keyboard_handle_scancode :: "u8 \<Rightarrow> kbd_state \<Rightarrow> string \<times> kbd_state" where
  "keyboard_handle_scancode scancode s =
     (if scancode AND 0x80 \<noteq> 0 then
        (let make = scancode AND 0x7F in
         ([], if make = 0x2A \<or> make = 0x36 then s\<lparr>shift_down := False\<rparr> else s))
      else if scancode = 0x2A \<or> scancode = 0x36 then ([], s\<lparr>shift_down := True\<rparr>)
      else if scancode \<ge> 128 then ([], s)
      else let c = (if shift_down s then kbd_map_shift ! unat scancode else kbd_map ! unat scancode) in
        if c = NUL then ([], s) else handle_char c s)"

text \<open>
  The copy loop of \<open>keyboard_poll_line\<close>: \<open>i\<close> counts with the width of the source, the list is what
  \<open>ready_line\<close> holds from index \<open>i\<close> on. The bytes copied, without the terminator that follows them.
\<close>

fun copy_line :: "u32 \<Rightarrow> u32 \<Rightarrow> string \<Rightarrow> string" where
  "copy_line i out_size (c # cs) = (if c \<noteq> NUL \<and> i < out_size - 1 then c # copy_line (i + 1) out_size cs else [])"
| "copy_line i out_size [] = []"

definition keyboard_poll_line :: "u32 \<Rightarrow> kbd_state \<Rightarrow> string option \<times> kbd_state" where
  "keyboard_poll_line out_size s =
     (if \<not> line_ready s then (None, s)
      else (Some (copy_line 0 out_size (ready_line s) @ [NUL]), s\<lparr>line_ready := False\<rparr>))"

section \<open>The line editor it implements\<close>

text \<open>The character a key press stands for: none for releases, shift keys and keys without a character.\<close>

definition key_char :: "bool \<Rightarrow> u8 \<Rightarrow> char option" where
  "key_char shift sc =
     (if 128 \<le> unat sc \<or> sc = 0x2A \<or> sc = 0x36 then None
      else let c = (if shift then kbd_map_shift else kbd_map) ! unat sc in if c = NUL then None else Some c)"

definition key_shift :: "bool \<Rightarrow> u8 \<Rightarrow> bool" where
  "key_shift shift sc = (if sc = 0xAA \<or> sc = 0xB6 then False else if sc = 0x2A \<or> sc = 0x36 then True else shift)"

text \<open>State of the editor: shift, the line being typed, the completed line not yet taken.\<close>

type_synonym editor = "bool \<times> string \<times> string option"

fun edit :: "u8 \<Rightarrow> editor \<Rightarrow> editor" where
  "edit sc (shift, line, latched) =
     (key_shift shift sc,
      case key_char shift sc of None \<Rightarrow> (line, latched)
      | Some c \<Rightarrow> if c = NL then ('''', Some line)
                 else if c = BS then (butlast line, latched)
                 else if length line < 127 then (line @ [c], latched) else (line, latched))"

definition editor_of :: "kbd_state \<Rightarrow> editor" where
  "editor_of s = (shift_down s, take (unat (line_len s)) (line_buf s),
     if line_ready s then Some (takeWhile (\<lambda>c. c \<noteq> NUL) (ready_line s)) else None)"

definition kbd_ok :: "kbd_state \<Rightarrow> bool" where
  "kbd_ok s \<longleftrightarrow> length (line_buf s) = 128 \<and> length (ready_line s) = 128 \<and> unat (line_len s) \<le> 127 \<and>
     NUL \<notin> set (take (unat (line_len s)) (line_buf s)) \<and> NUL \<in> set (ready_line s)"

lemma kbd_reset_ok: "kbd_ok kbd_reset" "editor_of kbd_reset = (False, '''', None)"
  by (simp_all add: kbd_ok_def kbd_reset_def editor_of_def)

lemma latch_prefix:
  "n \<le> length r \<Longrightarrow> n \<le> length buf \<Longrightarrow> fold (\<lambda>i r. r[i := buf ! i]) [0..<n] r = take n buf @ drop n r"
proof (induction n)
  case (Suc n)
  then show ?case
    by (simp add: list_update_append take_Suc_conv_app_nth Cons_nth_drop_Suc [symmetric])
qed simp

lemma latch_line_takes:
  assumes "length buf = 128" "length r = 128" "unat len \<le> 127" "NUL \<notin> set (take (unat len) buf)"
  shows "takeWhile (\<lambda>c. c \<noteq> NUL) (latch_line (buf[unat len := NUL]) len r) = take (unat len) buf"
    and "NUL \<in> set (latch_line (buf[unat len := NUL]) len r)"
    and "length (latch_line (buf[unat len := NUL]) len r) = 128"
proof -
  have "take (Suc (unat len)) (buf[unat len := NUL]) = take (unat len) buf @ [NUL]"
    using assms by (simp add: take_Suc_conv_app_nth)
  then have eq: "latch_line (buf[unat len := NUL]) len r = (take (unat len) buf @ [NUL]) @ drop (Suc (unat len)) r"
    using latch_prefix [of "Suc (unat len)" r "buf[unat len := NUL]"] assms by (simp add: latch_line_def)
  show "takeWhile (\<lambda>c. c \<noteq> NUL) (latch_line (buf[unat len := NUL]) len r) = take (unat len) buf"
    unfolding eq using assms(4) by (subst append_assoc, subst takeWhile_append2) auto
  show "NUL \<in> set (latch_line (buf[unat len := NUL]) len r)" unfolding eq by simp
  show "length (latch_line (buf[unat len := NUL]) len r) = 128" unfolding eq using assms by simp
qed

section \<open>Refinement\<close>

lemma and_0x80: "sc AND 0x80 = 0 \<longleftrightarrow> unat (sc::u8) < 128"
proof -
  have "sc AND 0x80 = 0 \<longleftrightarrow> \<not> bit sc 7"
    using and_exp_eq_0_iff_not_bit [of sc 7] by simp
  also have "\<dots> \<longleftrightarrow> even (unat sc div 128)"
  proof -
    have "bit (unat sc) 7 = bit sc 7" by (simp add: bit_unsigned_iff)
    then show ?thesis by (auto simp: bit_nat_def)
  qed
  also have "\<dots> \<longleftrightarrow> unat sc < 128"
  proof -
    have "unat sc div 128 = 0 \<or> unat sc div 128 = 1" using unat_lt_8 [of sc] by (auto simp del: unat_lt_8)
    then show ?thesis by (auto simp: div_eq_0_iff)
  qed
  finally show ?thesis .
qed

lemma release_code: "128 \<le> unat (sc::u8) \<Longrightarrow> unat k < 128 \<Longrightarrow> sc AND 0x7F = k \<longleftrightarrow> sc = k + 128"
proof -
  assume a: "128 \<le> unat sc" "unat k < 128"
  have "sc AND 0x7F = take_bit 7 sc" using take_bit_eq_mask [of 7 sc] by (simp add: mask_eq_exp_minus_1)
  then have "unat (sc AND 0x7F) = unat sc mod 128" by (simp add: take_bit_eq_mod unat_mod)
  moreover have "unat sc mod 128 = unat sc - 128" using a(1) unat_lt_8 [of sc] by (simp add: mod_if del: unat_lt_8)
  moreover have "unat (k + 128) = unat k + 128" using a(2) by (simp add: unat_word_ariths)
  ultimately show ?thesis using a(1) by (auto simp: word_unat_eq_iff)
qed

lemma keyboard_press:
  assumes "key_char (shift_down s) sc = Some c"
  shows "keyboard_handle_scancode sc s = handle_char c s" and "c \<noteq> NUL" and "key_shift (shift_down s) sc = shift_down s"
proof -
  have sc: "unat sc < 128" "sc \<noteq> 0x2A" "sc \<noteq> 0x36" "c \<noteq> NUL"
    and c: "c = (if shift_down s then kbd_map_shift ! unat sc else kbd_map ! unat sc)"
    using assms by (auto simp: key_char_def Let_def split: if_splits)
  show "c \<noteq> NUL" by fact
  have "sc \<noteq> 0xAA" "sc \<noteq> 0xB6" using sc(1) by auto
  then show "key_shift (shift_down s) sc = shift_down s" using sc by (simp add: key_shift_def)
  have "sc AND 0x80 = 0" "\<not> 128 \<le> sc" using sc(1) by (simp_all add: and_0x80 word_le_nat_alt)
  then show "keyboard_handle_scancode sc s = handle_char c s"
    unfolding keyboard_handle_scancode_def c [symmetric] using sc by simp
qed

lemma keyboard_other:
  assumes "key_char (shift_down s) sc = None"
  shows "keyboard_handle_scancode sc s = ('''', s\<lparr>shift_down := key_shift (shift_down s) sc\<rparr>)"
proof (cases "unat sc < 128")
  case True
  then show ?thesis using assms
    by (auto simp: key_char_def keyboard_handle_scancode_def and_0x80 word_le_nat_alt key_shift_def Let_def split: if_splits)
next
  case False
  then have "sc AND 0x7F = 0x2A \<longleftrightarrow> sc = 0xAA" "sc AND 0x7F = 0x36 \<longleftrightarrow> sc = 0xB6" "sc \<noteq> 0x2A" "sc \<noteq> 0x36"
    using release_code [where sc = sc and k = "0x2A"] release_code [where sc = sc and k = "0x36"] by auto
  then show ?thesis using False
    by (auto simp: keyboard_handle_scancode_def and_0x80 key_shift_def Let_def)
qed

lemma keyboard_step:
  assumes "kbd_ok s" and "keyboard_handle_scancode sc s = (echo, t)"
  shows "kbd_ok t \<and> editor_of t = edit sc (editor_of s)"
proof (cases "key_char (shift_down s) sc")
  case None
  then show ?thesis using assms keyboard_other [OF None] by (auto simp: kbd_ok_def editor_of_def)
next
  case (Some c)
  note p = keyboard_press(1) [OF Some, unfolded handle_char_def] keyboard_press(2,3) [OF Some]
  have ok: "length (line_buf s) = 128" "length (ready_line s) = 128" "unat (line_len s) \<le> 127"
      "NUL \<notin> set (take (unat (line_len s)) (line_buf s))" "NUL \<in> set (ready_line s)"
    using assms(1) by (auto simp: kbd_ok_def)
  consider "c = NL" | "c = BS" "line_len s = 0" | "c = BS" "line_len s \<noteq> 0"
    | "c \<noteq> NL" "c \<noteq> BS" "unat (line_len s) < 127" | "c \<noteq> NL" "c \<noteq> BS" "unat (line_len s) = 127"
    using ok(3) by fastforce
  then show ?thesis
  proof cases
    case 1
    then have "t = s\<lparr>line_buf := (line_buf s)[unat (line_len s) := NUL],
        ready_line := latch_line ((line_buf s)[unat (line_len s) := NUL]) (line_len s) (ready_line s), line_ready := True, line_len := 0\<rparr>"
      using assms(2) p(1) by (simp add: Let_def)
    then show ?thesis using 1 Some p(3) ok latch_line_takes [OF ok(1-4)] by (simp add: kbd_ok_def editor_of_def)
  next
    case 2
    then have "t = s" using assms(2) p(1) by simp
    then show ?thesis using 2 Some p(3) assms(1) by (simp add: editor_of_def)
  next
    case 3
    then have t: "t = s\<lparr>line_len := line_len s - 1\<rparr>" and u: "unat (line_len s - 1) = unat (line_len s) - 1" "0 < unat (line_len s)"
      using assms(2) p(1) unat_minus_one [of "line_len s"] by (simp_all add: word_greater_zero_iff unat_gt_0)
    have "take (unat (line_len s) - 1) (line_buf s) = butlast (take (unat (line_len s)) (line_buf s))"
      using ok by (simp add: butlast_take)
    then show ?thesis using 3 t u Some p(3) ok by (auto simp: kbd_ok_def editor_of_def dest: in_set_butlastD)
  next
    case 4
    then have t: "t = s\<lparr>line_buf := (line_buf s)[unat (line_len s) := c], line_len := line_len s + 1\<rparr>"
        and u: "unat (line_len s + 1) = Suc (unat (line_len s))"
      using assms(2) p(1) by (simp_all add: KB_BUF_SIZE_def word_less_nat_alt unat_word_ariths)
    have "take (Suc (unat (line_len s))) ((line_buf s)[unat (line_len s) := c]) = take (unat (line_len s)) (line_buf s) @ [c]"
      using 4(3) ok(1) by (simp add: take_Suc_conv_app_nth)
    then show ?thesis using 4 t u Some p(2,3) ok by (simp add: kbd_ok_def editor_of_def)
  next
    case 5
    then have "t = s" using assms(2) p(1) by (simp add: KB_BUF_SIZE_def word_less_nat_alt)
    then show ?thesis using 5 Some p(3) assms(1) ok by (simp add: editor_of_def)
  qed
qed

lemma copy_line_take:
  "unat i + length cs < 4294967296 \<Longrightarrow> unat i \<le> unat (out_size - 1) \<Longrightarrow>
   copy_line i out_size cs = take (unat (out_size - 1) - unat i) (takeWhile (\<lambda>c. c \<noteq> NUL) cs)"
proof (induction cs arbitrary: i)
  case (Cons c cs)
  then have u: "unat (i + 1) = Suc (unat i)" by (simp add: unat_word_ariths)
  show ?case
  proof (cases "c \<noteq> NUL \<and> i < out_size - 1")
    case True
    then have "unat i < unat (out_size - 1)" by (simp add: word_less_nat_alt)
    then show ?thesis using True Cons.IH [of "i + 1"] Cons.prems u
      by (simp add: Suc_diff_Suc [symmetric] flip: Suc_diff_Suc)
  next
    case False
    then show ?thesis using Cons.prems(2) by (auto simp: word_less_nat_alt)
  qed
qed simp

lemma keyboard_poll:
  assumes "kbd_ok s"
  shows "keyboard_poll_line out_size s =
     (case snd (snd (editor_of s)) of None \<Rightarrow> (None, s)
      | Some l \<Rightarrow> (Some (take (unat (out_size - 1)) l @ [NUL]), s\<lparr>line_ready := False\<rparr>))"
  using assms copy_line_take [of 0 "ready_line s" out_size]
  by (simp add: keyboard_poll_line_def editor_of_def kbd_ok_def)

abbreviation typed :: "u8 list \<Rightarrow> kbd_state \<Rightarrow> kbd_state" where
  "typed scs s \<equiv> fold (\<lambda>sc s. snd (keyboard_handle_scancode sc s)) scs s"

lemma typed_refines: "kbd_ok s \<Longrightarrow> kbd_ok (typed scs s) \<and> editor_of (typed scs s) = fold edit scs (editor_of s)"
proof (induction scs arbitrary: s)
  case (Cons sc scs)
  then show ?case using keyboard_step [OF Cons.prems surjective_pairing] by simp
qed simp

text \<open>
  C29. After any sequence of scan codes the driver is in the state a line editor on strings would be in:
  the buffer holds the line typed so far, edited by backspace and cut at 127 characters, the latched line is the
  one completed last, shift is what the last shift key did, and no index ever leaves the
  128-byte buffers. Polling then gives the completed line, cut to the caller's buffer, with its
  terminator, and empties the latch (a caller's size of 0 counts as \<open>2\<^sup>32\<close>).
\<close>

theorem keyboard_refines_editor:
  "let s = typed scs kbd_reset; ed = fold edit scs (False, '''', None) in
   editor_of s = ed \<and> kbd_ok s \<and>
   (case snd (snd ed) of
      None \<Rightarrow> keyboard_poll_line out_size s = (None, s)
    | Some line \<Rightarrow> \<exists>t. keyboard_poll_line out_size s = (Some (take (unat (out_size - 1)) line @ [NUL]), t) \<and>
        kbd_ok t \<and> editor_of t = (fst ed, fst (snd ed), None))"
proof -
  define s where "s = typed scs kbd_reset"
  have r: "kbd_ok s" "editor_of s = fold edit scs (False, '''', None)"
    using typed_refines [OF kbd_reset_ok(1), of scs] by (simp_all add: s_def kbd_reset_ok)
  have "kbd_ok (s\<lparr>line_ready := False\<rparr>)" "editor_of (s\<lparr>line_ready := False\<rparr>) = (fst (editor_of s), fst (snd (editor_of s)), None)"
    using r(1) by (simp_all add: kbd_ok_def editor_of_def)
  then show ?thesis unfolding Let_def s_def [symmetric] r(2) [symmetric] keyboard_poll [OF r(1)]
    using r(1) by (auto split: option.split)
qed

end
