(* ===== verification/Pic.thy ===== *)
theory Pic
  imports Ports
begin

text \<open>
  The interrupt controllers, \<^verbatim>\<open>kernel/arch/x86_64/pic.c\<close>, over the ports of \<^verbatim>\<open>Ports\<close>.
\<close>

definition PIC1_CMD :: u16 where "PIC1_CMD = 0x20"
definition PIC1_DATA :: u16 where "PIC1_DATA = 0x21"
definition PIC2_CMD :: u16 where "PIC2_CMD = 0xA0"
definition PIC2_DATA :: u16 where "PIC2_DATA = 0xA1"
definition ICW1_INIT :: u8 where "ICW1_INIT = 0x11"
definition ICW4_8086 :: u8 where "ICW4_8086 = 0x01"
definition PIC1_OFFSET :: u8 where "PIC1_OFFSET = 32"
definition PIC2_OFFSET :: u8 where "PIC2_OFFSET = 40"

definition io_wait :: "'hw ports \<Rightarrow> 'hw \<Rightarrow> 'hw" where
  "io_wait P h = outb P 0x80 0 h"

definition pic_remap :: "'hw ports \<Rightarrow> 'hw \<Rightarrow> 'hw" where
  "pic_remap P h =
     (let out = (\<lambda>port v h. io_wait P (outb P port v h));
          h = out PIC1_CMD ICW1_INIT h;
          h = out PIC2_CMD ICW1_INIT h;
          h = out PIC1_DATA PIC1_OFFSET h;
          h = out PIC2_DATA PIC2_OFFSET h;
          h = out PIC1_DATA 0x04 h;
          h = out PIC2_DATA 0x02 h;
          h = out PIC1_DATA ICW4_8086 h;
          h = out PIC2_DATA ICW4_8086 h;
          h = outb P PIC1_DATA 0xFF h
      in outb P PIC2_DATA 0xFF h)"

definition pic_send_eoi :: "'hw ports \<Rightarrow> u8 \<Rightarrow> 'hw \<Rightarrow> 'hw" where
  "pic_send_eoi P irq h = outb P PIC1_CMD 0x20 (if irq \<ge> 8 then outb P PIC2_CMD 0x20 h else h)"

text \<open>The register and the line an interrupt number selects. \<open>1 << irq\<close> is an \<open>int\<close>, cut to a byte on use.\<close>

definition pic_port :: "u8 \<Rightarrow> u16" where
  "pic_port irq = (if irq < 8 then PIC1_DATA else PIC2_DATA)"

definition pic_line :: "u8 \<Rightarrow> u8" where
  "pic_line irq = (if irq \<ge> 8 then irq - 8 else irq)"

definition pic_set_mask :: "'hw ports \<Rightarrow> u8 \<Rightarrow> 'hw \<Rightarrow> 'hw" where
  "pic_set_mask P irq h =
     (let (v, h) = inb P (pic_port irq) h in outb P (pic_port irq) (v OR push_bit (unat (pic_line irq)) 1) h)"

definition pic_clear_mask :: "'hw ports \<Rightarrow> u8 \<Rightarrow> 'hw \<Rightarrow> 'hw" where
  "pic_clear_mask P irq h =
     (let (v, h) = inb P (pic_port irq) h in outb P (pic_port irq) (v AND NOT (push_bit (unat (pic_line irq)) 1)) h)"

end
