(* ===== verification/Mouse.thy ===== *)
theory Mouse
  imports Pic GfxSpec
begin

text \<open>
  The PS/2 mouse, \<^verbatim>\<open>kernel/drivers/mouse.c\<close>: start-up of the controller, the decoding of three-byte
  packets, and the position on the screen. Positions are integers; the screen is at most a few thousand pixels wide.
\<close>

definition PS2_DATA :: u16 where "PS2_DATA = 0x60"
definition PS2_STATUS :: u16 where "PS2_STATUS = 0x64"
definition PS2_CMD :: u16 where "PS2_CMD = 0x64"
definition ST_OUT_FULL :: u8 where "ST_OUT_FULL = 0x01"
definition ST_IN_FULL :: u8 where "ST_IN_FULL = 0x02"
definition PS2_TIMEOUT :: nat where "PS2_TIMEOUT = 100000"

record mouse_state =
  ms_x :: int
  ms_y :: int
  ms_buttons :: u8
  ms_packets :: u32

record 'hw mouse_driver =
  mx :: int
  my :: int
  mbuttons :: u8
  mpackets :: u32
  mchanged :: bool
  packet :: "u8 list"
  packet_idx :: nat
  mready :: bool
  mouse_hw :: 'hw

text \<open>The static variables at boot.\<close>

definition mouse_boot :: "'hw \<Rightarrow> 'hw mouse_driver" where
  "mouse_boot h = \<lparr>mx = 0, my = 0, mbuttons = 0, mpackets = 0, mchanged = True, packet = [0, 0, 0], packet_idx = 0,
     mready = False, mouse_hw = h\<rparr>"

section \<open>The controller\<close>

text \<open>\<open>True\<close> is the return value 0.\<close>

fun wait_flag :: "'hw ports \<Rightarrow> (u8 \<Rightarrow> bool) \<Rightarrow> nat \<Rightarrow> 'hw \<Rightarrow> bool \<times> 'hw" where
  "wait_flag P ok 0 h = (False, h)"
| "wait_flag P ok (Suc n) h = (let (v, h) = inb P PS2_STATUS h in if ok v then (True, h) else wait_flag P ok n h)"

definition wait_write :: "'hw ports \<Rightarrow> 'hw \<Rightarrow> bool \<times> 'hw" where
  "wait_write P h = wait_flag P (\<lambda>v. v AND ST_IN_FULL = 0) PS2_TIMEOUT h"

definition wait_read :: "'hw ports \<Rightarrow> 'hw \<Rightarrow> bool \<times> 'hw" where
  "wait_read P h = wait_flag P (\<lambda>v. v AND ST_OUT_FULL \<noteq> 0) PS2_TIMEOUT h"

definition ctrl_cmd :: "'hw ports \<Rightarrow> u8 \<Rightarrow> 'hw \<Rightarrow> bool \<times> 'hw" where
  "ctrl_cmd P cmd h = (let (ok, h) = wait_write P h in if ok then (True, outb P PS2_CMD cmd h) else (False, h))"

definition read_config :: "'hw ports \<Rightarrow> 'hw \<Rightarrow> u8 option \<times> 'hw" where
  "read_config P h =
     (let (ok, h) = ctrl_cmd P 0x20 h in if \<not> ok then (None, h) else
      let (ok, h) = wait_read P h in if \<not> ok then (None, h) else
      let (v, h) = inb P PS2_DATA h in (Some v, h))"

definition write_config :: "'hw ports \<Rightarrow> u8 \<Rightarrow> 'hw \<Rightarrow> bool \<times> 'hw" where
  "write_config P cfg h =
     (let (ok, h) = ctrl_cmd P 0x60 h in if \<not> ok then (False, h) else
      let (ok, h) = wait_write P h in if \<not> ok then (False, h) else (True, outb P PS2_DATA cfg h))"

definition mouse_write :: "'hw ports \<Rightarrow> u8 \<Rightarrow> 'hw \<Rightarrow> bool \<times> 'hw" where
  "mouse_write P b h =
     (let (ok, h) = ctrl_cmd P 0xD4 h in if \<not> ok then (False, h) else
      let (ok, h) = wait_write P h in if \<not> ok then (False, h) else
      let h = outb P PS2_DATA b h;
          (ok, h) = wait_read P h in if \<not> ok then (False, h) else
      let (v, h) = inb P PS2_DATA h in (v = 0xFA, h))"

definition screen_w :: "'a gfx_state_scheme \<Rightarrow> int" where
  "screen_w g = (if gfx_ready g then gfx_width g else 640)"

definition screen_h :: "'a gfx_state_scheme \<Rightarrow> int" where
  "screen_h g = (if gfx_ready g then gfx_height g else 480)"

fun drop_stale :: "'hw ports \<Rightarrow> nat \<Rightarrow> 'hw \<Rightarrow> 'hw" where
  "drop_stale P 0 h = h"
| "drop_stale P (Suc n) h =
     (let (v, h) = inb P PS2_STATUS h in
      if v AND ST_OUT_FULL \<noteq> 0 then drop_stale P n (snd (inb P PS2_DATA h)) else h)"

text \<open>The chain of conditions that switches the mouse on, left to right.\<close>

definition mouse_enable :: "'hw ports \<Rightarrow> 'hw \<Rightarrow> bool \<times> 'hw" where
  "mouse_enable P h =
     (let (ok, h) = ctrl_cmd P 0xA8 h in if \<not> ok then (False, h) else
      let (c, h) = read_config P h in case c of None \<Rightarrow> (False, h) | Some cfg \<Rightarrow>
      let (ok, h) = write_config P (cfg AND NOT 0x20) h in if \<not> ok then (False, h) else
      let (ok, h) = mouse_write P 0xF6 h in if \<not> ok then (False, h) else
      let (ok, h) = mouse_write P 0xF4 h in if \<not> ok then (False, h) else
      let (c, h) = read_config P h in case c of None \<Rightarrow> (False, h) | Some cfg \<Rightarrow>
      write_config P (cfg OR 0x02) h)"

definition mouse_init :: "'hw ports \<Rightarrow> 'a gfx_state_scheme \<Rightarrow> 'hw mouse_driver \<Rightarrow> bool \<times> 'hw mouse_driver" where
  "mouse_init P g m =
     (let (ok, h) = mouse_enable P (drop_stale P 16 (mouse_hw m)) in
      if \<not> ok then (False, m\<lparr>mouse_hw := h\<rparr>)
      else (True, m\<lparr>mx := screen_w g div 2, my := screen_h g div 2, packet_idx := 0, mready := True,
                    mouse_hw := pic_clear_mask P 12 (pic_clear_mask P 2 h)\<rparr>))"

section \<open>Packets\<close>

text \<open>A complete packet: the handler from where \<open>packet_idx\<close> is reset.\<close>

definition handle_packet :: "'a gfx_state_scheme \<Rightarrow> 'hw mouse_driver \<Rightarrow> 'hw mouse_driver" where
  "handle_packet g m =
     (let p = packet m in
      if p ! 0 AND 0xC0 \<noteq> 0 then m
      else
        let dx = uint (p ! 1) - (push_bit 4 (uint (p ! 0)) AND 0x100);
            dy = uint (p ! 2) - (push_bit 3 (uint (p ! 0)) AND 0x100);
            x = mx m + dx;
            y = my m - dy;
            x = (if x < 0 then 0 else x);
            y = (if y < 0 then 0 else y);
            x = (if x \<ge> screen_w g then screen_w g - 1 else x);
            y = (if y \<ge> screen_h g then screen_h g - 1 else y)
        in m\<lparr>mx := x, my := y, mbuttons := p ! 0 AND 0x07, mpackets := mpackets m + 1, mchanged := True\<rparr>)"

definition handle_byte :: "'a gfx_state_scheme \<Rightarrow> u8 \<Rightarrow> 'hw mouse_driver \<Rightarrow> 'hw mouse_driver" where
  "handle_byte g b m =
     (if \<not> mready m then m
      else if packet_idx m = 0 \<and> b AND 0x08 = 0 then m
      else let m = m\<lparr>packet := (packet m)[packet_idx m := b], packet_idx := packet_idx m + 1\<rparr> in
        if packet_idx m < 3 then m else handle_packet g (m\<lparr>packet_idx := 0\<rparr>))"

definition mouse_handle_irq :: "'hw ports \<Rightarrow> 'a gfx_state_scheme \<Rightarrow> 'hw mouse_driver \<Rightarrow> 'hw mouse_driver" where
  "mouse_handle_irq P g m =
     (let (v, h) = inb P PS2_STATUS (mouse_hw m) in
      if v AND ST_OUT_FULL = 0 then m\<lparr>mouse_hw := h\<rparr>
      else let (b, h) = inb P PS2_DATA h in handle_byte g b (m\<lparr>mouse_hw := h\<rparr>))"

definition mouse_get :: "'hw mouse_driver \<Rightarrow> mouse_state" where
  "mouse_get m = \<lparr>ms_x = mx m, ms_y = my m, ms_buttons = mbuttons m, ms_packets = mpackets m\<rparr>"

definition mouse_poll :: "'hw mouse_driver \<Rightarrow> (bool \<times> mouse_state) \<times> 'hw mouse_driver" where
  "mouse_poll m = ((mready m \<and> mchanged m, mouse_get m), m\<lparr>mchanged := False\<rparr>)"

section \<open>What a stream of bytes means\<close>

text \<open>
  The protocol on a list of bytes: out of step bytes are dropped until one has bit 3 set, then three
  bytes make a packet. An unfinished packet is what is left over.
\<close>

fun packets_of :: "u8 list \<Rightarrow> (u8 \<times> u8 \<times> u8) list" where
  "packets_of [] = []"
| "packets_of (a # bs) =
     (if a AND 0x08 = 0 then packets_of bs
      else case bs of b # c # bs \<Rightarrow> (a, b, c) # packets_of bs | _ \<Rightarrow> [])"

text \<open>The movement of a packet: nine-bit two's complement numbers, the sign bits in the first byte.\<close>

definition nine_bit :: "bool \<Rightarrow> u8 \<Rightarrow> int" where
  "nine_bit negative b = uint b - (if negative then 256 else 0)"

definition clamp :: "int \<Rightarrow> int \<Rightarrow> int" where
  "clamp n x = max 0 (min (n - 1) x)"

text \<open>What a packet does to position, buttons and packet count.\<close>

fun effect :: "int \<Rightarrow> int \<Rightarrow> u8 \<times> u8 \<times> u8 \<Rightarrow> int \<times> int \<times> u8 \<times> u32 \<Rightarrow> int \<times> int \<times> u8 \<times> u32" where
  "effect w h (a, b, c) (x, y, btn, n) =
     (if bit a 6 \<or> bit a 7 then (x, y, btn, n)
      else (clamp w (x + nine_bit (bit a 4) b), clamp h (y - nine_bit (bit a 5) c), a AND 7, n + 1))"

abbreviation pointer :: "'hw mouse_driver \<Rightarrow> int \<times> int \<times> u8 \<times> u32" where
  "pointer m \<equiv> (mx m, my m, mbuttons m, mpackets m)"

lemma and_single: "(x::int) AND 2 ^ n = (if bit x n then 2 ^ n else 0)"
  by (rule bit_eqI) (auto simp: bit_simps)

lemma packet_sign:
  "push_bit 4 (uint (a::u8)) AND 0x100 = (if bit a 4 then 256 else 0)"
  "push_bit 3 (uint (a::u8)) AND 0x100 = (if bit a 5 then 256 else 0)"
  using and_single [of "push_bit 4 (uint a)" 8] and_single [of "push_bit 3 (uint a)" 8]
  by (simp_all add: bit_simps)

lemma packet_overflow: "(a::u8) AND 0xC0 = 0 \<longleftrightarrow> \<not> bit a 6 \<and> \<not> bit a 7"
proof -
  have "a AND 0xC0 = (a AND 2 ^ 6) OR (a AND 2 ^ 7)" by (simp flip: bit.conj_disj_distrib)
  then show ?thesis by (simp add: or_eq_0_iff and_exp_eq_0_iff_not_bit del: power_numeral)
qed

lemma clamp_code:
  "0 < n \<Longrightarrow> (let x = if x < 0 then 0 else x in if x \<ge> n then n - 1 else x) = clamp n x"
  by (auto simp: clamp_def)

lemma handle_packet_effect:
  assumes "packet m = [a, b, c]" "0 < screen_w g" "0 < screen_h g"
  shows "pointer (handle_packet g m) = effect (screen_w g) (screen_h g) (a, b, c) (pointer m)"
    and "mready (handle_packet g m) = mready m" "packet_idx (handle_packet g m) = packet_idx m"
    and "length (packet (handle_packet g m)) = 3" "mouse_hw (handle_packet g m) = mouse_hw m"
  using assms
  by (auto simp: handle_packet_def packet_sign packet_overflow nine_bit_def clamp_def Let_def)

section \<open>The stream\<close>

lemma list3: "length xs = 3 \<Longrightarrow> \<exists>a b c. xs = [a, b, c]"
  by (auto simp: numeral_3_eq_3 length_Suc_conv)

text \<open>In step: between two packets, with the mouse on.\<close>

abbreviation in_step :: "'hw mouse_driver \<Rightarrow> bool" where
  "in_step m \<equiv> mready m \<and> packet_idx m = 0 \<and> length (packet m) = 3"

lemma handle_three:
  fixes b c :: u8
  assumes "in_step m" "a AND 0x08 \<noteq> 0" "0 < screen_w g" "0 < screen_h g"
  defines "t \<equiv> handle_byte g c (handle_byte g b (handle_byte g a m))"
  shows "in_step t" "pointer t = effect (screen_w g) (screen_h g) (a, b, c) (pointer m)"
proof -
  obtain p q r where pk: "packet m = [p, q, r]" using list3 assms(1) by blast
  let ?u = "m\<lparr>packet := [a, b, c], packet_idx := 0\<rparr>"
  have t: "t = handle_packet g ?u"
    using assms(1,2) by (simp add: t_def handle_byte_def pk)
  have u: "packet ?u = [a, b, c]" by simp
  note e = handle_packet_effect [OF u assms(3,4)]
  show "in_step t" using e assms(1) by (simp add: t)
  show "pointer t = effect (screen_w g) (screen_h g) (a, b, c) (pointer m)" using e(1) by (simp add: t)
qed

lemma handle_partial:
  assumes "in_step m" "a AND 0x08 \<noteq> 0"
  shows "pointer (handle_byte g a m) = pointer m" "pointer (handle_byte g b (handle_byte g a m)) = pointer m"
  using assms by (auto simp: handle_byte_def)

lemma stream_effect:
  assumes "in_step m" "0 < screen_w g" "0 < screen_h g"
  shows "pointer (fold (handle_byte g) bs m) = fold (effect (screen_w g) (screen_h g)) (packets_of bs) (pointer m)"
  using assms(1)
proof (induction bs arbitrary: m rule: packets_of.induct)
  case (2 a bs)
  show ?case
  proof (cases "a AND 0x08 = 0")
    case True
    then have "handle_byte g a m = m" using 2(3) by (simp add: handle_byte_def)
    then show ?thesis using True 2 by simp
  next
    case False
    show ?thesis
    proof (cases bs)
      case Nil
      then show ?thesis using handle_partial(1) [OF 2(3) False] False by simp
    next
      case (Cons b bs')
      show ?thesis
      proof (cases bs')
        case Nil
        then show ?thesis using handle_partial(2) [OF 2(3) False] False Cons by simp
      next
        case (Cons c rest)
        note three = handle_three [OF 2(3) False assms(2,3), where b = b and c = c]
        have "pointer (fold (handle_byte g) rest (handle_byte g c (handle_byte g b (handle_byte g a m)))) =
            fold (effect (screen_w g) (screen_h g)) (packets_of rest) (pointer (handle_byte g c (handle_byte g b (handle_byte g a m))))"
          by (rule 2(2) [OF False \<open>bs = b # bs'\<close> Cons three(1)])
        then show ?thesis using False Cons \<open>bs = b # bs'\<close> three(2) by simp
      qed
    qed
  qed
qed simp

lemma effect_on_screen:
  assumes "0 < w" "0 < h" "0 \<le> x \<and> x < w \<and> 0 \<le> y \<and> y < h" "fold (effect w h) ps (x, y, btn, n) = (x', y', btn', n')"
  shows "0 \<le> x' \<and> x' < w \<and> 0 \<le> y' \<and> y' < h"
  using assms(3,4)
proof (induction ps arbitrary: x y btn n)
  case (Cons p ps)
  obtain a b c where p: "p = (a, b, c)" by (cases p)
  obtain x1 y1 btn1 n1 where q: "effect w h p (x, y, btn, n) = (x1, y1, btn1, n1)" by (rule prod_cases4)
  have "0 \<le> x1 \<and> x1 < w \<and> 0 \<le> y1 \<and> y1 < h"
    using q Cons.prems(1) assms(1,2) by (auto simp: p clamp_def split: if_splits)
  then show ?case using Cons.IH Cons.prems(2) q by simp
qed simp

text \<open>The controller hands over the bytes \<open>bs\<close>, one per interrupt.\<close>

inductive delivers :: "'hw ports \<Rightarrow> 'hw \<Rightarrow> u8 list \<Rightarrow> bool" for P where
  "delivers P h []"
| "\<lbrakk>inb P PS2_STATUS h = (v, h'); v AND ST_OUT_FULL \<noteq> 0; inb P PS2_DATA h' = (b, h''); delivers P h'' bs\<rbrakk> \<Longrightarrow>
   delivers P h (b # bs)"

inductive_cases delivers_ConsE: "delivers P h (b # bs)"

lemma handle_byte_hw: "mouse_hw (handle_byte g b m) = mouse_hw m"
  by (simp add: handle_byte_def handle_packet_def Let_def)

lemma handle_byte_commute: "handle_byte g b (m\<lparr>mouse_hw := h\<rparr>) = (handle_byte g b m)\<lparr>mouse_hw := h\<rparr>"
  by (simp add: handle_byte_def handle_packet_def Let_def)

lemma irqs_handle_bytes:
  "delivers P (mouse_hw m) bs \<Longrightarrow> \<exists>h. (mouse_handle_irq P g ^^ length bs) m = (fold (handle_byte g) bs m)\<lparr>mouse_hw := h\<rparr>"
proof (induction bs arbitrary: m)
  case Nil
  show ?case by (rule exI [of _ "mouse_hw m"]) simp
next
  case (Cons b bs)
  from Cons.prems obtain v h' h'' where d: "inb P PS2_STATUS (mouse_hw m) = (v, h')" "v AND ST_OUT_FULL \<noteq> 0"
      "inb P PS2_DATA h' = (b, h'')" "delivers P h'' bs" by (rule delivers_ConsE)
  then have one: "mouse_handle_irq P g m = (handle_byte g b m)\<lparr>mouse_hw := h''\<rparr>"
    by (simp add: mouse_handle_irq_def handle_byte_commute)
  have "fold (handle_byte g) bs (t\<lparr>mouse_hw := k\<rparr>) = (fold (handle_byte g) bs t)\<lparr>mouse_hw := k\<rparr>" for t and k :: 'a
    by (induction bs arbitrary: t) (simp_all add: handle_byte_commute)
  then show ?case using Cons.IH [of "(handle_byte g b m)\<lparr>mouse_hw := h''\<rparr>"] d(4) one
    by (auto simp: funpow_Suc_right simp del: funpow.simps)
qed

text \<open>
  C31. The mouse driver decodes the protocol exactly: when the controller hands over any stream of bytes, one
  per interrupt, to a driver that is between two packets, position, buttons and packet count are
  those of the packets in the stream, in order: bytes out of step are skipped, packets with an overflow
  bit are discarded, the movements are nine-bit signed numbers with the vertical one turned
  over, and after every packet the pointer is held inside the screen, which it never leaves.
\<close>

theorem mouse_stream_correct:
  assumes "in_step m" "0 < screen_w g" "0 < screen_h g" "delivers P (mouse_hw m) bs"
    and "0 \<le> mx m \<and> mx m < screen_w g \<and> 0 \<le> my m \<and> my m < screen_h g"
  defines "t \<equiv> (mouse_handle_irq P g ^^ length bs) m"
  shows "pointer t = fold (effect (screen_w g) (screen_h g)) (packets_of bs) (pointer m) \<and>
    0 \<le> mx t \<and> mx t < screen_w g \<and> 0 \<le> my t \<and> my t < screen_h g"
proof -
  obtain h where "t = (fold (handle_byte g) bs m)\<lparr>mouse_hw := h\<rparr>"
    using irqs_handle_bytes [OF assms(4)] t_def by metis
  then have "pointer t = fold (effect (screen_w g) (screen_h g)) (packets_of bs) (pointer m)"
    using stream_effect [OF assms(1-3), of bs] by simp
  then show ?thesis using effect_on_screen [OF assms(2,3,5)] by metis
qed

text \<open>A controller with a queue of bytes.\<close>

definition queue_ports :: "u8 list ports" where
  "queue_ports = \<lparr>p_inb = (\<lambda>port q. if port = PS2_STATUS then (if q = [] then 0 else 1, q) else (hd q, tl q)),
     p_outb = (\<lambda>port v q. q), p_inw = (\<lambda>port q. (0, q)), p_outw = (\<lambda>port v q. q)\<rparr>"

lemma queue_delivers: "delivers queue_ports bs bs"
proof (induction bs)
  case (Cons b bs)
  show ?case
    by (rule delivers.intros(2) [where v = 1 and h' = "b # bs" and h'' = bs])
      (use Cons in \<open>simp_all add: inb_def PS2_STATUS_def PS2_DATA_def ST_OUT_FULL_def queue_ports_def\<close>)
qed (rule delivers.intros)

definition mouse_example :: "u8 list mouse_driver" where
  "mouse_example = (mouse_boot [0x00, 0x18, 0xFB, 0x05, 0x48, 0x10, 0x10, 0x29, 0x40, 0xF0])\<lparr>mx := 32, my := 24, mready := True\<rparr>"

theorem mouse_stream_correct_witness:
  "pointer ((mouse_handle_irq queue_ports gfx_example ^^ 10) mouse_example) = (63, 35, 1, 2)"
proof -
  have s: "screen_w gfx_example = 64" "screen_h gfx_example = 48"
    by (simp_all add: screen_w_def screen_h_def gfx_ready_def gfx_width_def gfx_height_def gfx_example_def)
  have m: "in_step mouse_example" "delivers queue_ports (mouse_hw mouse_example) (mouse_hw mouse_example)"
      "0 \<le> mx mouse_example \<and> mx mouse_example < screen_w gfx_example \<and> 0 \<le> my mouse_example \<and> my mouse_example < screen_h gfx_example"
    by (simp_all add: mouse_example_def mouse_boot_def queue_delivers s)
  have "packets_of (mouse_hw mouse_example) = [(0x18, 0xFB, 0x05), (0x48, 0x10, 0x10), (0x29, 0x40, 0xF0)]"
    by (simp add: mouse_example_def mouse_boot_def)
  moreover have "length (mouse_hw mouse_example) = 10" "pointer mouse_example = (32, 24, 0, 0)"
    by (simp_all add: mouse_example_def mouse_boot_def)
  ultimately have "pointer ((mouse_handle_irq queue_ports gfx_example ^^ 10) mouse_example) =
      fold (effect 64 48) [(0x18, 0xFB, 0x05), (0x48, 0x10, 0x10), (0x29, 0x40, 0xF0)] (32, 24, 0, 0)"
    using mouse_stream_correct [OF m(1) _ _ m(2,3), unfolded s] by (simp only: simp_thms zero_less_numeral)
  also have "\<dots> = (63, 35, 1, 2)" by (simp add: nine_bit_def clamp_def bit_numeral_rec)
  finally show ?thesis .
qed

end
