(* ===== verification/Rtc.thy ===== *)
theory Rtc
  imports Ports
begin

text \<open>
  The real-time clock, \<^verbatim>\<open>kernel/drivers/rtc.c\<close>. The clock is read until two readings agree, which a chip that
  keeps changing would prevent for ever: the loop is a partial function.
\<close>

definition CMOS_ADDR :: u16 where "CMOS_ADDR = 0x70"
definition CMOS_DATA :: u16 where "CMOS_DATA = 0x71"

record rtc_time =
  second :: u8
  minute :: u8
  hour :: u8
  day :: u8
  month :: u8
  year :: u16

definition cmos_read :: "'hw ports \<Rightarrow> u8 \<Rightarrow> 'hw \<Rightarrow> u8 \<times> 'hw" where
  "cmos_read P reg h = inb P CMOS_DATA (outb P CMOS_ADDR (0x80 OR reg) h)"

definition update_in_progress :: "'hw ports \<Rightarrow> 'hw \<Rightarrow> bool \<times> 'hw" where
  "update_in_progress P h = (let (v, h) = cmos_read P 0x0A h in (v AND 0x80 \<noteq> 0, h))"

fun wait_update :: "'hw ports \<Rightarrow> nat \<Rightarrow> 'hw \<Rightarrow> 'hw" where
  "wait_update P 0 h = h"
| "wait_update P (Suc n) h = (let (u, h) = update_in_progress P h in if u then wait_update P n h else h)"

definition read_raw :: "'hw ports \<Rightarrow> 'hw \<Rightarrow> rtc_time \<times> 'hw" where
  "read_raw P h =
     (let h = wait_update P 100000 h;
          (sec, h) = cmos_read P 0x00 h;
          (mi, h) = cmos_read P 0x02 h;
          (hr, h) = cmos_read P 0x04 h;
          (dy, h) = cmos_read P 0x07 h;
          (mo, h) = cmos_read P 0x08 h;
          (yr, h) = cmos_read P 0x09 h
      in (\<lparr>second = sec, minute = mi, hour = hr, day = dy, month = mo, year = ucast yr\<rparr>, h))"

definition bcd_to_bin :: "u8 \<Rightarrow> u8" where
  "bcd_to_bin v = (v AND 0x0F) + drop_bit 4 v * 10"

partial_function (option) read_stable :: "'hw ports \<Rightarrow> rtc_time \<Rightarrow> 'hw \<Rightarrow> (rtc_time \<times> 'hw) option" where
  "read_stable P a h =
     (let (b, h) = read_raw P h in
      if second a \<noteq> second b \<or> minute a \<noteq> minute b \<or> hour a \<noteq> hour b \<or>
         day a \<noteq> day b \<or> month a \<noteq> month b \<or> year a \<noteq> year b
      then read_stable P b h else Some (b, h))"

text \<open>From the raw registers and status register B to a date and a 24-hour time.\<close>

definition rtc_decode :: "u8 \<Rightarrow> rtc_time \<Rightarrow> rtc_time" where
  "rtc_decode regB b =
     (let pm = hour b AND 0x80;
          b = b\<lparr>hour := hour b AND 0x7F\<rparr>;
          b = (if regB AND 0x04 = 0
               then b\<lparr>second := bcd_to_bin (second b), minute := bcd_to_bin (minute b), hour := bcd_to_bin (hour b),
                      day := bcd_to_bin (day b), month := bcd_to_bin (month b), year := ucast (bcd_to_bin (ucast (year b)))\<rparr>
               else b);
          b = (if regB AND 0x02 = 0 \<and> pm \<noteq> 0 then b\<lparr>hour := hour b mod 12 + 12\<rparr>
               else if regB AND 0x02 = 0 \<and> hour b = 12 then b\<lparr>hour := 0\<rparr>
               else b)
      in b\<lparr>year := year b + 2000\<rparr>)"

definition rtc_read :: "'hw ports \<Rightarrow> 'hw \<Rightarrow> (rtc_time \<times> 'hw) option" where
  "rtc_read P h =
     (let (b, h) = read_raw P h in
      map_option (\<lambda>(b, h). let (regB, h) = cmos_read P 0x0B h in (rtc_decode regB b, h)) (read_stable P b h))"

section \<open>What the chip stores\<close>

text \<open>
  A date and time as the chip's registers hold it: in binary or as two decimal digits, with hours 0 to 23 or 1
  to 12 and the afternoon in bit 7.
\<close>

definition to_bcd :: "nat \<Rightarrow> nat" where
  "to_bcd n = 16 * (n div 10) + n mod 10"

definition reg_value :: "u8 \<Rightarrow> nat \<Rightarrow> u8" where
  "reg_value regB n = of_nat (if bit regB 2 then n else to_bcd n)"

definition hour_reg :: "u8 \<Rightarrow> nat \<Rightarrow> u8" where
  "hour_reg regB n =
     (if bit regB 1 then reg_value regB n
      else reg_value regB (if n mod 12 = 0 then 12 else n mod 12) OR (if n < 12 then 0 else 0x80))"

definition raw_of :: "u8 \<Rightarrow> rtc_time \<Rightarrow> rtc_time" where
  "raw_of regB t =
     \<lparr>second = reg_value regB (unat (second t)), minute = reg_value regB (unat (minute t)),
      hour = hour_reg regB (unat (hour t)), day = reg_value regB (unat (day t)),
      month = reg_value regB (unat (month t)), year = ucast (reg_value regB (unat (year t) - 2000))\<rparr>"

definition civil :: "rtc_time \<Rightarrow> bool" where
  "civil t \<longleftrightarrow> unat (second t) < 60 \<and> unat (minute t) < 60 \<and> unat (hour t) < 24 \<and> unat (day t) < 100 \<and>
     unat (month t) < 100 \<and> 2000 \<le> unat (year t) \<and> unat (year t) < 2100"

lemma and_flag: "(x::u8) AND 2 ^ n = 0 \<longleftrightarrow> \<not> bit x n"
  by (rule and_exp_eq_0_iff_not_bit)

lemma flags: "(x::u8) AND 0x04 = 0 \<longleftrightarrow> \<not> bit x 2" "x AND 0x02 = 0 \<longleftrightarrow> \<not> bit x 1" "x AND 0x80 = 0 \<longleftrightarrow> \<not> bit x 7"
  using and_flag [of x 2] and_flag [of x 1] and_flag [of x 7] by simp_all

lemma bcd_round: "n < 100 \<Longrightarrow> bcd_to_bin (of_nat (to_bcd n)) = of_nat n"
proof -
  assume n: "n < 100"
  then have lt: "to_bcd n < 256" "n div 10 < 10" by (simp_all add: to_bcd_def)
  then have u: "unat (of_nat (to_bcd n) :: u8) = to_bcd n" by (simp add: unat_of_nat)
  have "(0x0F :: u8) = mask 4" by (simp add: mask_eq_exp_minus_1)
  then have "unat (of_nat (to_bcd n) AND 0x0F :: u8) = to_bcd n mod 16"
    by (simp only: u unsigned_take_bit_eq flip: take_bit_eq_mask) (simp add: take_bit_eq_mod)
  moreover have "to_bcd n mod 16 = n mod 10" by (simp add: to_bcd_def)
  moreover have "unat (drop_bit 4 (of_nat (to_bcd n) :: u8)) = to_bcd n div 16"
    by (simp add: drop_bit_eq_div unat_div u)
  moreover have "to_bcd n div 16 = n div 10" using lt(2) by (simp add: to_bcd_def)
  ultimately have "unat (bcd_to_bin (of_nat (to_bcd n))) = n"
    using n by (simp add: bcd_to_bin_def unat_word_ariths)
  then show ?thesis using n by (simp add: word_unat_eq_iff unat_of_nat)
qed

definition decode_hour :: "u8 \<Rightarrow> u8 \<Rightarrow> u8" where
  "decode_hour regB v =
     (let hr = (if bit regB 2 then v AND 0x7F else bcd_to_bin (v AND 0x7F)) in
      if \<not> bit regB 1 \<and> bit v 7 then hr mod 12 + 12 else if \<not> bit regB 1 \<and> hr = 12 then 0 else hr)"

lemma hour_round:
  assumes "n < 24"
  shows "decode_hour regB (hour_reg regB n) = of_nat n"
proof -
  have "list_all (\<lambda>n. decode_hour regB (hour_reg regB n) = of_nat n) [0..<24]"
    by (cases "bit regB 1"; cases "bit regB 2")
      (simp_all add: decode_hour_def hour_reg_def reg_value_def to_bcd_def bcd_to_bin_def bit_numeral_rec upt_conv_Cons)
  then show ?thesis using assms by (simp add: list_all_iff)
qed

lemma reg_round: "n < 100 \<Longrightarrow> (if bit regB 2 then reg_value regB n else bcd_to_bin (reg_value regB n)) = of_nat n"
  by (simp add: reg_value_def bcd_round)

lemma rtc_decode_fields:
  "second (rtc_decode regB b) = (if bit regB 2 then second b else bcd_to_bin (second b))"
  "minute (rtc_decode regB b) = (if bit regB 2 then minute b else bcd_to_bin (minute b))"
  "hour (rtc_decode regB b) = decode_hour regB (hour b)"
  "day (rtc_decode regB b) = (if bit regB 2 then day b else bcd_to_bin (day b))"
  "month (rtc_decode regB b) = (if bit regB 2 then month b else bcd_to_bin (month b))"
  "year (rtc_decode regB b) = (if bit regB 2 then year b else ucast (bcd_to_bin (ucast (year b)))) + 2000"
  by (simp_all add: rtc_decode_def decode_hour_def flags Let_def)

lemma rtc_decode_round:
  assumes "civil t"
  shows "rtc_decode regB (raw_of regB t) = t"
proof (rule rtc_time.equality)
  note c = assms [unfolded civil_def]
  have uu: "ucast (ucast (v::u8) :: u16) = v" for v by (simp add: unsigned_ucast_eq take_bit_word_eq_self)
  define n where "n = unat (year t) - 2000"
  have n: "n < 100" "unat (year t) = n + 2000" using c unfolding n_def by linarith+
  have y: "ucast (of_nat n :: u8) + 2000 = year t"
  proof -
    have "unat (of_nat n :: u8) = n" using n by (simp add: unat_of_nat)
    then have "unat (ucast (of_nat n :: u8) + 2000 :: u16) = unat (year t)"
      using n by (simp add: unat_word_ariths unsigned_ucast_eq take_bit_nat_eq_self)
    then show ?thesis by (simp add: word_unat_eq_iff)
  qed
  show "second (rtc_decode regB (raw_of regB t)) = second t"
    using c by (simp only: rtc_decode_fields raw_of_def rtc_time.simps) (simp add: reg_round)
  show "minute (rtc_decode regB (raw_of regB t)) = minute t"
    using c by (simp only: rtc_decode_fields raw_of_def rtc_time.simps) (simp add: reg_round)
  show "hour (rtc_decode regB (raw_of regB t)) = hour t"
    using c by (simp only: rtc_decode_fields raw_of_def rtc_time.simps) (simp add: hour_round)
  show "day (rtc_decode regB (raw_of regB t)) = day t"
    using c by (simp only: rtc_decode_fields raw_of_def rtc_time.simps) (simp add: reg_round)
  show "month (rtc_decode regB (raw_of regB t)) = month t"
    using c by (simp only: rtc_decode_fields raw_of_def rtc_time.simps) (simp add: reg_round)
  have "year (rtc_decode regB (raw_of regB t)) =
      ucast (if bit regB 2 then reg_value regB n else bcd_to_bin (reg_value regB n)) + 2000"
    by (simp add: rtc_decode_fields raw_of_def uu n_def)
  also have "\<dots> = year t" using y reg_round [OF n(1), of regB] by simp
  finally show "year (rtc_decode regB (raw_of regB t)) = year t" .
qed simp

section \<open>Reading\<close>

text \<open>A chip at rest: reading a register gives its value and changes none, and no update is going on.\<close>

definition at_rest :: "'hw ports \<Rightarrow> ('hw \<Rightarrow> bool) \<Rightarrow> (u8 \<Rightarrow> u8) \<Rightarrow> bool" where
  "at_rest P G f \<longleftrightarrow> \<not> bit (f 0x0A) 7 \<and> (\<forall>h reg. G h \<longrightarrow> fst (cmos_read P reg h) = f reg \<and> G (snd (cmos_read P reg h)))"

abbreviation registers :: "(u8 \<Rightarrow> u8) \<Rightarrow> rtc_time" where
  "registers f \<equiv> \<lparr>second = f 0x00, minute = f 0x02, hour = f 0x04, day = f 0x07, month = f 0x08, year = ucast (f 0x09)\<rparr>"

lemma cmos_read_rest: "at_rest P G f \<Longrightarrow> G h \<Longrightarrow> \<exists>h'. cmos_read P reg h = (f reg, h') \<and> G h'"
  unfolding at_rest_def by (metis prod.collapse)

lemma read_raw_rest:
  assumes "at_rest P G f" "G h"
  shows "\<exists>h'. read_raw P h = (registers f, h') \<and> G h'"
proof -
  note rd = cmos_read_rest [OF assms(1)]
  obtain k where k: "cmos_read P 0x0A h = (f 0x0A, k)" "G k" using rd [OF assms(2)] by blast
  have w: "wait_update P (Suc n) h = k" for n
    using k assms(1) by (simp add: update_in_progress_def at_rest_def flags)
  have "wait_update P 100000 h = k" using w [of 99999] by (simp del: wait_update.simps)
  moreover obtain k1 where "cmos_read P 0x00 k = (f 0x00, k1)" "G k1" using rd [OF k(2)] by blast
  moreover obtain k2 where "cmos_read P 0x02 k1 = (f 0x02, k2)" "G k2" using rd calculation(3) by blast
  moreover obtain k3 where "cmos_read P 0x04 k2 = (f 0x04, k3)" "G k3" using rd calculation(5) by blast
  moreover obtain k4 where "cmos_read P 0x07 k3 = (f 0x07, k4)" "G k4" using rd calculation(7) by blast
  moreover obtain k5 where "cmos_read P 0x08 k4 = (f 0x08, k5)" "G k5" using rd calculation(9) by blast
  moreover obtain k6 where "cmos_read P 0x09 k5 = (f 0x09, k6)" "G k6" using rd calculation(11) by blast
  ultimately show ?thesis by (simp add: read_raw_def)
qed

lemma rtc_read_rest:
  assumes "at_rest P G f" "G h"
  shows "\<exists>h'. rtc_read P h = Some (rtc_decode (f 0x0B) (registers f), h') \<and> G h'"
proof -
  obtain k where k: "read_raw P h = (registers f, k)" "G k" using read_raw_rest [OF assms] by blast
  obtain l where l: "read_raw P k = (registers f, l)" "G l" using read_raw_rest [OF assms(1) k(2)] by blast
  obtain m where m: "cmos_read P 0x0B l = (f 0x0B, m)" "G m" using cmos_read_rest [OF assms(1) l(2)] by blast
  have "read_stable P (registers f) k = Some (registers f, l)"
    by (subst read_stable.simps) (simp add: l)
  then show ?thesis using k m by (simp add: rtc_read_def)
qed

text \<open>
  C32. Reading the clock ends and gives the right date and time: when the chip, at rest, holds a civil date
  and time between 2000 and 2099 in its registers, in any of the four formats status register B
  selects (binary or decimal digits, 24 or 12 hours with midnight and noon as 12), \<open>rtc_read\<close> returns exactly that date
  and time.
\<close>

theorem rtc_read_correct:
  assumes "at_rest P G f" "G h" "civil t" and "registers f = raw_of (f 0x0B) t"
  shows "\<exists>h'. rtc_read P h = Some (t, h') \<and> G h'"
  using rtc_read_rest [OF assms(1,2)] rtc_decode_round [OF assms(3)] assms(4) by metis

text \<open>A chip with an address latch, at 11:45:09 pm in 12-hour decimal format.\<close>

definition cmos_example :: "u8 \<Rightarrow> u8" where
  "cmos_example = (\<lambda>_. 0)(0x00 := 0x09, 0x02 := 0x45, 0x04 := 0x91, 0x07 := 0x28, 0x08 := 0x02, 0x09 := 0x24)"

definition cmos_ports :: "u8 ports" where
  "cmos_ports = \<lparr>p_inb = (\<lambda>port a. (cmos_example (a AND 0x7F), a)), p_outb = (\<lambda>port v a. v), p_inw = (\<lambda>port a. (0, a)),
     p_outw = (\<lambda>port v a. a)\<rparr>"

lemma cmos_example_reads: "cmos_read cmos_ports reg a = (cmos_example (reg AND 0x7F), 0x80 OR reg)"
proof -
  have "(0x80 OR reg) AND 0x7F = (reg AND 0x7F :: u8)" by (simp add: bit.conj_disj_distrib2)
  then show ?thesis by (simp add: cmos_read_def inb_def outb_def cmos_ports_def)
qed

theorem rtc_read_correct_witness:
  "\<exists>h'. rtc_read cmos_ports 0 =
     Some (\<lparr>second = 9, minute = 45, hour = 23, day = 28, month = 2, year = 2024\<rparr>, h')"
proof -
  let ?t = "\<lparr>second = 9, minute = 45, hour = 23, day = 28, month = 2, year = 2024\<rparr>"
  let ?f = "\<lambda>reg. cmos_example (reg AND 0x7F)"
  have "at_rest cmos_ports (\<lambda>_. True) ?f" by (simp add: at_rest_def cmos_example_reads) (simp add: cmos_example_def)
  moreover have "civil ?t" by (simp add: civil_def)
  moreover have "registers ?f = raw_of (?f 0x0B) ?t"
    by (simp add: cmos_example_def raw_of_def reg_value_def hour_reg_def to_bcd_def)
  ultimately show ?thesis using rtc_read_correct [of cmos_ports "\<lambda>_. True" ?f 0 ?t] by blast
qed

end
