(* ===== verification/VgaSpec.thy ===== *)
theory VgaSpec
  imports Console Canvas
begin

text \<open>
  The text screen (\<^verbatim>\<open>kernel/drivers/vga.c\<close>) refines a terminal: 25 lines of 80 cells and a cursor on them. Output
  is described on lists of lines, where scrolling drops the first line and adds a blank one.
\<close>

section \<open>A terminal\<close>

record terminal =
  tm_lines :: "u16 list list"
  tm_row :: nat
  tm_col :: nat

definition blank :: u16 where
  "blank = vga_entry CHR '' ''"

definition blank_line :: "u16 list" where
  "blank_line = replicate 80 blank"

definition tm_put :: "nat \<Rightarrow> u16 \<Rightarrow> terminal \<Rightarrow> terminal" where
  "tm_put c v t = t\<lparr>tm_lines := (tm_lines t)[tm_row t := (tm_lines t ! tm_row t)[c := v]]\<rparr>"

definition tm_newline :: "terminal \<Rightarrow> terminal" where
  "tm_newline t =
     (if tm_row t = 24 then t\<lparr>tm_lines := tl (tm_lines t) @ [blank_line], tm_col := 0\<rparr>
      else t\<lparr>tm_row := tm_row t + 1, tm_col := 0\<rparr>)"

definition tm_putc :: "char \<Rightarrow> terminal \<Rightarrow> terminal" where
  "tm_putc ch t =
     (if ch = CHR 0x0A then tm_newline t
      else if ch = CHR 0x0D then t\<lparr>tm_col := 0\<rparr>
      else if ch = CHR 0x08 then
        (if tm_col t > 0 then (tm_put (tm_col t - 1) blank t)\<lparr>tm_col := tm_col t - 1\<rparr> else t)
      else if ch = CHR 0x09 then
        (if tm_col t < 76 then t\<lparr>tm_col := 4 * (tm_col t div 4 + 1)\<rparr> else tm_newline t)
      else if tm_col t < 79 then (tm_put (tm_col t) (vga_entry ch) t)\<lparr>tm_col := tm_col t + 1\<rparr>
      else tm_newline (tm_put (tm_col t) (vga_entry ch) t))"

definition screen_lines :: "('hw, 'a) vga_state_scheme \<Rightarrow> u16 list list" where
  "screen_lines s = map (\<lambda>r. map (\<lambda>c. vga_get (int r * 80 + int c) s) [0..<80]) [0..<25]"

definition terminal_of :: "('hw, 'a) vga_state_scheme \<Rightarrow> terminal" where
  "terminal_of s = \<lparr>tm_lines = screen_lines s, tm_row = nat (cursor_row s), tm_col = nat (cursor_col s)\<rparr>"

text \<open>The cursor is on the screen and output goes to the text screen.\<close>

definition vga_ok :: "('hw, 'a) vga_state_scheme \<Rightarrow> bool" where
  "vga_ok s \<longleftrightarrow> vga_ready s \<and> \<not> fbcon_active s \<and>
     0 \<le> cursor_row s \<and> cursor_row s < 25 \<and> 0 \<le> cursor_col s \<and> cursor_col s < 80"

text \<open>Nothing has changed but the memory of the screen, the cursor and the hardware.\<close>

definition vga_mem :: "u64 set" where
  "vga_mem = {0xB8000..<0xB8000 + 4000}"

definition only_screen :: "('hw, 'a) vga_state_scheme \<Rightarrow> ('hw, 'a) vga_state_scheme \<Rightarrow> bool" where
  "only_screen s s' \<longleftrightarrow> (\<forall>a. a \<notin> vga_mem \<longrightarrow> ram s' a = ram s a) \<and>
     s' = s\<lparr>ram := ram s', cursor_row := cursor_row s', cursor_col := cursor_col s', vga_hw := vga_hw s'\<rparr>"

lemma only_screen_refl [simp]: "only_screen s s"
  by (simp add: only_screen_def)

lemma only_screen_trans: "only_screen s s' \<Longrightarrow> only_screen s' s'' \<Longrightarrow> only_screen s s''"
  by (cases s; cases s'; cases s'') (auto simp: only_screen_def)

lemma only_screen_fields: "only_screen s s' \<Longrightarrow> fbcon_active s' = fbcon_active s \<and> vga_ready s' = vga_ready s"
  by (cases s; cases s') (auto simp: only_screen_def fbcon_active_def)

lemma only_screen_upd [simp]:
  "only_screen s (s'\<lparr>cursor_row := r\<rparr>) = only_screen s s'" "only_screen s (s'\<lparr>cursor_col := r\<rparr>) = only_screen s s'"
  "only_screen s (s'\<lparr>vga_hw := h\<rparr>) = only_screen s s'"
  by (cases s; cases s'; auto simp: only_screen_def)+

section \<open>Cells in memory\<close>

lemma cell_addr:
  assumes "0 \<le> i" "i < 2000"
  shows "kaddr (VGA_MEM + 2 * of_int i) = 0xB8000 + 2 * of_int i" "unat (0xB8000 + 2 * of_int i :: u64) = 0xB8000 + 2 * nat i"
proof -
  have i: "(of_int i :: u64) = of_nat (nat i)" using assms(1) by simp
  have "nat i < 2000" using assms by simp
  then have u: "unat (2 * of_int i :: u64) = 2 * nat i"
    unfolding i by (simp add: unat_word_ariths unat_of_nat take_bit_nat_eq_self_iff mod_less)
  show un: "unat (0xB8000 + 2 * of_int i :: u64) = 0xB8000 + 2 * nat i"
    using u assms by (subst unat_add_nowrap) simp_all
  have "VGA_MEM + 2 * of_int i = phys_to_virt (0xB8000 + 2 * of_int i)" by (simp add: VGA_MEM_def phys_to_virt_def)
  then show "kaddr (VGA_MEM + 2 * of_int i) = 0xB8000 + 2 * of_int i"
    using un assms by (simp add: kaddr_phys_to_virt)
qed

lemma odd_even: "Suc (2 * a) \<noteq> 2 * (b :: nat)"
  by presburger

lemma cell_bytes:
  assumes "0 \<le> i" "i < 2000" "0 \<le> j" "j < 2000"
  shows "(0xB8000 + 2 * of_int i :: u64) = 0xB8000 + 2 * of_int j \<longleftrightarrow> i = j"
    "(0xB8000 + 2 * of_int i + 1 :: u64) = 0xB8000 + 2 * of_int j + 1 \<longleftrightarrow> i = j"
    "(0xB8000 + 2 * of_int i + 1 :: u64) \<noteq> 0xB8000 + 2 * of_int j"
    "(0xB8000 + 2 * of_int i :: u64) \<in> vga_mem" "(0xB8000 + 2 * of_int i + 1 :: u64) \<in> vga_mem"
proof -
  note i = cell_addr(2) [OF assms(1,2)] and j = cell_addr(2) [OF assms(3,4)]
  have i1: "unat (0xB8000 + 2 * of_int i + 1 :: u64) = 0xB8000 + 2 * nat i + 1" using i assms by (subst unat_add_nowrap) simp_all
  have j1: "unat (0xB8000 + 2 * of_int j + 1 :: u64) = 0xB8000 + 2 * nat j + 1" using j assms by (subst unat_add_nowrap) simp_all
  show eq: "(0xB8000 + 2 * of_int i :: u64) = 0xB8000 + 2 * of_int j \<longleftrightarrow> i = j"
    unfolding word_unat_eq_iff i j using assms by auto
  then show "(0xB8000 + 2 * of_int i + 1 :: u64) = 0xB8000 + 2 * of_int j + 1 \<longleftrightarrow> i = j" by simp
  show "(0xB8000 + 2 * of_int i + 1 :: u64) \<noteq> 0xB8000 + 2 * of_int j"
    unfolding word_unat_eq_iff i1 j using odd_even [of "nat i" "nat j"] by simp
  show "(0xB8000 + 2 * of_int i :: u64) \<in> vga_mem" "(0xB8000 + 2 * of_int i + 1 :: u64) \<in> vga_mem"
    using assms i i1 by (simp_all add: vga_mem_def word_le_nat_alt word_less_nat_alt)
qed

lemma halves: "ucast (ucast v :: u8) OR push_bit 8 (ucast (ucast (drop_bit 8 v) :: u8)) = (v :: u16)"
  by (rule bit_word_eqI) (auto simp: bit_simps)

lemma vga_get_set:
  assumes "0 \<le> i" "i < 2000" "0 \<le> j" "j < 2000"
  shows "vga_get j (vga_set i v s) = (if j = i then v else vga_get j s)"
  using cell_bytes [OF assms] cell_bytes [OF assms(3,4,1,2)]
  by (auto simp: vga_get_def vga_set_def Let_def cell_addr(1) [OF assms(1,2)] cell_addr(1) [OF assms(3,4)] load16_def halves)

lemma vga_set_only: "\<lbrakk>0 \<le> i; i < 2000\<rbrakk> \<Longrightarrow> only_screen s0 s \<Longrightarrow> only_screen s0 (vga_set i v s)"
  using cell_bytes(4,5) [of i i]
  by (cases s0; cases s) (auto simp: only_screen_def vga_set_def Let_def cell_addr(1))

lemma vga_set_cursor [simp]: "cursor_row (vga_set i v s) = cursor_row s" "cursor_col (vga_set i v s) = cursor_col s"
  by (simp_all add: vga_set_def Let_def)

lemma vga_get_cursor [simp]:
  "vga_get i (s\<lparr>cursor_row := r\<rparr>) = vga_get i s" "vga_get i (s\<lparr>cursor_col := r\<rparr>) = vga_get i s" "vga_get i (s\<lparr>vga_hw := h\<rparr>) = vga_get i s"
  by (simp_all add: vga_get_def)

lemma cell_index: "\<lbrakk>0 \<le> x; x < 80\<rbrakk> \<Longrightarrow> (y * 80 + x) div 80 = y \<and> (y * 80 + x) mod 80 = (x :: int)"
  by simp

text \<open>The text screen is a canvas.\<close>

interpretation vga: canvas
  "\<lambda>s. only_screen s0 s \<and> cursor_row s = cursor_row s0 \<and> cursor_col s = cursor_col s0 \<and> vga_hw s = vga_hw s0"
  "\<lambda>x y. 0 \<le> x \<and> x < 80 \<and> 0 \<le> y \<and> y < 25"
  "\<lambda>s x y. vga_get (y * 80 + x) s" "\<lambda>x y. vga_set (y * 80 + x)"
  for s0 :: "('hw, 'a) vga_state_scheme"
proof unfold_locales
  fix s :: "('hw, 'a) vga_state_scheme" and x y x' y' :: int and c :: u16
  assume i: "0 \<le> x \<and> x < 80 \<and> 0 \<le> y \<and> y < 25"
  assume "only_screen s0 s \<and> cursor_row s = cursor_row s0 \<and> cursor_col s = cursor_col s0 \<and> vga_hw s = vga_hw s0"
  then show "only_screen s0 (vga_set (y * 80 + x) c s) \<and> cursor_row (vga_set (y * 80 + x) c s) = cursor_row s0 \<and>
      cursor_col (vga_set (y * 80 + x) c s) = cursor_col s0 \<and> vga_hw (vga_set (y * 80 + x) c s) = vga_hw s0"
    using i by (auto intro!: vga_set_only) (simp add: vga_set_def Let_def)
  assume j: "0 \<le> x' \<and> x' < 80 \<and> 0 \<le> y' \<and> y' < 25"
  then have "0 \<le> y' * 80 + x'" "y' * 80 + x' < 2000" by auto
  moreover have "y' * 80 + x' = y * 80 + x \<longleftrightarrow> x' = x \<and> y' = y"
    using i j cell_index [of x y] cell_index [of x' y'] by metis
  moreover have "0 \<le> y * 80 + x" "y * 80 + x < 2000" using i by auto
  ultimately show "vga_get (y' * 80 + x') (vga_set (y * 80 + x) c s) = (if x' = x \<and> y' = y then c else vga_get (y' * 80 + x') s)"
    by (simp add: vga_get_set)
qed

section \<open>The screen as lines\<close>

lemma screen_shape: "length (screen_lines s) = 25" "r < 25 \<Longrightarrow> length (screen_lines s ! r) = 80"
  by (simp_all add: screen_lines_def)

lemma screen_nth: "\<lbrakk>r < 25; c < 80\<rbrakk> \<Longrightarrow> screen_lines s ! r ! c = vga_get (int r * 80 + int c) s"
  by (simp add: screen_lines_def)

lemma screen_eqI:
  assumes "length ls = 25" "\<And>r. r < 25 \<Longrightarrow> length (ls ! r) = 80"
    and "\<And>r c. \<lbrakk>r < 25; c < 80\<rbrakk> \<Longrightarrow> vga_get (int r * 80 + int c) s = ls ! r ! c"
  shows "screen_lines s = ls"
proof (rule nth_equalityI)
  show "screen_lines s ! r = ls ! r" if "r < length (screen_lines s)" for r
    using that assms by (intro nth_equalityI) (simp_all add: screen_nth screen_shape)
qed (simp add: assms(1) screen_shape)

lemma screen_cursor [simp]:
  "screen_lines (s\<lparr>cursor_row := r\<rparr>) = screen_lines s" "screen_lines (s\<lparr>cursor_col := r\<rparr>) = screen_lines s" "screen_lines (s\<lparr>vga_hw := h\<rparr>) = screen_lines s"
  by (simp_all add: screen_lines_def)

lemma screen_set:
  fixes s :: "('hw, 'a) vga_state_scheme"
  assumes "r < 25" "c < 80"
  shows "screen_lines (vga_set (int r * 80 + int c) v s) = (screen_lines s)[r := (screen_lines s ! r)[c := v]]"
proof (rule screen_eqI)
  show "vga_get (int r' * 80 + int c') (vga_set (int r * 80 + int c) v s) = (screen_lines s)[r := (screen_lines s ! r)[c := v]] ! r' ! c'"
    if "r' < 25" "c' < 80" for r' c'
    using vga.get_set [where ?s0.0 = s and s = s and x = "int c" and y = "int r" and x' = "int c'" and y' = "int r'" and c = v]
      assms that by (auto simp: nth_list_update screen_nth screen_shape)
qed (use assms in \<open>auto simp: nth_list_update screen_shape\<close>)

lemma upto_shift: "[a + 1..b + 1] = map (\<lambda>r. r + 1) [a..b :: int]"
  by (intro nth_equalityI) simp_all

lemma screen_scroll:
  shows "screen_lines (vga_scroll s) = tl (screen_lines s) @ [blank_line]" and "only_screen s (vga_scroll s)"
    "cursor_row (vga_scroll s) = 24" "cursor_col (vga_scroll s) = 0"
proof -
  let ?f = "\<lambda>r. fold (\<lambda>c s. vga_set (r * 80 + (0 + c)) (vga_get ((r + 1) * 80 + (0 + c)) s) s) [0..79 :: int]"
  define s1 where "s1 = fold ?f [0..0 + int 24 - 1] s"
  define s2 where "s2 = fold (\<lambda>c. vga_set (24 * 80 + c) blank) [0..79] s1"
  have e: "vga_scroll s = s2\<lparr>cursor_row := 24, cursor_col := 0\<rparr>"
    using upto_shift [of 0 23]
    by (simp add: vga_scroll_def s2_def s1_def VGA_WIDTH_def VGA_HEIGHT_def fold_map comp_def blank_def Let_def)
  let ?ok = "\<lambda>t. only_screen s t \<and> cursor_row t = cursor_row s \<and> cursor_col t = cursor_col s \<and> vga_hw t = vga_hw s"
  have u: "(\<exists>i \<in> set [0..79 :: int]. x' = 0 + i) \<longleftrightarrow> 0 \<le> x' \<and> x' < 80" for x' :: int by auto
  have g1: "?ok s1 \<and> (\<forall>x y. 0 \<le> x \<and> x < 80 \<and> 0 \<le> y \<and> y < 25 \<longrightarrow>
      vga_get (y * 80 + x) s1 = (if 0 \<le> y \<and> y < 0 + int 24 \<and> (\<exists>i \<in> set [0..79]. x = 0 + i) then vga_get ((y + 1) * 80 + x) s else vga_get (y * 80 + x) s))"
    unfolding s1_def by (rule vga.scroll_rows) auto
  have "vga.paints s (fold (\<lambda>c. vga_set (24 * 80 + c) blank) [0..79]) (\<Union>c \<in> set [0..79]. {(c, 24)}) (\<lambda>_ _. blank)"
    by (intro vga.paints_fold vga.paints_set) auto
  note g2 = vga.paintsD [OF this conjunct1 [OF g1], folded s2_def]
  show "only_screen s (vga_scroll s)" "cursor_row (vga_scroll s) = 24" "cursor_col (vga_scroll s) = 0"
    using g2(1) by (simp_all add: e)
  have g: "vga_get (int r * 80 + int c) s2 = (if r < 24 then vga_get ((int r + 1) * 80 + int c) s else blank)" if "r < 25" "c < 80" for r c
    using g2(2) [of "int c" "int r"] g1 that unfolding u by auto
  show "screen_lines (vga_scroll s) = tl (screen_lines s) @ [blank_line]"
  proof (rule screen_eqI)
    show "vga_get (int r * 80 + int c) (vga_scroll s) = (tl (screen_lines s) @ [blank_line]) ! r ! c" if "r < 25" "c < 80" for r c
      using g [OF that] screen_nth [of "Suc r" c s] that
      by (simp add: e nth_append nth_tl screen_shape blank_line_def algebra_simps)
  qed (auto simp: screen_shape nth_append nth_tl blank_line_def)
qed

section \<open>Output\<close>

definition vga_corr :: "('hw, 'a) vga_state_scheme \<Rightarrow> ('hw, 'a) vga_state_scheme \<Rightarrow> terminal \<Rightarrow> bool" where
  "vga_corr s s' t \<longleftrightarrow> vga_ok s' \<and> only_screen s s' \<and> terminal_of s' = t"

lemma update_hw_cursor [simp]:
  "terminal_of (vga_update_hw_cursor P s) = terminal_of s" "only_screen s0 (vga_update_hw_cursor P s) = only_screen s0 s"
  "vga_ok (vga_update_hw_cursor P s) = vga_ok s"
  by (simp_all add: vga_update_hw_cursor_def terminal_of_def vga_ok_def Let_def fbcon_active_def)

text \<open>The end of a line: the cursor has gone below the last row, or not.\<close>

lemma feed_line:
  assumes "vga_ok s" "s1 = s\<lparr>cursor_col := 0, cursor_row := cursor_row s + 1\<rparr>"
  shows "vga_corr s (if cursor_row s1 \<ge> VGA_HEIGHT then vga_scroll s1 else s1) (tm_newline (terminal_of s))"
proof (cases "cursor_row s = 24")
  case True
  note sc = screen_scroll [of s1]
  have o: "only_screen s (vga_scroll s1)" using sc(2) by (rule only_screen_trans [rotated]) (simp add: assms(2))
  then have "vga_ok (vga_scroll s1)" using assms(1) only_screen_fields [OF o] sc(3,4) by (simp add: vga_ok_def)
  then show ?thesis using True sc(1,3,4) o assms(2)
    by (simp add: vga_corr_def VGA_HEIGHT_def tm_newline_def terminal_of_def)
next
  case False
  then show ?thesis using assms
    by (auto simp: vga_corr_def VGA_HEIGHT_def tm_newline_def terminal_of_def vga_ok_def fbcon_active_def nat_add_distrib)
qed

lemma put_cell:
  fixes s :: "('hw, 'a) vga_state_scheme"
  assumes "vga_ok s" "0 \<le> c" "c < 80"
  shows "vga_corr s (vga_set (cursor_row s * 80 + c) v s) (tm_put (nat c) v (terminal_of s))"
proof -
  obtain r where r: "cursor_row s = int r" "r < 25" using assms(1) by (auto simp: vga_ok_def intro: that [of "nat (cursor_row s)"])
  obtain k where k: "c = int k" "k < 80" using assms(2,3) by (auto intro: that [of "nat c"])
  have o: "only_screen s (vga_set (cursor_row s * 80 + c) v s)" using r k by (intro vga_set_only) simp_all
  have "vga_ok (vga_set (cursor_row s * 80 + c) v s)" using assms(1) only_screen_fields [OF o] by (simp add: vga_ok_def)
  then show ?thesis using o screen_set [OF r(2) k(2), of v s] by (simp add: vga_corr_def r k tm_put_def terminal_of_def)
qed

lemma and_not_3: "c + 4 AND - 4 = 4 * (c div 4 + 1)" for c :: int
proof -
  have "(c + 4) AND NOT (mask 2) = push_bit 2 (drop_bit 2 (c + 4))"
  proof (rule bit_eqI)
    show "bit ((c + 4) AND NOT (mask 2)) n = bit (push_bit 2 (drop_bit 2 (c + 4))) n" for n
      by (cases "2 \<le> n") (auto simp: bit_push_bit_iff bit_drop_bit_eq bit_and_iff bit_not_iff bit_mask_iff dest!: le_Suc_ex)
  qed
  moreover have "(c + 4) div 4 = c div 4 + 1" using div_add_self2 [of 4 c] by simp
  ultimately show ?thesis by (simp add: mask_eq_exp_minus_1 push_bit_eq_mult drop_bit_eq_div)
qed

lemma vga_corr_hw: "vga_corr s s' t \<Longrightarrow> vga_corr s (vga_update_hw_cursor P s') t"
  by (simp add: vga_corr_def)

text \<open>The end of \<open>vga_putc\<close> once the character is on the screen and the column is \<open>c\<close>.\<close>

lemma advance:
  assumes "vga_corr s s1 t" "0 \<le> c"
  shows "vga_corr s (let s2 = vga_wrap (s1\<lparr>cursor_col := c\<rparr>) in if cursor_row s2 \<ge> VGA_HEIGHT then vga_scroll s2 else s2)
    (if c < 80 then t\<lparr>tm_col := nat c\<rparr> else tm_newline t)"
proof (cases "c < 80")
  case True
  then show ?thesis using assms
    by (auto simp: vga_corr_def vga_wrap_def VGA_WIDTH_def VGA_HEIGHT_def vga_ok_def terminal_of_def fbcon_active_def)
next
  case False
  have s1: "vga_ok s1" "only_screen s s1" "terminal_of s1 = t" using assms(1) by (simp_all add: vga_corr_def)
  have "vga_wrap (s1\<lparr>cursor_col := c\<rparr>) = s1\<lparr>cursor_col := 0, cursor_row := cursor_row s1 + 1\<rparr>"
    using False by (simp add: vga_wrap_def VGA_WIDTH_def)
  from feed_line [OF s1(1) this] show ?thesis
    using False s1(2,3) by (auto simp: vga_corr_def Let_def intro: only_screen_trans)
qed

lemma putc_refines:
  fixes s :: "('hw, 'a) vga_state_scheme"
  assumes ok: "vga_ok s"
  shows "vga_corr s (vga_putc P ch s) (tm_putc ch (terminal_of s))"
proof -
  have c: "0 \<le> cursor_col s" "cursor_col s < 80" "cursor_row s < 25" "vga_ready s" "\<not> fbcon_active s" using ok by (simp_all add: vga_ok_def)
  have self: "vga_corr s s (terminal_of s)" using ok by (simp add: vga_corr_def)
  have col: "tm_col (terminal_of s) = nat (cursor_col s)" by (simp add: terminal_of_def)
  note put = put_cell [OF ok c(1,2), of "vga_entry ch"]
  consider "ch = CHR 0x0A" | "ch = CHR 0x0D" | "ch = CHR 0x08" | "ch = CHR 0x09"
    | "ch \<notin> {CHR 0x0A, CHR 0x0D, CHR 0x08, CHR 0x09}" by blast
  then show ?thesis
  proof cases
    case 1
    then show ?thesis using vga_corr_hw [OF feed_line [OF ok refl]] c by (simp add: vga_putc_def tm_putc_def Let_def)
  next
    case 2
    have "vga_corr s (s\<lparr>cursor_col := 0\<rparr>) ((terminal_of s)\<lparr>tm_col := 0\<rparr>)"
      using ok by (simp add: vga_corr_def vga_ok_def terminal_of_def fbcon_active_def)
    from vga_corr_hw [OF this] 2 c show ?thesis by (simp add: vga_putc_def tm_putc_def VGA_HEIGHT_def Let_def)
  next
    case 3
    show ?thesis
    proof (cases "cursor_col s > 0")
      case True
      define k where "k = cursor_col s - 1"
      have k: "0 \<le> k" "k < 80" using True c by (simp_all add: k_def)
      let ?s = "s\<lparr>cursor_col := k\<rparr>"
      have o: "vga_ok ?s" using ok k by (simp add: vga_ok_def fbcon_active_def)
      have "vga_corr s (vga_set (cursor_row s * 80 + k) blank ?s) ((tm_put (nat k) blank (terminal_of s))\<lparr>tm_col := nat k\<rparr>)"
        using put_cell [OF o k, of blank] by (auto simp: vga_corr_def terminal_of_def tm_put_def intro: only_screen_trans [of _ ?s])
      from vga_corr_hw [OF this] 3 True c show ?thesis
        by (simp add: vga_putc_def tm_putc_def VGA_HEIGHT_def VGA_WIDTH_def Let_def col blank_def k_def nat_diff_distrib)
    next
      case False
      then show ?thesis using vga_corr_hw [OF self] 3 c by (simp add: vga_putc_def tm_putc_def VGA_HEIGHT_def Let_def col)
    qed
  next
    case 4
    have n: "0 \<le> 4 * (cursor_col s div 4 + 1)" "4 * (cursor_col s div 4 + 1) < 80 \<longleftrightarrow> nat (cursor_col s) < 76"
      "nat (4 * (cursor_col s div 4 + 1)) = 4 + 4 * (nat (cursor_col s) div 4)"
      using c by (auto simp: nat_add_distrib nat_mult_distrib nat_div_distrib)
    from vga_corr_hw [OF advance [OF self n(1)], of P] 4 c show ?thesis unfolding n(2,3)
      by (auto simp: vga_putc_def tm_putc_def and_not_3 Let_def col split: if_splits)
  next
    case 5
    have "0 \<le> cursor_col s + 1" using c by simp
    from vga_corr_hw [OF advance [OF put this], of P] 5 c show ?thesis
      by (auto simp: vga_putc_def tm_putc_def VGA_WIDTH_def Let_def col nat_add_distrib nat_less_iff)
  qed
qed

lemma print_refines:
  assumes "vga_ok s"
  shows "vga_corr s (vga_print P str s) (fold tm_putc str (terminal_of s))"
proof -
  have "vga_corr s (fold (vga_putc P) str s1) (fold tm_putc str (terminal_of s1))" if "vga_corr s s1 (terminal_of s1)" for s1
    using that
  proof (induction str arbitrary: s1)
    case (Cons ch str)
    then have "vga_ok s1" "only_screen s s1" by (simp_all add: vga_corr_def)
    from putc_refines [OF this(1), of P ch] this(2) have "vga_corr s (vga_putc P ch s1) (tm_putc ch (terminal_of s1))"
      by (auto simp: vga_corr_def intro: only_screen_trans)
    then show ?case using Cons.IH [of "vga_putc P ch s1"] by (simp add: vga_corr_def)
  qed simp
  from this [of s] assms show ?thesis by (simp add: vga_corr_def vga_print_def)
qed

lemma clear_refines:
  assumes "vga_ok s"
  shows "vga_corr s (vga_clear P s) \<lparr>tm_lines = replicate 25 blank_line, tm_row = 0, tm_col = 0\<rparr>"
proof -
  define s1 where "s1 = fold (\<lambda>i. vga_set i blank) [0..1999] s"
  have ix: "vga_set i v = vga_set (i div 80 * 80 + i mod 80) v" for i v by simp
  have "vga.paints s (fold (\<lambda>i. vga_set i blank) [0..1999]) (\<Union>i \<in> set [0..1999]. {(i mod 80, i div 80)}) (\<lambda>_ _. blank)"
    by (subst ix, intro vga.paints_fold vga.paints_set) auto
  note g = vga.paintsD [OF this, of s, folded s1_def]
  have "vga_get (int r * 80 + int c) s1 = blank" if "r < 25" "c < 80" for r c
  proof -
    have "(int c, int r) \<in> (\<Union>i \<in> set [0..1999]. {(i mod 80, i div 80)})"
      using that by (intro UN_I [of "int r * 80 + int c"]) auto
    then show ?thesis using g(2) [of "int c" "int r"] that by simp
  qed
  then have "screen_lines s1 = replicate 25 blank_line" by (intro screen_eqI) (simp_all add: blank_line_def)
  then have "vga_corr s (s1\<lparr>cursor_row := 0, cursor_col := 0\<rparr>) \<lparr>tm_lines = replicate 25 blank_line, tm_row = 0, tm_col = 0\<rparr>"
    using g(1) only_screen_fields [of s s1] assms by (simp add: vga_corr_def terminal_of_def vga_ok_def fbcon_active_def)
  from vga_corr_hw [OF this] show ?thesis
    using assms by (simp add: vga_clear_def vga_ok_def s1_def blank_def VGA_WIDTH_def VGA_HEIGHT_def Let_def)
qed

text \<open>
  C33. The text screen is well formed and is a terminal. Whatever is printed, the cursor stays on the 80 by 25 cells, the
  memory written is that of the screen only, and nothing else of the state changes but the port accesses. The
  lines on the screen and the cursor are those of a terminal that received the same characters: newline, carriage
  return, backspace, tabulator and wrapping included, where a line fed at the bottom scrolls the first line
  out. Clearing gives 25 blank lines with the cursor in the corner.
\<close>

theorem vga_console_correct:
  assumes "vga_ok s"
  shows "vga_ok (vga_print P str s) \<and> only_screen s (vga_print P str s) \<and>
      terminal_of (vga_print P str s) = fold tm_putc str (terminal_of s) \<and>
    vga_ok (vga_clear P s) \<and> only_screen s (vga_clear P s) \<and>
      terminal_of (vga_clear P s) = \<lparr>tm_lines = replicate 25 blank_line, tm_row = 0, tm_col = 0\<rparr>"
  using print_refines [OF assms, of P str] clear_refines [OF assms, of P] by (simp add: vga_corr_def)

definition vga_example :: "unit vga_state" where
  "vga_example = \<lparr>ram = (\<lambda>_. 0), bitmap = 0, bitmap_phys = 0, total_frames = 0, used_frames = 0, bitmap_size = 0, module_start = 0, module_end = 0,
     kernel_pml4 = 0, vmm_active = True, hhdm_end = 0x400000, cr3 = 0, gready = False, scrW = 0, scrH = 0, pitch = 0, bytespp = 0, front = 0,
     backbuf = 0, cur_on = False, cur_x = 0, cur_y = 0, active = False, con_ox = 0, con_oy = 0, cols = 0, rows = 0, con_cx = 0, con_cy = 0,
     con_fg = 0, con_bg = 0, vga_ready = True, cursor_row = 24, cursor_col = 79, vga_hw = ()\<rparr>"

text \<open>Two letters at the last cell: the first scrolls up with its line, the second starts the new one.\<close>

theorem vga_console_correct_witness:
  "let s = vga_print \<lparr>p_inb = \<lambda>_ h. (0, h), p_outb = \<lambda>_ _ h. h, p_inw = \<lambda>_ h. (0, h), p_outw = \<lambda>_ _ h. h\<rparr> ''AB'' vga_example
   in vga_ok s \<and> only_screen vga_example s \<and> tm_row (terminal_of s) = 24 \<and> tm_col (terminal_of s) = 1 \<and>
     tm_lines (terminal_of s) = replicate 23 (replicate 80 0) @ [replicate 79 0 @ [0x0F41], 0x0F42 # replicate 79 0x0F20]"
proof -
  have ok: "vga_ok vga_example" by (simp add: vga_ok_def vga_example_def fbcon_active_def)
  have "screen_lines vga_example = replicate 25 (replicate 80 0)"
    by (intro screen_eqI) (simp_all add: vga_get_def vga_example_def load16_def)
  then have t: "terminal_of vga_example = \<lparr>tm_lines = replicate 24 (replicate 80 0) @ [replicate 80 0], tm_row = 24, tm_col = 79\<rparr>"
    by (simp add: terminal_of_def vga_example_def replicate_app_Cons_same flip: replicate_Suc)
  have e: "vga_entry CHR ''A'' = 0x0F41" "vga_entry CHR ''B'' = 0x0F42" "blank = 0x0F20"
    by (simp_all add: blank_def vga_entry_def schar_def VGA_COLOR_def)
  have l: "tl (replicate 24 a @ [b]) = replicate 23 a @ [b :: u16 list]" "(replicate 80 c)[79 := d] = replicate 79 c @ [d]"
    "(replicate 80 c)[0 := d] = (d :: u16) # replicate 79 c" for a b c d by (simp_all add: numeral_eq_Suc)
  show ?thesis
    using vga_console_correct [OF ok, where str = "''AB''"]
    by (simp add: t tm_putc_def tm_newline_def tm_put_def e Let_def blank_line_def l nth_append list_update_append)
qed

end
