(* ===== verification/Elf.thy ===== *)
theory Elf
  imports VmmData
begin

text \<open>
  The ELF loader, \<^verbatim>\<open>kernel/user/elf.c\<close> and \<^verbatim>\<open>elf.h\<close>. The image, \<open>img\<close>, is the
  function from offsets to bytes that the pointer \<open>image\<close> gives: the loader trusts the offsets in
  the headers, so it may read anywhere behind it. Messages are left out.
\<close>

section \<open>Headers\<close>

record elf64_ehdr =
  e_ident :: "u8 list"
  e_type :: u16
  e_machine :: u16
  e_version :: u32
  e_entry :: u64
  e_phoff :: u64
  e_shoff :: u64
  e_flags :: u32
  e_ehsize :: u16
  e_phentsize :: u16
  e_phnum :: u16
  e_shentsize :: u16
  e_shnum :: u16
  e_shstrndx :: u16

record elf64_phdr =
  p_type :: u32
  p_flags :: u32
  p_offset :: u64
  p_vaddr :: u64
  p_paddr :: u64
  p_filesz :: u64
  p_memsz :: u64
  p_align :: u64

definition PT_LOAD :: u32 where "PT_LOAD = 1"
definition ELF_MAGIC0 :: u8 where "ELF_MAGIC0 = 0x7F"
definition ELF_MAGIC1 :: u8 where "ELF_MAGIC1 = 0x45"
definition ELF_MAGIC2 :: u8 where "ELF_MAGIC2 = 0x4C"
definition ELF_MAGIC3 :: u8 where "ELF_MAGIC3 = 0x46"

text \<open>The structures as they lie in memory, without padding: 64 and 56 bytes.\<close>

definition sizeof_elf64_ehdr :: u64 where "sizeof_elf64_ehdr = 64"
definition sizeof_elf64_phdr :: u64 where "sizeof_elf64_phdr = 56"

definition elf64_ehdr_at :: "memory \<Rightarrow> u64 \<Rightarrow> elf64_ehdr" where
  "elf64_ehdr_at m a = \<lparr>e_ident = map (\<lambda>i. m (a + of_nat i)) [0..<16],
     e_type = load16 m (a + 16), e_machine = load16 m (a + 18), e_version = load32 m (a + 20),
     e_entry = load64 m (a + 24), e_phoff = load64 m (a + 32), e_shoff = load64 m (a + 40),
     e_flags = load32 m (a + 48), e_ehsize = load16 m (a + 52), e_phentsize = load16 m (a + 54),
     e_phnum = load16 m (a + 56), e_shentsize = load16 m (a + 58), e_shnum = load16 m (a + 60),
     e_shstrndx = load16 m (a + 62)\<rparr>"

definition elf64_phdr_at :: "memory \<Rightarrow> u64 \<Rightarrow> elf64_phdr" where
  "elf64_phdr_at m a = \<lparr>p_type = load32 m a, p_flags = load32 m (a + 4), p_offset = load64 m (a + 8),
     p_vaddr = load64 m (a + 16), p_paddr = load64 m (a + 24), p_filesz = load64 m (a + 32),
     p_memsz = load64 m (a + 40), p_align = load64 m (a + 48)\<rparr>"

section \<open>Loading\<close>

text \<open>The pointer to the page through the direct map; the frame allocator's answer is not checked.\<close>

definition ensure_user_page :: "u64 \<Rightarrow> u64 \<Rightarrow> 'a vmm_state_scheme \<Rightarrow> u64 \<times> 'a vmm_state_scheme" where
  "ensure_user_page pml4 vaddr s =
     (let page = ALIGN_DOWN vaddr 4096;
          phys = vmm_get_phys_in pml4 page s
      in if phys = 0 then
           let (phys, s) = pmm_alloc_frame s;
               s = vmm_map_page_in pml4 page phys (PAGE_WRITABLE OR PAGE_USER) s
           in (phys_to_virt phys, s)
         else (phys_to_virt phys, s))"

text \<open>One round of the inner loop, with the byte to be stored.\<close>

definition put_byte :: "u64 \<Rightarrow> u64 \<Rightarrow> u8 \<Rightarrow> 'a vmm_state_scheme \<Rightarrow> 'a vmm_state_scheme" where
  "put_byte pml4 va x s =
     (let (dst_page, s) = ensure_user_page pml4 va s;
          page_off = va AND (4096 - 1)
      in s\<lparr>ram := (ram s)(kaddr (dst_page + page_off) := x)\<rparr>)"

definition load_segment :: "u64 \<Rightarrow> memory \<Rightarrow> elf64_phdr \<Rightarrow> 'a vmm_state_scheme \<Rightarrow> 'a vmm_state_scheme" where
  "load_segment pml4 img ph s =
     fold (\<lambda>b. put_byte pml4 (p_vaddr ph + of_nat b)
             (if of_nat b < p_filesz ph then img (p_offset ph + of_nat b) else 0))
       [0..<unat (p_memsz ph)] s"

definition ph_entry :: "memory \<Rightarrow> nat \<Rightarrow> elf64_phdr" where
  "ph_entry img i = elf64_phdr_at img (e_phoff (elf64_ehdr_at img 0) + sizeof_elf64_phdr * of_nat i)"

definition load_segments :: "u64 \<Rightarrow> memory \<Rightarrow> 'a vmm_state_scheme \<Rightarrow> 'a vmm_state_scheme" where
  "load_segments pml4 img s =
     fold (\<lambda>i s. if p_type (ph_entry img i) \<noteq> PT_LOAD then s else load_segment pml4 img (ph_entry img i) s)
       [0..<unat (e_phnum (elf64_ehdr_at img 0))] s"

definition elf_load :: "u64 \<Rightarrow> memory \<Rightarrow> u64 \<Rightarrow> 'a vmm_state_scheme \<Rightarrow> u64 \<times> 'a vmm_state_scheme" where
  "elf_load pml4 img image_size s =
     (if image_size < sizeof_elf64_ehdr then (0, s) else
      let eh = elf64_ehdr_at img 0 in
      if e_ident eh ! 0 \<noteq> ELF_MAGIC0 \<or> e_ident eh ! 1 \<noteq> ELF_MAGIC1 \<or>
         e_ident eh ! 2 \<noteq> ELF_MAGIC2 \<or> e_ident eh ! 3 \<noteq> ELF_MAGIC3 then (0, s)
      else if e_ident eh ! 4 \<noteq> 2 then (0, s)
      else if e_type eh \<noteq> 2 then (0, s)
      else if e_machine eh \<noteq> 0x3E then (0, s)
      else (e_entry eh, load_segments pml4 img s))"

end
