(* ===== verification/PageStore.thy ===== *)
theory PageStore
  imports Prelude
begin

text \<open>
  The contract the ELF loader needs of user memory: single bytes are stored at virtual addresses, pages are
  provided on demand at the price of at most four frames, and nobody else's memory is disturbed. From it
  follows what a whole sequence of stores does.
\<close>

locale page_store =
  fixes ok :: "'s \<Rightarrow> bool" and user :: "u64 \<Rightarrow> bool" and page :: "u64 \<Rightarrow> u64" and mapped :: "'s \<Rightarrow> u64 \<Rightarrow> bool"
    and get :: "'s \<Rightarrow> u64 \<Rightarrow> u8 option" and put :: "u64 \<Rightarrow> u8 \<Rightarrow> 's \<Rightarrow> 's" and room :: "'s \<Rightarrow> nat"
    and spares :: "'s \<Rightarrow> 's \<Rightarrow> bool"
  assumes mapped_page: "mapped s (page v) = mapped s v"
    and page_idem: "page (page v) = page v"
    and put_ok: "\<lbrakk>ok s; user v; mapped s v \<or> 4 \<le> room s\<rbrakk> \<Longrightarrow> ok (put v x s)"
    and get_put: "\<lbrakk>ok s; user v; mapped s v \<or> 4 \<le> room s\<rbrakk> \<Longrightarrow> get (put v x s) v = Some x"
    and get_put_other: "\<lbrakk>ok s; user v; mapped s v \<or> 4 \<le> room s; user w; w \<noteq> v; get s w = Some y\<rbrakk> \<Longrightarrow>
      get (put v x s) w = Some y"
    and mapped_put: "\<lbrakk>ok s; user v; mapped s v \<or> 4 \<le> room s\<rbrakk> \<Longrightarrow>
      mapped (put v x s) w = (mapped s w \<or> page w = page v)"
    and room_put: "\<lbrakk>ok s; user v; mapped s v \<or> 4 \<le> room s\<rbrakk> \<Longrightarrow>
      room s \<le> room (put v x s) + (if mapped s v then 0 else 4)"
    and spares_put: "\<lbrakk>ok s; user v; mapped s v \<or> 4 \<le> room s\<rbrakk> \<Longrightarrow> spares s (put v x s)"
    and spares_refl: "spares s s"
    and spares_trans: "\<lbrakk>spares s t; spares t u\<rbrakk> \<Longrightarrow> spares s u"
begin

text \<open>The pages a set of addresses still needs.\<close>

definition missing :: "'s \<Rightarrow> u64 set \<Rightarrow> u64 set" where
  "missing s A = {p \<in> page ` A. \<not> mapped s p}"

definition put_all :: "(u64 \<times> u8) list \<Rightarrow> 's \<Rightarrow> 's" where
  "put_all ws = fold (\<lambda>(v, x). put v x) ws"

lemma missing_put:
  assumes "ok s" "user v" "mapped s v \<or> 4 \<le> room s" "v \<in> A"
  shows "card (missing (put v x s) A) + (if mapped s v then 0 else 1) \<le> card (missing s A)"
proof (cases "mapped s v")
  case True
  have "missing (put v x s) A \<subseteq> missing s A" using mapped_put [OF assms(1-3)] by (auto simp: missing_def)
  from card_mono [OF finite this] show ?thesis using True by simp
next
  case False
  then have "page v \<in> missing s A" "page v \<notin> missing (put v x s) A"
    using assms(4) mapped_put [OF assms(1-3)] mapped_page page_idem by (auto simp: missing_def)
  then have "missing (put v x s) A \<subset> missing s A" using mapped_put [OF assms(1-3)] by (auto simp: missing_def)
  from psubset_card_mono [OF finite this] show ?thesis using False by simp
qed

lemma put_all_correct:
  assumes "ok s" "distinct (map fst ws)" "\<forall>(v, x) \<in> set ws. user v \<and> v \<in> A" "4 * card (missing s A) \<le> room s"
  shows "ok (put_all ws s) \<and> (\<forall>(v, x) \<in> set ws. get (put_all ws s) v = Some x) \<and>
    (\<forall>w y. user w \<longrightarrow> w \<notin> fst ` set ws \<longrightarrow> get s w = Some y \<longrightarrow> get (put_all ws s) w = Some y) \<and>
    spares s (put_all ws s) \<and> room s \<le> room (put_all ws s) + 4 * card (missing s A) \<and>
    (\<forall>w. page w \<notin> page ` A \<longrightarrow> mapped (put_all ws s) w = mapped s w)"
  using assms
proof (induction ws arbitrary: s)
  case (Cons a ws)
  obtain v x where a: "a = (v, x)" by (cases a)
  let ?s = "put v x s" and ?t = "put_all ws (put v x s)"
  have t: "put_all (a # ws) s = ?t" by (simp add: put_all_def a)
  have v: "user v" "v \<in> A" using Cons.prems(3) a by simp_all
  have fr: "mapped s v \<or> 4 \<le> room s"
  proof (cases "mapped s v")
    case False
    then have "page v \<in> missing s A" using v(2) mapped_page by (simp add: missing_def)
    then have "0 < card (missing s A)" by (auto simp: card_gt_0_iff)
    then show ?thesis using Cons.prems(4) by simp
  qed simp
  note c = Cons.prems(1) v(1) fr
  note cm = missing_put [OF c v(2), of x] and rp = room_put [OF c, of x]
  have "4 * card (missing ?s A) \<le> room ?s" using rp cm Cons.prems(4) by (simp split: if_splits)
  then have IH: "ok ?t \<and> (\<forall>(v, x) \<in> set ws. get ?t v = Some x) \<and>
    (\<forall>w y. user w \<longrightarrow> w \<notin> fst ` set ws \<longrightarrow> get ?s w = Some y \<longrightarrow> get ?t w = Some y) \<and>
    spares ?s ?t \<and> room ?s \<le> room ?t + 4 * card (missing ?s A) \<and>
    (\<forall>w. page w \<notin> page ` A \<longrightarrow> mapped ?t w = mapped ?s w)"
    using Cons.prems(2,3) a by (intro Cons.IH [OF put_ok [OF c]]) auto
  have "v \<notin> fst ` set ws" using Cons.prems(2) a by simp
  then have "get ?t v = Some x" using IH get_put [OF c] v(1) by blast
  moreover have "spares s ?t" using spares_trans [OF spares_put [OF c]] IH by blast
  moreover have "room s \<le> room ?t + 4 * card (missing s A)" using rp cm IH by (simp split: if_splits)
  moreover have "mapped ?t w = mapped s w" if "page w \<notin> page ` A" for w
    using IH that mapped_put [OF c] v(2) by auto
  moreover have "get ?t w = Some y" if "user w" "w \<notin> fst ` set (a # ws)" "get s w = Some y" for w y
    using IH that get_put_other [OF c that(1) _ that(3)] a by auto
  ultimately show ?case unfolding t using IH a by simp
qed (simp add: put_all_def spares_refl)

end

end
