(* ===== verification/ElfSpec.thy ===== *)
theory ElfSpec
  imports Elf PageStore VmmOwn
begin

text \<open>
  What the ELF loader guarantees: the bytes of the loadable segments can be read at their addresses
  in the address space, and no frame of anyone else has changed.
\<close>

section \<open>Pages\<close>

abbreviation page_of :: "u64 \<Rightarrow> u64" where
  "page_of v \<equiv> v AND 0xFFFFFFFFF000"

lemma index_of_page:
  assumes "page_of v = page_of w"
  shows "PML4_INDEX v = PML4_INDEX w" "PDPT_INDEX v = PDPT_INDEX w" "PD_INDEX v = PD_INDEX w"
    "PT_INDEX v = PT_INDEX w"
proof -
  have m: "(0x1FF :: u64) = mask 9" "(0xFFFFFFFFF000 :: u64) = push_bit 12 (mask 36)"
    by (simp_all add: mask_eq_exp_minus_1)
  have b: "bit v n = bit w n" if "12 \<le> n" "n < 48" for n
  proof -
    have "bit (page_of v) n = bit (page_of w) n" by (simp only: assms)
    moreover have "n - 12 < 36" "n - 12 < 64" using that by simp_all
    ultimately show ?thesis using that by (simp add: m bit_simps)
  qed
  have "drop_bit k v AND mask 9 = drop_bit k w AND mask 9" if "12 \<le> k" "k \<le> 39" for k
    by (rule bit_word_eqI) (use b that in \<open>auto simp: bit_simps\<close>)
  then show "PML4_INDEX v = PML4_INDEX w" "PDPT_INDEX v = PDPT_INDEX w" "PD_INDEX v = PD_INDEX w"
    "PT_INDEX v = PT_INDEX w"
    unfolding PML4_INDEX_def PDPT_INDEX_def PD_INDEX_def PT_INDEX_def m by simp_all
qed

lemma page_of_align [simp]: "page_of (ALIGN_DOWN v 4096) = page_of v"
proof -
  have m: "(0xFFFFFFFFF000 :: u64) = push_bit 12 (mask 36)" "(4096 - 1 :: u64) = mask 12"
    by (simp_all add: mask_eq_exp_minus_1)
  show ?thesis unfolding ALIGN_DOWN_def m by (rule bit_word_eqI) (auto simp: bit_simps)
qed

lemma align_offset [simp]: "ALIGN_DOWN v 4096 AND 0xFFF = 0"
  by (simp add: word_unat_eq_iff unat_page_offset unat_ALIGN_DOWN_page)

text \<open>An address below the end of user space is its page and its offset.\<close>

lemma page_offset_eq:
  fixes v w :: u64
  assumes "v < USER_SPACE_END" "w < USER_SPACE_END" "page_of v = page_of w" "v AND 0xFFF = w AND 0xFFF"
  shows "v = w"
proof (rule bit_word_eqI)
  fix n
  have m: "(0xFFFFFFFFF000 :: u64) = push_bit 12 (mask 36)" "(0xFFF :: u64) = mask 12"
    by (simp_all add: mask_eq_exp_minus_1)
  have hi: "\<not> bit x n" if "x < USER_SPACE_END" "48 \<le> n" for x :: u64
  proof -
    have "unat x < 2 ^ n"
      using that(1) power_increasing [OF that(2), of "2::nat"] by (simp add: USER_SPACE_END_def word_less_nat_alt)
    then have "drop_bit n (unat x) = 0" by (simp add: drop_bit_eq_div)
    then have "\<not> bit (drop_bit n (unat x)) 0" by simp
    then show ?thesis by (auto simp: bit_drop_bit_eq bit_unsigned_iff)
  qed
  have "bit (page_of v) n = bit (page_of w) n" "bit (v AND 0xFFF) n = bit (w AND 0xFFF) n"
    by (simp_all only: assms)
  then show "bit v n = bit w n"
    using hi [OF assms(1)] hi [OF assms(2)] unfolding m
    by (cases "n < 12"; cases "n < 48") (auto simp: bit_simps)
qed

lemma offset_less [simp]: "(v::u64) AND 0xFFF < 4096"
  by (simp add: word_less_nat_alt unat_page_offset)

lemma entry_addr_frame: "\<lbrakk>mem_ok s; table_frame s f\<rbrakk> \<Longrightarrow> ENTRY_ADDR f = f"
proof -
  assume "mem_ok s" "table_frame s f"
  then have "ENTRY_ADDR (f OR PAGE_PRESENT OR PAGE_WRITABLE OR PAGE_USER) = f"
    using table_frame_bound [of s f] by (intro entry_flag_bits(1)) (simp_all add: table_frame_def)
  then show ?thesis
    by (simp add: ENTRY_ADDR_def PAGE_PRESENT_def PAGE_WRITABLE_def PAGE_USER_def bit.conj_disj_distrib2)
qed

section \<open>User address spaces\<close>

text \<open>
  The user half of an address space: 4 KB pages only, each with a frame of its own that is none of
  the tables.
\<close>

definition user_ok :: "'a vmm_state_scheme \<Rightarrow> u64 \<Rightarrow> bool" where
  "user_ok s pml4 \<longleftrightarrow> pt_ok s pml4 \<and>
     (\<forall>v < USER_SPACE_END. \<forall>h e. leaf_of s pml4 v = Some (h, e) \<longrightarrow> \<not> h \<and> data_frame s pml4 (ENTRY_ADDR e)) \<and>
     (\<forall>v < USER_SPACE_END. \<forall>w < USER_SPACE_END. \<forall>e e'. leaf_of s pml4 v = Some (False, e) \<longrightarrow>
        leaf_of s pml4 w = Some (False, e') \<longrightarrow> ENTRY_ADDR e = ENTRY_ADDR e' \<longrightarrow> page_of v = page_of w)"

lemma user_okD:
  assumes "user_ok s pml4"
  shows "pt_ok s pml4"
    "\<lbrakk>v < USER_SPACE_END; leaf_of s pml4 v = Some (h, e)\<rbrakk> \<Longrightarrow> \<not> h"
    "\<lbrakk>v < USER_SPACE_END; leaf_of s pml4 v = Some (h, e)\<rbrakk> \<Longrightarrow> data_frame s pml4 (ENTRY_ADDR e)"
    "\<lbrakk>v < USER_SPACE_END; w < USER_SPACE_END; leaf_of s pml4 v = Some (False, e); leaf_of s pml4 w = Some (False, e');
      ENTRY_ADDR e = ENTRY_ADDR e'\<rbrakk> \<Longrightarrow> page_of v = page_of w"
  using assms unfolding user_ok_def by blast+

text \<open>The byte a program would read, and the frames that belong to others.\<close>

definition user_byte :: "'a vmm_state_scheme \<Rightarrow> u64 \<Rightarrow> u64 \<Rightarrow> u8 option" where
  "user_byte s pml4 v = (let p = vmm_get_phys_in pml4 v s in if p = 0 then None else Some (ram s p))"

definition foreign :: "'a vmm_state_scheme \<Rightarrow> u64 \<Rightarrow> u64 \<Rightarrow> bool" where
  "foreign s pml4 g \<longleftrightarrow> data_frame s pml4 g \<and>
     (\<forall>v < USER_SPACE_END. \<forall>e. leaf_of s pml4 v = Some (False, e) \<longrightarrow> ENTRY_ADDR e \<noteq> g)"

lemma data_frame_addr:
  assumes "pt_ok s pml4" "data_frame s pml4 f" "k < 4096"
  shows "f + k \<noteq> 0" "kaddr (phys_to_virt f + k) = f + k"
proof -
  have tf: "table_frame s f" using assms(2) by (simp add: data_frame_def)
  note b = table_frame_bound [OF pt_okD(1) [OF assms(1)] tf]
  have k: "unat k < 4096" using assms(3) by (simp add: word_less_nat_alt)
  have "unat (f + k) = unat f + unat k" using b k by (intro unat_add_nowrap) simp
  moreover have "f \<noteq> 0" using tf by (simp add: table_frame_def)
  ultimately show "f + k \<noteq> 0" by (auto simp: word_unat_eq_iff)
  have "kaddr (phys_to_virt f) = f" using b by (simp add: kaddr_phys_to_virt)
  then show "kaddr (phys_to_virt f + k) = f + k" using kaddr_add [of "phys_to_virt f" k] b k by simp
qed

lemma user_byte_leaf:
  assumes "user_ok s pml4" "v < USER_SPACE_END"
  shows "user_byte s pml4 v =
    (case leaf_of s pml4 v of None \<Rightarrow> None | Some (h, e) \<Rightarrow> Some (ram s (ENTRY_ADDR e + (v AND 0xFFF))))"
proof (cases "leaf_of s pml4 v")
  case None
  then show ?thesis
    using get_phys_leaf [OF user_okD(1) [OF assms(1)], of v] by (simp add: user_byte_def page_addr_def)
next
  case (Some l)
  then obtain h e where l: "leaf_of s pml4 v = Some (h, e)" by (cases l) simp
  note d = user_okD(2,3) [OF assms l]
  show ?thesis
    using d(1) l get_phys_leaf [OF user_okD(1) [OF assms(1)], of v]
      data_frame_addr(1) [OF user_okD(1) [OF assms(1)] d(2), of "v AND 0xFFF"]
    by (simp add: user_byte_def page_addr_def)
qed

section \<open>Storing one byte\<close>

lemma leaf_same_page: "page_of v = page_of w \<Longrightarrow> leaf_of s pml4 v = leaf_of s pml4 w"
  by (simp add: index_of_page [of v w])

lemma ensure_mapped:
  fixes s :: "'a vmm_state_scheme"
  assumes ok: "user_ok s pml4" and v: "v < USER_SPACE_END" and l: "leaf_of s pml4 v = Some (h, e)"
  shows "ensure_user_page pml4 v s = (phys_to_virt (ENTRY_ADDR e), s)"
proof -
  have "leaf_of s pml4 (ALIGN_DOWN v 4096) = Some (h, e)" using l leaf_same_page [of "ALIGN_DOWN v 4096" v s pml4] by simp
  then have "vmm_get_phys_in pml4 (ALIGN_DOWN v 4096) s = ENTRY_ADDR e"
    using get_phys_leaf [OF user_okD(1) [OF ok], of "ALIGN_DOWN v 4096"] user_okD(2) [OF ok v l]
    by (simp add: page_addr_def)
  moreover have "ENTRY_ADDR e \<noteq> 0"
    using user_okD(3) [OF ok v l] by (simp add: data_frame_def table_frame_def)
  ultimately show ?thesis by (simp add: ensure_user_page_def)
qed

lemma ensure_unmapped:
  fixes s :: "'a vmm_state_scheme"
  assumes ok: "user_ok s pml4" and v: "v < USER_SPACE_END" and l: "leaf_of s pml4 v = None"
    and fr: "4 \<le> free_frames s" and r: "ensure_user_page pml4 v s = (p, s')"
  obtains f e where "p = phys_to_virt f" "\<not> table_frame s f" "data_frame s' pml4 f" "pt_ok s' pml4"
    "leaf_of s' pml4 v = Some (False, e)" "ENTRY_ADDR e = f"
    "\<And>w. page_of w \<noteq> page_of v \<Longrightarrow> leaf_of s' pml4 w = leaf_of s pml4 w"
    "\<And>g. data_frame s pml4 g \<Longrightarrow> data_frame s' pml4 g \<and> same_frame g s s'"
    "free_frames s \<le> free_frames s' + 4" "extends pml4 s s'"
proof -
  let ?page = "ALIGN_DOWN v 4096" and ?flags = "PAGE_WRITABLE OR PAGE_USER"
  obtain f s0 where al: "pmm_alloc_frame s = (f, s0)" by (cases "pmm_alloc_frame s")
  note o = user_okD(1) [OF ok]
  have f0: "f \<noteq> 0" using free_frames_alloc [of s] al pt_okD(1) [OF o] fr by (simp add: mem_ok_def)
  note a = alloc_data [OF o al f0]
  have lp: "leaf_of s pml4 ?page = None" using l leaf_same_page [of ?page v s pml4] by simp
  then have "vmm_get_phys_in pml4 ?page s = 0" using get_phys_leaf [OF o, of ?page] by (simp add: page_addr_def)
  then have eq: "p = phys_to_virt f" "vmm_map_page_in pml4 ?page f ?flags s0 = s'"
    using r al by (auto simp: ensure_user_page_def Let_def)
  have l0: "leaf_of s0 pml4 w = leaf_of s pml4 w" for w by (simp add: a(2))
  have huge: "leaf_of s0 pml4 ?page \<noteq> Some (True, e)" for e using lp l0 by simp
  have fl: "ENTRY_ADDR ?flags = 0" by (simp add: ENTRY_ADDR_def PAGE_WRITABLE_def PAGE_USER_def)
  have fr0: "3 \<le> free_frames s0" using a(5) fr by simp
  note m = map_page_result [OF a(1) fr0 huge fl eq(2)]
  note md = map_page_data [OF a(1) fr0 huge eq(2)]
  let ?e = "(f AND NOT 0xFFF) OR ?flags OR PAGE_PRESENT"
  have df: "data_frame s' pml4 f" using md [OF a(3)] by blast
  have "ENTRY_ADDR ?e = f"
    using map_entry_bits(1) [OF fl, of f] entry_addr_frame [OF pt_okD(1) [OF a(1)], of f] a(3)
    by (simp add: data_frame_def)
  moreover have "leaf_of s' pml4 v = Some (False, ?e)"
    using m leaf_same_page [of ?page v s' pml4] by simp
  moreover have "leaf_of s' pml4 w = leaf_of s pml4 w" if "page_of w \<noteq> page_of v" for w
    using m l0 that by simp
  moreover have "data_frame s' pml4 g \<and> same_frame g s s'" if "data_frame s pml4 g" for g
    using md [of g] a(6) [OF that] same_frame_trans [of g s s0 s'] by blast
  moreover have "free_frames s \<le> free_frames s' + 4" using m a(5) by simp
  moreover have "extends pml4 s s'"
    unfolding extends_def
  proof (intro allI impI)
    fix U assume U: "accounts U s pml4"
    note aa = alloc_accounts [OF o al f0 U]
    have fe: "ENTRY_ADDR f = f" using entry_addr_frame [OF pt_okD(1) [OF a(1)], of f] a(3) by (simp add: data_frame_def)
    have lp0: "leaf_of s0 pml4 ?page = None" using lp l0 by simp
    have "?page \<le> v" by (simp add: ALIGN_DOWN_def word_and_le2)
    then have pu: "?page < USER_SPACE_END" using v by simp
    have F: "frame_no (ENTRY_ADDR f) \<in> insert (frame_no f) U" by (simp add: fe)
    note ma = map_page_accounts [OF a(1) fr0 lp0 pu fl eq(2) aa(1) F]
    have "insert (frame_no f) U - {frame_no f} = U" using aa(3) by simp
    then show "accounts U s' pml4 \<and> untouched U s s'"
      using ma(1) untouched_trans [OF aa(2) untouched_mono [OF ma(2)]] unfolding fe by auto
  qed
  ultimately show thesis using that [of f ?e] eq(1) a(4) df m by blast
qed

text \<open>
  \<open>ensure_user_page\<close> in both cases: the page is mapped to a frame of its own, and nothing that
  was mapped changes.
\<close>

lemma ensure_page:
  fixes s :: "'a vmm_state_scheme"
  assumes ok: "user_ok s pml4" and v: "v < USER_SPACE_END"
    and fr: "leaf_of s pml4 v = None \<Longrightarrow> 4 \<le> free_frames s" and r: "ensure_user_page pml4 v s = (p, s')"
  obtains e where "p = phys_to_virt (ENTRY_ADDR e)" "user_ok s' pml4" "leaf_of s' pml4 v = Some (False, e)"
    "\<And>w l. leaf_of s pml4 w = Some l \<Longrightarrow> leaf_of s' pml4 w = Some l"
    "\<And>w. page_of w \<noteq> page_of v \<Longrightarrow> leaf_of s' pml4 w = leaf_of s pml4 w"
    "\<And>g. data_frame s pml4 g \<Longrightarrow> same_frame g s s'" "\<And>g. foreign s pml4 g \<Longrightarrow> foreign s' pml4 g"
    "free_frames s \<le> free_frames s' + (if leaf_of s pml4 v = None then 4 else 0)" "extends pml4 s s'"
proof (cases "leaf_of s pml4 v")
  case (Some l)
  then obtain h e where l: "leaf_of s pml4 v = Some (h, e)" by (cases l) simp
  then have "s' = s" "p = phys_to_virt (ENTRY_ADDR e)" using r ensure_mapped [OF ok v l] by auto
  then show thesis using that [of e] ok l user_okD(2) [OF ok v l] by (simp add: same_frame_def)
next
  case None
  obtain f e where p: "p = phys_to_virt f" and nf: "\<not> table_frame s f" and df: "data_frame s' pml4 f"
    and pt: "pt_ok s' pml4" and l: "leaf_of s' pml4 v = Some (False, e)" and e: "ENTRY_ADDR e = f"
    and other: "\<And>w. page_of w \<noteq> page_of v \<Longrightarrow> leaf_of s' pml4 w = leaf_of s pml4 w"
    and data: "\<And>g. data_frame s pml4 g \<Longrightarrow> data_frame s' pml4 g \<and> same_frame g s s'"
    and free: "free_frames s \<le> free_frames s' + 4" and ext: "extends pml4 s s'"
    by (rule ensure_unmapped [OF ok v None fr [OF None] r]) blast
  have cases: "(page_of w = page_of v \<and> x = (False, e)) \<or> (page_of w \<noteq> page_of v \<and> leaf_of s pml4 w = Some x)"
    if "leaf_of s' pml4 w = Some x" for w x
    using that other [of w] l leaf_same_page [of w v s' pml4] by (cases "page_of w = page_of v") auto
  have old: "ENTRY_ADDR e' \<noteq> f" if "w < USER_SPACE_END" "leaf_of s pml4 w = Some (h, e')" for w h e'
    using user_okD(3) [OF ok that] nf by (auto simp: data_frame_def)
  have "user_ok s' pml4"
    unfolding user_ok_def
  proof (intro conjI allI impI pt)
    show "\<not> h" if "w < USER_SPACE_END" "leaf_of s' pml4 w = Some (h, x)" for w h x
      using cases [OF that(2)] user_okD(2) [OF ok that(1)] by auto
    show "data_frame s' pml4 (ENTRY_ADDR x)" if "w < USER_SPACE_END" "leaf_of s' pml4 w = Some (h, x)" for w h x
      using cases [OF that(2)] user_okD(3) [OF ok that(1)] data df e by auto
    show "page_of w = page_of u" if "w < USER_SPACE_END" "u < USER_SPACE_END" "leaf_of s' pml4 w = Some (False, x)"
      "leaf_of s' pml4 u = Some (False, y)" "ENTRY_ADDR x = ENTRY_ADDR y" for w u x y
      using cases [OF that(3)] cases [OF that(4)] old [OF that(1)] old [OF that(2)] e that(5)
        user_okD(4) [OF ok that(1,2)] by auto
  qed
  moreover have "leaf_of s' pml4 w = Some x" if "leaf_of s pml4 w = Some x" for w x
    using that other [of w] None leaf_same_page [of w v s pml4] by (cases "page_of w = page_of v") auto
  moreover have "foreign s' pml4 g" if "foreign s pml4 g" for g
  proof -
    have g: "data_frame s pml4 g" "g \<noteq> f" using that nf by (auto simp: foreign_def data_frame_def)
    have "ENTRY_ADDR x \<noteq> g" if w: "w < USER_SPACE_END" "leaf_of s' pml4 w = Some (False, x)" for w x
      using cases [OF w(2)] \<open>foreign s pml4 g\<close> g(2) e w(1) by (auto simp: foreign_def)
    then show ?thesis using data [OF g(1)] by (auto simp: foreign_def)
  qed
  ultimately show thesis using that [of e] p e l other data free ext None by simp
qed

text \<open>A store through a mapped page, by the loader or by the program itself.\<close>

lemma user_write:
  fixes s :: "'a vmm_state_scheme" and x :: u8
  assumes ok: "user_ok s pml4" and v: "v < USER_SPACE_END" and l: "leaf_of s pml4 v = Some (False, e)"
  defines "s' \<equiv> s\<lparr>ram := (ram s)(ENTRY_ADDR e + (v AND 0xFFF) := x)\<rparr>"
  shows "user_ok s' pml4" "extends pml4 s s'" "leaf_of s' pml4 w = leaf_of s pml4 w" "data_frame s' pml4 = data_frame s pml4"
    "free_frames s' = free_frames s" "\<lbrakk>table_frame s g; g \<noteq> ENTRY_ADDR e\<rbrakk> \<Longrightarrow> same_frame g s s'"
proof -
  note o = user_okD(1) [OF ok] and df = user_okD(3) [OF ok v l]
  note wd = write_data [OF o df offset_less [of v], where x = x, folded s'_def]
  have leaf: "leaf_of s' pml4 w = leaf_of s pml4 w" for w by (rule wd(2)) simp_all
  show "leaf_of s' pml4 w = leaf_of s pml4 w" "data_frame s' pml4 = data_frame s pml4" "free_frames s' = free_frames s"
    "\<lbrakk>table_frame s g; g \<noteq> ENTRY_ADDR e\<rbrakk> \<Longrightarrow> same_frame g s s'" by (rule leaf, rule wd(3), rule wd(4), rule wd(5))
  show "user_ok s' pml4" using ok wd(1) unfolding user_ok_def leaf wd(3) by blast
  have ow: "owned_frames s' pml4 = owned_frames s pml4" using wd(2,8) user_index by (intro owned_cong) auto
  have fo: "frame_no (ENTRY_ADDR e) \<in> owned_frames s pml4" using owned_page [OF user_index_less [OF v] _ _ _ l] by simp
  show "extends pml4 s s'"
    unfolding extends_def
  proof (intro allI impI)
    fix U assume U: "accounts U s pml4"
    then have "g \<noteq> ENTRY_ADDR e" if "frame_no g \<in> U" for g using that fo by (auto simp: accounts_def)
    moreover have "bitmap s' = bitmap s" "bitmap_size s' = bitmap_size s" "total_frames s' = total_frames s" by (simp_all add: s'_def)
    ultimately have "untouched U s s'" using wd(5,7) by (auto simp: untouched_def)
    then show "accounts U s' pml4 \<and> untouched U s s'" using U ow wd(6) by (simp add: accounts_def)
  qed
qed

text \<open>
  Storing a byte: it can be read back, no other byte of the address space changes, and the frames of
  others stay as they are.
\<close>

lemma put_byte_step:
  fixes s :: "'a vmm_state_scheme" and x y :: u8
  assumes ok: "user_ok s pml4" and v: "v < USER_SPACE_END"
    and fr: "leaf_of s pml4 v = None \<longrightarrow> 4 \<le> free_frames s"
  defines "s' \<equiv> put_byte pml4 v x s"
  shows "user_ok s' pml4" "user_byte s' pml4 v = Some x"
    "\<lbrakk>w < USER_SPACE_END; w \<noteq> v; user_byte s pml4 w = Some y\<rbrakk> \<Longrightarrow> user_byte s' pml4 w = Some y"
    "leaf_of s' pml4 v \<noteq> None" "leaf_of s pml4 w \<noteq> None \<Longrightarrow> leaf_of s' pml4 w \<noteq> None"
    "foreign s pml4 g \<Longrightarrow> foreign s' pml4 g \<and> same_frame g s s'"
    "free_frames s \<le> free_frames s' + (if leaf_of s pml4 v = None then 4 else 0)"
    "page_of w \<noteq> page_of v \<Longrightarrow> leaf_of s' pml4 w = leaf_of s pml4 w" "extends pml4 s s'"
proof -
  obtain p s1 where r: "ensure_user_page pml4 v s = (p, s1)" by (cases "ensure_user_page pml4 v s")
  obtain e where p: "p = phys_to_virt (ENTRY_ADDR e)" and ok1: "user_ok s1 pml4" and l1: "leaf_of s1 pml4 v = Some (False, e)"
    and keep: "\<And>w l. leaf_of s pml4 w = Some l \<Longrightarrow> leaf_of s1 pml4 w = Some l"
    and other: "\<And>w. page_of w \<noteq> page_of v \<Longrightarrow> leaf_of s1 pml4 w = leaf_of s pml4 w"
    and data: "\<And>g. data_frame s pml4 g \<Longrightarrow> same_frame g s s1" and for1: "\<And>g. foreign s pml4 g \<Longrightarrow> foreign s1 pml4 g"
    and free: "free_frames s \<le> free_frames s1 + (if leaf_of s pml4 v = None then 4 else 0)" and ext: "extends pml4 s s1"
    by (rule ensure_page [OF ok v fr [rule_format] r]) blast+
  note o = user_okD(1) [OF ok1] and df = user_okD(3) [OF ok1 v l1]
  let ?f = "ENTRY_ADDR e" and ?k = "v AND 0xFFF"
  have s': "s' = s1\<lparr>ram := (ram s1)(?f + ?k := x)\<rparr>"
    using data_frame_addr(2) [OF o df offset_less] by (simp add: s'_def put_byte_def r p)
  note wd = user_write [OF ok1 v l1, where x = x, folded s'] and leaf = user_write(3) [OF ok1 v l1, where x = x, folded s']
  show ok': "user_ok s' pml4" by (rule wd(1))
  show "user_byte s' pml4 v = Some x" using user_byte_leaf [OF ok' v] l1 leaf [of v] by (simp add: s')
  show "leaf_of s' pml4 v \<noteq> None" "leaf_of s pml4 w \<noteq> None \<Longrightarrow> leaf_of s' pml4 w \<noteq> None"
    using l1 leaf keep by auto
  show "page_of w \<noteq> page_of v \<Longrightarrow> leaf_of s' pml4 w = leaf_of s pml4 w" using leaf other by simp
  show "free_frames s \<le> free_frames s' + (if leaf_of s pml4 v = None then 4 else 0)" using free wd(5) by simp
  show "extends pml4 s s'" by (rule extends_trans [OF ext wd(2)])
  show "foreign s' pml4 g \<and> same_frame g s s'" if g: "foreign s pml4 g"
  proof -
    have f1: "foreign s1 pml4 g" by (rule for1 [OF g])
    then have "?f \<noteq> g" using v l1 unfolding foreign_def by blast
    then have "same_frame g s1 s'" using wd(6) [of g] f1 by (auto simp: foreign_def data_frame_def)
    moreover have "same_frame g s s1" using data g by (simp add: foreign_def)
    moreover have "foreign s' pml4 g" using f1 unfolding foreign_def leaf wd(4) by simp
    ultimately show ?thesis using same_frame_trans by blast
  qed
  show "user_byte s' pml4 w = Some y" if w: "w < USER_SPACE_END" "w \<noteq> v" "user_byte s pml4 w = Some y"
  proof -
    obtain h e' where l: "leaf_of s pml4 w = Some (h, e')" using w(3) user_byte_leaf [OF ok w(1)]
      by (auto split: option.splits)
    let ?g = "ENTRY_ADDR e'" and ?l = "w AND 0xFFF"
    have lw: "leaf_of s1 pml4 w = Some (False, e')" using keep [OF l] user_okD(2) [OF ok w(1) l] by simp
    have y: "ram s (?g + ?l) = y" using user_byte_leaf [OF ok w(1)] w(3) l by simp
    then have "ram s1 (?g + ?l) = y" using data [OF user_okD(3) [OF ok w(1) l]] offset_less [of w] by (simp add: same_frame_def)
    moreover have "?g + ?l \<noteq> ?f + ?k"
    proof (cases "?g = ?f")
      case True
      then have "page_of w = page_of v" using user_okD(4) [OF ok1 w(1) v lw l1] by simp
      then show ?thesis using page_offset_eq [OF w(1) v] w(2) True by auto
    next
      case False
      show ?thesis
        by (rule table_frames_disjoint [OF pt_okD(1) [OF o] _ pt_okD(1) [OF o] _ False])
          (use user_okD(3) [OF ok1 w(1) lw] df in \<open>simp_all add: data_frame_def\<close>)
    qed
    ultimately show ?thesis using user_byte_leaf [OF ok' w(1)] leaf [of w] lw by (simp add: s')
  qed
qed

section \<open>Storing many\<close>

text \<open>
  The user half of an address space is a page store: each page that is not mapped yet costs at most four
  frames, its own and three tables.
\<close>

definition pages_of :: "u64 set \<Rightarrow> u64 set" where
  "pages_of A = page_of ` A"

abbreviation put_all :: "u64 \<Rightarrow> (u64 \<times> u8) list \<Rightarrow> 'a vmm_state_scheme \<Rightarrow> 'a vmm_state_scheme" where
  "put_all pml4 ws \<equiv> fold (\<lambda>(v, x). put_byte pml4 v x) ws"

lemma page_of_idem: "page_of (page_of v) = page_of v"
  by (simp add: and.assoc)

interpretation us: page_store "\<lambda>s :: 'a vmm_state_scheme. user_ok s pml4" "\<lambda>v. v < USER_SPACE_END" page_of
    "\<lambda>s v. leaf_of s pml4 v \<noteq> None" "\<lambda>s. user_byte s pml4" "put_byte pml4" free_frames
    "\<lambda>s s'. extends pml4 s s' \<and> (\<forall>g. foreign s pml4 g \<longrightarrow> foreign s' pml4 g \<and> same_frame g s s')"
  for pml4
proof
  fix s t u :: "'a vmm_state_scheme" and v w :: u64 and x y :: u8
  show "(leaf_of s pml4 (page_of v) \<noteq> None) = (leaf_of s pml4 v \<noteq> None)"
    using leaf_same_page [OF page_of_idem, of s pml4 v] by simp
  show "page_of (page_of v) = page_of v" by (rule page_of_idem)
  show "extends pml4 s s \<and> (\<forall>g. foreign s pml4 g \<longrightarrow> foreign s pml4 g \<and> same_frame g s s)" by (simp add: same_frame_def)
  show "extends pml4 s u \<and> (\<forall>g. foreign s pml4 g \<longrightarrow> foreign u pml4 g \<and> same_frame g s u)"
    if "extends pml4 s t \<and> (\<forall>g. foreign s pml4 g \<longrightarrow> foreign t pml4 g \<and> same_frame g s t)"
      "extends pml4 t u \<and> (\<forall>g. foreign t pml4 g \<longrightarrow> foreign u pml4 g \<and> same_frame g t u)"
    using that same_frame_trans extends_trans by blast
  assume c: "user_ok s pml4" "v < USER_SPACE_END" "leaf_of s pml4 v \<noteq> None \<or> 4 \<le> free_frames s"
  then have "leaf_of s pml4 v = None \<longrightarrow> 4 \<le> free_frames s" by blast
  note st = put_byte_step [OF c(1,2) this]
  show "user_ok (put_byte pml4 v x s) pml4" "user_byte (put_byte pml4 v x s) pml4 v = Some x"
    "extends pml4 s (put_byte pml4 v x s) \<and>
      (\<forall>g. foreign s pml4 g \<longrightarrow> foreign (put_byte pml4 v x s) pml4 g \<and> same_frame g s (put_byte pml4 v x s))"
    using st(1,2,6,9) by blast+
  show "free_frames s \<le> free_frames (put_byte pml4 v x s) + (if leaf_of s pml4 v \<noteq> None then 0 else 4)"
    using st(7) [of x] by (simp split: if_splits)
  show "user_byte (put_byte pml4 v x s) pml4 w = Some y" if "w < USER_SPACE_END" "w \<noteq> v" "user_byte s pml4 w = Some y"
    using st(3) [OF that] .
  show "(leaf_of (put_byte pml4 v x s) pml4 w \<noteq> None) = (leaf_of s pml4 w \<noteq> None \<or> page_of w = page_of v)"
    using st(4) [of x] st(5) [of w x] st(8) [of w x] leaf_same_page [of w v "put_byte pml4 v x s" pml4]
    by (cases "page_of w = page_of v") auto
qed

section \<open>Images\<close>

text \<open>The headers \<open>elf_load\<close> accepts, and the segments it loads.\<close>

definition elf_header_ok :: "memory \<Rightarrow> u64 \<Rightarrow> bool" where
  "elf_header_ok img n \<longleftrightarrow> 64 \<le> n \<and> map img [0, 1, 2, 3, 4] = [0x7F, 0x45, 0x4C, 0x46, 2] \<and>
     load16 img 16 = 2 \<and> load16 img 18 = 0x3E"

definition loadable :: "memory \<Rightarrow> elf64_phdr list" where
  "loadable img = filter (\<lambda>ph. p_type ph = PT_LOAD)
     (map (\<lambda>i. elf64_phdr_at img (load64 img 32 + 56 * of_nat i)) [0..<unat (load16 img 56)])"

text \<open>The segments lie in user space and do not overlap.\<close>

abbreviation seg_end :: "elf64_phdr \<Rightarrow> nat" where
  "seg_end ph \<equiv> unat (p_vaddr ph) + unat (p_memsz ph)"

definition elf_layout :: "elf64_phdr list \<Rightarrow> bool" where
  "elf_layout phs \<longleftrightarrow> (\<forall>ph \<in> set phs. seg_end ph \<le> 2 ^ 47) \<and>
     sorted_wrt (\<lambda>p q. seg_end p \<le> unat (p_vaddr q) \<or> seg_end q \<le> unat (p_vaddr p)) phs"

definition seg_addrs :: "elf64_phdr list \<Rightarrow> u64 set" where
  "seg_addrs phs = {p_vaddr ph + b |ph b. ph \<in> set phs \<and> b < p_memsz ph}"

definition seg_byte :: "memory \<Rightarrow> elf64_phdr \<Rightarrow> u64 \<Rightarrow> u8" where
  "seg_byte img ph b = (if b < p_filesz ph then img (p_offset ph + b) else 0)"

definition seg_bytes :: "memory \<Rightarrow> elf64_phdr \<Rightarrow> (u64 \<times> u8) list" where
  "seg_bytes img ph = map (\<lambda>b. (p_vaddr ph + of_nat b, seg_byte img ph (of_nat b))) [0..<unat (p_memsz ph)]"

lemma load_segments_put_all:
  "load_segments pml4 img s = put_all pml4 (concat (map (seg_bytes img) (loadable img))) s"
proof -
  have seg: "load_segment pml4 img ph t = put_all pml4 (seg_bytes img ph) t" for ph t
    by (simp add: load_segment_def seg_bytes_def seg_byte_def fold_map comp_def)
  have "fold (\<lambda>i t. if p_type (P i) \<noteq> PT_LOAD then t else load_segment pml4 img (P i) t) is s =
      put_all pml4 (concat (map (seg_bytes img) (filter (\<lambda>ph. p_type ph = PT_LOAD) (map P is)))) s" for P "is" s
    by (induction "is" arbitrary: s) (simp_all add: seg)
  moreover have "ph_entry img = (\<lambda>i. elf64_phdr_at img (load64 img 32 + 56 * of_nat i))"
    by (simp add: ph_entry_def elf64_ehdr_at_def sizeof_elf64_phdr_def fun_eq_iff)
  ultimately show ?thesis by (simp add: load_segments_def loadable_def elf64_ehdr_at_def cong: if_cong)
qed

lemma seg_unat: "\<lbrakk>seg_end ph \<le> 2 ^ 47; b < unat (p_memsz ph)\<rbrakk> \<Longrightarrow> unat (p_vaddr ph + of_nat b) = unat (p_vaddr ph) + b"
  by (subst unat_add_of_nat) simp_all

lemma seg_bytes_fst:
  assumes "seg_end ph \<le> 2 ^ 47" "a \<in> fst ` set (seg_bytes img ph)"
  shows "unat (p_vaddr ph) \<le> unat a" "unat a < seg_end ph"
  using assms seg_unat [OF assms(1)] by (auto simp: seg_bytes_def)

lemma seg_bytes_distinct:
  assumes "elf_layout phs"
  shows "distinct (map fst (concat (map (seg_bytes img) phs)))"
  using assms
proof (induction phs)
  case (Cons ph phs)
  have b: "seg_end q \<le> 2 ^ 47" if "q \<in> set (ph # phs)" for q using Cons.prems that by (auto simp: elf_layout_def)
  have "inj_on (\<lambda>b. p_vaddr ph + of_nat b) {0..<unat (p_memsz ph)}"
    by (rule inj_on_inverseI [where g = "\<lambda>a. unat a - unat (p_vaddr ph)"]) (use seg_unat [OF b] in simp)
  then have "distinct (map fst (seg_bytes img ph))" by (simp add: seg_bytes_def comp_def distinct_map)
  moreover have "fst ` set (seg_bytes img ph) \<inter> fst ` set (seg_bytes img q) = {}" if q: "q \<in> set phs" for q
  proof -
    have "seg_end ph \<le> unat (p_vaddr q) \<or> seg_end q \<le> unat (p_vaddr ph)"
      using Cons.prems q by (auto simp: elf_layout_def)
    moreover have "seg_end ph \<le> 2 ^ 47" "seg_end q \<le> 2 ^ 47" using b q by simp_all
    ultimately have "a \<notin> fst ` set (seg_bytes img q)" if "a \<in> fst ` set (seg_bytes img ph)" for a
      using seg_bytes_fst [OF _ that] seg_bytes_fst [of q a img] by linarith
    then show ?thesis by blast
  qed
  then have "fst ` set (seg_bytes img ph) \<inter> fst ` set (concat (map (seg_bytes img) phs)) = {}"
    by (simp add: image_UN Int_UN_distrib)
  moreover have "elf_layout phs" using Cons.prems by (simp add: elf_layout_def)
  ultimately show ?case using Cons.IH by simp
qed simp

lemma seg_bytes_user:
  assumes "elf_layout phs" "(v, x) \<in> set (concat (map (seg_bytes img) phs))"
  shows "v < USER_SPACE_END \<and> v \<in> seg_addrs phs"
proof -
  obtain ph b where ph: "ph \<in> set phs" "b < unat (p_memsz ph)" "v = p_vaddr ph + of_nat b"
    using assms(2) by (auto simp: seg_bytes_def)
  have e: "seg_end ph \<le> 2 ^ 47" using assms(1) ph(1) by (simp add: elf_layout_def)
  have "unat v < 2 ^ 47" using seg_unat [OF e ph(2)] e ph by simp
  moreover have "(of_nat b :: u64) < p_memsz ph" using ph(2) by (simp add: word_less_nat_alt unat_of_nat)
  ultimately show ?thesis using ph by (auto simp: seg_addrs_def USER_SPACE_END_def word_less_nat_alt)
qed

text \<open>What loading the segments does.\<close>

lemma load_segments_result:
  fixes s :: "'a vmm_state_scheme"
  assumes "user_ok s pml4" "elf_layout (loadable img)"
    and "4 * card (pages_of (seg_addrs (loadable img))) \<le> free_frames s"
  defines "s' \<equiv> load_segments pml4 img s"
  shows "user_ok s' pml4"
    "\<lbrakk>ph \<in> set (loadable img); b < p_memsz ph\<rbrakk> \<Longrightarrow> user_byte s' pml4 (p_vaddr ph + b) = Some (seg_byte img ph b)"
    "\<lbrakk>v < USER_SPACE_END; v \<notin> seg_addrs (loadable img); user_byte s pml4 v = Some y\<rbrakk> \<Longrightarrow> user_byte s' pml4 v = Some y"
    "foreign s pml4 g \<Longrightarrow> foreign s' pml4 g \<and> same_frame g s s'"
    "free_frames s \<le> free_frames s' + 4 * card (pages_of (seg_addrs (loadable img)))"
    "page_of v \<notin> pages_of (seg_addrs (loadable img)) \<Longrightarrow> (leaf_of s' pml4 v = None) = (leaf_of s pml4 v = None)"
    "extends pml4 s s'"
proof -
  let ?ws = "concat (map (seg_bytes img) (loadable img))" and ?A = "seg_addrs (loadable img)"
  have r: "s' = put_all pml4 ?ws s" by (simp add: s'_def load_segments_put_all)
  have m: "card (us.missing pml4 s ?A) \<le> card (pages_of ?A)"
    unfolding us.missing_def pages_of_def by (rule card_mono) auto
  then have fr: "4 * card (us.missing pml4 s ?A) \<le> free_frames s" using assms(3) by simp
  have us: "\<forall>(v, x) \<in> set ?ws. v < USER_SPACE_END \<and> v \<in> ?A" using seg_bytes_user [OF assms(2)] by blast
  note p = us.put_all_correct [OF assms(1) seg_bytes_distinct [OF assms(2)] us fr, unfolded us.put_all_def, folded r]
  show "user_ok s' pml4" "foreign s pml4 g \<Longrightarrow> foreign s' pml4 g \<and> same_frame g s s'"
    "page_of v \<notin> pages_of ?A \<Longrightarrow> (leaf_of s' pml4 v = None) = (leaf_of s pml4 v = None)" "extends pml4 s s'"
    using p unfolding pages_of_def by blast+
  show "free_frames s \<le> free_frames s' + 4 * card (pages_of ?A)" using p m by linarith
  show "user_byte s' pml4 (p_vaddr ph + b) = Some (seg_byte img ph b)" if "ph \<in> set (loadable img)" "b < p_memsz ph"
  proof -
    have "unat b \<in> {0..<unat (p_memsz ph)}" using that(2) by (simp add: word_less_nat_alt)
    then have "(p_vaddr ph + b, seg_byte img ph b) \<in> set (seg_bytes img ph)"
      unfolding seg_bytes_def by (auto intro: rev_image_eqI [of "unat b"])
    then have "(p_vaddr ph + b, seg_byte img ph b) \<in> set ?ws" using that(1) by auto
    then show ?thesis using p by blast
  qed
  have "fst ` set ?ws \<subseteq> ?A" using us by (fastforce simp del: set_concat)
  then show "user_byte s' pml4 v = Some y" if "v < USER_SPACE_END" "v \<notin> ?A" "user_byte s pml4 v = Some y"
    using p that by blast
qed

lemma elf_load_result:
  "elf_load pml4 img n s = (if elf_header_ok img n then (load64 img 24, load_segments pml4 img s) else (0, s))"
  by (auto simp: elf_load_def elf_header_ok_def elf64_ehdr_at_def sizeof_elf64_ehdr_def
      ELF_MAGIC0_def ELF_MAGIC1_def ELF_MAGIC2_def ELF_MAGIC3_def Let_def)

text \<open>
  C19. Loading a program. An image that is too short or has a wrong magic number, class, type or machine is
  refused: the result is 0 and nothing has changed. Otherwise the result is the entry point, and
  afterwards every byte of every loadable segment can be read at its virtual address: the bytes
  present in the file followed by zeros up to the size in memory. Other bytes that were mapped keep
  their values, the address space stays well formed, and no frame that belongs to someone else
  (the kernel, the frame's owner in another address space, any table outside this one) changes. It takes
  four free frames for each page of the segments, which must be disjoint and lie in user space.
\<close>

theorem elf_load_correct:
  fixes s :: "'a vmm_state_scheme"
  assumes "user_ok s pml4" "elf_layout (loadable img)"
    and "4 * card (pages_of (seg_addrs (loadable img))) \<le> free_frames s"
    and "elf_load pml4 img n s = (entry, s')"
  shows "if elf_header_ok img n
    then entry = load64 img 24 \<and> user_ok s' pml4 \<and>
      (\<forall>ph \<in> set (loadable img). \<forall>b < p_memsz ph. user_byte s' pml4 (p_vaddr ph + b) =
         Some (if b < p_filesz ph then img (p_offset ph + b) else 0)) \<and>
      (\<forall>v < USER_SPACE_END. \<forall>y. v \<notin> seg_addrs (loadable img) \<longrightarrow> user_byte s pml4 v = Some y \<longrightarrow>
         user_byte s' pml4 v = Some y) \<and>
      (\<forall>g. foreign s pml4 g \<longrightarrow> foreign s' pml4 g \<and> same_frame g s s')
    else entry = 0 \<and> s' = s"
proof (cases "elf_header_ok img n")
  case True
  then have r: "entry = load64 img 24" "s' = load_segments pml4 img s" using assms(4) by (simp_all add: elf_load_result)
  show ?thesis
    using True r(1) load_segments_result(1-4) [OF assms(1-3), folded r(2)] unfolding seg_byte_def by simp
qed (use assms(4) in \<open>simp add: elf_load_result\<close>)

text \<open>A program of two bytes, an endless loop, and two zeros, loaded into the small machine.\<close>

definition elf_example :: memory where
  "elf_example = (\<lambda>_. 0)(0 := 0x7F, 1 := 0x45, 2 := 0x4C, 3 := 0x46, 4 := 2, 16 := 2, 18 := 0x3E,
     26 := 0x40, 32 := 64, 56 := 1, 64 := 1, 72 := 120, 82 := 0x40, 96 := 2, 104 := 4, 120 := 0xEB, 121 := 0xFE)"

lemma elf_example_loadable:
  "\<exists>ph. loadable elf_example = [ph] \<and> p_vaddr ph = 0x400000 \<and> p_memsz ph = 4 \<and> p_filesz ph = 2 \<and> p_offset ph = 120"
  by (simp add: loadable_def elf_example_def elf64_phdr_at_def load16_def load32_def load64_def PT_LOAD_def)

lemma word_less_4: "(b::u64) < 4 \<Longrightarrow> b = 0 \<or> b = 1 \<or> b = 2 \<or> b = 3"
  unfolding word_less_nat_alt word_unat_eq_iff by simp linarith

lemma elf_example_facts:
  "elf_layout (loadable elf_example)" "pages_of (seg_addrs (loadable elf_example)) \<subseteq> {0x400000}"
  "card (pages_of (seg_addrs (loadable elf_example))) \<le> 1"
  "elf_header_ok elf_example 122" "load64 elf_example 24 = 0x400000" "elf_example 121 = 0xFE"
proof -
  obtain ph where ph: "loadable elf_example = [ph]" "p_vaddr ph = 0x400000" "p_memsz ph = 4"
    using elf_example_loadable by blast
  show "elf_layout (loadable elf_example)" by (simp add: elf_layout_def ph)
  show sub: "pages_of (seg_addrs (loadable elf_example)) \<subseteq> {0x400000}"
    unfolding ph(1) by (auto simp: pages_of_def seg_addrs_def ph dest!: word_less_4)
  from card_mono [OF _ this] show "card (pages_of (seg_addrs (loadable elf_example))) \<le> 1" by simp
  show "elf_header_ok elf_example 122" "load64 elf_example 24 = 0x400000" "elf_example 121 = 0xFE"
    by (simp_all add: elf_header_ok_def elf_example_def load16_def load64_def)
qed

lemma vmm_example_free_frames: "9 \<le> free_frames vmm_example"
proof -
  have "{4, 5, 7, 8, 9, 10, 11, 12, 13} \<subseteq> {1..<unat (total_frames vmm_example)} - used_set vmm_example"
    unfolding vmm_example_used by (simp add: vmm_example_def)
  from card_mono [OF _ this] show ?thesis by (simp add: free_frames_def)
qed

theorem elf_load_correct_witness:
  "\<exists>s'. elf_load 0x2000 elf_example 122 vmm_example = (0x400000, s') \<and>
     user_byte s' 0x2000 0x400001 = Some 0xFE \<and> user_byte s' 0x2000 0x400002 = Some 0"
proof -
  obtain ph where ph: "loadable elf_example = [ph]" "p_vaddr ph = 0x400000" "p_memsz ph = 4" "p_filesz ph = 2"
    "p_offset ph = 120" using elf_example_loadable by blast
  obtain entry s' where r: "elf_load 0x2000 elf_example 122 vmm_example = (entry, s')" by fastforce
  have ok: "user_ok vmm_example 0x2000" using vmm_example_pt_ok by (simp add: user_ok_def vmm_example_leaf)
  note h = elf_example_facts(4,5) and b = elf_example_facts(6)
  have fr: "4 * card (pages_of (seg_addrs (loadable elf_example))) \<le> free_frames vmm_example"
    using elf_example_facts(3) vmm_example_free_frames by linarith
  note c = elf_load_correct [OF ok elf_example_facts(1) fr r, unfolded ph(1), simplified h(1) if_True]
  have "user_byte s' 0x2000 (0x400000 + k) = Some (if k < 2 then elf_example (120 + k) else 0)" if "k < 4" for k
    using bspec [OF conjunct1 [OF conjunct2 [OF conjunct2 [OF c]]], of ph] that by (simp only: ph list.set) simp
  from this [of 1] this [of 2] show ?thesis using c r h(2) b by simp
qed

end
