(* ===== verification/Process.thy ===== *)
theory Process
  imports ElfSpec SchedExample Vfs
begin

text \<open>
  Starting programs, from \<^verbatim>\<open>kernel/main.c\<close>: \<open>load_program\<close> brings a file into a heap buffer and
  \<open>spawn_user_process\<close> makes a task of an image. It is where the file system, the heap, the page tables, the
  ELF loader and the scheduler meet. A null pointer is 0; \<open>None\<close> is a list walk that never ends.
\<close>

definition USER_STACK_VADDR :: u64 where
  "USER_STACK_VADDR = 0x0000000200000000"

definition spawn_user_process ::
  "code \<Rightarrow> memory \<Rightarrow> u64 \<Rightarrow> 'a sched_state_scheme \<Rightarrow> (u64 \<times> 'a sched_state_scheme) option" where
  "spawn_user_process c img n s =
     (let (pml4, s) = vmm_create_address_space s;
          (entry, s) = elf_load pml4 img n s
      in if entry = 0 then Some (0, snd (vmm_destroy_address_space pml4 s))
         else
           let (sframe, s) = pmm_alloc_frame s;
               s = vmm_map_page_in pml4 USER_STACK_VADDR sframe (PAGE_WRITABLE OR PAGE_USER) s
           in task_create_user c entry pml4 (USER_STACK_VADDR + 4096) s)"

text \<open>
  The buffer on the heap as the list of bytes the file system fills. The result is the buffer, 0 on failure, and
  the size; a file of size 0 fails because \<open>kmalloc(0)\<close> is null.
\<close>

definition heap_bytes :: "u64 \<Rightarrow> nat \<Rightarrow> memory \<Rightarrow> u8 list" where
  "heap_bytes p n m = map (\<lambda>i. m (p + of_nat i)) [0..<n]"

definition put_bytes :: "u64 \<Rightarrow> u8 list \<Rightarrow> memory \<Rightarrow> memory" where
  "put_bytes p bs m = fold (\<lambda>i m. m(p + of_nat i := bs ! i)) [0..<length bs] m"

definition load_program ::
  "'st vfs_state \<Rightarrow> u8 list \<Rightarrow> vfs_file \<Rightarrow> 'st \<Rightarrow> 'a heap_state_scheme \<Rightarrow> ((u64 \<times> u64) \<times> 'st \<times> 'a heap_state_scheme) option" where
  "load_program v name file0 st s =
     (case vfs_open v name file0 st of ((r, file), st) \<Rightarrow>
      if r \<noteq> 0 then Some ((0, 0), st, s)
      else do {
        (buf, s) \<leftarrow> kmalloc (ucast (vf_size file)) s;
        if buf = 0 then Some ((0, 0), st, s)
        else case vfs_read v file (heap_bytes buf (unat (vf_size file)) (kmem s)) (vf_size file) st of ((k, bs), st) \<Rightarrow>
          let s = s\<lparr>kmem := put_bytes buf bs (kmem s)\<rparr>
          in if k \<noteq> sint (vf_size file) then Some ((0, 0), st, kfree buf s)
             else Some ((buf, ucast (vf_size file)), st, s)
      })"

section \<open>The heap and the scheduler are left alone\<close>

lemma ensure_more [simp]:
  "pmm_state.more (snd (ensure_user_page pml4 v s)) = pmm_state.more (s :: 'a vmm_state_scheme)"
  by (auto simp: ensure_user_page_def Let_def alloc_more split: prod.split)

lemma put_byte_more [simp]:
  "pmm_state.more (put_byte pml4 v x s) = pmm_state.more (s :: 'a vmm_state_scheme)"
  by (simp add: put_byte_def Let_def case_prod_beta)

lemma load_segments_more [simp]:
  "pmm_state.more (load_segments pml4 img s) = pmm_state.more (s :: 'a vmm_state_scheme)"
  unfolding load_segments_put_all by (rule fold_more) (simp split: prod.split)

text \<open>The heap operations and the scheduler's see no physical memory.\<close>

lemma kmalloc_cong:
  fixes s s' :: "'a heap_state_scheme"
  assumes "kmem s' = kmem s" "heap_head s' = heap_head s" "kmalloc n s = Some (p, t)"
  shows "kmalloc n s' = Some (p, s'\<lparr>kmem := kmem t\<rparr>)"
  using assms by (auto simp: kmalloc_def Let_def split: if_splits bind_splits)

lemma sched_cong:
  fixes s s' :: "'a sched_state_scheme"
  assumes "pmm_state.more s' = pmm_state.more s"
  shows "sched_inv s' ts = sched_inv s ts" "heap_ok s' = heap_ok s" "live s' = live s"
    "new_task_ok s' ts t stk pml4 frame s'' = new_task_ok s ts t stk pml4 frame s''"
proof -
  note m = more_fields [OF assms]
  have "nxt s' = nxt s" by (simp add: nxt_def fun_eq_iff m)
  then have "ring s' ts = ring s ts" by (simp add: ring_def m)
  then show "sched_inv s' ts = sched_inv s ts" by (simp add: sched_inv_def m)
  have "heap_rep s' = heap_rep s" by (simp add: heap_rep_def fun_eq_iff m)
  then show "heap_ok s' = heap_ok s" "live s' = live s" by (simp_all add: heap_ok_def live_def m)
  then show "new_task_ok s' ts t stk pml4 frame s'' = new_task_ok s ts t stk pml4 frame s''"
    by (simp add: new_task_ok_def m)
qed

lemma task_create_user_vmm:
  assumes "task_create_user c entry pml4 ustk s = Some (t, s')"
  shows "vmm_state.truncate s' = vmm_state.truncate s"
proof -
  have k: "vmm_state.truncate s' = vmm_state.truncate s" if "kmalloc n s = Some (p, s')" for n p and s s' :: "'a sched_state_scheme"
    by (subst kmalloc_kmem [OF that], rule truncate_upd(1))
  show ?thesis
    using assms by (auto simp: task_create_user_def task_append_def Let_def split: bind_splits prod.splits dest!: k)
qed

section \<open>A new address space for a program\<close>

lemma create_user:
  fixes s :: "'a vmm_state_scheme"
  assumes ok: "pt_ok s (kernel_pml4 s)" and fr: "0 < free_frames s" and r: "vmm_create_address_space s = (new, s')"
  shows "user_ok s' new" "leaf_of s' new v = None \<or> \<not> v < USER_SPACE_END" "free_frames s \<le> Suc (free_frames s')"
    "accounts (used_set s) s' new" "untouched (used_set s) s s'"
proof -
  note w = create_walk [OF ok fr r]
  have kf: "table_frame s (kernel_pml4 s)" using pt_okD(2) [OF ok, of "[]"] by simp
  note c = create_tables [OF pt_okD(1) [OF ok] kf fr r]
  have l: "leaf_of s' new v = None" if "v < USER_SPACE_END" for v
    using w [of "[PML4_INDEX v, PDPT_INDEX v, PD_INDEX v]"] w [of "[PML4_INDEX v, PDPT_INDEX v]"] user_index_less [OF that]
    by (simp add: leaf_def)
  then show "leaf_of s' new v = None \<or> \<not> v < USER_SPACE_END" by blast
  show "user_ok s' new" using create_pt_ok [OF ok fr r] l by (simp add: user_ok_def)
  have tot: "total_frames s' = total_frames s" using c(7) by (simp add: touches_def)
  have "{1..<unat (total_frames s)} - used_set s \<subseteq> insert (unat new div 4096) ({1..<unat (total_frames s')} - used_set s')"
    using c(5) tot by auto
  from card_mono [OF _ this] show "free_frames s \<le> Suc (free_frames s')"
    by (simp add: free_frames_def card_insert_if split: if_splits)
  show "accounts (used_set s) s' new" "untouched (used_set s) s s'"
    by (rule create_accounts [OF ok fr r new_space_owned(1) [OF ok fr r]])+
qed

lemma user_cong:
  fixes s s' :: "'a vmm_state_scheme"
  assumes "vmm_state.truncate s' = vmm_state.truncate s"
  shows "ram s' = ram s" "user_ok s' p = user_ok s p" "user_ok s p \<Longrightarrow> v < USER_SPACE_END \<Longrightarrow> user_byte s' p v = user_byte s p v"
proof -
  have ram: "ram (vmm_state.truncate t) = ram t" for t :: "'a vmm_state_scheme" by (simp add: vmm_state.truncate_def)
  show r: "ram s' = ram s" using ram [of s] ram [of s'] assms by simp
  have g: "table_get s' = table_get s" "table_frame s' = table_frame s" "mem_ok s' = mem_ok s"
    using vmm_truncate [of s] vmm_truncate [of s'] assms by simp_all
  have w: "walk s' t q = walk s t q" for t q by (induction q arbitrary: t) (simp_all add: walk.simps g Let_def)
  have l: "leaf s' p a b c d = leaf s p a b c d" for a b c d
    using leaf_truncate [of s p a b c d] leaf_truncate [of s' p a b c d] assms by simp
  have d: "data_frame s' p = data_frame s p" by (simp add: data_frame_def fun_eq_iff w g)
  show u: "user_ok s' p = user_ok s p" by (simp add: user_ok_def pt_ok_def w g l d)
  show "user_byte s' p v = user_byte s p v" if "user_ok s p" "v < USER_SPACE_END"
    using user_byte_leaf [OF that] user_byte_leaf [of s' p v] that by (simp add: u l r cong: option.case_cong)
qed

lemma ensure_keeps_bytes:
  fixes s s' :: "'a vmm_state_scheme"
  assumes "user_ok s pml4" "user_ok s' pml4" "\<And>w l. leaf_of s pml4 w = Some l \<Longrightarrow> leaf_of s' pml4 w = Some l"
    and "\<And>g. data_frame s pml4 g \<Longrightarrow> same_frame g s s'" and v: "v < USER_SPACE_END" "user_byte s pml4 v = Some y"
  shows "user_byte s' pml4 v = Some y"
proof -
  obtain h e where l: "leaf_of s pml4 v = Some (h, e)" using v user_byte_leaf [OF assms(1) v(1)] by (auto split: option.splits)
  have "same_frame (ENTRY_ADDR e) s s'" using assms(4) user_okD(3) [OF assms(1) v(1) l] by simp
  then show ?thesis
    using user_byte_leaf [OF assms(1) v(1)] user_byte_leaf [OF assms(2) v(1)] assms(3) [OF l] l v(2)
    by (simp add: same_frame_def)
qed

lemma seg_addr_user:
  assumes "elf_layout phs" "ph \<in> set phs" "b < p_memsz ph"
  shows "p_vaddr ph + b < USER_SPACE_END"
proof -
  have e: "seg_end ph \<le> 2 ^ 47" using assms by (simp add: elf_layout_def)
  have "unat (p_vaddr ph + b) = unat (p_vaddr ph) + unat b"
    using e assms(3) by (intro unat_add_nowrap) (simp add: word_less_nat_alt)
  then show ?thesis using e assms(3) by (simp add: USER_SPACE_END_def word_less_nat_alt)
qed

section \<open>A program becomes a process\<close>

text \<open>The address space of a process: its image, its stack, and the frames of others untouched.\<close>

lemma spawn_memory:
  fixes s :: "'a vmm_state_scheme"
  assumes ok: "pt_ok s (kernel_pml4 s)" and lay: "elf_layout (loadable img)"
    and stack: "USER_STACK_VADDR \<notin> pages_of (seg_addrs (loadable img))"
    and fr: "4 * card (pages_of (seg_addrs (loadable img))) + 5 \<le> free_frames s"
    and r: "vmm_create_address_space s = (pml4, s1)" "load_segments pml4 img s1 = s2" "pmm_alloc_frame s2 = (f, s3)"
      "vmm_map_page_in pml4 USER_STACK_VADDR f (PAGE_WRITABLE OR PAGE_USER) s3 = s'"
  shows "user_ok s' pml4" "pmm_state.more s' = pmm_state.more s"
    "\<lbrakk>ph \<in> set (loadable img); b < p_memsz ph\<rbrakk> \<Longrightarrow> user_byte s' pml4 (p_vaddr ph + b) = Some (seg_byte img ph b)"
    "\<lbrakk>page_of v = USER_STACK_VADDR; v < USER_SPACE_END\<rbrakk> \<Longrightarrow> user_byte s' pml4 v \<noteq> None"
    "accounts (used_set s) s' pml4" "untouched (used_set s) s s'"
proof -
  let ?A = "seg_addrs (loadable img)"
  have fr0: "0 < free_frames s" using fr by simp
  note cu = create_user [OF ok fr0 r(1)]
  have fr1: "4 * card (pages_of ?A) \<le> free_frames s1" using cu(3) fr by simp
  note ls = load_segments_result [OF cu(1) lay fr1, unfolded r(2)]
  have fr2: "4 \<le> free_frames s2" using ls(5) cu(3) fr by simp
  have su: "USER_STACK_VADDR < USER_SPACE_END" "page_of USER_STACK_VADDR = USER_STACK_VADDR"
    "ALIGN_DOWN USER_STACK_VADDR 4096 = USER_STACK_VADDR"
    by (simp_all add: USER_STACK_VADDR_def USER_SPACE_END_def ALIGN_DOWN_def)
  have l2: "leaf_of s2 pml4 USER_STACK_VADDR = None"
    using ls(6) [of USER_STACK_VADDR] cu(2) [of USER_STACK_VADDR] su stack by simp
  then have "vmm_get_phys_in pml4 USER_STACK_VADDR s2 = 0"
    using get_phys_leaf [OF user_okD(1) [OF ls(1)], of USER_STACK_VADDR] by (simp add: page_addr_def)
  then have en: "ensure_user_page pml4 USER_STACK_VADDR s2 = (phys_to_virt f, s')"
    using r(3,4) su(3) by (simp add: ensure_user_page_def)
  obtain e where ok': "user_ok s' pml4" and l': "leaf_of s' pml4 USER_STACK_VADDR = Some (False, e)"
    and keep: "\<And>w l. leaf_of s2 pml4 w = Some l \<Longrightarrow> leaf_of s' pml4 w = Some l"
    and data: "\<And>g. data_frame s2 pml4 g \<Longrightarrow> same_frame g s2 s'" and ext: "extends pml4 s2 s'"
    by (rule ensure_page [OF ls(1) su(1) fr2 en]) blast
  show "user_ok s' pml4" by (rule ok')
  show "pmm_state.more s' = pmm_state.more s"
    using create_more [of s] ensure_more [of pml4 USER_STACK_VADDR s2] load_segments_more [of pml4 img s1] r(1,2) en by simp
  show "user_byte s' pml4 (p_vaddr ph + b) = Some (seg_byte img ph b)" if "ph \<in> set (loadable img)" "b < p_memsz ph"
  proof -
    have "p_vaddr ph + b < USER_SPACE_END" by (rule seg_addr_user [OF lay that])
    then show ?thesis using ls(2) [OF that] by (intro ensure_keeps_bytes [OF ls(1) ok' keep data])
  qed
  show "user_byte s' pml4 v \<noteq> None" if "page_of v = USER_STACK_VADDR" "v < USER_SPACE_END"
    using user_byte_leaf [OF ok' that(2)] l' leaf_same_page [of v USER_STACK_VADDR s' pml4] that(1) su(2) by simp
  note ex = extendsD [OF extends_trans [OF ls(7) ext] cu(4)]
  show "accounts (used_set s) s' pml4" by (rule ex(1))
  show "untouched (used_set s) s s'" by (rule untouched_trans [OF cu(5) ex(2)])
qed

lemma user_pages_in_ram:
  assumes "user_ok s pml4"
  shows "pages_in_ram s pml4"
  unfolding pages_in_ram_def
proof (intro allI impI)
  fix a b c d e assume i: "a < 256" "b < 512" "c < 512" "d < 512" "leaf s pml4 a b c d = Some (False, e)"
  obtain v where v: "v < USER_SPACE_END" "PML4_INDEX v = a" "PDPT_INDEX v = b" "PD_INDEX v = c" "PT_INDEX v = d"
    by (rule user_address [OF i(1-4)])
  then have "table_frame s (ENTRY_ADDR e)" using user_okD(3) [OF assms v(1), of False e] i(5) by (simp add: data_frame_def)
  then have f: "frame_no (ENTRY_ADDR e) < unat (total_frames s)" "unat (ENTRY_ADDR e) mod 4096 = 0"
    using used_set_bound by (auto simp: table_frame_def)
  then have "Suc (frame_no (ENTRY_ADDR e)) * 4096 \<le> unat (total_frames s) * 4096" by (intro mult_le_mono1) simp
  then show "in_ram s (ENTRY_ADDR e)" using f(2) by auto
qed

lemma spawn_fails:
  fixes s :: "'a sched_state_scheme"
  assumes ok: "pt_ok s (kernel_pml4 s)" and lay: "elf_layout (loadable img)"
    and fr: "4 * card (pages_of (seg_addrs (loadable img))) + 5 \<le> free_frames s"
    and cr: "frame_no (cr3 s AND 0x000FFFFFFFFFF000) \<in> used_set s"
    and bad: "\<not> (elf_header_ok img n \<and> load64 img 24 \<noteq> 0)"
  shows "\<exists>s'. spawn_user_process c img n s = Some (0, s') \<and> pmm_state.more s' = pmm_state.more s \<and>
    used_set s' = used_set s \<and> untouched (used_set s) s s' \<and> mem_ok s'"
proof -
  obtain pml4 s1 where r: "vmm_create_address_space s = (pml4, s1)" by fastforce
  define s2 where "s2 = snd (elf_load pml4 img n s1)"
  obtain k s' where d: "vmm_destroy_address_space pml4 s2 = (k, s')" by fastforce
  have "fst (elf_load pml4 img n s1) = 0" using bad by (auto simp: elf_load_result)
  then have e: "spawn_user_process c img n s = Some (0, s')"
    using r d by (simp add: spawn_user_process_def case_prod_beta Let_def s2_def)
  have m2: "pmm_state.more s2 = pmm_state.more s" using create_more [of s] r by (simp add: elf_load_result s2_def split: if_splits)
  then have m: "pmm_state.more s' = pmm_state.more s" using destroy_more [of pml4 s2] d by simp
  have fr0: "0 < free_frames s" using fr by simp
  note cu = create_user [OF ok fr0 r]
  have fr1: "4 * card (pages_of (seg_addrs (loadable img))) \<le> free_frames s1" using cu(3) fr by simp
  note ls = load_segments_result [OF cu(1) lay fr1]
  have "user_ok s2 pml4 \<and> extends pml4 s1 s2" using ls(1,7) cu(1) by (simp add: s2_def elf_load_result)
  then have s2: "user_ok s2 pml4" "accounts (used_set s) s2 pml4" "untouched (used_set s) s s2"
    using extendsD [of pml4 s1 s2, OF _ cu(4)] untouched_trans [OF cu(5)] by auto
  have "frame_no (kernel_pml4 s2) \<in> used_set s" "frame_no (cr3 s2 AND 0x000FFFFFFFFFF000) \<in> used_set s"
    using pt_okD(2) [OF ok, of "[]"] cr more_fields(1,2) [OF m2] by (simp_all add: table_frame_def)
  note dr = destroy_restores [OF user_okD(1) [OF s2(1)] user_pages_in_ram [OF s2(1)] s2(2) this d]
  have u: "untouched (used_set s) s s'" by (rule untouched_trans [OF s2(3) dr(1)])
  then have "mem_ok s'" using restored_mem_ok [OF pt_okD(1) [OF ok]] dr(2,3) by blast
  then show ?thesis using e m dr(3) u by blast
qed

lemma untouched_used: "untouched (used_set s) s s' \<Longrightarrow> table_frame s g \<Longrightarrow> same_frame g s s'"
  by (simp add: untouched_def table_frame_def)

lemma spawn_result:
  fixes s :: "'a sched_state_scheme"
  assumes "sched_inv s ts" "heap_ok s" "\<forall>x \<in> set ts. live s x \<noteq> None"
    and "kmalloc TASK_SIZE s = Some (t, u1)" "t \<noteq> 0" "kmalloc STACK_SIZE u1 = Some (stk, u2)" "stk \<noteq> 0"
    and "pt_ok s (kernel_pml4 s)" "elf_layout (loadable img)" "USER_STACK_VADDR \<notin> pages_of (seg_addrs (loadable img))"
    and "4 * card (pages_of (seg_addrs (loadable img))) + 5 \<le> free_frames s"
    and "frame_no (cr3 s AND 0x000FFFFFFFFFF000) \<in> used_set s"
  shows "\<exists>p s'. spawn_user_process c img n s = Some (p, s') \<and> pt_ok s' (kernel_pml4 s') \<and> kernel_pml4 s' = kernel_pml4 s \<and>
    untouched (used_set s) s s' \<and>
    (if elf_header_ok img n \<and> load64 img 24 \<noteq> 0
     then p = t \<and> (\<exists>pml4. new_task_ok s ts t stk pml4
        [0, 0, 0, 0, 0, 0, c_user_entry_trampoline c, load64 img 24, USER_STACK_VADDR + 4096] s' \<and>
      user_ok s' pml4 \<and>
      (\<forall>ph \<in> set (loadable img). \<forall>b < p_memsz ph. user_byte s' pml4 (p_vaddr ph + b) =
         Some (if b < p_filesz ph then img (p_offset ph + b) else 0)) \<and>
      (\<forall>v < USER_SPACE_END. page_of v = USER_STACK_VADDR \<longrightarrow> user_byte s' pml4 v \<noteq> None) \<and>
      accounts (used_set s) s' pml4)
     else p = 0 \<and> pmm_state.more s' = pmm_state.more s \<and> used_set s' = used_set s)"
proof (cases "elf_header_ok img n \<and> load64 img 24 \<noteq> 0")
  case True
  obtain pml4 s1 where r1: "vmm_create_address_space s = (pml4, s1)" by fastforce
  obtain f s2 where r2: "pmm_alloc_frame (load_segments pml4 img s1) = (f, s2)" by fastforce
  define s3 where "s3 = vmm_map_page_in pml4 USER_STACK_VADDR f (PAGE_WRITABLE OR PAGE_USER) s2"
  note m = spawn_memory [OF assms(8-11) r1 refl r2 s3_def [symmetric]]
  note mf = more_fields [OF m(2)] and sc = sched_cong [OF m(2)]
  have k1: "kmalloc TASK_SIZE s3 = Some (t, s3\<lparr>kmem := kmem u1\<rparr>)" by (rule kmalloc_cong [OF mf(3,4) assms(4)])
  have h: "heap_head u1 = heap_head s" by (subst kmalloc_kmem [OF assms(4)]) simp
  have k2: "kmalloc STACK_SIZE (s3\<lparr>kmem := kmem u1\<rparr>) = Some (stk, s3\<lparr>kmem := kmem u1, kmem := kmem u2\<rparr>)"
    by (rule kmalloc_cong [OF _ _ assms(6)]) (simp_all add: h mf(4))
  obtain s' where s': "task_create_user c (load64 img 24) pml4 (USER_STACK_VADDR + 4096) s3 = Some (t, s')"
    "new_task_ok s ts t stk pml4 [0, 0, 0, 0, 0, 0, c_user_entry_trampoline c, load64 img 24, USER_STACK_VADDR + 4096] s'"
    using task_create_user_result [OF _ _ _ k1 assms(5) k2 assms(7), of ts c "load64 img 24" pml4 "USER_STACK_VADDR + 4096"]
      assms(1-3) unfolding sc by blast
  have e: "spawn_user_process c img n s = Some (t, s')"
    using True r1 r2 s'(1) by (simp add: spawn_user_process_def elf_load_result s3_def)
  note tv = task_create_user_vmm [OF s'(1)]
  note uc = user_cong [OF tv] and vc = vmm_cong [OF tv] and rt = reap_truncate(1) [of s3 pml4] reap_truncate(1) [of s' pml4]
  have seg: "user_byte s' pml4 (p_vaddr ph + b) = Some (if b < p_filesz ph then img (p_offset ph + b) else 0)"
    if "ph \<in> set (loadable img)" "b < p_memsz ph" for ph b
    using m(3) [OF that] seg_addr_user [OF assms(9) that] uc(3) [OF m(1)] by (simp add: seg_byte_def)
  have st: "user_byte s' pml4 v \<noteq> None" if "v < USER_SPACE_END" "page_of v = USER_STACK_VADDR" for v
    using m(4) [OF that(2,1)] uc(3) [OF m(1) that(1)] by simp
  have "pt_ok s3 (kernel_pml4 s)" using untouched_pt_ok(1) [OF assms(8) m(6) pt_okD(1) [OF user_okD(1) [OF m(1)]]] .
  then have "pt_ok s' (kernel_pml4 s')" "kernel_pml4 s' = kernel_pml4 s" using vc(1,3) mf(1) by simp_all
  moreover have "untouched (used_set s) s s'" using m(6) untouched_truncate(2) [OF tv] by simp
  moreover have "accounts (used_set s) s' pml4" using m(5) vc(4) rt tv by (simp add: accounts_def)
  moreover have "user_ok s' pml4" using m(1) uc(2) by simp
  ultimately show ?thesis using True e s'(2) seg st by auto
next
  case False
  obtain s' where s': "spawn_user_process c img n s = Some (0, s')" "pmm_state.more s' = pmm_state.more s"
    "used_set s' = used_set s" "untouched (used_set s) s s'" "mem_ok s'"
    using spawn_fails [OF assms(8,9,11,12) False] by blast
  have "pt_ok s' (kernel_pml4 s')" "kernel_pml4 s' = kernel_pml4 s"
    using untouched_pt_ok(1) [OF assms(8) s'(4,5)] more_fields(1) [OF s'(2)] by simp_all
  then show ?thesis using False s' by auto
qed

text \<open>The example system has what starting the example program needs.\<close>

lemma spawn_example_ready:
  assumes "vmm_state.truncate s = vmm_state.truncate sys_example"
  shows "pt_ok s (kernel_pml4 s)" "USER_STACK_VADDR \<notin> pages_of (seg_addrs (loadable elf_example))"
    "4 * card (pages_of (seg_addrs (loadable elf_example))) + 5 \<le> free_frames s"
    "frame_no (cr3 s AND 0x000FFFFFFFFFF000) \<in> used_set s" "used_set s = {0, 1, 2, 3, 6}" "9 \<le> free_frames s"
proof -
  have "vmm_state.truncate s = vmm_state.truncate vmm_example"
    unfolding assms by (simp add: vmm_state.truncate_def sys_example_def) (simp add: vmm_example_def)
  note c = vmm_cong [OF this] and t = reap_truncate(3) [of s] reap_truncate(3) [of vmm_example] this
  have v: "kernel_pml4 vmm_example = 0x2000" "cr3 vmm_example = 0x2000" by (simp_all add: vmm_example_def)
  note e = elf_example_facts
  show "pt_ok s (kernel_pml4 s)" using c(1,3) v vmm_example_pt_ok by simp
  show u: "used_set s = {0, 1, 2, 3, 6}" by (simp add: c(4) vmm_example_used)
  show "frame_no (cr3 s AND 0x000FFFFFFFFFF000) \<in> used_set s" using t v by (simp add: u)
  show "USER_STACK_VADDR \<notin> pages_of (seg_addrs (loadable elf_example))" using e(2) by (auto simp: USER_STACK_VADDR_def)
  show "9 \<le> free_frames s" unfolding c(2) by (rule vmm_example_free_frames)
  show "4 * card (pages_of (seg_addrs (loadable elf_example))) + 5 \<le> free_frames s"
    unfolding c(2) using e(3) vmm_example_free_frames by linarith
qed

text \<open>
  C18. Starting a process. On a machine with a free task structure and kernel stack on the heap, five free frames
  and four more for each page of the image, \<open>spawn_user_process\<close> of a valid executable whose segments are disjoint, in
  user space and clear of the stack page returns a new task. The task joins the scheduler's ring as ready, with a
  kernel stack from which the first switch enters the program at its entry point with the user stack below
  8 GB + 4 KB. In its address space every segment can be read byte for byte, zero filled, and the
  stack page is mapped. The frames taken are exactly those the new address space owns, no frame that was in use has changed, and
  the kernel's tables are as well formed as before. When loading fails there is no task, the heap and the scheduler are as
  before, and every frame taken has been given back.
\<close>

theorem spawn_user_process_correct:
  fixes s :: "'a sched_state_scheme"
  assumes "sched_inv s ts" "heap_ok s" "\<forall>x \<in> set ts. live s x \<noteq> None"
    and "kmalloc TASK_SIZE s = Some (t, u1)" "t \<noteq> 0" "kmalloc STACK_SIZE u1 = Some (stk, u2)" "stk \<noteq> 0"
    and "pt_ok s (kernel_pml4 s)" "elf_layout (loadable img)" "USER_STACK_VADDR \<notin> pages_of (seg_addrs (loadable img))"
    and "4 * card (pages_of (seg_addrs (loadable img))) + 5 \<le> free_frames s"
    and "frame_no (cr3 s AND 0x000FFFFFFFFFF000) \<in> used_set s"
  shows "\<exists>p s'. spawn_user_process c img n s = Some (p, s') \<and> pt_ok s' (kernel_pml4 s') \<and>
    (\<forall>g. table_frame s g \<longrightarrow> same_frame g s s') \<and>
    (if elf_header_ok img n \<and> load64 img 24 \<noteq> 0
     then p = t \<and> (\<exists>pml4. new_task_ok s ts t stk pml4
        [0, 0, 0, 0, 0, 0, c_user_entry_trampoline c, load64 img 24, USER_STACK_VADDR + 4096] s' \<and>
      user_ok s' pml4 \<and>
      (\<forall>ph \<in> set (loadable img). \<forall>b < p_memsz ph. user_byte s' pml4 (p_vaddr ph + b) =
         Some (if b < p_filesz ph then img (p_offset ph + b) else 0)) \<and>
      (\<forall>v < USER_SPACE_END. page_of v = USER_STACK_VADDR \<longrightarrow> user_byte s' pml4 v \<noteq> None) \<and>
      used_set s' = used_set s \<union> owned_frames s' pml4 \<and> used_set s \<inter> owned_frames s' pml4 = {})
     else p = 0 \<and> pmm_state.more s' = pmm_state.more s \<and> used_set s' = used_set s)"
  using spawn_result [OF assms, of c n] unfolding accounts_def by (blast dest: untouched_used)

theorem spawn_user_process_correct_witness:
  "\<exists>s s' pml4. sched_init sys_example = Some s \<and> spawn_user_process code_example elf_example 122 s = Some (user_task, s') \<and>
     sched_inv s' [boot_task, user_task] \<and> t_state (tasks s' user_task) = TASK_READY \<and>
     t_pml4 (tasks s' user_task) = pml4 \<and> user_byte s' pml4 0x400000 = Some 0xEB \<and> user_byte s' pml4 0x200000FF8 \<noteq> None"
proof -
  obtain s where s: "sched_init sys_example = Some s" "sched_inv s [boot_task]" "heap_rep s boot_blocks" "heap_ok s"
    "live s boot_task \<noteq> None" "vmm_state.truncate s = vmm_state.truncate sys_example" using sys_boot by blast
  obtain u1 u2 where k: "kmalloc TASK_SIZE s = Some (user_task, u1)" "kmalloc STACK_SIZE u1 = Some (HEAP_START + 192, u2)"
    using boot_room [OF s(3)] by blast
  have l: "\<forall>x \<in> set [boot_task]. live s x \<noteq> None" using s(5) by simp
  note v = spawn_example_ready [OF s(6)] and e = elf_example_facts
  have g: "elf_header_ok elf_example 122 \<and> load64 elf_example 24 \<noteq> 0" using e(4,5) by simp
  note sp = spawn_user_process_correct [OF s(2,4) l k(1) example_addrs(2) k(2) example_addrs(3) v(1) e(1) v(2,3,4),
      where n = 122 and c = code_example, unfolded if_P [OF g]]
  then obtain pml4 s' where r: "spawn_user_process code_example elf_example 122 s = Some (user_task, s')"
    "new_task_ok s [boot_task] user_task (HEAP_START + 192) pml4
       [0, 0, 0, 0, 0, 0, c_user_entry_trampoline code_example, load64 elf_example 24, USER_STACK_VADDR + 4096] s'"
    "\<forall>ph \<in> set (loadable elf_example). \<forall>b < p_memsz ph. user_byte s' pml4 (p_vaddr ph + b) =
         Some (if b < p_filesz ph then elf_example (p_offset ph + b) else 0)"
    "\<forall>v < USER_SPACE_END. page_of v = USER_STACK_VADDR \<longrightarrow> user_byte s' pml4 v \<noteq> None" by blast
  obtain ph where ph: "ph \<in> set (loadable elf_example)" "p_vaddr ph = 0x400000" "p_memsz ph = 4" "p_filesz ph = 2" "p_offset ph = 120"
    using elf_example_loadable by auto
  have "user_byte s' pml4 0x400000 = Some 0xEB"
    using bspec [OF r(3) ph(1)] by (auto simp: ph elf_example_def dest: spec [of _ 0])
  moreover have "user_byte s' pml4 0x200000FF8 \<noteq> None"
    using r(4) by (simp add: USER_SPACE_END_def USER_STACK_VADDR_def)
  ultimately show ?thesis using s(1) r(1) new_task_okD [OF r(2)] by auto
qed

end
