(* ===== verification/Lifecycle.thy ===== *)
theory Lifecycle
  imports Process UserAccess
begin

text \<open>
  The life of a process between \<open>spawn_user_process\<close> and \<open>task_reap\<close>. The two tasks, the shell (the boot task) and the process, run
  interleaved: each computes on its own kernel stack, the process stores into its own pages and makes system calls, timer ticks
  and \<open>yield\<close> switch between them, and in the end the process exits, by the system call for it. What system calls print
  goes to the console, whose state is apart from the one here. The interleavings are a step relation, and what they keep is an
  invariant.
\<close>

section \<open>Steps\<close>

text \<open>The kernel stack of a task: its allocation on the heap, or for the boot task, whose stack is part of the kernel image,
  anywhere outside the heap.\<close>

definition stack_area :: "'a sched_state_scheme \<Rightarrow> u64 \<Rightarrow> u64 set" where
  "stack_area s t = (case live s (t_stack_base (tasks s t)) of
     Some z \<Rightarrow> {a. unat (t_stack_base (tasks s t)) \<le> unat a \<and> unat a < unat (t_stack_base (tasks s t)) + unat z}
   | None \<Rightarrow> {a. \<not> (heap_head s \<le> a \<and> a < heap_end s)})"

text \<open>Room on the stack for what a switch pushes: a return address and six registers.\<close>

definition switch_room :: "'a sched_state_scheme \<Rightarrow> bool" where
  "switch_room s \<longleftrightarrow> (\<forall>a. unat (a - (r_rsp (cpu s) - 56)) < 56 \<longrightarrow> a \<in> stack_area s (current s))"

inductive exec :: "code \<Rightarrow> 'a sched_state_scheme \<Rightarrow> 'a sched_state_scheme \<Rightarrow> bool" for c where
  compute: "(\<And>a. m a \<noteq> kmem s a \<Longrightarrow> a \<in> stack_area s (current s)) \<Longrightarrow> exec c s (s\<lparr>kmem := m, cpu := r\<rparr>)"
| user_store: "\<lbrakk>current s \<noteq> task_list s; v < USER_SPACE_END; leaf_of s (cr3 s) v = Some (False, e)\<rbrakk> \<Longrightarrow>
    exec c s (s\<lparr>ram := (ram s)(ENTRY_ADDR e + (v AND 0xFFF) := x)\<rparr>)"
| system_call: "\<lbrakk>current s \<noteq> task_list s; syscall_dispatch frame s = Some (Returns frame' out);
    \<And>a. m a \<noteq> kmem s a \<Longrightarrow> a \<in> stack_area s (current s)\<rbrakk> \<Longrightarrow> exec c s (s\<lparr>kmem := m, cpu := r\<rparr>)"
| switch: "\<lbrakk>switch_room s; schedule c s = Some s'\<rbrakk> \<Longrightarrow> exec c s s'"
| exit: "\<lbrakk>current s \<noteq> task_list s; switch_room s; syscall_dispatch frame s = Some (TaskExit out);
    task_exit c s = Some s'\<rbrakk> \<Longrightarrow> exec c s s'"

text \<open>Every state has a frame with which the process asks to exit.\<close>

lemma exit_call: "\<exists>frame out. syscall_dispatch frame s = Some (TaskExit out)"
proof -
  have "syscall_dispatch (f\<lparr>rax := SYS_EXIT\<rparr>) s = Some (TaskExit ([CHR 0x0A] @ ''[SYS_EXIT called by user program, code='' @
      print_int (of_int (sint (ucast (rdi f) :: u32))) @ '']'' @ [CHR 0x0A]))" for f
    unfolding syscall_dispatch_def syscall_messages by (simp add: SYS_EXIT_def SYS_WRITE_def)
  then show ?thesis by blast
qed

section \<open>Writes to a stack keep the heap\<close>

lemma outside_write:
  fixes s :: "'a heap_state_scheme"
  assumes "heap_ok s" and out: "\<And>x. m x \<noteq> kmem s x \<Longrightarrow> \<not> (heap_head s \<le> x \<and> x < heap_end s)"
  shows "heap_ok (s\<lparr>kmem := m\<rparr>)" "live (s\<lparr>kmem := m\<rparr>) = live s"
proof -
  obtain bs where bs: "heap_rep s bs" "coalesced bs" using assms(1) by (auto simp: heap_ok_def)
  note t = heap_repD(2) [OF bs(1)]
  have "hdr m (bk_addr c) = hdr (kmem s) (bk_addr c)" if c: "c \<in> set bs" for c
  proof (rule hdr_cong)
    fix k :: u64 assume k: "unat k < 32"
    have e: "unat (heap_end s) < 18446744073709551616" by (rule unat_lt_64)
    note r = tiles_range [OF t c]
    have "unat (bk_addr c + k) = unat (bk_addr c) + unat k"
      using r e k by (intro unat_add_nowrap) linarith
    then have "heap_head s \<le> bk_addr c + k \<and> bk_addr c + k < heap_end s"
      using r k by (simp add: word_le_nat_alt word_less_nat_alt)
    then show "m (bk_addr c + k) = kmem s (bk_addr c + k)" using out by blast
  qed
  then have "dll m 0 bs 0 = dll (kmem s) 0 bs 0" by (intro dll_cong) simp
  then have rep: "heap_rep (s\<lparr>kmem := m\<rparr>) bs" using bs(1) by (simp add: heap_rep_def)
  then show "heap_ok (s\<lparr>kmem := m\<rparr>)" using bs(2) by (auto simp: heap_ok_def)
  show "live (s\<lparr>kmem := m\<rparr>) = live s" using live_rep [OF rep] live_rep [OF bs(1)] by simp
qed

lemma stack_write:
  fixes s :: "'a sched_state_scheme"
  assumes "heap_ok s" and w: "\<And>a. m a \<noteq> kmem s a \<Longrightarrow> a \<in> stack_area s t"
  shows "heap_ok (s\<lparr>kmem := m\<rparr>)" "live (s\<lparr>kmem := m\<rparr>) = live s"
proof -
  have "heap_ok (s\<lparr>kmem := m\<rparr>) \<and> live (s\<lparr>kmem := m\<rparr>) = live s"
  proof (cases "live s (t_stack_base (tasks s t))")
    case None
    then show ?thesis using outside_write [OF assms(1), of m] w by (simp add: stack_area_def)
  next
    case (Some z)
    then show ?thesis using payload_write [OF assms(1) Some, of m] w by (simp add: stack_area_def)
  qed
  then show "heap_ok (s\<lparr>kmem := m\<rparr>)" "live (s\<lparr>kmem := m\<rparr>) = live s" by blast+
qed

section \<open>What a switch changes\<close>

lemma push_kmem: "8 \<le> unat (x - (r_rsp (cpu s) - 8)) \<Longrightarrow> kmem (push v s) x = kmem s x"
  by (simp add: push_def store64_outside word_less_nat_alt)

text \<open>Fifty-six bytes below the stack pointer, the processor, the tasks and CR3; nothing else.\<close>

lemma schedule_frame:
  fixes s :: "'a sched_state_scheme"
  assumes "schedule c s = Some s'"
  shows "s' = s\<lparr>kmem := kmem s', cr3 := cr3 s', tasks := tasks s', current := current s', tss_rsp0 := tss_rsp0 s', cpu := cpu s'\<rparr>"
    "kmem s' x \<noteq> kmem s x \<Longrightarrow> unat (x - (r_rsp (cpu s) - 56)) < 56"
proof -
  have frame: "context_switch p n (push v u) = u\<lparr>kmem := kmem (context_switch p n (push v u)),
      tasks := tasks (context_switch p n (push v u)), cpu := cpu (context_switch p n (push v u))\<rparr>" for p n v and u :: "'a sched_state_scheme"
    by (simp add: context_switch_def restore_context_def save_context_def pop_def push_def set_task_def Let_def)
  have mem: "unat (x - (r_rsp (cpu u) - 56)) < 56" if "kmem (context_switch p n (push v u)) x \<noteq> kmem u x" for p n v and u :: "'a sched_state_scheme"
  proof (rule ccontr)
    let ?d = "x - (r_rsp (cpu u) - 56)"
    assume "\<not> unat ?d < 56"
    then have d: "56 \<le> unat ?d" by simp
    then have "unat (?d - 48) = unat ?d - 48" by (subst unat_sub) (simp_all add: word_le_nat_alt)
    moreover have e: "x - (r_rsp (cpu u) - 8) = ?d - 48" by simp
    ultimately have "8 \<le> unat (x - (r_rsp (cpu u) - 8))" unfolding e using d by linarith
    then have "kmem (push v u) x = kmem u x" by (rule push_kmem)
    moreover have "x - (r_rsp (cpu (push v u)) - 48) = ?d" by simp
    then have "kmem (save_context (push v u)) x = kmem (push v u) x" using d by (intro saved_frame(8)) simp
    ultimately show False using that by (simp add: context_switch_cpu(2))
  qed
  define a where "a = (if t_state (tasks s (current s)) = TASK_RUNNING then set_task (current s) (\<lambda>t. t\<lparr>t_state := TASK_READY\<rparr>) s else s)"
  define b where "b n = (set_task n (\<lambda>t. t\<lparr>t_state := TASK_RUNNING\<rparr>) a)\<lparr>current := n\<rparr>" for n
  define d where "d n = (if t_pml4 (tasks (b n) n) \<noteq> t_pml4 (tasks (b n) (current s)) then vmm_switch_address_space (t_pml4 (tasks (b n) n)) (b n) else b n)" for n
  define u where "u n = tss_set_rsp0 (t_kstack_top (tasks (d n) n)) (d n)" for n
  have eq: "schedule c s = (if current s = 0 then Some s
      else Option.bind (skip_done (tasks s) (current s) (t_next (tasks s (current s)))) (\<lambda>n. if n = current s then Some s
        else Some (context_switch (current s) (t_rsp (tasks (u n) n)) (push (c_resume c) (u n)))))"
    unfolding schedule_def Let_def u_def d_def b_def a_def ..
  have cases: "s' = s \<or> (\<exists>n. s' = context_switch (current s) (t_rsp (tasks (u n) n)) (push (c_resume c) (u n)))"
    using assms unfolding eq by (auto split: bind_splits if_splits)
  have pre: "kmem (u n) = kmem s" "cpu (u n) = cpu s"
    "u n = s\<lparr>cr3 := cr3 (u n), tasks := tasks (u n), current := current (u n), tss_rsp0 := tss_rsp0 (u n)\<rparr>" for n
    by (simp_all add: a_def b_def d_def u_def vmm_switch_address_space_def tss_set_rsp0_def set_task_def)
  show "s' = s\<lparr>kmem := kmem s', cr3 := cr3 s', tasks := tasks s', current := current s', tss_rsp0 := tss_rsp0 s', cpu := cpu s'\<rparr>"
    using cases
  proof (elim disjE exE)
    fix n assume s': "s' = context_switch (current s) (t_rsp (tasks (u n) n)) (push (c_resume c) (u n))"
    have f: "cr3 s' = cr3 (u n)" "current s' = current (u n)" "tss_rsp0 s' = tss_rsp0 (u n)" unfolding s' by simp_all
    have "s' = (u n)\<lparr>kmem := kmem s', tasks := tasks s', cpu := cpu s'\<rparr>" unfolding s' by (rule frame)
    also have "\<dots> = (s\<lparr>cr3 := cr3 (u n), tasks := tasks (u n), current := current (u n), tss_rsp0 := tss_rsp0 (u n)\<rparr>)
        \<lparr>kmem := kmem s', tasks := tasks s', cpu := cpu s'\<rparr>" by (subst pre(3) [of n]) (rule refl)
    also have "\<dots> = s\<lparr>kmem := kmem s', cr3 := cr3 s', tasks := tasks s', current := current s', tss_rsp0 := tss_rsp0 s', cpu := cpu s'\<rparr>"
      by (simp add: f)
    finally show ?thesis .
  qed simp
  show "unat (x - (r_rsp (cpu s) - 56)) < 56" if "kmem s' x \<noteq> kmem s x"
    using cases
  proof (elim disjE exE)
    fix n assume s': "s' = context_switch (current s) (t_rsp (tasks (u n) n)) (push (c_resume c) (u n))"
    show ?thesis using mem [of "current s" "t_rsp (tasks (u n) n)" "c_resume c" "u n"] that unfolding s' pre(1,2) .
  qed (use that in simp)
qed

section \<open>The invariant\<close>

text \<open>
  While the process lives the ring is the shell \<open>b\<close> and the process \<open>t\<close>, the heap has the regions it had at the start, and the
  frames in use are those of the others, \<open>U\<close>, which are untouched, and those of the process.
\<close>

definition proc_inv :: "'a sched_state_scheme \<Rightarrow> u64 \<Rightarrow> u64 \<Rightarrow> nat set \<Rightarrow> 'a sched_state_scheme \<Rightarrow> bool" where
  "proc_inv s0 b t U s \<longleftrightarrow> sched_inv s [b, t] \<and> runnable s b \<and> heap_ok s \<and> live s = live s0 \<and>
     (\<forall>x. t_stack_base (tasks s x) = t_stack_base (tasks s0 x) \<and> t_pml4 (tasks s x) = t_pml4 (tasks s0 x)) \<and>
     kernel_pml4 s = kernel_pml4 s0 \<and> user_ok s (t_pml4 (tasks s0 t)) \<and> accounts U s (t_pml4 (tasks s0 t)) \<and> untouched U s0 s"

lemma proc_invD:
  assumes "proc_inv s0 b t U s"
  shows "sched_inv s [b, t]" "runnable s b" "heap_ok s" "live s = live s0" "t_stack_base (tasks s x) = t_stack_base (tasks s0 x)"
    "t_pml4 (tasks s x) = t_pml4 (tasks s0 x)" "kernel_pml4 s = kernel_pml4 s0" "user_ok s (t_pml4 (tasks s0 t))"
    "accounts U s (t_pml4 (tasks s0 t))" "untouched U s0 s" "task_list s = b" "current s = b \<or> current s = t" "b \<noteq> t"
  using assms by (auto simp: proc_inv_def sched_inv_def ring_def)

lemma user_ok_switch [simp]: "user_ok (s\<lparr>cr3 := x\<rparr>) p = user_ok s p"
  by (simp add: user_ok_def)

text \<open>Changes that the page tables do not see, a switch of CR3 included.\<close>

lemma space_cong:
  fixes s s' :: "'a vmm_state_scheme"
  assumes "vmm_state.truncate s' = vmm_state.truncate (s\<lparr>cr3 := x\<rparr>)"
  shows "user_ok s' p = user_ok s p" "accounts U s' p = accounts U s p" "untouched U s0 s' = untouched U s0 s"
proof -
  show "user_ok s' p = user_ok s p" using user_cong(2) [OF assms] by simp
  have "owned_frames s' p = owned_frames s p"
    using reap_truncate(1) [of s' p] reap_truncate(1) [of "s\<lparr>cr3 := x\<rparr>" p] assms by simp
  then show "accounts U s' p = accounts U s p" using vmm_cong(4) [OF assms] by (simp add: accounts_def)
  show "untouched U s0 s' = untouched U s0 s" using untouched_truncate(2) [OF assms, of U s0] by simp
qed

lemma sched_inv_same:
  assumes "tasks s' = tasks s" "current s' = current s" "task_list s' = task_list s" "cr3 s' = cr3 s" "tss_rsp0 s' = tss_rsp0 s"
  shows "sched_inv s' ts = sched_inv s ts"
proof -
  have "nxt s' = nxt s" using assms(1) by (simp add: nxt_def fun_eq_iff)
  then show ?thesis using assms by (simp add: sched_inv_def ring_def)
qed

lemma compute_inv:
  fixes s :: "'a sched_state_scheme"
  assumes i: "proc_inv s0 b t U s" and w: "\<And>a. m a \<noteq> kmem s a \<Longrightarrow> a \<in> stack_area s (current s)"
  shows "proc_inv s0 b t U (s\<lparr>kmem := m, cpu := r\<rparr>)"
proof -
  let ?s = "s\<lparr>kmem := m, cpu := r\<rparr>"
  note d = proc_invD [OF i] and h = stack_write [OF proc_invD(3) [OF i] w, of m]
  have "heap_ok ?s = heap_ok (s\<lparr>kmem := m\<rparr>)" "live ?s = live (s\<lparr>kmem := m\<rparr>)" by (rule heap_cong; simp)+
  then have "heap_ok ?s" "live ?s = live s0" using h d(4) by simp_all
  moreover have "vmm_state.truncate ?s = vmm_state.truncate (s\<lparr>cr3 := cr3 s\<rparr>)" by (simp add: vmm_state.truncate_def)
  note space_cong [OF this]
  moreover have "sched_inv ?s [b, t]" using d(1) sched_inv_same [of ?s s] by simp
  ultimately show ?thesis using i by (simp add: proc_inv_def)
qed

lemma store_inv:
  fixes s :: "'a sched_state_scheme"
  assumes i: "proc_inv s0 b t U s" and c: "current s \<noteq> task_list s" "v < USER_SPACE_END" "leaf_of s (cr3 s) v = Some (False, e)"
  shows "proc_inv s0 b t U (s\<lparr>ram := (ram s)(ENTRY_ADDR e + (v AND 0xFFF) := x)\<rparr>)"
proof -
  let ?s = "s\<lparr>ram := (ram s)(ENTRY_ADDR e + (v AND 0xFFF) := x)\<rparr>"
  note d = proc_invD [OF i]
  have "current s = t" using d(11,12) c(1) by simp
  then have "cr3 s = t_pml4 (tasks s0 t)" using d(1,6) by (simp add: sched_inv_def)
  note w = user_write [OF d(8) c(2) c(3) [unfolded this], where x = x]
  have "heap_ok ?s = heap_ok s" "live ?s = live s" by (rule heap_cong; simp)+
  moreover have "sched_inv ?s [b, t]" using d(1) sched_inv_same [of ?s s] by simp
  moreover have "accounts U ?s (t_pml4 (tasks s0 t))" "untouched U s0 ?s"
    using extendsD [OF w(2) d(9)] untouched_trans [OF d(10)] by blast+
  ultimately show ?thesis using i w(1) by (simp add: proc_inv_def)
qed

lemma switch_tasks:
  fixes s :: "'a sched_state_scheme"
  assumes "sched_inv s ts" "schedule c s = Some s'"
  shows "t_stack_base (tasks s' x) = t_stack_base (tasks s x)" "t_pml4 (tasks s' x) = t_pml4 (tasks s x)"
    "runnable s x \<Longrightarrow> runnable s' x"
proof -
  have "ring s ts" "current s \<in> set ts" using assms(1) by (simp_all add: sched_inv_def)
  from schedule_result [OF this, of c] assms(2)
  have "t_stack_base (tasks s' x) = t_stack_base (tasks s x) \<and> t_pml4 (tasks s' x) = t_pml4 (tasks s x) \<and> (runnable s x \<longrightarrow> runnable s' x)"
    by (auto simp: left_task_def Let_def split: option.splits)
  then show "t_stack_base (tasks s' x) = t_stack_base (tasks s x)" "t_pml4 (tasks s' x) = t_pml4 (tasks s x)"
    "runnable s x \<Longrightarrow> runnable s' x" by blast+
qed

lemma switch_inv:
  fixes s :: "'a sched_state_scheme"
  assumes i: "proc_inv s0 b t U s" and r: "switch_room s" "schedule c s = Some s'"
  shows "proc_inv s0 b t U s'"
proof -
  note d = proc_invD [OF i] and f = schedule_frame [OF r(2)]
  have w: "kmem s' a \<noteq> kmem s a \<Longrightarrow> a \<in> stack_area s (current s)" for a using f(2) r(1) by (auto simp: switch_room_def)
  note h = stack_write [OF d(3) w, of "kmem s'"]
  have hs: "heap_head s' = heap_head s" "heap_end s' = heap_end s" "kernel_pml4 s' = kernel_pml4 s" by (subst f(1), simp)+
  have "heap_ok s' = heap_ok (s\<lparr>kmem := kmem s'\<rparr>)" "live s' = live (s\<lparr>kmem := kmem s'\<rparr>)" by (rule heap_cong; simp add: hs)+
  then have "heap_ok s'" "live s' = live s0" using h d(4) by simp_all
  moreover have "sched_inv s' [b, t]" using schedule_step [OF d(1), of c] r(2) by auto
  moreover have "vmm_state.truncate s' = vmm_state.truncate (s\<lparr>cr3 := cr3 s'\<rparr>)" by (subst f(1)) (simp add: vmm_state.truncate_def)
  note space_cong [OF this]
  moreover note switch_tasks [OF d(1) r(2)]
  ultimately show ?thesis using i hs(3) by (simp add: proc_inv_def)
qed

lemma done_inv:
  fixes s :: "'a sched_state_scheme"
  assumes i: "proc_inv s0 b t U s" and c: "current s \<noteq> task_list s"
  shows "proc_inv s0 b t U (set_task (current s) (\<lambda>x. x\<lparr>t_state := TASK_DONE\<rparr>) s)" (is "proc_inv _ _ _ _ ?s")
proof -
  note d = proc_invD [OF i]
  have cur: "current s = t" using d(11,12) c by simp
  have "heap_ok ?s = heap_ok s" "live ?s = live s" by (rule heap_cong; simp add: set_task_def)+
  moreover have "vmm_state.truncate ?s = vmm_state.truncate (s\<lparr>cr3 := cr3 s\<rparr>)" by (simp add: vmm_state.truncate_def set_task_def)
  note space_cong [OF this]
  moreover have "chain (nxt ?s) [b, t] (task_list s) = chain (nxt s) [b, t] (task_list s)" by (rule chain_next_cong) simp
  then have "sched_inv ?s [b, t]" using d(1,13) cur by (clarsimp simp: sched_inv_def ring_def)
  moreover have "t_stack_base (tasks ?s x) = t_stack_base (tasks s x)" "t_pml4 (tasks ?s x) = t_pml4 (tasks s x)" for x by simp_all
  moreover have "runnable ?s b" using d(2,13) cur by simp
  ultimately show ?thesis using i by (simp add: proc_inv_def del: set_task_simps(1))
qed

lemma exec_inv:
  assumes "exec c s s'" "proc_inv s0 b t U s"
  shows "proc_inv s0 b t U s'"
  using assms
proof cases
  case (exit)
  let ?s = "set_task (current s) (\<lambda>x. x\<lparr>t_state := TASK_DONE\<rparr>) s"
  have h: "heap_head ?s = heap_head s" "heap_end ?s = heap_end s" by (simp_all add: set_task_def)
  have "live ?s = live s" by (rule heap_cong; simp add: h)
  then have "stack_area ?s (current ?s) = stack_area s (current s)" by (simp add: stack_area_def h split: option.split)
  then have "switch_room ?s" using exit(2) by (simp add: switch_room_def)
  then show ?thesis using switch_inv [OF done_inv [OF assms(2) exit(1)], of c s'] exit(4) by (simp add: task_exit_def)
qed (auto intro: compute_inv store_inv switch_inv assms)

lemma execs_inv: "(exec c)\<^sup>*\<^sup>* s s' \<Longrightarrow> proc_inv s0 b t U s \<Longrightarrow> proc_inv s0 b t U s'"
  by (induction rule: rtranclp_induct) (auto intro: exec_inv)

text \<open>While the process runs, its page tables are loaded and well formed, so its system calls do not fault in the kernel.\<close>

lemma system_calls_return:
  assumes "proc_inv s0 b t U s" "current s = t"
  shows "syscall_dispatch frame s \<noteq> None"
proof -
  note d = proc_invD [OF assms(1)]
  have ok: "pt_ok s (t_pml4 (tasks s0 t))" by (rule user_okD(1) [OF d(8)])
  have e: "ENTRY_ADDR (ENTRY_ADDR x) = ENTRY_ADDR x" for x by (simp add: ENTRY_ADDR_def and.assoc)
  have "table_loc s (t_pml4 (tasks s0 t))" using tree_locs(1) [OF ok, of "[]"] by simp
  then have "ENTRY_ADDR (t_pml4 (tasks s0 t)) = t_pml4 (tasks s0 t)"
    using e [of "t_pml4 (tasks s0 t) OR PAGE_PRESENT OR PAGE_WRITABLE OR PAGE_USER"] entry_flag_bits(1) [of "t_pml4 (tasks s0 t)"]
    by (simp add: table_loc_def)
  moreover have "cr3 s = t_pml4 (tasks s0 t)" using d(1,6) assms(2) by (simp add: sched_inv_def)
  ultimately have "pt_ok s (current_pml4 s)" using ok by (simp add: current_pml4_def ENTRY_ADDR_def)
  from sys_write_result [OF this, of "rdi frame" "rsi frame"] show ?thesis
    unfolding syscall_dispatch_def syscall_messages by simp
qed

section \<open>From start to end\<close>

lemma pair_after:
  assumes "sched_inv s [b, t]"
  shows "b \<noteq> t" "after b [b, t] = [t]" "after t [b, t] = [b]"
  using assms by (auto simp: sched_inv_def ring_def after_def)

text \<open>The shell can always switch to the process, and a process that exits hands over to the shell.\<close>

lemma exit_to_shell:
  fixes s :: "'a sched_state_scheme"
  assumes i: "proc_inv s0 b t U s" and c: "current s = t"
  shows "\<exists>s'. task_exit c s = Some s' \<and> current s' = b \<and> t_state (tasks s' t) = TASK_DONE"
proof -
  let ?s = "set_task (current s) (\<lambda>x. x\<lparr>t_state := TASK_DONE\<rparr>) s"
  note d = proc_invD [OF i]
  have cl: "current s \<noteq> task_list s" using c d(11,13) by simp
  note d' = proc_invD [OF done_inv [OF i cl]] and tt = pair_after [OF d(1)]
  have ev: "find (runnable ?s) (after (current ?s) [b, t]) = Some b" using d'(2) tt c by simp
  from schedule_step [OF d'(1), of c] obtain s' where s': "schedule c ?s = Some s'" "current s' = b" "t_state (tasks s' (current ?s)) = TASK_DONE"
    unfolding ev option.case by auto
  then show ?thesis using c by (auto simp: task_exit_def)
qed

lemma yield_to_process:
  fixes s :: "'a sched_state_scheme"
  assumes i: "proc_inv s0 b t U s" and c: "current s = b" "runnable s t"
  shows "\<exists>s'. yield c s = Some s' \<and> current s' = t"
proof -
  note d = proc_invD [OF i] and tt = pair_after [OF proc_invD(1) [OF i]]
  have "find (runnable s) (after (current s) [b, t]) = Some t" using tt c by simp
  with schedule_step [OF d(1), of c] show ?thesis by (auto simp: yield_def)
qed

lemma reap_restores:
  fixes s s1 s2 :: "'a sched_state_scheme"
  assumes i: "proc_inv s1 b t (used_set s) s2" and c: "current s2 = b" and l: "live s1 t = Some y" "live s1 (t_stack_base (tasks s1 t)) = Some z"
    "t_stack_base (tasks s1 t) \<noteq> t"
    and k: "frame_no (kernel_pml4 s1) \<in> used_set s" "frame_no (t_pml4 (tasks s1 b) AND 0x000FFFFFFFFFF000) \<in> used_set s"
    and ok: "mem_ok s" "untouched (used_set s) s s1"
  shows "\<exists>s3. task_reap t s2 = Some s3 \<and> sched_inv s3 [b] \<and> heap_ok s3 \<and>
    live s3 = (live s1)(t_stack_base (tasks s1 t) := None, t := None) \<and> used_set s3 = used_set s \<and>
    untouched (used_set s) s s3 \<and> mem_ok s3 \<and> kernel_pml4 s3 = kernel_pml4 s1"
proof -
  note d = proc_invD [OF i] and tt = pair_after [OF proc_invD(1) [OF i]]
  let ?p = "t_pml4 (tasks s1 t)"
  have "frame_no ?p \<in> owned_frames s2 ?p" by (rule owned_table [of "[]"]) simp_all
  then have np: "frame_no ?p \<notin> used_set s" using d(9) by (auto simp: accounts_def)
  have cr: "cr3 s2 = t_pml4 (tasks s1 b)" using d(1) c d(6) by (simp add: sched_inv_def)
  have "?p \<noteq> kernel_pml4 s2" "?p \<noteq> cr3 s2 AND 0x000FFFFFFFFFF000" using np k d(7) cr by auto
  then obtain s3 where s3: "task_reap t s2 = Some s3" "sched_inv s3 (remove1 t [b, t])" "heap_ok s3"
    "live s3 = (live s1)(t_stack_base (tasks s1 t) := None, t := None)" "used_set s3 = used_set s2 - owned_frames s2 ?p"
    "kernel_pml4 s3 = kernel_pml4 s2" "\<forall>U. accounts U s2 ?p \<longrightarrow> untouched U s2 s3 \<and> pmm_inv s3"
    using reap_result [OF d(1,3), of t y z, unfolded d(4,5,6,11) c, OF _ tt(1) [symmetric] tt(1) [symmetric] l
        user_okD(1) [OF d(8)] user_pages_in_ram [OF d(8)]] by auto
  have u: "untouched (used_set s) s s3" using s3(7) d(9) untouched_trans [OF untouched_trans [OF ok(2) d(10)]] by blast
  have us: "used_set s3 = used_set s" using s3(5) d(9) by (auto simp: accounts_def)
  then have "mem_ok s3" using restored_mem_ok [OF ok(1) u] s3(7) d(9) by blast
  then show ?thesis using s3(1-4,6) us u tt(1) d(4,5,7) by simp
qed

text \<open>What the two tasks start from.\<close>

lemma spawn_starts:
  fixes s :: "'a sched_state_scheme"
  assumes "sched_inv s [b]" "runnable s b" "heap_ok s" "live s b \<noteq> None"
    and "kmalloc TASK_SIZE s = Some (t, u1)" "t \<noteq> 0" "kmalloc STACK_SIZE u1 = Some (stk, u2)" "stk \<noteq> 0"
    and "pt_ok s (kernel_pml4 s)" "elf_layout (loadable img)" "USER_STACK_VADDR \<notin> pages_of (seg_addrs (loadable img))"
    and "4 * card (pages_of (seg_addrs (loadable img))) + 5 \<le> free_frames s"
    and "frame_no (cr3 s AND 0x000FFFFFFFFFF000) \<in> used_set s"
    and "elf_header_ok img n" "load64 img 24 \<noteq> 0"
  shows "\<exists>s1 y z. spawn_user_process c img n s = Some (t, s1) \<and> proc_inv s1 b t (used_set s) s1 \<and>
    current s1 = b \<and> runnable s1 t \<and> live s1 = (live s)(t \<mapsto> y, stk \<mapsto> z) \<and> 16384 \<le> unat z \<and> heap_head s1 = heap_head s \<and>
    t_stack_base (tasks s1 t) = stk \<and> stk \<noteq> t \<and> live s t = None \<and> live s stk = None \<and> untouched (used_set s) s s1 \<and>
    kernel_pml4 s1 = kernel_pml4 s \<and> t_pml4 (tasks s1 b) = t_pml4 (tasks s b) \<and> t_stack_base (tasks s1 b) = t_stack_base (tasks s b)"
proof -
  have l: "\<forall>x \<in> set [b]. live s x \<noteq> None" using assms(4) by simp
  from spawn_result [OF assms(1,3) l assms(5-13), of c n] assms(14,15) obtain pml4 s1 where
    s1: "spawn_user_process c img n s = Some (t, s1)" "untouched (used_set s) s s1"
      "new_task_ok s [b] t stk pml4 [0, 0, 0, 0, 0, 0, c_user_entry_trampoline c, load64 img 24, USER_STACK_VADDR + 4096] s1"
      "user_ok s1 pml4" "accounts (used_set s) s1 pml4" "kernel_pml4 s1 = kernel_pml4 s" by auto
  note nt = new_task_okD [OF s1(3)] and al = task_allocs [OF assms(3,5-8)]
  obtain y z where yz: "live s1 = (live s)(t \<mapsto> y, stk \<mapsto> z)" "16384 \<le> unat z" using s1(3) unfolding new_task_ok_def by blast
  obtain nx where nx: "tasks s1 b = (tasks s b)\<lparr>t_next := nx\<rparr>" using nt(12) [of b] nt(1) by auto
  have "proc_inv s1 b t (used_set s) s1" using nt(2,3,7) s1(4,5) assms(2) nx by (simp add: proc_inv_def)
  moreover have "current s1 = b" using nt(4) assms(1) by (simp add: sched_inv_def)
  ultimately show ?thesis using s1(1,2,6) yz nt(6,8,10) al(1-3) nx
    by (intro exI [of _ s1] exI [of _ y] exI [of _ z]) simp
qed

text \<open>Reaping the process brings back what was before the start.\<close>

lemma process_ends:
  fixes s s1 s2 :: "'a sched_state_scheme"
  assumes i: "proc_inv s1 b t (used_set s) s2" and c: "current s2 = b"
    and l: "live s1 = (live s)(t \<mapsto> y, stk \<mapsto> w)" "t_stack_base (tasks s1 t) = stk" "stk \<noteq> t" "live s t = None" "live s stk = None"
    and u: "untouched (used_set s) s s1" "kernel_pml4 s1 = kernel_pml4 s" "t_pml4 (tasks s1 b) = t_pml4 (tasks s b)"
    and vm: "sched_inv s [b]" "pt_ok s (kernel_pml4 s)" "frame_no (cr3 s AND 0x000FFFFFFFFFF000) \<in> used_set s"
  shows "\<exists>s3. task_reap t s2 = Some s3 \<and> sched_inv s3 [b] \<and> heap_ok s3 \<and> live s3 = live s \<and> used_set s3 = used_set s \<and>
    pt_ok s3 (kernel_pml4 s3) \<and> kernel_pml4 s3 = kernel_pml4 s \<and> (\<forall>g. table_frame s g \<longrightarrow> same_frame g s s3)"
proof -
  have "cr3 s = t_pml4 (tasks s b)" using vm(1) by (simp add: sched_inv_def)
  then have k: "frame_no (kernel_pml4 s1) \<in> used_set s" "frame_no (t_pml4 (tasks s1 b) AND 0x000FFFFFFFFFF000) \<in> used_set s"
    using pt_okD(2) [OF vm(2), of "[]"] u(2,3) vm(3) by (simp_all add: table_frame_def)
  have ls: "live s1 t = Some y" "live s1 (t_stack_base (tasks s1 t)) = Some w" "t_stack_base (tasks s1 t) \<noteq> t" using l(1-3) by simp_all
  obtain s3 where s3: "task_reap t s2 = Some s3" "sched_inv s3 [b]" "heap_ok s3" "live s3 = (live s1)(stk := None, t := None)"
    "used_set s3 = used_set s" "untouched (used_set s) s s3" "mem_ok s3" "kernel_pml4 s3 = kernel_pml4 s1"
    using reap_restores [OF i c ls k pt_okD(1) [OF vm(2)] u(1)] l(2) by auto
  have "live s3 = live s" using s3(4) l(1,4,5) by (auto simp: fun_eq_iff)
  moreover have "pt_ok s3 (kernel_pml4 s3)" using untouched_pt_ok(1) [OF vm(2) s3(6,7)] s3(8) u(2) by simp
  ultimately show ?thesis using s3 u(2) untouched_used [OF s3(6)] by auto
qed

text \<open>
  C22. The life of a process. The shell \<open>b\<close> starts a valid executable with \<open>spawn_user_process\<close>; then the shell and the process run
  interleaved in any way: computing on their kernel stacks, storing into user memory, making system calls, switching at timer
  ticks or by \<open>yield\<close>, exiting. At every moment the scheduler's ring and the heap are well formed, no region of the heap is
  lost, and no frame that was in use before the start has changed. While the process is not done, the shell's
  \<open>yield\<close> reaches it; when it exits, the shell is current and finds it done. Whenever the shell is current it can reap the
  process, and then the ring, the heap's regions, the frames in use and the contents of the frames that were in use are as before
  the start.
\<close>

theorem process_lifecycle:
  fixes s :: "'a sched_state_scheme"
  assumes "sched_inv s [b]" "runnable s b" "heap_ok s" "live s b \<noteq> None"
    and "kmalloc TASK_SIZE s = Some (t, u1)" "t \<noteq> 0" "kmalloc STACK_SIZE u1 = Some (stk, u2)" "stk \<noteq> 0"
    and "pt_ok s (kernel_pml4 s)" "elf_layout (loadable img)" "USER_STACK_VADDR \<notin> pages_of (seg_addrs (loadable img))"
    and "4 * card (pages_of (seg_addrs (loadable img))) + 5 \<le> free_frames s"
    and "frame_no (cr3 s AND 0x000FFFFFFFFFF000) \<in> used_set s"
    and "elf_header_ok img n" "load64 img 24 \<noteq> 0"
  shows "\<exists>s1. spawn_user_process c img n s = Some (t, s1) \<and>
    (\<forall>s2. (exec c)\<^sup>*\<^sup>* s1 s2 \<longrightarrow>
      sched_inv s2 [b, t] \<and> heap_ok s2 \<and> live s2 = live s1 \<and> (\<forall>g. table_frame s g \<longrightarrow> same_frame g s s2) \<and>
      (current s2 = b \<longrightarrow> runnable s2 t \<longrightarrow> (\<exists>s3. yield c s2 = Some s3 \<and> current s3 = t)) \<and>
      (current s2 = t \<longrightarrow> (\<exists>s3. task_exit c s2 = Some s3 \<and> current s3 = b \<and> t_state (tasks s3 t) = TASK_DONE)) \<and>
      (current s2 = b \<longrightarrow> (\<exists>s3. task_reap t s2 = Some s3 \<and> sched_inv s3 [b] \<and> heap_ok s3 \<and> live s3 = live s \<and>
         used_set s3 = used_set s \<and> pt_ok s3 (kernel_pml4 s3) \<and> (\<forall>g. table_frame s g \<longrightarrow> same_frame g s s3))))"
proof -
  obtain s1 y z where s1: "spawn_user_process c img n s = Some (t, s1)" "proc_inv s1 b t (used_set s) s1"
    and l: "live s1 = (live s)(t \<mapsto> y, stk \<mapsto> z)" "t_stack_base (tasks s1 t) = stk" "stk \<noteq> t" "live s t = None" "live s stk = None"
    and u: "untouched (used_set s) s s1" "kernel_pml4 s1 = kernel_pml4 s" "t_pml4 (tasks s1 b) = t_pml4 (tasks s b)"
    using spawn_starts [OF assms, of c] by blast
  have "sched_inv s2 [b, t] \<and> heap_ok s2 \<and> live s2 = live s1 \<and> (\<forall>g. table_frame s g \<longrightarrow> same_frame g s s2) \<and>
      (current s2 = b \<longrightarrow> runnable s2 t \<longrightarrow> (\<exists>s3. yield c s2 = Some s3 \<and> current s3 = t)) \<and>
      (current s2 = t \<longrightarrow> (\<exists>s3. task_exit c s2 = Some s3 \<and> current s3 = b \<and> t_state (tasks s3 t) = TASK_DONE)) \<and>
      (current s2 = b \<longrightarrow> (\<exists>s3. task_reap t s2 = Some s3 \<and> sched_inv s3 [b] \<and> heap_ok s3 \<and> live s3 = live s \<and>
         used_set s3 = used_set s \<and> pt_ok s3 (kernel_pml4 s3) \<and> (\<forall>g. table_frame s g \<longrightarrow> same_frame g s s3)))"
    if "(exec c)\<^sup>*\<^sup>* s1 s2" for s2
  proof -
    have i: "proc_inv s1 b t (used_set s) s2" by (rule execs_inv [OF that s1(2)])
    note d = proc_invD [OF i]
    have "\<forall>g. table_frame s g \<longrightarrow> same_frame g s s2" using untouched_used [OF untouched_trans [OF u(1) d(10)]] by blast
    then show ?thesis using d(1,3,4) yield_to_process [OF i] exit_to_shell [OF i] process_ends [OF i _ l u assms(1,9,13)] by blast
  qed
  then show ?thesis using s1(1) by blast
qed

lemma just_below:
  fixes a r :: u64
  assumes "unat (a - (r - 56)) < 56" "56 \<le> unat r"
  shows "unat r - 56 \<le> unat a" "unat a < unat r"
proof -
  have r: "unat (r - 56) = unat r - 56" using assms(2) by (subst unat_sub) (simp_all add: word_le_nat_alt)
  have "unat (a - (r - 56) + (r - 56)) = unat (a - (r - 56)) + unat (r - 56)"
    using assms r unat_lt_64 [of r] by (intro unat_add_nowrap) linarith
  then show "unat r - 56 \<le> unat a" "unat a < unat r" using assms r by simp_all
qed

lemma live_cpu [simp]: "live (s\<lparr>cpu := r\<rparr>) = live s"
  by (rule heap_cong) simp_all

text \<open>A run: the shell yields, the process computes on its kernel stack and exits.\<close>

lemma short_run:
  fixes s1 :: "'a sched_state_scheme"
  assumes i: "proc_inv s0 b t U s1" and c: "current s1 = b" "runnable s1 t"
    and b: "live s1 (t_stack_base (tasks s1 b)) = None" "0x8000 \<le> unat (heap_head s1)"
    and k: "t_stack_base (tasks s1 t) = stk" "live s1 stk = Some z" "16384 \<le> unat z"
  shows "\<exists>r u s2. switch_room (s1\<lparr>cpu := r\<rparr>) \<and> yield c (s1\<lparr>cpu := r\<rparr>) = Some u \<and> (exec c)\<^sup>*\<^sup>* u s2 \<and>
    current s2 = b \<and> t_state (tasks s2 t) = TASK_DONE"
proof -
  let ?a = "s1\<lparr>cpu := (cpu s1)\<lparr>r_rsp := 0x8000\<rparr>\<rparr>"
  have ia: "proc_inv s0 b t U ?a" using compute_inv [OF i, of "kmem s1"] by simp
  have sa: "stack_area ?a (current ?a) = {a. \<not> (heap_head s1 \<le> a \<and> a < heap_end s1)}" using b(1) c(1) by (simp add: stack_area_def)
  have ra: "switch_room ?a"
    unfolding switch_room_def sa
  proof (intro allI impI)
    fix a assume "unat (a - (r_rsp (cpu ?a) - 56)) < 56"
    then have "unat a < 0x8000" using just_below(2) [of a "0x8000"] by simp
    then show "a \<in> {a. \<not> (heap_head s1 \<le> a \<and> a < heap_end s1)}" using b(2) by (simp add: word_le_nat_alt)
  qed
  obtain u where u: "yield c ?a = Some u" "current u = t" using yield_to_process [OF ia, of c] c by auto
  have sch: "schedule c ?a = Some u" using u(1) by (simp add: yield_def)
  have iu: "proc_inv s0 b t U u" by (rule switch_inv [OF ia ra sch])
  let ?r = "stk + 0x1000"
  let ?c = "u\<lparr>cpu := (cpu u)\<lparr>r_rsp := ?r\<rparr>\<rparr>"
  have e: "exec c u ?c" using exec.compute [of "kmem u" u c] by simp
  have ic: "proc_inv s0 b t U ?c" by (rule exec_inv [OF e iu])
  have lu: "t_stack_base (tasks u t) = stk" "live u = live s1" using proc_invD(4,5) [OF iu] proc_invD(4,5) [OF i] k(1) by simp_all
  have sc: "stack_area ?c (current ?c) = {a. unat stk \<le> unat a \<and> unat a < unat stk + unat z}"
    using u(2) lu k(2) by (simp add: stack_area_def)
  have ur: "unat ?r = unat stk + 0x1000"
    using live_bounds(1) [OF proc_invD(3) [OF i] k(2)] k(3) by (subst unat_add_nowrap) simp_all
  have rc: "switch_room ?c"
    unfolding switch_room_def sc
  proof (intro allI impI)
    fix a assume "unat (a - (r_rsp (cpu ?c) - 56)) < 56"
    then have "unat (a - (?r - 56)) < 56" by simp
    from just_below [OF this] show "a \<in> {a. unat stk \<le> unat a \<and> unat a < unat stk + unat z}"
      unfolding ur using k(3) by simp
  qed
  obtain s3 where s3: "task_exit c ?c = Some s3" "current s3 = b" "t_state (tasks s3 t) = TASK_DONE"
    using exit_to_shell [OF ic, of c] u(2) by auto
  have "current ?c \<noteq> task_list ?c" using u(2) proc_invD(11,13) [OF ic] by simp
  then have "exec c ?c s3" using exit_call [of ?c] exec.exit [OF _ rc _ s3(1)] by blast
  with e have "(exec c)\<^sup>*\<^sup>* u s3" by (meson converse_rtranclp_into_rtranclp r_into_rtranclp)
  then show ?thesis using ra u(1) s3(2,3) by blast
qed

lemma boot_stack:
  assumes "heap_rep s boot_blocks"
  shows "live s 0 = None" "unat (heap_head s) = unat HEAP_START"
  using heap_repD(2) [OF assms] live_rep [OF assms] by (simp_all add: boot_blocks_def live_of_def HEAP_START_def)

theorem process_lifecycle_witness:
  "\<exists>s s1 s2 s3. sched_init sys_example = Some s \<and> spawn_user_process code_example elf_example 122 s = Some (user_task, s1) \<and>
     (exec code_example)\<^sup>*\<^sup>* s1 s2 \<and> t_state (tasks s2 user_task) = TASK_DONE \<and> task_reap user_task s2 = Some s3 \<and>
     sched_inv s3 [boot_task] \<and> live s3 = live s \<and> used_set s3 = {0, 1, 2, 3, 6}"
proof -
  obtain u s where s: "kmalloc TASK_SIZE sys_example = Some (boot_task, u)" "sched_init sys_example = Some s" "sched_inv s [boot_task]"
    "heap_rep s boot_blocks" "heap_ok s" "live s boot_task \<noteq> None" "vmm_state.truncate s = vmm_state.truncate sys_example"
    using sys_boot by blast
  have bt: "t_stack_base (tasks s boot_task) = 0" "t_state (tasks s boot_task) = TASK_RUNNING"
    using s(1,2) by (auto simp: sched_init_def set_task_def Let_def)
  obtain u1 u2 where k: "kmalloc TASK_SIZE s = Some (user_task, u1)" "kmalloc STACK_SIZE u1 = Some (HEAP_START + 192, u2)"
    using boot_room [OF s(4)] by blast
  note v = spawn_example_ready [OF s(7)] and e = elf_example_facts
  have l: "\<forall>x \<in> set [boot_task]. live s x \<noteq> None" and r: "runnable s boot_task" and en: "load64 elf_example 24 \<noteq> 0"
    using s(6) bt(2) e(5) by simp_all
  obtain s1 where s1: "spawn_user_process code_example elf_example 122 s = Some (user_task, s1)"
    and inv: "\<forall>s2. (exec code_example)\<^sup>*\<^sup>* s1 s2 \<longrightarrow>
      sched_inv s2 [boot_task, user_task] \<and> heap_ok s2 \<and> live s2 = live s1 \<and> (\<forall>g. table_frame s g \<longrightarrow> same_frame g s s2) \<and>
      (current s2 = boot_task \<longrightarrow> runnable s2 user_task \<longrightarrow> (\<exists>s3. yield code_example s2 = Some s3 \<and> current s3 = user_task)) \<and>
      (current s2 = user_task \<longrightarrow> (\<exists>s3. task_exit code_example s2 = Some s3 \<and> current s3 = boot_task \<and> t_state (tasks s3 user_task) = TASK_DONE)) \<and>
      (current s2 = boot_task \<longrightarrow> (\<exists>s3. task_reap user_task s2 = Some s3 \<and> sched_inv s3 [boot_task] \<and> heap_ok s3 \<and> live s3 = live s \<and>
         used_set s3 = used_set s \<and> pt_ok s3 (kernel_pml4 s3) \<and> (\<forall>g. table_frame s g \<longrightarrow> same_frame g s s3)))"
    using process_lifecycle [OF s(3) r s(5,6) k(1) example_addrs(2) k(2) example_addrs(3) v(1) e(1) v(2,3,4) e(4) en, where c = code_example]
    by blast
  obtain z where p: "proc_inv s1 boot_task user_task (used_set s) s1" "current s1 = boot_task" "runnable s1 user_task"
    "live s1 (HEAP_START + 192) = Some z" "16384 \<le> unat z" "t_stack_base (tasks s1 user_task) = HEAP_START + 192"
    "live s1 (t_stack_base (tasks s1 boot_task)) = None" "0x8000 \<le> unat (heap_head s1)"
    using spawn_starts [OF s(3) r s(5,6) k(1) example_addrs(2) k(2) example_addrs(3) v(1) e(1) v(2,3,4) e(4) en, where c = code_example]
      s1 bt(1) boot_stack [OF s(4)] by (auto simp: HEAP_START_def)
  obtain rg u s2 where s2: "switch_room (s1\<lparr>cpu := rg\<rparr>)" "yield code_example (s1\<lparr>cpu := rg\<rparr>) = Some u" "(exec code_example)\<^sup>*\<^sup>* u s2"
    "current s2 = boot_task" "t_state (tasks s2 user_task) = TASK_DONE" using short_run [OF p(1-3,7,8,6,4,5)] by blast
  have "exec code_example s1 (s1\<lparr>cpu := rg\<rparr>)" using exec.compute [of "kmem s1" s1 code_example rg] by simp
  moreover have "exec code_example (s1\<lparr>cpu := rg\<rparr>) u" using exec.switch [OF s2(1)] s2(2) by (simp add: yield_def)
  ultimately have x: "(exec code_example)\<^sup>*\<^sup>* s1 s2" using s2(3) by (meson converse_rtranclp_into_rtranclp)
  from inv [rule_format, OF x] s2(4) obtain s3 where "task_reap user_task s2 = Some s3" "sched_inv s3 [boot_task]" "live s3 = live s"
    "used_set s3 = used_set s" by blast
  then show ?thesis using s(2) s1 x s2(5) v(5) by auto
qed

end
