(* ===== verification/Descriptors.thy ===== *)
theory Descriptors
  imports Machine
begin

text \<open>
  The processor's descriptor tables: \<^verbatim>\<open>kernel/arch/x86_64/gdt.c\<close> and \<^verbatim>\<open>idt.c\<close>. The packed
  structures are records with their fields in memory order. Loading the tables into the processor
  (\<open>lgdt\<close>, \<open>ltr\<close>, \<open>lidt\<close>) is assembly and left out; what is loaded are the pointers modelled here.
  The addresses of tables, stacks and stubs are parameters.
\<close>

section \<open>Segments\<close>

record gdt_entry =
  limit_low :: u16
  base_low :: u16
  base_mid :: u8
  gaccess :: u8
  granularity :: u8
  base_high :: u8

record tss_descriptor = gdt_entry +
  base_upper :: u32
  treserved :: u32

text \<open>The reserved fields of the TSS, which stay 0, are left out.\<close>

record tss =
  rsp0 :: u64
  rsp1 :: u64
  rsp2 :: u64
  ist_stacks :: "u64 list"
  iopb_offset :: u16

record table_ptr =
  tp_limit :: u16
  tp_base :: u64

definition sizeof_tss :: u32 where "sizeof_tss = 104"
definition sizeof_kernel_stack :: u64 where "sizeof_kernel_stack = 16384"

definition set_entry :: "nat \<Rightarrow> u8 \<Rightarrow> u8 \<Rightarrow> gdt_entry list \<Rightarrow> gdt_entry list" where
  "set_entry i acc gran g =
     g[i := \<lparr>limit_low = 0, base_low = 0, base_mid = 0, gaccess = acc, granularity = gran, base_high = 0\<rparr>]"

text \<open>
  The TSS descriptor takes two slots: its upper eight bytes, \<open>base_upper\<close> and \<open>reserved\<close>, lie over
  the fields of the next entry.
\<close>

definition upper_slot :: "u32 \<Rightarrow> u32 \<Rightarrow> gdt_entry" where
  "upper_slot up res = \<lparr>limit_low = ucast up, base_low = ucast (drop_bit 16 up), base_mid = ucast res,
     gaccess = ucast (drop_bit 8 res), granularity = ucast (drop_bit 16 res), base_high = ucast (drop_bit 24 res)\<rparr>"

definition set_tss :: "nat \<Rightarrow> u64 \<Rightarrow> u32 \<Rightarrow> gdt_entry list \<Rightarrow> gdt_entry list" where
  "set_tss i base limit g =
     (let d = \<lparr>limit_low = ucast (limit AND 0xFFFF), base_low = ucast (base AND 0xFFFF),
             base_mid = ucast (drop_bit 16 base AND 0xFF), gaccess = 0x89,
             granularity = ucast (drop_bit 16 limit AND 0x0F), base_high = ucast (drop_bit 24 base AND 0xFF),
             base_upper = ucast (drop_bit 32 base AND 0xFFFFFFFF), treserved = 0\<rparr>
      in g[i := gdt_entry.truncate d, Suc i := upper_slot (base_upper d) (treserved d)])"

text \<open>\<open>tss_at\<close>, \<open>stack_at\<close> and \<open>gdt_at\<close> are the addresses of the static variables.\<close>

definition gdt_init :: "u64 \<Rightarrow> u64 \<Rightarrow> u64 \<Rightarrow> gdt_entry list \<Rightarrow> gdt_entry list \<times> tss \<times> table_ptr" where
  "gdt_init tss_at stack_at gdt_at g =
     (let g = set_entry 0 0 0 g;
          g = set_entry 1 0x9A 0xA0 g;
          g = set_entry 2 0x92 0xC0 g;
          g = set_entry 3 0xFA 0xA0 g;
          g = set_entry 4 0xF2 0xC0 g;
          t = \<lparr>rsp0 = stack_at + sizeof_kernel_stack, rsp1 = 0, rsp2 = 0, ist_stacks = replicate 7 0,
               iopb_offset = ucast sizeof_tss\<rparr>;
          g = set_tss 5 tss_at (sizeof_tss - 1) g
      in (g, t, \<lparr>tp_limit = 7 * 8 - 1, tp_base = gdt_at\<rparr>))"

section \<open>Interrupt gates\<close>

record idt_entry =
  offset_low :: u16
  selector :: u16
  ist :: u8
  type_attr :: u8
  offset_mid :: u16
  offset_high :: u32
  ireserved :: u32

definition set_gate :: "nat \<Rightarrow> u64 \<Rightarrow> u8 \<Rightarrow> idt_entry list \<Rightarrow> idt_entry list" where
  "set_gate vec addr attr idt =
     idt[vec := \<lparr>offset_low = ucast (addr AND 0xFFFF), selector = 0x08, ist = 0, type_attr = attr,
       offset_mid = ucast (drop_bit 16 addr AND 0xFFFF), offset_high = ucast (drop_bit 32 addr AND 0xFFFFFFFF),
       ireserved = 0\<rparr>]"

definition set_gate_external :: "nat \<Rightarrow> u64 \<Rightarrow> u8 \<Rightarrow> idt_entry list \<Rightarrow> idt_entry list" where
  "set_gate_external vec addr attr idt = set_gate vec addr attr idt"

definition idt_init :: "(nat \<Rightarrow> u64) \<Rightarrow> u64 \<Rightarrow> idt_entry list \<Rightarrow> idt_entry list \<times> table_ptr" where
  "idt_init isr_stub_table idt_at idt =
     (fold (\<lambda>i. set_gate i (isr_stub_table i) 0x8E) [0..<32] idt, \<lparr>tp_limit = 256 * 16 - 1, tp_base = idt_at\<rparr>)"

text \<open>The gates \<open>irq_install\<close> of \<^verbatim>\<open>irq.c\<close> adds for the sixteen hardware interrupts.\<close>

definition irq_gates :: "(nat \<Rightarrow> u64) \<Rightarrow> idt_entry list \<Rightarrow> idt_entry list" where
  "irq_gates irq_stub_table idt = fold (\<lambda>i. set_gate_external (32 + i) (irq_stub_table i) 0x8E) [0..<16] idt"

text \<open>The gate of \<open>int 0x80\<close>, from \<^verbatim>\<open>kernel/syscall/syscall.c\<close>.\<close>

definition syscall_init :: "u64 \<Rightarrow> idt_entry list \<Rightarrow> idt_entry list" where
  "syscall_init syscall_entry idt = set_gate_external 0x80 syscall_entry 0xEE idt"

section \<open>What the processor reads\<close>

definition gate_offset :: "idt_entry \<Rightarrow> u64" where
  "gate_offset e = ucast (offset_low e) OR push_bit 16 (ucast (offset_mid e)) OR push_bit 32 (ucast (offset_high e))"

definition tss_base :: "gdt_entry \<Rightarrow> gdt_entry \<Rightarrow> u64" where
  "tss_base e e' = ucast (base_low e) OR push_bit 16 (ucast (base_mid e)) OR push_bit 24 (ucast (base_high e)) OR
     push_bit 32 (ucast (limit_low e')) OR push_bit 48 (ucast (base_low e'))"

definition seg_limit :: "gdt_entry \<Rightarrow> nat" where
  "seg_limit e = unat (limit_low e) + 65536 * (unat (granularity e) mod 16)"

definition dpl :: "u8 \<Rightarrow> nat" where
  "dpl acc = unat acc div 32 mod 4"

definition present :: "u8 \<Rightarrow> bool" where
  "present acc = bit acc 7"

text \<open>
  The type field: system bit and type. 14 is a 64-bit interrupt gate (15 would be a trap gate, which leaves interrupts
  enabled), 9 an available 64-bit TSS; 16 and above are segments, 26 readable code and 18 writable data.
\<close>

definition desc_type :: "u8 \<Rightarrow> nat" where
  "desc_type acc = unat acc mod 32"

text \<open>The long-mode bit of a code segment.\<close>

definition long_mode :: "gdt_entry \<Rightarrow> bool" where
  "long_mode e = bit (granularity e) 5"

lemma masks:
  "(0xFFFF :: 'a::len word) = mask 16" "(0xFF :: 'a word) = mask 8" "(0xFFFFFFFF :: 'a word) = mask 32"
  by (simp_all add: mask_eq_exp_minus_1)

text \<open>A word is put together from its slices; the bits above 64 are none.\<close>

lemma gate_slices:
  "ucast (ucast (x AND mask 16) :: u16) OR push_bit 16 (ucast (ucast (drop_bit 16 x AND mask 16) :: u16)) OR
     push_bit 32 (ucast (ucast (drop_bit 32 x AND mask 32) :: u32)) = (x :: u64)"
proof (rule bit_word_eqI)
  fix n assume n: "n < LENGTH(64)"
  have "n < 16 \<or> 16 \<le> n \<and> n - 16 < 16 \<and> \<not> 32 \<le> n \<or> 32 \<le> n \<and> n - 32 < 32 \<and> \<not> n - 16 < 16" using n by auto
  then show "bit (ucast (ucast (x AND mask 16) :: u16) OR push_bit 16 (ucast (ucast (drop_bit 16 x AND mask 16) :: u16)) OR
     push_bit 32 (ucast (ucast (drop_bit 32 x AND mask 32) :: u32)) :: u64) n = bit x n"
    using n by (elim disjE) (auto simp: bit_simps)
qed

lemma tss_slices:
  "ucast (ucast (x AND mask 16) :: u16) OR push_bit 16 (ucast (ucast (drop_bit 16 x AND mask 8) :: u8)) OR
     push_bit 24 (ucast (ucast (drop_bit 24 x AND mask 8) :: u8)) OR
     push_bit 32 (ucast (ucast (ucast (drop_bit 32 x AND mask 32) :: u32) :: u16)) OR
     push_bit 48 (ucast (ucast (drop_bit 16 (ucast (drop_bit 32 x AND mask 32) :: u32)) :: u16)) = (x :: u64)"
    (is "?l = x")
proof (rule bit_word_eqI)
  fix n assume n: "n < LENGTH(64)"
  consider "n < 16" | "16 \<le> n" "n < 24" | "24 \<le> n" "n < 32" | "32 \<le> n" "n < 48" | "48 \<le> n" by linarith
  then show "bit ?l n = bit x n" using n
  proof cases
    case 2
    then have "n - 16 < 8" by simp
    then show ?thesis using 2 n by (auto simp: bit_simps)
  next
    case 3
    then have "n - 24 < 8" "\<not> n - 16 < 8" by simp_all
    then show ?thesis using 3 n by (auto simp: bit_simps)
  next
    case 4
    then have "n - 32 < 16" "\<not> n - 16 < 8" "\<not> n - 24 < 8" by simp_all
    then show ?thesis using 4 n by (auto simp: bit_simps)
  next
    case 5
    then have "n - 48 < 16" "\<not> n - 16 < 8" "\<not> n - 24 < 8" "\<not> n - 32 < 16" "32 + (16 + (n - 48)) = n" using n by simp_all
    then show ?thesis using 5 n by (auto simp: bit_simps)
  qed (auto simp: bit_simps)
qed

lemma gate_offset_set [simp]: "vec < length idt \<Longrightarrow> gate_offset (set_gate vec addr attr idt ! vec) = addr"
  using gate_slices [of addr] by (simp add: gate_offset_def set_gate_def masks)

lemma tss_base_set:
  assumes "Suc i < length g"
  shows "tss_base (set_tss i base limit g ! i) (set_tss i base limit g ! Suc i) = base"
  using assms tss_slices [of base] by (simp add: tss_base_def set_tss_def upper_slot_def gdt_entry.truncate_def masks)

lemma fold_set_gate:
  assumes "k + n \<le> length idt"
  shows "length (fold (\<lambda>i. set_gate (k + i) (f i) a) [0..<n] idt) = length idt"
    "v < length idt \<Longrightarrow> fold (\<lambda>i. set_gate (k + i) (f i) a) [0..<n] idt ! v =
       (if k \<le> v \<and> v < k + n then set_gate v (f (v - k)) a idt ! v else idt ! v)"
  using assms
proof (induction n)
  case (Suc n)
  { case 1 then show ?case using Suc.IH(1) by (simp add: set_gate_def) }
  { case 2
    then show ?case using Suc.IH by (auto simp: set_gate_def nth_list_update less_Suc_eq) }
qed auto

text \<open>
  C39. The tables after start-up. Each of the first 48 vectors leads to its stub through a present interrupt gate
  of the kernel code segment, on the current stack, that Ring 3 cannot call; the gate of \<open>int 0x80\<close> is an interrupt gate that leads to
  the system call entry and the only one added that Ring 3 can call; all other vectors are as they were. The
  null descriptor is zero; kernel code and data and user code and data are present segments of these types, with the
  privilege levels their selectors stand for, code in long mode; the task register finds a present TSS of
  the right type and size at its address, whose Ring 0 stack is the top of the boot stack. The pointers loaded into the
  processor give the addresses and the sizes (less one) of the two tables.
\<close>

theorem descriptor_tables_correct:
  assumes "length idt0 = 256" "length g0 = 7" "idt_init isr idt_at idt0 = (idt1, ip)"
    and "idt = syscall_init entry (irq_gates irq idt1)" "gdt_init tss_at stack_at gdt_at g0 = (g, t, gp)"
  shows "(\<forall>v < 48. gate_offset (idt ! v) = (if v < 32 then isr v else irq (v - 32)) \<and> selector (idt ! v) = 8 \<and> ist (idt ! v) = 0 \<and>
       present (type_attr (idt ! v)) \<and> desc_type (type_attr (idt ! v)) = 14 \<and> dpl (type_attr (idt ! v)) = 0) \<and>
     gate_offset (idt ! 0x80) = entry \<and> selector (idt ! 0x80) = 8 \<and> ist (idt ! 0x80) = 0 \<and>
     present (type_attr (idt ! 0x80)) \<and> desc_type (type_attr (idt ! 0x80)) = 14 \<and> dpl (type_attr (idt ! 0x80)) = 3 \<and>
     (\<forall>v. 48 \<le> v \<longrightarrow> v < 256 \<longrightarrow> v \<noteq> 0x80 \<longrightarrow> idt ! v = idt0 ! v) \<and>
     g ! 0 = \<lparr>limit_low = 0, base_low = 0, base_mid = 0, gaccess = 0, granularity = 0, base_high = 0\<rparr> \<and>
     map (\<lambda>i. (present (gaccess (g ! i)), desc_type (gaccess (g ! i)), dpl (gaccess (g ! i)), long_mode (g ! i))) [1, 2, 3, 4] =
       [(True, 26, 0, True), (True, 18, 0, False), (True, 26, 3, True), (True, 18, 3, False)] \<and>
     present (gaccess (g ! 5)) \<and> desc_type (gaccess (g ! 5)) = 9 \<and>
     tss_base (g ! 5) (g ! 6) = tss_at \<and> seg_limit (g ! 5) = 103 \<and> rsp0 t = stack_at + 16384 \<and> iopb_offset t = 104 \<and>
     ip = \<lparr>tp_limit = 4095, tp_base = idt_at\<rparr> \<and> gp = \<lparr>tp_limit = 55, tp_base = gdt_at\<rparr>"
proof -
  have i1: "idt1 = fold (\<lambda>i. set_gate (0 + i) (isr i) 0x8E) [0..<32] idt0" "ip = \<lparr>tp_limit = 4095, tp_base = idt_at\<rparr>"
    using assms(3) by (simp_all add: idt_init_def)
  define idt2 where "idt2 = irq_gates irq idt1"
  have i2: "idt2 = fold (\<lambda>i. set_gate (32 + i) (irq i) 0x8E) [0..<16] idt1"
    by (simp add: idt2_def irq_gates_def set_gate_external_def [abs_def])
  have i3: "idt = set_gate 0x80 entry 0xEE idt2" using assms(4) by (simp add: syscall_init_def set_gate_external_def idt2_def)
  have l1: "length idt1 = 256" unfolding i1(1) using fold_set_gate(1) [of 0 32 idt0] assms(1) by simp
  have e1: "idt1 ! v = (if v < 32 then set_gate v (isr v) 0x8E idt0 ! v else idt0 ! v)" if "v < 256" for v
    using fold_set_gate(2) [of 0 32 idt0 v isr "0x8E"] assms(1) that by (simp add: i1(1))
  have l2: "length idt2 = 256" unfolding i2 using fold_set_gate(1) [of 32 16 idt1] l1 by simp
  have e3: "idt ! v = (if v = 0x80 then set_gate v entry 0xEE idt2 ! v else idt2 ! v)" for v
    by (simp add: i3 set_gate_def)
  have e2: "idt2 ! v = (if 32 \<le> v \<and> v < 48 then set_gate v (irq (v - 32)) 0x8E idt1 ! v else idt1 ! v)" if "v < 256" for v
    using fold_set_gate(2) [of 32 16 idt1 v irq "0x8E"] l1 that by (simp add: i2)
  have "gate_offset (idt ! v) = (if v < 32 then isr v else irq (v - 32)) \<and> selector (idt ! v) = 8 \<and> ist (idt ! v) = 0 \<and>
       present (type_attr (idt ! v)) \<and> desc_type (type_attr (idt ! v)) = 14 \<and> dpl (type_attr (idt ! v)) = 0" if "v < 48" for v
  proof -
    have v: "v < length idt0" "v < length idt1" "v < 256" using that assms(1) l1 by simp_all
    have "\<exists>i. v < length i \<and> idt ! v = set_gate v (if v < 32 then isr v else irq (v - 32)) 0x8E i ! v"
      using e1 [OF v(3)] e2 [OF v(3)] e3 [of v] that v(1,2) by (cases "v < 32") auto
    then obtain i where i: "v < length i" "idt ! v = set_gate v (if v < 32 then isr v else irq (v - 32)) 0x8E i ! v" by blast
    show ?thesis unfolding i(2) gate_offset_set [OF i(1)] using i(1)
      by (simp add: set_gate_def present_def desc_type_def dpl_def bit_numeral_rec)
  qed
  moreover have "gate_offset (idt ! 0x80) = entry \<and> selector (idt ! 0x80) = 8 \<and> ist (idt ! 0x80) = 0 \<and>
      present (type_attr (idt ! 0x80)) \<and> desc_type (type_attr (idt ! 0x80)) = 14 \<and> dpl (type_attr (idt ! 0x80)) = 3"
    unfolding i3 using l2 gate_offset_set [of "0x80" idt2 entry "0xEE"]
    by (simp add: set_gate_def present_def desc_type_def dpl_def bit_numeral_rec)
  moreover have "idt ! v = idt0 ! v" if "48 \<le> v" "v < 256" "v \<noteq> 0x80" for v
    using e1 [OF that(2)] e2 [OF that(2)] e3 [of v] that by simp
  moreover have g: "g = set_tss 5 tss_at (sizeof_tss - 1) (set_entry 4 0xF2 0xC0 (set_entry 3 0xFA 0xA0
      (set_entry 2 0x92 0xC0 (set_entry 1 0x9A 0xA0 (set_entry 0 0 0 g0)))))" "rsp0 t = stack_at + 16384"
      "iopb_offset t = 104" "gp = \<lparr>tp_limit = 55, tp_base = gdt_at\<rparr>"
    using assms(5) by (auto simp: gdt_init_def Let_def sizeof_kernel_stack_def sizeof_tss_def)
  moreover have "tss_base (g ! 5) (g ! 6) = tss_at"
    unfolding g(1) by (rule tss_base_set [of 5, simplified]) (simp add: set_entry_def assms(2))
  moreover have "seg_limit (g ! 5) = 103" "present (gaccess (g ! 5))" "desc_type (gaccess (g ! 5)) = 9"
      "g ! 0 = \<lparr>limit_low = 0, base_low = 0, base_mid = 0, gaccess = 0, granularity = 0, base_high = 0\<rparr>"
      "map (\<lambda>i. (present (gaccess (g ! i)), desc_type (gaccess (g ! i)), dpl (gaccess (g ! i)), long_mode (g ! i))) [1, 2, 3, 4] =
       [(True, 26, 0, True), (True, 18, 0, False), (True, 26, 3, True), (True, 18, 3, False)]"
    using assms(2) by (simp_all add: g(1) set_tss_def gdt_entry.truncate_def set_entry_def sizeof_tss_def seg_limit_def
        present_def desc_type_def dpl_def long_mode_def bit_numeral_rec)
  ultimately show ?thesis using i1(2) by blast
qed

theorem descriptor_tables_correct_witness:
  "\<exists>blank null. gate_offset (syscall_init 0xFFFFFFFF80110000 (irq_gates (\<lambda>i. 0xFFFFFFFF80200000 + 16 * of_nat i)
       (fst (idt_init (\<lambda>i. 0xFFFFFFFF80100000) 0xFFFFFFFF80300000 (replicate 256 blank)))) ! 33) = 0xFFFFFFFF80200010 \<and>
     desc_type (type_attr (syscall_init 0xFFFFFFFF80110000 (irq_gates (\<lambda>i. 0xFFFFFFFF80200000 + 16 * of_nat i)
       (fst (idt_init (\<lambda>i. 0xFFFFFFFF80100000) 0xFFFFFFFF80300000 (replicate 256 blank)))) ! 0x80)) = 14 \<and>
     seg_limit (fst (gdt_init 0xFFFFFFFF80400000 0xFFFFFFFF80500000 0xFFFFFFFF80600000 (replicate 7 null)) ! 5) = 103"
proof -
  let ?isr = "\<lambda>i. 0xFFFFFFFF80100000 :: u64" and ?irq = "\<lambda>i. 0xFFFFFFFF80200000 + 16 * of_nat i :: u64"
  define blank where "blank = \<lparr>offset_low = 0, selector = 0, ist = 0, type_attr = 0, offset_mid = 0, offset_high = 0, ireserved = 0\<rparr>"
  define null where "null = \<lparr>limit_low = 0, base_low = 0, base_mid = 0, gaccess = 0, granularity = 0, base_high = 0\<rparr>"
  obtain idt1 ip where i: "idt_init ?isr 0xFFFFFFFF80300000 (replicate 256 blank) = (idt1, ip)" by fastforce
  obtain g t gp where g: "gdt_init 0xFFFFFFFF80400000 0xFFFFFFFF80500000 0xFFFFFFFF80600000 (replicate 7 null) = (g, t, gp)"
    by (metis prod_cases3)
  have "length (replicate 256 blank) = 256" "length (replicate 7 null) = 7" by simp_all
  note d = descriptor_tables_correct [OF this i refl g, of "0xFFFFFFFF80110000" ?irq]
  have "gate_offset (syscall_init 0xFFFFFFFF80110000 (irq_gates ?irq idt1) ! 33) = 0xFFFFFFFF80200010" using d by (elim conjE, elim allE [of _ 33]) simp
  then show ?thesis using d i g by (intro exI [of _ blank] exI [of _ null]) simp
qed

end
