(* ===== verification/Irq.thy ===== *)
theory Irq
  imports Descriptors Keyboard Mouse SchedExample UserAccess
begin

text \<open>
  Hardware interrupts, \<^verbatim>\<open>kernel/arch/x86_64/irq.c\<close>: the one dispatch point that drives the scheduler, the
  keyboard and the mouse. The state puts the state of those components side by side; the controllers are
  reached through the ports, whose state is the mouse driver's \<open>mouse_hw\<close>.
\<close>

record 'hw irq_state =
  timer_ticks :: u64
  reported :: bool
  i_kbd :: kbd_state
  i_mouse :: "'hw mouse_driver"
  i_sched :: sched_state


definition pit_init :: "'hw ports \<Rightarrow> u32 \<Rightarrow> 'hw \<Rightarrow> 'hw" where
  "pit_init P hz h =
     (let divisor = 1193182 div hz;
          h = outb P 0x43 0x36 h;
          h = outb P 0x40 (ucast (divisor AND 0xFF)) h
      in outb P 0x40 (ucast (drop_bit 8 divisor AND 0xFF)) h)"

text \<open>\<open>irq_install\<close>: the gates, then the timer at 100 Hz and two lines unmasked.\<close>

definition irq_install :: "'hw ports \<Rightarrow> (nat \<Rightarrow> u64) \<Rightarrow> idt_entry list \<Rightarrow> 'hw \<Rightarrow> idt_entry list \<times> 'hw" where
  "irq_install P irq_stub_table idt h =
     (irq_gates irq_stub_table idt, pic_clear_mask P 1 (pic_clear_mask P 0 (pit_init P 100 h)))"

definition get_ticks :: "'hw irq_state \<Rightarrow> u64" where
  "get_ticks st = timer_ticks st"


section \<open>Every interrupt is acknowledged\<close>









end
