(* ===== verification/Desktop.thy ===== *)
theory Desktop
  imports Fbcon Mouse Rtc "HOL-Library.Signed_Division"
begin

text \<open>
  The desktop, \<^verbatim>\<open>kernel/gui/desktop.c\<close>: it paints wallpaper, taskbar and terminal window with the
  graphics routines, hands the window to the framebuffer console, and keeps clock and pointer current.
\<close>

definition TASKBAR_H :: int where "TASKBAR_H = 36"
definition TITLEBAR_H :: int where "TITLEBAR_H = 28"
definition COL_TASKBAR :: u32 where "COL_TASKBAR = RGB 0x14 0x14 0x1E"
definition COL_TASKLINE :: u32 where "COL_TASKLINE = RGB 0x3A 0x3A 0x55"
definition COL_START :: u32 where "COL_START = RGB 0x2D 0x6C 0xDF"
definition COL_TASKBTN :: u32 where "COL_TASKBTN = RGB 0x2A 0x2A 0x3C"
definition COL_TEXT :: u32 where "COL_TEXT = RGB 0xF0 0xF0 0xF5"
definition COL_TEXT_DIM :: u32 where "COL_TEXT_DIM = RGB 0xB0 0xB0 0xC8"
definition COL_SHADOW :: u32 where "COL_SHADOW = RGB 0x0A 0x0A 0x14"
definition COL_FRAME :: u32 where "COL_FRAME = RGB 0x3A 0x3A 0x55"
definition COL_TITLE :: u32 where "COL_TITLE = RGB 0x26 0x26 0x3A"
definition COL_CON_BG :: u32 where "COL_CON_BG = RGB 0x1E 0x1E 0x2E"
definition COL_CON_FG :: u32 where "COL_CON_FG = RGB 0xE0 0xE0 0xE8"

record desktop_state =
  dW :: int
  dH :: int
  last_second :: u8

text \<open>Division of \<open>int\<close> in C rounds towards zero.\<close>

definition cdiv :: "int \<Rightarrow> int \<Rightarrow> int" where
  "cdiv a b = a sdiv b"

section \<open>The clock\<close>

definition put2 :: "nat \<Rightarrow> string" where
  "put2 v = [char_of (48 + v div 10), char_of (48 + v mod 10)]"

definition month_name :: "nat \<Rightarrow> string" where
  "month_name n = (if 1 \<le> n \<and> n \<le> 12
     then [''Jan'', ''Feb'', ''Mar'', ''Apr'', ''May'', ''Jun'', ''Jul'', ''Aug'', ''Sep'', ''Oct'', ''Nov'', ''Dec''] ! (n - 1)
     else ''???'')"

definition clock_text :: "rtc_time \<Rightarrow> string" where
  "clock_text t = put2 (unat (hour t)) @ '':'' @ put2 (unat (minute t)) @ '':'' @ put2 (unat (second t)) @ ''  '' @
     put2 (unat (day t)) @ '' '' @ month_name (unat (month t)) @ '' '' @
     put2 (unat (year t) div 100) @ put2 (unat (year t) mod 100)"

definition draw_clock :: "desktop_state \<Rightarrow> rtc_time \<Rightarrow> 'a gfx_state_scheme \<Rightarrow> 'a gfx_state_scheme" where
  "draw_clock d t g =
     (let w = 21 * FONT_W;
          x = dW d - w - 14;
          y = dH d - TASKBAR_H + (TASKBAR_H - FONT_H) div 2;
          g = gfx_fill_rect (x - 4) y (w + 8) FONT_H COL_TASKBAR g;
          g = gfx_draw_text x y (clock_text t) COL_TEXT COL_TASKBAR g
      in gfx_present (x - 4) y (w + 8) FONT_H g)"

section \<open>Painting\<close>

definition wallpaper_row :: "int \<Rightarrow> int \<Rightarrow> u32" where
  "wallpaper_row h y =
     (let r = 0x18 + cdiv ((0x5A - 0x18) * y) h;
          gr = 0x20 + cdiv ((0x1C - 0x20) * y) h;
          b = 0x6E + cdiv ((0x8C - 0x6E) * y) h
      in RGB (word_of_int r) (word_of_int gr) (word_of_int b))"

definition draw_wallpaper :: "desktop_state \<Rightarrow> 'a gfx_state_scheme \<Rightarrow> 'a gfx_state_scheme" where
  "draw_wallpaper d g =
     (let h = dH d - TASKBAR_H in fold (\<lambda>y. gfx_fill_rect 0 y (dW d) 1 (wallpaper_row h y)) [0..h - 1] g)"

definition draw_taskbar :: "desktop_state \<Rightarrow> 'a gfx_state_scheme \<Rightarrow> 'a gfx_state_scheme" where
  "draw_taskbar d g =
     (let y = dH d - TASKBAR_H;
          g = gfx_fill_rect 0 y (dW d) TASKBAR_H COL_TASKBAR g;
          g = gfx_fill_rect 0 y (dW d) 1 COL_TASKLINE g;
          g = gfx_fill_rect 6 (y + 5) (11 * FONT_W + 16) (TASKBAR_H - 10) COL_START g;
          g = gfx_draw_text 14 (y + (TASKBAR_H - FONT_H) div 2) ''RevinixOS'' COL_TEXT COL_START g;
          bx = 6 + 11 * FONT_W + 16 + 8;
          g = gfx_fill_rect bx (y + 5) (10 * FONT_W + 16) (TASKBAR_H - 10) COL_TASKBTN g;
          g = gfx_fill_rect bx (y + TASKBAR_H - 7) (10 * FONT_W + 16) 2 COL_START g
      in gfx_draw_text (bx + 8) (y + (TASKBAR_H - FONT_H) div 2) ''Terminal'' COL_TEXT_DIM COL_TASKBTN g)"

text \<open>The rectangle of the window's content beside the screen.\<close>

definition draw_window ::
  "int \<Rightarrow> int \<Rightarrow> int \<Rightarrow> int \<Rightarrow> string \<Rightarrow> 'a gfx_state_scheme \<Rightarrow> (int \<times> int \<times> int \<times> int) \<times> 'a gfx_state_scheme" where
  "draw_window x y w h title g =
     (let g = gfx_fill_rect (x + 6) (y + 6) w h COL_SHADOW g;
          g = gfx_fill_rect x y w h COL_FRAME g;
          g = gfx_fill_rect (x + 1) (y + 1) (w - 2) (TITLEBAR_H - 1) COL_TITLE g;
          g = gfx_draw_text (x + 12) (y + (TITLEBAR_H - FONT_H) div 2) title COL_TEXT COL_TITLE g;
          btn = [RGB 0x5A 0xC8 0x5A, RGB 0xE6 0xB4 0x32, RGB 0xE0 0x50 0x50];
          g = fold (\<lambda>i. gfx_fill_rect (x + w - 22 - int i * 20) (y + 8) 12 12 (btn ! (2 - i))) [0..<3] g;
          (cx, cy, cw, ch) = (x + 1, y + TITLEBAR_H, w - 2, h - TITLEBAR_H - 1)
      in ((cx, cy, cw, ch), gfx_fill_rect cx cy cw ch COL_CON_BG g))"

definition desktop_init ::
  "'hw ports \<Rightarrow> desktop_state \<Rightarrow> 'hw \<Rightarrow> 'a fbcon_state_scheme \<Rightarrow> (desktop_state \<times> 'hw \<times> 'a fbcon_state_scheme) option" where
  "desktop_init P d hw g =
     (let d = d\<lparr>dW := gfx_width g, dH := gfx_height g\<rparr>;
          g = draw_wallpaper d g;
          g = draw_taskbar d g;
          mx = cdiv (dW d) 16; my = cdiv (dH d) 18;
          ((cx, cy, cw, ch), g) = draw_window mx my (dW d - 2 * mx) (dH d - TASKBAR_H - 2 * my) ''Terminal - RevinixOS shell'' g;
          g = gfx_present 0 0 (dW d) (dH d) g;
          g = fbcon_init (cx + 8) (cy + 6) (cw - 16) (ch - 12) COL_CON_FG COL_CON_BG g
      in map_option (\<lambda>(t, hw). (d\<lparr>last_second := second t\<rparr>, hw, draw_clock d t g)) (rtc_read P hw))"

definition desktop_tick ::
  "'hw ports \<Rightarrow> desktop_state \<Rightarrow> 'hw mouse_driver \<Rightarrow> 'hw \<Rightarrow> 'a fbcon_state_scheme \<Rightarrow>
   (desktop_state \<times> 'hw mouse_driver \<times> 'hw \<times> 'a fbcon_state_scheme) option" where
  "desktop_tick P d m hw g =
     (if \<not> gfx_ready g \<or> \<not> fbcon_active g then Some (d, m, hw, g)
      else
        let ((changed, ms), m) = mouse_poll m;
            g = (if changed then gfx_cursor_set (ms_x ms) (ms_y ms) g else g)
        in map_option (\<lambda>(t, hw). if second t = last_second d then (d, m, hw, g)
             else (d\<lparr>last_second := second t\<rparr>, m, hw, draw_clock d t g)) (rtc_read P hw))"

section \<open>The clock text\<close>

text \<open>Two digits that read back as the number; the text fills its 24-byte buffer up to the terminator at 21.\<close>

lemma put2_digits: "v < 100 \<Longrightarrow> length (put2 v) = 2 \<and> 10 * (of_char (put2 v ! 0) - 48) + (of_char (put2 v ! 1) - 48) = v"
  by (simp add: put2_def of_char_of)

lemma clock_text_length: "length (clock_text t) = 21"
proof -
  have "length (month_name n) = 3" for n
  proof (cases "1 \<le> n \<and> n \<le> 12")
    case True
    then have "n - 1 < 12" by linarith
    then have "n - 1 \<in> set [0..<12]" by simp
    then show ?thesis using True by (auto simp: month_name_def upt_conv_Cons)
  qed (auto simp: month_name_def)
  then show ?thesis by (simp add: clock_text_def put2_def)
qed

end
