(* ===== verification/Exceptions.thy ===== *)
theory Exceptions
  imports KprintfSpec UserAccess
begin

text \<open>
  The handler of processor exceptions, \<open>isr_handler\<close> of \<^verbatim>\<open>kernel/arch/x86_64/idt.c\<close>. It prints a report and then halts for ever with interrupts
  off: the result is the state in which it halts.
\<close>

definition exception_names :: "string list" where
  "exception_names =
    [''Divide-by-Zero'', ''Debug'', ''Non-Maskable Interrupt'', ''Breakpoint'',
     ''Overflow'', ''Bound Range Exceeded'', ''Invalid Opcode'', ''Device Not Available'',
     ''Double Fault'', ''Coprocessor Segment Overrun'', ''Invalid TSS'', ''Segment Not Present'',
     ''Stack-Segment Fault'', ''General Protection Fault'', ''Page Fault'', ''Reserved'',
     ''x87 FP Exception'', ''Alignment Check'', ''Machine Check'', ''SIMD FP Exception'',
     ''Virtualization'', ''Control Protection'', ''Reserved'', ''Reserved'',
     ''Reserved'', ''Reserved'', ''Reserved'', ''Reserved'',
     ''Hypervisor Injection'', ''VMM Communication'', ''Security'', ''Reserved'']"

definition isr_handler ::
  "'hw ports \<Rightarrow> interrupt_frame \<Rightarrow> u64 \<Rightarrow> ('hw, 'a) console_state_scheme \<Rightarrow> ('hw, 'a) console_state_scheme option" where
  "isr_handler P frame cr2 s = do {
     s \<leftarrow> kprintf P ([CHR 0x0A] @ ''*** CPU EXCEPTION ***'' @ [CHR 0x0A]) [] s;
     s \<leftarrow> (if int_no frame < 32
           then kprintf P (''   %s (vector %d)'' @ [CHR 0x0A]) [Str (exception_names ! unat (int_no frame)), Num (int_no frame)] s
           else kprintf P (''   Unknown interrupt %d'' @ [CHR 0x0A]) [Num (int_no frame)] s);
     s \<leftarrow> kprintf P (''   Error code: %x'' @ [CHR 0x0A]) [Num (err_code frame)] s;
     s \<leftarrow> kprintf P (''   RIP: %p'' @ [CHR 0x0A]) [Num (rip frame)] s;
     s \<leftarrow> kprintf P (''  RSP: %p'' @ [CHR 0x0A]) [Num (rsp frame)] s;
     s \<leftarrow> kprintf P (''  RFLAGS: %p'' @ [CHR 0x0A]) [Num (rflags frame)] s;
     s \<leftarrow> (if int_no frame = 14 then kprintf P (''  Faulting address (CR2): %p'' @ [CHR 0x0A]) [Num cr2] s else Some s);
     kprintf P (''  System halted.'' @ [CHR 0x0A]) [] s
   }"

section \<open>The report\<close>

lemma emit_str_append: "emit_str P (xs @ ys) s = Option.bind (emit_str P xs s) (emit_str P ys)"
  by (induction xs arbitrary: s) (simp_all split: bind_split)

definition isr_report :: "interrupt_frame \<Rightarrow> u64 \<Rightarrow> string" where
  "isr_report frame cr2 =
     ([CHR 0x0A] @ ''*** CPU EXCEPTION ***'' @ [CHR 0x0A]) @
     (if int_no frame < 32
      then ''   '' @ exception_names ! unat (int_no frame) @ '' (vector '' @ print_int (of_int (sint (ucast (int_no frame) :: u32))) @ '')'' @ [CHR 0x0A]
      else ''   Unknown interrupt '' @ print_int (of_int (sint (ucast (int_no frame) :: u32))) @ [CHR 0x0A]) @
     (''   Error code: '' @ print_uint (ucast (ucast (err_code frame) :: u32)) 16 @ [CHR 0x0A]) @
     (''   RIP: 0x'' @ print_uint (rip frame) 16 @ [CHR 0x0A]) @
     (''  RSP: 0x'' @ print_uint (rsp frame) 16 @ [CHR 0x0A]) @
     (''  RFLAGS: 0x'' @ print_uint (rflags frame) 16 @ [CHR 0x0A]) @
     (if int_no frame = 14 then ''  Faulting address (CR2): 0x'' @ print_uint cr2 16 @ [CHR 0x0A] else []) @
     (''  System halted.'' @ [CHR 0x0A])"

lemma kprintf_emits: "kformat fmt args = Some out \<Longrightarrow> kprintf P fmt args s = emit_str P out s"
  by (simp add: kprintf_def)

text \<open>No argument is missing and no index leaves the table: the report is printed whatever the frame holds.\<close>

lemma isr_handler_emits: "isr_handler P frame cr2 s = emit_str P (isr_report frame cr2) s"
proof -
  have k:
    "kprintf P ([CHR 0x0A] @ ''*** CPU EXCEPTION ***'' @ [CHR 0x0A]) [] t = emit_str P ([CHR 0x0A] @ ''*** CPU EXCEPTION ***'' @ [CHR 0x0A]) t"
    "kprintf P (''   %s (vector %d)'' @ [CHR 0x0A]) [Str (exception_names ! unat (int_no frame)), Num (int_no frame)] t = emit_str P (''   '' @ exception_names ! unat (int_no frame) @ '' (vector '' @ print_int (of_int (sint (ucast (int_no frame) :: u32))) @ '')'' @ [CHR 0x0A]) t"
    "kprintf P (''   Unknown interrupt %d'' @ [CHR 0x0A]) [Num (int_no frame)] t = emit_str P (''   Unknown interrupt '' @ print_int (of_int (sint (ucast (int_no frame) :: u32))) @ [CHR 0x0A]) t"
    "kprintf P (''   Error code: %x'' @ [CHR 0x0A]) [Num (err_code frame)] t = emit_str P (''   Error code: '' @ print_uint (ucast (ucast (err_code frame) :: u32)) 16 @ [CHR 0x0A]) t"
    "kprintf P (''   RIP: %p'' @ [CHR 0x0A]) [Num (rip frame)] t = emit_str P (''   RIP: 0x'' @ print_uint (rip frame) 16 @ [CHR 0x0A]) t"
    "kprintf P (''  RSP: %p'' @ [CHR 0x0A]) [Num (rsp frame)] t = emit_str P (''  RSP: 0x'' @ print_uint (rsp frame) 16 @ [CHR 0x0A]) t"
    "kprintf P (''  RFLAGS: %p'' @ [CHR 0x0A]) [Num (rflags frame)] t = emit_str P (''  RFLAGS: 0x'' @ print_uint (rflags frame) 16 @ [CHR 0x0A]) t"
    "kprintf P (''  Faulting address (CR2): %p'' @ [CHR 0x0A]) [Num cr2] t = emit_str P (''  Faulting address (CR2): 0x'' @ print_uint cr2 16 @ [CHR 0x0A]) t"
    "kprintf P (''  System halted.'' @ [CHR 0x0A]) [] t = emit_str P (''  System halted.'' @ [CHR 0x0A]) t" for t
    by (rule kprintf_emits, simp)+
  have e: "(if b then emit_str P x t else Some t) = emit_str P (if b then x else []) t" for b x t by simp
  have f: "(if b then emit_str P x t else emit_str P y t) = emit_str P (if b then x else y) t" for b x y t by simp
  show ?thesis unfolding isr_handler_def isr_report_def k by (simp only: e f emit_str_append [symmetric])
qed

text \<open>The whole report is in the kernel log when the machine halts.\<close>

lemma isr_report_logged:
  assumes "klog_holds s log" "length log + length (isr_report frame cr2) < 18446744073709551616" "isr_handler P frame cr2 s = Some t"
  shows "klog_holds t (log @ isr_report frame cr2)"
  using emit_str_holds [OF assms(1,2)] assms(3) unfolding isr_handler_emits by blast

end
