(* ===== verification/Shell.thy ===== *)
theory Shell
  imports Lifecycle Kprintf Keyboard Mouse
begin

text \<open>
  The shell, \<^verbatim>\<open>kernel/shell.c\<close>: its string helpers, the commands as the text they print together with their
  effect on heap and file system, and the dispatch on the command word. C strings are lists without the terminator.
  Waiting for a started program is a sequence of context switches: \<open>cmd_run\<close> is the command up to the point where it waits,
  \<open>wait_done\<close> relates the states before and after the wait, and \<open>cmd_run_end\<close> is the rest.
\<close>

section \<open>Strings\<close>

fun str_eq :: "string \<Rightarrow> string \<Rightarrow> bool" where
  "str_eq (a # as) (b # bs) = (if a \<noteq> b then False else str_eq as bs)"
| "str_eq as bs = (as = [] \<and> bs = [])"

fun skip_spaces :: "string \<Rightarrow> string" where
  "skip_spaces (c # chs) = (if c = CHR '' '' then skip_spaces chs else c # chs)"
| "skip_spaces [] = []"

text \<open>The command word left in the line and the argument.\<close>

fun split_arg :: "string \<Rightarrow> string \<times> string" where
  "split_arg [] = ([], [])"
| "split_arg (c # chs) = (if c = CHR '' '' then ([], skip_spaces chs) else let (w, a) = split_arg chs in (c # w, a))"

definition print_hex :: "u64 \<Rightarrow> nat \<Rightarrow> string" where
  "print_hex v digits = map (\<lambda>i. ''0123456789abcdef'' ! unat (drop_bit (i * 4) v AND 0xF)) (rev [0..<digits])"

section \<open>Commands\<close>

definition cmd_help :: string where
  "cmd_help = concat (map (\<lambda>l. l @ [CHR 0x0A])
     [''commands:'',
      ''  ls              list files in the root directory'',
      ''  cat <file>      print a text file'' @ [CHR 0x27] @ ''s contents'',
      ''  hexdump <file>  show a file'' @ [CHR 0x27] @ ''s bytes (first 256)'',
      ''  run <file>      load and execute a program'',
      ''  echo <text>     print text'',
      ''  meminfo         physical memory and heap usage'',
      ''  clear           clear the screen'',
      ''  dmesg           show the kernel log (boot messages)'',
      ''  mouse           show mouse position, buttons and packet count'',
      ''  help            show this message''])"

text \<open>The lines of the listing, \<open>None\<close> when nothing is mounted.\<close>

definition cmd_ls :: "'st vfs_state \<Rightarrow> 'st \<Rightarrow> line list option \<times> 'st" where
  "cmd_ls v st = (if \<not> vfs_is_mounted v then (None, st) else let (ls, st) = fat32_list_root (mounted_fs v) st in (Some ls, st))"

definition cmd_echo :: "string \<Rightarrow> string option" where
  "cmd_echo s = kformat (''%s'' @ [CHR 0x0A]) [Str s]"

definition cmd_mouse :: "mouse_state \<Rightarrow> string option" where
  "cmd_mouse m = kformat (''mouse: x=%d y=%d buttons=%s%s%s packets=%d'' @ [CHR 0x0A])
     [Num (word_of_int (ms_x m)), Num (word_of_int (ms_y m)),
      Str (if ms_buttons m AND 0x01 \<noteq> 0 then ''L'' else ''-''),
      Str (if ms_buttons m AND 0x04 \<noteq> 0 then ''M'' else ''-''),
      Str (if ms_buttons m AND 0x02 \<noteq> 0 then ''R'' else ''-''), Num (ucast (ms_packets m))]"

definition cmd_meminfo :: "'a heap_state_scheme \<Rightarrow> string option" where
  "cmd_meminfo s = do {
     let total = pmm_total_frames s;
     let inuse = pmm_used_frames s;
     h \<leftarrow> heap_get_stats s;
     kformat (''physical memory (4 KB frames):'' @ [CHR 0x0A] @
       ''  total          %d frames  (%d KB)'' @ [CHR 0x0A] @
       ''  used/reserved  %d frames  (%d KB)'' @ [CHR 0x0A] @
       ''  free           %d frames  (%d KB)'' @ [CHR 0x0A] @
       ''kernel heap:'' @ [CHR 0x0A] @
       ''  capacity       %d KB'' @ [CHR 0x0A] @
       ''  used           %d bytes'' @ [CHR 0x0A] @
       ''  free           %d bytes  (largest block %d bytes)'' @ [CHR 0x0A] @
       ''  blocks         %d  (header overhead %d bytes)'' @ [CHR 0x0A])
       [Num total, Num (total * 4), Num inuse, Num (inuse * 4), Num (total - inuse), Num ((total - inuse) * 4),
        Num (capacity h div 1024), Num (used h), Num (st_free h), Num (largest_free h),
        Num (blocks h), Num (capacity h - used h - st_free h)]
   }"

definition HEXDUMP_MAX :: u32 where "HEXDUMP_MAX = 256"

text \<open>One line of a dump of the first \<open>n\<close> bytes.\<close>

definition hexdump_row :: "u8 list \<Rightarrow> nat \<Rightarrow> nat \<Rightarrow> string" where
  "hexdump_row buf n off = print_hex (of_nat off) 8 @ ''  '' @
     concat (map (\<lambda>i. (if off + i < n then print_hex (ucast (buf ! (off + i))) 2 @ '' '' else ''   '') @
                      (if i = 7 then '' '' else [])) [0..<16]) @
     '' |'' @
     map (\<lambda>i. let c = buf ! (off + i) in if 32 \<le> c \<and> c < 127 then char_of (unat c) else CHR ''.'')
       (filter (\<lambda>i. off + i < n) [0..<16]) @
     ''|'' @ [CHR 0x0A]"

definition hexdump_rows :: "u8 list \<Rightarrow> nat \<Rightarrow> string" where
  "hexdump_rows buf n = concat (map (\<lambda>k. hexdump_row buf n (16 * k)) [0..<(n + 15) div 16])"

text \<open>
  Reading a whole file into a heap buffer of the given size, which \<open>hexdump\<close>, \<open>cat\<close> and \<open>run\<close> share: the buffer, the
  bytes in it and the state, or the message that ends the command.
\<close>

definition read_whole ::
  "string \<Rightarrow> (u32 \<Rightarrow> u64) \<Rightarrow> 'st vfs_state \<Rightarrow> string \<Rightarrow> vfs_file \<Rightarrow> 'st \<Rightarrow> 'a heap_state_scheme \<Rightarrow>
   ((string + u64 \<times> u32 \<times> u8 list) \<times> 'st \<times> 'a heap_state_scheme) option" where
  "read_whole cmd room v name file0 st s =
     (case vfs_open v (map (\<lambda>c. of_nat (of_char c)) name) file0 st of ((r, f), st) \<Rightarrow>
      if r \<noteq> 0 then Some (Inl (cmd @ '': '' @ [CHR 0x27] @ name @ [CHR 0x27] @ '' not found'' @ [CHR 0x0A]), st, s)
      else do {
        (buf, s) \<leftarrow> kmalloc (room (vf_size f)) s;
        if buf = 0 then Some (Inl (cmd @ '': out of memory'' @ [CHR 0x0A]), st, s)
        else case vfs_read v f (heap_bytes buf (unat (vf_size f)) (kmem s)) (vf_size f) st of ((k, bs), st) \<Rightarrow>
          let s = s\<lparr>kmem := put_bytes buf bs (kmem s)\<rparr>
          in if k \<noteq> sint (vf_size f) then Some (Inl (cmd @ '': read error'' @ [CHR 0x0A]), st, kfree buf s)
             else Some (Inr (buf, vf_size f, bs), st, s)
      })"

definition cmd_hexdump ::
  "'st vfs_state \<Rightarrow> string \<Rightarrow> vfs_file \<Rightarrow> 'st \<Rightarrow> 'a heap_state_scheme \<Rightarrow> (string \<times> 'st \<times> 'a heap_state_scheme) option" where
  "cmd_hexdump v name file0 st s =
     (if name = [] then Some (''usage: hexdump <file>'' @ [CHR 0x0A], st, s)
      else do {
        (r, st, s) \<leftarrow> read_whole ''hexdump'' (\<lambda>n. ucast (if n \<noteq> 0 then n else 1)) v name file0 st s;
        case r of Inl msg \<Rightarrow> Some (msg, st, s)
        | Inr (buf, sz, bs) \<Rightarrow> do {
            let n = (if sz < HEXDUMP_MAX then sz else HEXDUMP_MAX);
            rest \<leftarrow> (if sz > n then kformat (''(showing first %d of %d bytes)'' @ [CHR 0x0A]) [Num (ucast n), Num (ucast sz)]
                    else Some []);
            Some (hexdump_rows bs (unat n) @ rest, st, kfree buf s)
          }
      })"

text \<open>The terminator written behind the text needs one byte more; the size is computed with 32 bits.\<close>

definition cmd_cat ::
  "'st vfs_state \<Rightarrow> string \<Rightarrow> vfs_file \<Rightarrow> 'st \<Rightarrow> 'a heap_state_scheme \<Rightarrow> (string \<times> 'st \<times> 'a heap_state_scheme) option" where
  "cmd_cat v name file0 st s = do {
     (r, st, s) \<leftarrow> read_whole ''cat'' (\<lambda>n. ucast (n + 1)) v name file0 st s;
     case r of Inl msg \<Rightarrow> Some (msg, st, s)
     | Inr (buf, sz, bs) \<Rightarrow>
         let s = s\<lparr>kmem := (kmem s)(buf + ucast sz := 0)\<rparr>
         in Some (map (\<lambda>b. char_of (unat b)) (takeWhile (\<lambda>b. b \<noteq> 0) bs) @ [CHR 0x0A], st, kfree buf s)
   }"

text \<open>The task started, 0 when there is none, with the message.\<close>

definition cmd_run ::
  "code \<Rightarrow> 'st vfs_state \<Rightarrow> string \<Rightarrow> vfs_file \<Rightarrow> 'st \<Rightarrow> 'a sched_state_scheme \<Rightarrow> ((u64 \<times> string) \<times> 'st \<times> 'a sched_state_scheme) option" where
  "cmd_run c v name file0 st s = do {
     (r, st, s) \<leftarrow> read_whole ''run'' ucast v name file0 st s;
     case r of Inl msg \<Rightarrow> Some ((0, msg), st, s)
     | Inr (buf, sz, bs) \<Rightarrow> do {
         (proc, s) \<leftarrow> spawn_user_process c (\<lambda>off. kmem s (buf + off)) (ucast sz) s;
         let s = kfree buf s;
         msg \<leftarrow> (if proc = 0 then kformat (''run: failed to start '' @ [CHR 0x27] @ ''%s'' @ [CHR 0x27, CHR 0x0A]) [Str name]
                else kformat (''run: started '' @ [CHR 0x27] @ ''%s'' @ [CHR 0x27] @ '' (task %d)'' @ [CHR 0x0A])
                       [Str name, Num (ucast (t_id (tasks s proc)))]);
         Some ((proc, msg), st, s)
       }
   }"

text \<open>
  The loop that waits: while the task is not done the shell yields, with whatever its registers hold at the call; then the others
  run, until a switch resumes the shell.
\<close>

inductive wait_done :: "code \<Rightarrow> u64 \<Rightarrow> 'a sched_state_scheme \<Rightarrow> 'a sched_state_scheme \<Rightarrow> bool" for c proc where
  finished: "t_state (tasks s proc) = TASK_DONE \<Longrightarrow> wait_done c proc s s"
| again: "\<lbrakk>t_state (tasks s proc) \<noteq> TASK_DONE; switch_room (s\<lparr>cpu := r\<rparr>); yield c (s\<lparr>cpu := r\<rparr>) = Some u; (exec c)\<^sup>*\<^sup>* u v;
    current v = current s; wait_done c proc v s'\<rbrakk> \<Longrightarrow> wait_done c proc s s'"

definition cmd_run_end :: "string \<Rightarrow> u64 \<Rightarrow> 'a sched_state_scheme \<Rightarrow> (string \<times> 'a sched_state_scheme) option" where
  "cmd_run_end name proc s = do {
     s \<leftarrow> task_reap proc s;
     msg \<leftarrow> kformat (''run: '' @ [CHR 0x27] @ ''%s'' @ [CHR 0x27] @ '' finished.'' @ [CHR 0x0A]) [Str name];
     Some (msg, s)
   }"

section \<open>Paging the kernel log\<close>

definition DMESG_ROWS :: nat where "DMESG_ROWS = 22"

text \<open>The next line with its newline, as the inner loop finds it, and what follows.\<close>

fun next_line :: "string \<Rightarrow> string \<times> string" where
  "next_line [] = ([], [])"
| "next_line (c # chs) = (if c = CHR 0x0A then ([c], chs) else let (l, r) = next_line chs in (c # l, r))"

text \<open>The 80-column rows a line takes on the screen.\<close>

definition line_rows :: "string \<Rightarrow> nat" where
  "line_rows l = (let text = (if l \<noteq> [] \<and> last l = CHR 0x0A then length l - 1 else length l)
     in if text = 0 then 1 else (text + 79) div 80)"

definition more_prompt :: string where
  "more_prompt = ''-- more: Enter = next page, q + Enter = quit --''"

lemma next_line_shrinks: "next_line chs = (l, r) \<Longrightarrow> chs \<noteq> [] \<Longrightarrow> length r < length chs"
  by (induction chs arbitrary: l r rule: next_line.induct) (auto split: if_splits prod.splits, fastforce)

text \<open>
  The loop over the text that is left: what it prints and whether it reached the end. The lines typed at the
  prompts are a list; \<open>None\<close> waits for a line that never comes.
\<close>

function dmesg_pages :: "string \<Rightarrow> nat \<Rightarrow> string list \<Rightarrow> (string \<times> bool) option" where
  "dmesg_pages buf rws answers =
     (if buf = [] then Some ([], True)
      else let (l, rest) = next_line buf;
               rws = rws + line_rows l
           in if rws \<ge> DMESG_ROWS \<and> rest \<noteq> [] then
                case answers of [] \<Rightarrow> None
                | a # as \<Rightarrow> if a \<noteq> [] \<and> hd a = CHR ''q'' then Some (l @ more_prompt, False)
                           else map_option (\<lambda>(out, e). (l @ more_prompt @ out, e)) (dmesg_pages rest 0 as)
              else map_option (\<lambda>(out, e). (l @ out, e)) (dmesg_pages rest rws answers))"
  by auto
termination
  by (relation "measure (length \<circ> fst)") (auto dest: next_line_shrinks [OF sym])

declare dmesg_pages.simps [simp del]

definition dmesg_text :: "string list \<Rightarrow> bool \<Rightarrow> string \<Rightarrow> string option" where
  "dmesg_text answers wrapped buf =
     map_option (\<lambda>(out, e). (if wrapped then ''(older messages were overwritten)'' @ [CHR 0x0A] else []) @ out @
         (if buf \<noteq> [] \<and> last buf \<noteq> CHR 0x0A \<and> e then [CHR 0x0A] else []))
       (dmesg_pages buf 0 answers)"

definition cmd_dmesg ::
  "string list \<Rightarrow> ('hw, 'b) console_state_scheme \<Rightarrow> 'a heap_state_scheme \<Rightarrow> (string \<times> 'a heap_state_scheme) option" where
  "cmd_dmesg answers con s = do {
     (buf, s) \<leftarrow> kmalloc KLOG_SIZE s;
     if buf = 0 then Some (''dmesg: out of memory'' @ [CHR 0x0A], s)
     else do {
       let text = klog_snapshot con (ucast KLOG_SIZE);
       let s = s\<lparr>kmem := put_bytes buf (map (\<lambda>c. of_nat (of_char c)) text) (kmem s)\<rparr>;
       out \<leftarrow> dmesg_text answers (klog_wrapped con) text;
       Some (out, kfree buf s)
     }
   }"

section \<open>Dispatch\<close>

datatype command = Empty | Help | Ls | Cat string | Run string | Clear | Echo string | Meminfo | Hexdump string
  | Dmesg | MouseInfo | Unknown string

definition shell_command :: "string \<Rightarrow> command" where
  "shell_command line =
     (let (w, a) = split_arg line in
      if w = [] then Empty
      else if str_eq w ''help'' then Help
      else if str_eq w ''ls'' then Ls
      else if str_eq w ''cat'' then Cat a
      else if str_eq w ''run'' then Run a
      else if str_eq w ''clear'' then Clear
      else if str_eq w ''echo'' then Echo a
      else if str_eq w ''meminfo'' then Meminfo
      else if str_eq w ''hexdump'' then Hexdump a
      else if str_eq w ''dmesg'' then Dmesg
      else if str_eq w ''mouse'' then MouseInfo
      else Unknown w)"

section \<open>What the helpers do\<close>

lemma str_eq_iff [simp]: "str_eq as bs \<longleftrightarrow> as = bs"
  by (induction as bs rule: str_eq.induct) auto

lemma skip_spaces_eq: "skip_spaces chs = dropWhile (\<lambda>c. c = CHR '' '') chs"
  by (induction chs) auto

lemma split_arg_word: "CHR '' '' \<notin> set w \<Longrightarrow> split_arg w = (w, [])"
  by (induction w) auto

lemma split_arg_arg:
  assumes "CHR '' '' \<notin> set w" "a = [] \<or> hd a \<noteq> CHR '' ''"
  shows "split_arg (w @ replicate (Suc n) CHR '' '' @ a) = (w, a)"
proof -
  have "skip_spaces (replicate n CHR '' '' @ a) = a"
    using assms(2) by (induction n) (auto simp: skip_spaces_eq dropWhile_eq_self_iff)
  then show ?thesis using assms(1) by (induction w) auto
qed

lemma next_line_append: "next_line chs = (l, r) \<Longrightarrow> l @ r = chs"
  by (induction chs arbitrary: l r rule: next_line.induct) (auto split: if_splits prod.splits)

text \<open>Paging loses nothing: when the end is reached, what was printed is the text with the prompts in between.\<close>

lemma dmesg_pages_all:
  "dmesg_pages buf rws answers = Some (out, True) \<Longrightarrow>
     \<exists>ps. concat ps = buf \<and> ps \<noteq> [] \<and> out = hd ps @ concat (map (\<lambda>p. more_prompt @ p) (tl ps))"
proof (induction buf rws answers arbitrary: out rule: dmesg_pages.induct)
  case (1 buf rws answers)
  show ?case
  proof (cases "buf = []")
    case True
    then show ?thesis using "1.prems" by (intro exI [of _ "[[]]"]) (simp add: dmesg_pages.simps)
  next
    case False
    obtain l rest where n: "next_line buf = (l, rest)" by (rule prod.exhaust)
    note b = next_line_append [OF n]
    show ?thesis
    proof (cases "rws + line_rows l \<ge> DMESG_ROWS \<and> rest \<noteq> []")
      case True
      then obtain a as out' where a: "answers = a # as" "\<not> (a \<noteq> [] \<and> hd a = CHR ''q'')" "dmesg_pages rest 0 as = Some (out', True)"
        "out = l @ more_prompt @ out'"
        using "1.prems" False n by (subst (asm) dmesg_pages.simps) (auto split: list.splits if_splits)
      from "1.IH"(1) [OF False n [symmetric] refl refl True a(1,2,3)] obtain ps where
        "concat ps = rest" "ps \<noteq> []" "out' = hd ps @ concat (map (\<lambda>p. more_prompt @ p) (tl ps))" by blast
      then show ?thesis using a(4) b by (intro exI [of _ "l # ps"]) (cases ps, auto)
    next
      case more: False
      then obtain out' where a: "dmesg_pages rest (rws + line_rows l) answers = Some (out', True)" "out = l @ out'"
        using "1.prems" False n by (subst (asm) dmesg_pages.simps) (auto split: if_splits)
      from "1.IH"(2) [OF False n [symmetric] refl refl more a(1)] obtain ps where
        "concat ps = rest" "ps \<noteq> []" "out' = hd ps @ concat (map (\<lambda>p. more_prompt @ p) (tl ps))" by blast
      then show ?thesis using a(2) b by (intro exI [of _ "(l @ hd ps) # tl ps"]) (cases ps, auto)
    qed
  qed
qed

end
