(* ===== verification/ShellFiles.thy ===== *)
theory ShellFiles
  imports Shell
begin

text \<open>
  What the shell's commands on files do. Whatever is on the volume, reading a file into a buffer of the heap
  stays inside the buffer, and the command gives the buffer back. \<open>cat\<close> and \<open>hexdump\<close> print the bytes of the file.
\<close>

section \<open>Reading stays inside the buffer\<close>

context sector_store
begin

lemma sectors_inside:
  assumes "ok st" "fs_dev fs = Some dev" "unat copied \<le> unat sz" "unat sz \<le> length buf"
  shows "\<exists>r buf' st'. read_sectors fs lba sz secs copied buf st = ((r, buf'), st') \<and> length buf' = length buf \<and>
    (\<forall>k. r = Some k \<longrightarrow> unat k \<le> unat sz) \<and> ok st' \<and> content st' = content st"
  using assms(1,3,4)
proof (induction secs arbitrary: st copied buf)
  case (Cons s secs)
  obtain r st1 where r: "block_read (Some dev) (ucast (lba + s)) 1 st = (r, st1)" "ok st1" "content st1 = content st"
    "r = (if (ucast (lba + s) :: u64) < bd_sectors dev then Some (content st (unat (ucast (lba + s) :: u64))) else None)"
    using read_any [OF Cons.prems(1)] by blast
  show ?case
  proof (cases "copied < sz \<and> r \<noteq> None")
    case True
    then obtain sec where sec: "r = Some sec" "length sec = 512"
      using r(4) content_length [OF Cons.prems(1)] by (auto simp: word_less_nat_alt split: if_splits)
    have lt: "copied < sz" using True by simp
    note tk = take_of [OF lt]
    define b1 where "b1 = copy_into buf (unat copied) (take (unat (take_of sz copied)) sec)"
    have l: "length b1 = length buf" unfolding b1_def using tk(1) Cons.prems(2,3) sec(2) by (intro length_copy_into) simp
    have "unat (copied + take_of sz copied) \<le> unat sz" "unat sz \<le> length b1"
      unfolding tk(2) l using Cons.prems(2,3) by simp_all
    from Cons.IH [OF r(2) this] obtain r' b2 st' where "read_sectors fs lba sz secs (copied + take_of sz copied) b1 st1 = ((r', b2), st')"
      "length b2 = length b1" "\<forall>k. r' = Some k \<longrightarrow> unat k \<le> unat sz" "ok st'" "content st' = content st1" by blast
    then show ?thesis using lt r(1,3) sec(1) l assms(2) by (simp add: Let_def take_of_def b1_def)
  next
    case False
    then show ?thesis using r(1-3) Cons.prems assms(2) by auto
  qed
qed simp

lemma clusters_inside:
  assumes "ok st" "fs_dev fs = Some dev" "unat copied \<le> unat sz" "unat sz \<le> length buf"
  shows "\<exists>r buf' st'. read_clusters fs sz guard c copied buf st = ((r, buf'), st') \<and> length buf' = length buf \<and>
    (\<forall>k. r = Some k \<longrightarrow> k = sz) \<and> ok st' \<and> content st' = content st"
  using assms
proof (induction fs sz guard c copied buf st rule: read_clusters.induct)
  case (1 fs sz guard c copied buf st)
  obtain r b1 st1 where s: "read_sectors fs (cluster_lba fs c) sz (sector_offsets fs) copied buf st = ((r, b1), st1)" "length b1 = length buf"
    "\<forall>k. r = Some k \<longrightarrow> unat k \<le> unat sz" "ok st1" "content st1 = content st"
    using sectors_inside [OF "1.prems"] by blast
  obtain c' st2 where n: "fat32_next_cluster fs c st1 = (c', st2)" "ok st2" "content st2 = content st"
    using next_cluster [OF s(4) "1.prems"(2)] s(5) by metis
  show ?case
  proof (cases "in_chain c \<and> copied < sz \<and> r \<noteq> None \<and> \<not> guard + 1 > 1024")
    case True
    then obtain k where k: "r = Some k" by auto
    have "\<exists>r buf' st'. read_clusters fs sz (guard + 1) c' k b1 st2 = ((r, buf'), st') \<and> length buf' = length b1 \<and>
        (\<forall>k. r = Some k \<longrightarrow> k = sz) \<and> ok st' \<and> content st' = content st2"
      using "1.IH" [OF _ s(1) [symmetric, unfolded k] refl refl n(1) [symmetric] refl] True n(2) "1.prems"(2,4) s(2,3) k by auto
    then show ?thesis using True s(1,2) n k by (subst read_clusters.simps) simp
  next
    case False
    then show ?thesis using s n "1.prems" by (subst read_clusters.simps) (auto split: option.split)
  qed
qed

lemma file_inside:
  assumes "ok st" "fs_dev fs = Some dev" "length buf = unat n"
  shows "\<exists>k buf' st'. fat32_read_file fs file buf n st = ((k, buf'), st') \<and> length buf' = length buf \<and> ok st' \<and> content st' = content st"
proof (cases "n < f_size file")
  case False
  then have "unat (0 :: u32) \<le> unat (f_size file)" "unat (f_size file) \<le> length buf" using assms(3) by (simp_all add: not_less word_le_nat_alt)
  from clusters_inside [OF assms(1,2) this, of 0 "start_cluster file"] show ?thesis
    using False by (auto simp: fat32_read_file_def split: option.splits prod.splits)
qed (use assms in \<open>simp add: fat32_read_file_def\<close>)

end

section \<open>What a read needs\<close>

text \<open>
  The \<open>i\<close>-th sector of a chain that starts at cluster \<open>c\<close>: the cluster it lies in, and its address. Reading \<open>k\<close> sectors with at most \<open>g\<close>
  clusters can succeed when all clusters on the way are data clusters and all \<open>k\<close> sectors are inside the device.
\<close>

definition nth_cluster :: "u64 \<Rightarrow> (nat \<Rightarrow> sector) \<Rightarrow> 'st fat32_fs \<Rightarrow> u32 \<Rightarrow> nat \<Rightarrow> u32" where
  "nth_cluster n D fs c i = (fat_next n D fs ^^ (i div unat (sectors_per_cluster fs))) c"

definition nth_lba :: "u64 \<Rightarrow> (nat \<Rightarrow> sector) \<Rightarrow> 'st fat32_fs \<Rightarrow> u32 \<Rightarrow> nat \<Rightarrow> u32" where
  "nth_lba n D fs c i = cluster_lba fs (nth_cluster n D fs c i) + of_nat (i mod unat (sectors_per_cluster fs))"

definition chain_readable :: "u64 \<Rightarrow> (nat \<Rightarrow> sector) \<Rightarrow> 'st fat32_fs \<Rightarrow> u32 \<Rightarrow> nat \<Rightarrow> nat \<Rightarrow> bool" where
  "chain_readable n D fs c k g \<longleftrightarrow> k \<le> g * unat (sectors_per_cluster fs) \<and>
     (\<forall>i < k. in_chain (nth_cluster n D fs c i) \<and> (ucast (nth_lba n D fs c i) :: u64) < n)"

definition chain_bytes :: "u64 \<Rightarrow> (nat \<Rightarrow> sector) \<Rightarrow> 'st fat32_fs \<Rightarrow> u32 \<Rightarrow> nat \<Rightarrow> u8 list" where
  "chain_bytes n D fs c k = concat (map (\<lambda>i. D (unat (nth_lba n D fs c i))) [0..<k])"

text \<open>The sectors that \<open>r\<close> bytes take.\<close>

abbreviation sectors_for :: "nat \<Rightarrow> nat" where
  "sectors_for r \<equiv> (r + 511) div 512"

lemma sectors_for_rest: "sectors_for (r - min r (512 * p)) = sectors_for r - p"
proof (cases "r \<le> 512 * p")
  case True
  then have "sectors_for r \<le> p" by linarith
  then show ?thesis using True by simp
next
  case False
  define q where "q = r - 512 * p"
  have "r + 511 = q + 511 + p * 512" "r - min r (512 * p) = q" using False by (simp_all add: q_def)
  then show ?thesis by simp
qed

lemma nth_in_cluster:
  assumes "i < unat (sectors_per_cluster fs)"
  shows "nth_cluster n D fs c i = c" "nth_lba n D fs c i = cluster_lba fs c + of_nat i"
  using assms by (simp_all add: nth_cluster_def nth_lba_def)

lemma nth_next_cluster:
  assumes "0 < unat (sectors_per_cluster fs)"
  shows "nth_cluster n D fs c (unat (sectors_per_cluster fs) + i) = nth_cluster n D fs (fat_next n D fs c) i"
    "nth_lba n D fs c (unat (sectors_per_cluster fs) + i) = nth_lba n D fs (fat_next n D fs c) i"
proof -
  show "nth_cluster n D fs c (unat (sectors_per_cluster fs) + i) = nth_cluster n D fs (fat_next n D fs c) i"
    using assms by (simp add: nth_cluster_def div_add_self1 funpow_swap1 del: funpow.simps(2)) (simp add: funpow_swap1)
  then show "nth_lba n D fs c (unat (sectors_per_cluster fs) + i) = nth_lba n D fs (fat_next n D fs c) i"
    by (simp add: nth_lba_def)
qed

lemma chain_readable_step:
  assumes "0 < k"
  shows "chain_readable n D fs c k (Suc g) \<longleftrightarrow> in_chain c \<and>
    (\<forall>j < min k (unat (sectors_per_cluster fs)). (ucast (cluster_lba fs c + of_nat j) :: u64) < n) \<and>
    chain_readable n D fs (fat_next n D fs c) (k - unat (sectors_per_cluster fs)) g"
    (is "_ \<longleftrightarrow> _ \<and> (\<forall>j < min k ?p. _) \<and> _")
proof (cases "?p = 0")
  case False
  have split: "(\<forall>i < k. P i) \<longleftrightarrow> (\<forall>j < min k ?p. P j) \<and> (\<forall>i < k - ?p. P (?p + i))" for P
  proof safe
    fix i assume a: "\<forall>j < min k ?p. P j" "\<forall>i < k - ?p. P (?p + i)" "i < k"
    show "P i" using a(1,3) a(2) [rule_format, of "i - ?p"] by (cases "i < ?p") auto
  qed simp_all
  have first: "(\<forall>j < min k ?p. in_chain (nth_cluster n D fs c j) \<and> (ucast (nth_lba n D fs c j) :: u64) < n) \<longleftrightarrow>
      in_chain c \<and> (\<forall>j < min k ?p. (ucast (cluster_lba fs c + of_nat j) :: u64) < n)"
    using assms False nth_in_cluster [of _ fs n D c] by auto
  show ?thesis unfolding chain_readable_def split [of "\<lambda>i. in_chain (nth_cluster n D fs c i) \<and> (ucast (nth_lba n D fs c i) :: u64) < n"] first
    using False by (auto simp: nth_next_cluster)
qed (use assms in \<open>simp add: chain_readable_def\<close>)

lemma chain_bytes_step:
  assumes "0 < unat (sectors_per_cluster fs)"
  shows "chain_bytes n D fs c k =
    concat (map (\<lambda>j. D (unat (cluster_lba fs c + of_nat j))) [0..<min k (unat (sectors_per_cluster fs))]) @
    chain_bytes n D fs (fat_next n D fs c) (k - unat (sectors_per_cluster fs))"
    (is "_ = concat (map _ [0..<min k ?p]) @ _")
proof -
  have "[0..<k] = [0..<min k ?p] @ map (\<lambda>i. ?p + i) [0..<k - ?p]"
    using upt_add_eq_append [of 0 ?p "k - ?p"] map_add_upt [of ?p "k - ?p"] by (cases "k \<le> ?p") (simp_all add: min_def add.commute)
  moreover have m: "map (\<lambda>i. D (unat (nth_lba n D fs c i))) [0..<min k ?p] = map (\<lambda>j. D (unat (cluster_lba fs c + of_nat j))) [0..<min k ?p]"
    using nth_in_cluster(2) [of _ fs n D c] by simp
  moreover have "map (\<lambda>i. D (unat (nth_lba n D fs c i))) (map ((+) ?p) [0..<k - ?p]) =
      map (\<lambda>i. D (unat (nth_lba n D fs (fat_next n D fs c) i))) [0..<k - ?p]"
    using nth_next_cluster(2) [OF assms, of n D c] by simp
  ultimately show ?thesis by (simp only: chain_bytes_def map_append concat_append)
qed

context sector_store
begin

text \<open>The loop over the sectors of a cluster stops once it has what is left of the file.\<close>

lemma read_sectors_needed:
  assumes "unat copied \<le> unat sz"
  shows "read_sectors fs lba sz secs copied buf st = read_sectors fs lba sz (take (sectors_for (unat sz - unat copied)) secs) copied buf st"
  using assms
proof (induction secs arbitrary: copied buf st)
  case (Cons s secs)
  show ?case
  proof (cases "copied < sz")
    case True
    have lt: "unat copied < unat sz" using True by (simp add: word_less_nat_alt)
    note tk = take_of(2) [OF True]
    have le: "unat (copied + take_of sz copied) \<le> unat sz" unfolding tk using lt by simp
    have k: "sectors_for (unat sz - unat copied) = Suc (sectors_for (unat sz - unat (copied + take_of sz copied)))"
      unfolding tk using lt by (cases "unat sz - unat copied < 512") (simp_all add: div_add_self1 [symmetric])
    show ?thesis unfolding k take_Suc_Cons read_sectors_Cons [OF True] Cons.IH [OF le] ..
  next
    case False
    then have "unat sz - unat copied = 0" by (simp add: word_less_nat_alt)
    then show ?thesis using False by simp
  qed
qed simp

lemma sectors_fail:
  assumes "ok st" "fs_dev fs = Some dev" "unat copied + 512 * length secs < unat sz + 512"
    and "\<not> (\<forall>s \<in> set secs. (ucast (lba + s) :: u64) < bd_sectors dev)"
  shows "\<exists>b st'. read_sectors fs lba sz secs copied buf st = ((None, b), st') \<and> ok st' \<and> content st' = content st"
  using assms(1,3,4)
proof (induction secs arbitrary: copied buf st)
  case (Cons s secs)
  have True: "copied < sz" using Cons.prems(2) by (simp add: word_less_nat_alt)
  obtain r st1 where r: "block_read (Some dev) (ucast (lba + s)) 1 st = (r, st1)" "ok st1" "content st1 = content st"
    "r = (if (ucast (lba + s) :: u64) < bd_sectors dev then Some (content st (unat (ucast (lba + s) :: u64))) else None)"
    using read_any [OF Cons.prems(1)] by blast
  show ?case
  proof (cases "(ucast (lba + s) :: u64) < bd_sectors dev")
    case inside: True
    show ?thesis
    proof (cases secs)
      case Nil
      then show ?thesis using Cons.prems(3) inside by simp
    next
      case (Cons s' secs')
      then have "unat (copied + take_of sz copied) + 512 * length secs < unat sz + 512"
        unfolding take_of(2) [OF True] using Cons.prems(2) by auto
      moreover have "\<not> (\<forall>s \<in> set secs. (ucast (lba + s) :: u64) < bd_sectors dev)" using Cons.prems(3) inside by simp
      ultimately show ?thesis
        using Cons.IH [OF r(2), of "copied + take_of sz copied"] r inside assms(2)
        by (simp add: read_sectors_Cons [OF True] del: read_sectors.simps)
    qed
  next
    case False
    then show ?thesis using r assms(2) by (simp add: read_sectors_Cons [OF True] del: read_sectors.simps)
  qed
qed simp

lemma clusters_stop:
  assumes "unat copied \<le> unat sz" "\<not> (in_chain c \<and> copied < sz)"
  shows "read_clusters fs sz guard c copied buf st = ((if copied = sz then Some sz else None, buf), st)"
    "chain_readable n D fs c (sectors_for (unat sz - unat copied)) g \<longleftrightarrow> copied = sz"
proof -
  show "read_clusters fs sz guard c copied buf st = ((if copied = sz then Some sz else None, buf), st)"
    using assms(2) by (subst read_clusters.simps) auto
  show "chain_readable n D fs c (sectors_for (unat sz - unat copied)) g \<longleftrightarrow> copied = sz"
  proof (cases "copied < sz")
    case True
    then have "0 < sectors_for (unat sz - unat copied)" by (simp add: word_less_nat_alt)
    moreover have "\<not> in_chain (nth_cluster n D fs c 0)" using True assms(2) by (simp add: nth_cluster_def)
    ultimately have "\<not> chain_readable n D fs c (sectors_for (unat sz - unat copied)) g" unfolding chain_readable_def by blast
    then show ?thesis using True by auto
  next
    case False
    then have "copied = sz" using assms(1) by (simp add: word_less_nat_alt word_unat_eq_iff)
    then show ?thesis by (simp add: chain_readable_def)
  qed
qed

lemma cluster_sectors:
  assumes "ok st" "fs_dev fs = Some dev" "unat copied \<le> unat sz" "unat sz \<le> length buf"
  defines "k \<equiv> sectors_for (unat sz - unat copied)" and "p \<equiv> unat (sectors_per_cluster fs)"
  shows "\<exists>r b st'. read_sectors fs lba sz (sector_offsets fs) copied buf st = ((r, b), st') \<and> ok st' \<and> content st' = content st \<and>
    (if \<forall>j < min k p. (ucast (lba + of_nat j) :: u64) < bd_sectors dev
     then (\<exists>copied'. r = Some copied' \<and> unat copied' = unat copied + min (unat sz - unat copied) (512 * p)) \<and>
       b = copy_into buf (unat copied) (take (min (unat sz - unat copied) (512 * p))
         (concat (map (\<lambda>j. content st (unat (lba + of_nat j))) [0..<min k p])))
     else r = None)"
proof -
  let ?secs = "map of_nat [0..<min k p] :: u32 list"
  have secs: "take k (sector_offsets fs) = ?secs" by (simp add: sector_offsets_def take_map p_def min_def take_upt)
  have eq: "read_sectors fs lba sz (sector_offsets fs) copied buf st = read_sectors fs lba sz ?secs copied buf st"
    using read_sectors_needed [OF assms(3), of fs lba "sector_offsets fs" buf st] by (simp add: secs k_def [symmetric])
  have all: "(\<forall>s \<in> set ?secs. (ucast (lba + s) :: u64) < bd_sectors dev) \<longleftrightarrow>
      (\<forall>j < min k p. (ucast (lba + of_nat j) :: u64) < bd_sectors dev)" by auto
  have k512: "unat sz - unat copied \<le> 512 * k" "512 * k < unat sz - unat copied + 512" unfolding k_def by linarith+
  show ?thesis
  proof (cases "\<forall>j < min k p. (ucast (lba + of_nat j) :: u64) < bd_sectors dev")
    case True
    have m: "min (unat sz - unat copied) (512 * p) = min (unat sz - unat copied) (512 * length ?secs)"
      using k512(1) by (auto simp: min_def)
    from sectors_copied [OF assms(1,2) _ assms(3,4) m, of lba] True obtain copied' st' where
      "read_sectors fs lba sz ?secs copied buf st = ((Some copied', copy_into buf (unat copied) (take (min (unat sz - unat copied) (512 * p))
         (concat (map (\<lambda>s. content st (unat (lba + s))) ?secs)))), st')"
      "unat copied' = unat copied + min (unat sz - unat copied) (512 * p)" "ok st'" "content st' = content st"
      unfolding all by blast
    then show ?thesis using True unfolding eq by (simp add: comp_def)
  next
    case False
    have "512 * min k p \<le> 512 * k" by simp
    then have "unat copied + 512 * length ?secs < unat sz + 512" using k512(2) assms(3) unfolding length_map length_upt by linarith
    from sectors_fail [OF assms(1,2) this, of lba buf] False show ?thesis unfolding eq all by auto
  qed
qed

text \<open>The reader succeeds exactly when the chain is readable, and then it has read the bytes of its sectors.\<close>

lemma clusters_exact:
  assumes "ok st" "fs_dev fs = Some dev" "unat copied \<le> unat sz" "unat sz \<le> length buf" "guard + g = 1024"
  shows "\<exists>r b st'. read_clusters fs sz guard c copied buf st = ((r, b), st') \<and> ok st' \<and> content st' = content st \<and>
    (if chain_readable (bd_sectors dev) (content st) fs c (sectors_for (unat sz - unat copied)) g
     then r = Some sz \<and> b = copy_into buf (unat copied) (take (unat sz - unat copied)
       (chain_bytes (bd_sectors dev) (content st) fs c (sectors_for (unat sz - unat copied))))
     else r = None)"
  using assms(1,3-5)
proof (induction g arbitrary: st c guard copied buf)
  case 0
  show ?case
  proof (cases "in_chain c \<and> copied < sz")
    case True
    then have "unat copied < unat sz" by (simp add: word_less_nat_alt)
    then have "\<not> sectors_for (unat sz - unat copied) \<le> 0 * unat (sectors_per_cluster fs)" unfolding mult_0 by linarith
    then have nr: "\<not> chain_readable (bd_sectors dev) (content st) fs c (sectors_for (unat sz - unat copied)) 0"
      unfolding chain_readable_def by blast
    obtain r b st1 where s: "read_sectors fs (cluster_lba fs c) sz (sector_offsets fs) copied buf st = ((r, b), st1)"
      "ok st1" "content st1 = content st" using sectors_inside [OF "0.prems"(1) assms(2) "0.prems"(2,3)] by blast
    obtain c' st2 where n: "fat32_next_cluster fs c st1 = (c', st2)" "ok st2" "content st2 = content st"
      using next_cluster [OF s(2) assms(2)] s(3) by metis
    have "\<exists>b st'. read_clusters fs sz guard c copied buf st = ((None, b), st') \<and> ok st' \<and> content st' = content st"
      using True s n "0.prems"(4) by (subst read_clusters.simps) (cases r, simp_all)
    then show ?thesis using nr by auto
  next
    case False
    show ?thesis unfolding clusters_stop [OF "0.prems"(2) False] using "0.prems"(1) by (auto simp: chain_bytes_def)
  qed
next
  case (Suc g)
  let ?n = "bd_sectors dev" and ?D = "content st" and ?p = "unat (sectors_per_cluster fs)" and ?r = "unat sz - unat copied"
  let ?N = "fat_next ?n ?D fs c" and ?all = "\<forall>j < min (sectors_for ?r) ?p. (ucast (cluster_lba fs c + of_nat j) :: u64) < ?n"
  show ?case
  proof (cases "in_chain c \<and> copied < sz")
    case False
    show ?thesis unfolding clusters_stop [OF Suc.prems(2) False] using Suc.prems(1) by (auto simp: chain_bytes_def)
  next
    case True
    then have r0: "0 < ?r" by (simp add: word_less_nat_alt)
    have step: "chain_readable ?n ?D fs c (sectors_for ?r) (Suc g) \<longleftrightarrow> ?all \<and> chain_readable ?n ?D fs ?N (sectors_for ?r - ?p) g"
      using r0 True by (subst chain_readable_step) simp_all
    obtain r b st1 where s: "read_sectors fs (cluster_lba fs c) sz (sector_offsets fs) copied buf st = ((r, b), st1)" "ok st1" "content st1 = ?D"
      and o: "if ?all then (\<exists>copied'. r = Some copied' \<and> unat copied' = unat copied + min ?r (512 * ?p)) \<and>
         b = copy_into buf (unat copied) (take (min ?r (512 * ?p)) (concat (map (\<lambda>j. ?D (unat (cluster_lba fs c + of_nat j))) [0..<min (sectors_for ?r) ?p])))
       else r = None"
      using cluster_sectors [OF Suc.prems(1) assms(2) Suc.prems(2,3), of "cluster_lba fs c"] by blast
    show ?thesis
    proof (cases ?all)
      case False
      then have "r = None" using o by auto
      then have "read_clusters fs sz guard c copied buf st = ((None, b), st1)" using True s(1) by (subst read_clusters.simps) simp
      then show ?thesis using s(2,3) step False by auto
    next
      case all: True
      let ?S = "concat (map (\<lambda>j. ?D (unat (cluster_lba fs c + of_nat j))) [0..<min (sectors_for ?r) ?p])"
      define k0 where "k0 = min ?r (512 * ?p)"
      obtain copied' where c': "r = Some copied'" "unat copied' = unat copied + k0" and b: "b = copy_into buf (unat copied) (take k0 ?S)"
        using o all unfolding k0_def [symmetric] by auto
      obtain st2 where n: "fat32_next_cluster fs c st1 = (?N, st2)" "ok st2" "content st2 = ?D"
        using next_cluster [OF s(2) assms(2)] s(3) by metis
      have "length (?D (unat (cluster_lba fs c + of_nat j))) = 512" if "j < min (sectors_for ?r) ?p" for j
      proof -
        have "(ucast (cluster_lba fs c + of_nat j) :: u64) < ?n" using all that by blast
        then show ?thesis using content_length [OF Suc.prems(1)] by (simp add: word_less_nat_alt)
      qed
      then have lS: "length ?S = 512 * min (sectors_for ?r) ?p" by (subst length_concat_const [where n = 512]) auto
      have need: "?r \<le> 512 * sectors_for ?r" by linarith
      then have lk: "length (take k0 ?S) = k0" unfolding length_take lS k0_def by (auto simp: min_def)
      have le: "unat copied' \<le> unat sz" unfolding c'(2) k0_def using Suc.prems(2) by linarith
      have lb: "length b = length buf" unfolding b using lk le c'(2) Suc.prems(3) by (intro length_copy_into) linarith
      have k': "sectors_for (unat sz - unat copied') = sectors_for ?r - ?p"
        unfolding c'(2) k0_def diff_diff_left [symmetric] by (rule sectors_for_rest)
      obtain r' b' st' where ih: "read_clusters fs sz (guard + 1) ?N copied' b st2 = ((r', b'), st')" "ok st'" "content st' = ?D"
        "if chain_readable ?n ?D fs ?N (sectors_for ?r - ?p) g
         then r' = Some sz \<and> b' = copy_into b (unat copied') (take (unat sz - unat copied') (chain_bytes ?n ?D fs ?N (sectors_for ?r - ?p)))
         else r' = None"
        using Suc.IH [OF n(2) le, of b "guard + 1" ?N] Suc.prems(3,4) lb n(3) unfolding k' by auto
      have e: "read_clusters fs sz guard c copied buf st = ((r', b'), st')"
        using True s(1) c'(1) n(1) ih(1) Suc.prems(4) by (subst read_clusters.simps) simp
      have "copy_into b (unat copied') (take (unat sz - unat copied') (chain_bytes ?n ?D fs ?N (sectors_for ?r - ?p))) =
          copy_into buf (unat copied) (take ?r (chain_bytes ?n ?D fs c (sectors_for ?r)))"
        if rd: "chain_readable ?n ?D fs ?N (sectors_for ?r - ?p) g"
      proof -
        have p: "0 < ?p" using rd r0 by (cases "?p = 0") (auto simp: chain_readable_def)
        have "copy_into b (unat copied') (take (unat sz - unat copied') (chain_bytes ?n ?D fs ?N (sectors_for ?r - ?p))) =
            copy_into buf (unat copied) (take k0 ?S @ take (?r - k0) (chain_bytes ?n ?D fs ?N (sectors_for ?r - ?p)))"
          using copy_into_append [of "unat copied" "take k0 ?S" buf] lk le c'(2) Suc.prems(3) unfolding b by simp
        also have "take k0 ?S @ take (?r - k0) (chain_bytes ?n ?D fs ?N (sectors_for ?r - ?p)) = take ?r (chain_bytes ?n ?D fs c (sectors_for ?r))"
        proof (cases "?r \<le> 512 * ?p")
          case True
          then have "k0 = ?r" "?r \<le> length ?S" unfolding lS k0_def using need by (simp_all add: min_def)
          then show ?thesis unfolding chain_bytes_step [OF p, of ?n ?D c] by simp
        next
          case False
          then have "k0 = 512 * ?p" "length ?S = 512 * ?p" unfolding lS k0_def using need by (auto simp: min_def)
          then show ?thesis unfolding chain_bytes_step [OF p, of ?n ?D c] using False by simp
        qed
        finally show ?thesis .
      qed
      then show ?thesis unfolding step using all e ih(2-4) by auto
    qed
  qed
qed

lemma file_exact:
  assumes "ok st" "fs_dev fs = Some dev" "length buf = unat (f_size fi)"
  defines "k \<equiv> sectors_for (unat (f_size fi))"
  shows "\<exists>r b st'. fat32_read_file fs fi buf (f_size fi) st = ((r, b), st') \<and> ok st' \<and> content st' = content st \<and>
    (if chain_readable (bd_sectors dev) (content st) fs (start_cluster fi) k 1024
     then r = sint (f_size fi) \<and> b = take (unat (f_size fi)) (chain_bytes (bd_sectors dev) (content st) fs (start_cluster fi) k)
     else r = - 1)"
proof -
  obtain r b st' where r: "read_clusters fs (f_size fi) 0 (start_cluster fi) 0 buf st = ((r, b), st')" "ok st'" "content st' = content st"
    "if chain_readable (bd_sectors dev) (content st) fs (start_cluster fi) k 1024
     then r = Some (f_size fi) \<and> b = copy_into buf 0 (take (unat (f_size fi)) (chain_bytes (bd_sectors dev) (content st) fs (start_cluster fi) k))
     else r = None"
    using clusters_exact [OF assms(1,2), of 0 "f_size fi" buf 0 1024 "start_cluster fi"] assms(3) by (auto simp: k_def)
  have "length (chain_bytes (bd_sectors dev) (content st) fs (start_cluster fi) k) = 512 * k"
    if "chain_readable (bd_sectors dev) (content st) fs (start_cluster fi) k 1024"
    unfolding chain_bytes_def using that content_length [OF assms(1)]
    by (subst length_concat_const [where n = 512]) (auto simp: chain_readable_def word_less_nat_alt)
  moreover have "unat (f_size fi) \<le> 512 * k" unfolding k_def by linarith
  ultimately have "copy_into buf 0 (take (unat (f_size fi)) (chain_bytes (bd_sectors dev) (content st) fs (start_cluster fi) k)) =
      take (unat (f_size fi)) (chain_bytes (bd_sectors dev) (content st) fs (start_cluster fi) k)"
    if "chain_readable (bd_sectors dev) (content st) fs (start_cluster fi) k 1024"
    using that assms(3) by (simp add: copy_into_def)
  then show ?thesis using r by (auto simp: fat32_read_file_def)
qed

end

section \<open>A buffer on the heap\<close>

lemma put_bytes_at:
  assumes "length bs \<le> 2 ^ 64" "i < length bs"
  shows "put_bytes p bs m (p + of_nat i) = bs ! i"
proof -
  have "fold (\<lambda>i m. m(p + of_nat i := bs ! i)) [0..<k] m (p + of_nat i) = (if i < k then bs ! i else m (p + of_nat i))"
    if "k \<le> length bs" for k
    using that
  proof (induction k)
    case (Suc k)
    have b: "i < 18446744073709551616" "k < 18446744073709551616" using assms Suc.prems by simp_all
    have "i = k" if "p + of_nat i = p + of_nat k"
    proof -
      have "(of_nat i :: u64) = of_nat k" using that by simp
      then show ?thesis using unat_of_nat_small [OF b(1)] unat_of_nat_small [OF b(2)] by metis
    qed
    then show ?case using Suc by (auto simp: less_Suc_eq)
  qed simp
  then show ?thesis using assms(2) by (simp add: put_bytes_def)
qed

lemma put_bytes_outside: "put_bytes p bs m x \<noteq> m x \<Longrightarrow> \<exists>i < length bs. x = p + of_nat i"
proof -
  have "fold (\<lambda>i m. m(p + of_nat i := bs ! i)) [0..<k] m x \<noteq> m x \<Longrightarrow> \<exists>i < k. x = p + of_nat i" for k
    by (induction k) (auto simp: less_Suc_eq split: if_splits)
  then show "put_bytes p bs m x \<noteq> m x \<Longrightarrow> \<exists>i < length bs. x = p + of_nat i" by (simp add: put_bytes_def)
qed

lemma heap_put_bytes:
  assumes "length bs \<le> 2 ^ 64" "length bs = n"
  shows "heap_bytes p n (put_bytes p bs m) = bs"
  using assms by (intro nth_equalityI) (simp_all add: heap_bytes_def put_bytes_at)

text \<open>Filling a live region keeps the heap.\<close>

lemma buffer_write:
  fixes s :: "'a heap_state_scheme"
  assumes "heap_ok s" "live s p = Some z" "length bs \<le> unat z"
  shows "heap_ok (s\<lparr>kmem := put_bytes p bs (kmem s)\<rparr>)" "live (s\<lparr>kmem := put_bytes p bs (kmem s)\<rparr>) = live s"
    "heap_rep s hs \<Longrightarrow> heap_rep (s\<lparr>kmem := put_bytes p bs (kmem s)\<rparr>) hs"
proof -
  have r: "unat p \<le> unat x \<and> unat x < unat p + unat z" if ch: "put_bytes p bs (kmem s) x \<noteq> kmem s x" for x
  proof -
    obtain i where i: "i < length bs" "x = p + of_nat i" using put_bytes_outside [OF ch] by blast
    have "unat (of_nat i :: u64) = i" using i(1) assms(3) unat_lt_64 [of z] by (intro unat_of_nat_small) linarith
    then have "unat x = unat p + i" using i assms(3) live_bounds(1) [OF assms(1,2)] by (simp add: unat_add_nowrap)
    then show ?thesis using i(1) assms(3) by simp
  qed
  show "heap_rep s hs \<Longrightarrow> heap_rep (s\<lparr>kmem := put_bytes p bs (kmem s)\<rparr>) hs" by (rule payload_rep [OF _ assms(2)]) (auto dest: r)
  from payload_write [OF assms(1,2), OF r]
  show "heap_ok (s\<lparr>kmem := put_bytes p bs (kmem s)\<rparr>)" "live (s\<lparr>kmem := put_bytes p bs (kmem s)\<rparr>) = live s" by blast+
qed

section \<open>Reading a file\<close>

text \<open>
  A file of the volume that can be read: the sectors that its size takes, along its chain of at most 1024 clusters, are all there.
  Its data are the bytes of these sectors up to its size.
\<close>

definition file_readable :: "u64 \<Rightarrow> u64 \<Rightarrow> memory \<Rightarrow> memory fat32_fs \<Rightarrow> fat32_file \<Rightarrow> bool" where
  "file_readable phys sz m fs file \<longleftrightarrow> chain_readable (bd_sectors (ramdisk phys sz)) (image_sector phys m) fs
     (start_cluster file) (sectors_for (unat (f_size file))) 1024"

definition file_data :: "u64 \<Rightarrow> u64 \<Rightarrow> memory \<Rightarrow> memory fat32_fs \<Rightarrow> fat32_file \<Rightarrow> u8 list" where
  "file_data phys sz m fs file = take (unat (f_size file)) (chain_bytes (bd_sectors (ramdisk phys sz)) (image_sector phys m) fs
     (start_cluster file) (sectors_for (unat (f_size file))))"

abbreviation lookup :: "memory fat32_fs \<Rightarrow> string \<Rightarrow> memory \<Rightarrow> fat32_file option" where
  "lookup fs name m \<equiv> pick (map (\<lambda>c. of_nat (of_char c)) name) (fst (fat32_list_root fs m))"

abbreviation no_room :: "u64 \<Rightarrow> 'a heap_state_scheme \<Rightarrow> bool" where
  "no_room n s \<equiv> fst (the (kmalloc n s)) = 0"

lemma open_result:
  assumes "image_ok phys sz" "fs_dev fs = Some (ramdisk phys sz)"
  shows "\<exists>h m'. image_sector phys m' = image_sector phys m \<and> vfs_open (vfs_mount fs v) name out m =
    ((if pick name (fst (fat32_list_root fs m)) = None then - 1 else 0, h), m') \<and>
    (\<forall>file. pick name (fst (fat32_list_root fs m)) = Some file \<longrightarrow>
      vf_size h = f_size file \<and> vf_fat h = file \<and> vf_valid h \<and> vf_ops h = Some Fat32_ops)"
proof -
  obtain r m' where r: "fat32_find fs name m = (r, m')" "image_sector phys m' = image_sector phys m"
    using ram0.find_clusters_ok [OF assms] by (metis fat32_find_def)
  moreover have "pick name (fst (fat32_list_root fs m)) = r"
    using r(1) clusters_agree [of fs name 0 "root_cluster fs" m] by (simp add: fat32_find_def fat32_list_root_def)
  ultimately show ?thesis by (cases r) (auto simp: vfs_open_def vfs_mount_def)
qed

lemma read_whole_result:
  fixes s :: "'a heap_state_scheme"
  assumes img: "image_ok phys sz" "fs_dev fs = Some (ramdisk phys sz)" and ok: "heap_ok s"
    and room: "\<And>n. room n = 0 \<or> unat n \<le> unat (room n) \<and> unat (room n) + 7 < 2 ^ 64"
  shows "\<exists>r m' s'. read_whole cmd room (vfs_mount fs v) name file0 m s = Some (r, m', s') \<and> heap_ok s' \<and> s' = s\<lparr>kmem := kmem s'\<rparr> \<and>
    (case r of Inl _ \<Rightarrow> live s' = live s
     | Inr (buf, n, bs) \<Rightarrow> live s buf = None \<and> (\<exists>z. unat n \<le> unat (room n) \<and> unat (room n) \<le> unat z \<and> live s' = (live s)(buf \<mapsto> z)) \<and>
         buf \<noteq> 0 \<and> (\<exists>u. kmalloc (room n) s = Some (buf, u) \<and> s' = u\<lparr>kmem := put_bytes buf bs (kmem u)\<rparr>) \<and> length bs = unat n \<and> heap_bytes buf (unat n) (kmem s') = bs) \<and>
    (case lookup fs name m of
       None \<Rightarrow> r = Inl (cmd @ '': '' @ [CHR 0x27] @ name @ [CHR 0x27] @ '' not found'' @ [CHR 0x0A]) \<and> s' = s
     | Some file \<Rightarrow> if no_room (room (f_size file)) s then r = Inl (cmd @ '': out of memory'' @ [CHR 0x0A]) \<and> s' = s
         else if file_readable phys sz m fs file then
           (\<exists>buf. fst (the (kmalloc (room (f_size file)) s)) = buf \<and> r = Inr (buf, f_size file, file_data phys sz m fs file))
         else f_size file \<noteq> - 1 \<longrightarrow> r = Inl (cmd @ '': read error'' @ [CHR 0x0A]))"
proof -
  obtain h m1 where o: "image_sector phys m1 = image_sector phys m" "vfs_open (vfs_mount fs v) (map (\<lambda>c. of_nat (of_char c)) name) file0 m =
      ((if lookup fs name m = None then - 1 else 0, h), m1)"
    "\<forall>file. lookup fs name m = Some file \<longrightarrow> vf_size h = f_size file \<and> vf_fat h = file \<and> vf_valid h \<and> vf_ops h = Some Fat32_ops"
    using open_result [OF img] by blast
  show ?thesis
  proof (cases "lookup fs name m")
    case None
    then show ?thesis using o ok by (simp add: read_whole_def)
  next
    case (Some fi)
    then have h: "vf_size h = f_size fi" "vf_fat h = fi" "vf_valid h" "vf_ops h = Some Fat32_ops" using o(3) by blast+
    let ?n = "f_size fi"
    obtain buf s1 where k: "kmalloc (room ?n) s = Some (buf, s1)" using kheap.alloc_returns [OF ok] by blast
    show ?thesis
    proof (cases "buf = 0")
      case True
      then have "s1 = s" using kheap.alloc_null [OF ok] k by blast
      then show ?thesis using True k Some o(2) h(1) ok by (simp add: read_whole_def)
    next
      case False
      have nz: "room ?n \<noteq> 0" using False k by (auto simp: kmalloc_def)
      then have rm: "unat ?n \<le> unat (room ?n)" "unat (room ?n) + 7 < 2 ^ 64" using room [of ?n] by auto
      obtain z where z: "live s buf = None" "unat (room ?n) \<le> unat z" "live s1 = (live s)(buf \<mapsto> z)"
        using kheap.alloc_region [OF ok k False rm(2)] by blast
      have ok1: "heap_ok s1" by (rule kheap.alloc_inv [OF ok k])
      let ?b = "heap_bytes buf (unat ?n) (kmem s1)"
      have lb: "length ?b = unat ?n" by (simp add: heap_bytes_def)
      obtain kk bs m2 where rd: "fat32_read_file fs fi ?b ?n m1 = ((kk, bs), m2)" "length bs = unat ?n"
        using ram0.file_inside [OF img, of ?b ?n fi m1] lb by auto
      define s2 where "s2 = s1\<lparr>kmem := put_bytes buf bs (kmem s1)\<rparr>"
      have bl: "live s1 buf = Some z" "length bs \<le> unat z" using z(2,3) rm(1) rd(2) by simp_all
      have small: "unat ?n \<le> 18446744073709551616" using unat_lt_32 [of ?n] by linarith
      have s2: "heap_ok s2" "live s2 = (live s)(buf \<mapsto> z)" "heap_bytes buf (unat ?n) (kmem s2) = bs"
        using buffer_write [OF ok1 bl] z(3) heap_put_bytes [of bs "unat ?n" buf "kmem s1"] rd(2) small by (simp_all add: s2_def)
      have f2: "s2 = s\<lparr>kmem := kmem s2\<rparr>" unfolding s2_def by (subst kmalloc_kmem [OF k]) simp
      have e: "read_whole cmd room (vfs_mount fs v) name file0 m s =
          (if kk \<noteq> sint ?n then Some (Inl (cmd @ '': read error'' @ [CHR 0x0A]), m2, kfree buf s2) else Some (Inr (buf, ?n, bs), m2, s2))"
        using Some o(2) h k False rd(1)
        by (simp add: read_whole_def vfs_read_def fat32_backend_read_def vfs_mount_def s2_def Let_def)
      have fl: "if file_readable phys sz m fs fi then kk = sint ?n \<and> bs = file_data phys sz m fs fi else kk = - 1"
        using ram0.file_exact [OF img, of ?b fi m1] rd(1) lb o(1) by (auto simp: file_readable_def file_data_def split: if_splits)
      have neg: "sint ?n = - 1 \<Longrightarrow> ?n = - 1" using signed_word_eqI [of ?n "- 1"] by simp
      show ?thesis
      proof (cases "kk = sint ?n")
        case True
        moreover have "\<exists>u. kmalloc (room ?n) s = Some (buf, u) \<and> s2 = u\<lparr>kmem := put_bytes buf bs (kmem u)\<rparr>" using k s2_def by blast
        ultimately show ?thesis using e s2 f2 z(1,2) rm(1) rd(2) fl neg Some k False by (auto split: if_splits)
      next
        case err: False
        have l2: "live s2 buf = Some z" using s2(2) by simp
        have "heap_ok (kfree buf s2)" by (rule kheap.release_inv [OF s2(1) l2])
        moreover have "live (kfree buf s2) = live s"
          using kheap.release_regions [OF s2(1) l2] s2(2) z(1) by (auto simp: fun_eq_iff)
        moreover have "kfree buf s2 = s\<lparr>kmem := kmem (kfree buf s2)\<rparr>" by (subst kfree_kmem, subst f2) simp
        ultimately show ?thesis using e err fl Some k False by (auto split: if_splits)
      qed
    qed
  qed
qed

text \<open>A file that is there and for which there is room.\<close>

lemma read_whole_stored:
  fixes s :: "'a heap_state_scheme"
  assumes "image_ok phys sz" "fs_dev fs = Some (ramdisk phys sz)" "heap_ok s"
    and "\<And>n. room n = 0 \<or> unat n \<le> unat (room n) \<and> unat (room n) + 7 < 2 ^ 64"
    and "lookup fs name m = Some f" "file_readable phys sz m fs f" "kmalloc (room (f_size f)) s = Some (buf, u)" "buf \<noteq> 0"
  shows "\<exists>m' s' z. read_whole cmd room (vfs_mount fs v) name file0 m s = Some (Inr (buf, f_size f, file_data phys sz m fs f), m', s') \<and>
    heap_ok s' \<and> s' = s\<lparr>kmem := kmem s'\<rparr> \<and> live s buf = None \<and> unat (room (f_size f)) \<le> unat z \<and> live s' = (live s)(buf \<mapsto> z) \<and>
    s' = u\<lparr>kmem := put_bytes buf (file_data phys sz m fs f) (kmem u)\<rparr> \<and> length (file_data phys sz m fs f) = unat (f_size f) \<and>
    heap_bytes buf (unat (f_size f)) (kmem s') = file_data phys sz m fs f"
proof -
  have nr: "\<not> no_room (room (f_size f)) s" using assms(7,8) by simp
  from read_whole_result [OF assms(1-4), of cmd v name file0 m, unfolded assms(5) option.case if_not_P [OF nr] if_P [OF assms(6)]]
  obtain r m' s' where r: "read_whole cmd room (vfs_mount fs v) name file0 m s = Some (r, m', s')" "heap_ok s'" "s' = s\<lparr>kmem := kmem s'\<rparr>"
    and c: "case r of Inl _ \<Rightarrow> live s' = live s
     | Inr (buf, n, bs) \<Rightarrow> live s buf = None \<and> (\<exists>z. unat n \<le> unat (room n) \<and> unat (room n) \<le> unat z \<and> live s' = (live s)(buf \<mapsto> z)) \<and>
         buf \<noteq> 0 \<and> (\<exists>u. kmalloc (room n) s = Some (buf, u) \<and> s' = u\<lparr>kmem := put_bytes buf bs (kmem u)\<rparr>) \<and>
         length bs = unat n \<and> heap_bytes buf (unat n) (kmem s') = bs"
    and t: "\<exists>buf. fst (the (kmalloc (room (f_size f)) s)) = buf \<and> r = Inr (buf, f_size f, file_data phys sz m fs f)" by blast
  have "r = Inr (buf, f_size f, file_data phys sz m fs f)" using t assms(7) by auto
  then show ?thesis using r c assms(7) by auto
qed

section \<open>A dump can be read back\<close>

text \<open>The value of a digit, and the byte whose two digits stand in column \<open>i\<close> of a row.\<close>

definition hex_value :: "char \<Rightarrow> nat" where
  "hex_value c = (if of_char c < (97 :: nat) then of_char c - 48 else of_char c - 87)"

definition dumped_byte :: "string \<Rightarrow> nat \<Rightarrow> u8" where
  "dumped_byte row i = (let p = 10 + 3 * i + (if 7 < i then 1 else 0)
     in of_nat (16 * hex_value (row ! p) + hex_value (row ! Suc p)))"

lemma upt16: "[0..<16] = [0, 1, 2, 3, 4, 5, 6, 7, 8, 9, 10, 11, 12, 13, 14, 15]"
  by (simp add: upt_conv_Cons)

lemma hex_value_digit:
  assumes "d < 16"
  shows "hex_value (''0123456789abcdef'' ! d) = d"
proof -
  have "\<forall>d \<in> set [0..<16]. hex_value (''0123456789abcdef'' ! d) = d" unfolding upt16 by (simp add: hex_value_def)
  then show ?thesis using assms by simp
qed

lemma print_hex_byte:
  "print_hex (ucast b) 2 = [''0123456789abcdef'' ! (unat b div 16), ''0123456789abcdef'' ! (unat b mod 16)]"
  for b :: u8
proof -
  have l: "unat (x AND 0xF) = unat x mod 16" for x :: u64 using unat_and_mask [of x 4] by (simp add: mask_eq_exp_minus_1)
  have "unat b div 16 < 16" "unat (ucast b :: u64) = unat b"
    using unat_lt_8 [of b] by (linarith, simp add: unsigned_ucast_eq take_bit_nat_eq_self del: unat_lt_8)
  then have "unat (drop_bit 4 (ucast b :: u64) AND 0xF) = unat b div 16" "unat ((ucast b :: u64) AND 0xF) = unat b mod 16"
    by (simp_all add: l drop_bit_eq_div unat_div)
  moreover have "rev [0..<2] = [1, 0]" by (simp add: upt_conv_Cons)
  ultimately show ?thesis by (simp add: print_hex_def)
qed

lemma dumped_row:
  assumes "i < 16" "off + i < n"
  shows "dumped_byte (hexdump_row buf n off) i = buf ! (off + i)"
proof -
  define D where "D j = (if off + j < n then ''0123456789abcdef'' ! (unat (buf ! (off + j)) div 16) else CHR '' '')" for j
  define E where "E j = (if off + j < n then ''0123456789abcdef'' ! (unat (buf ! (off + j)) mod 16) else CHR '' '')" for j
  have cell: "(if off + j < n then print_hex (ucast (buf ! (off + j))) 2 @ '' '' else ''   '') = [D j, E j, CHR '' '']" for j
    by (simp add: D_def E_def print_hex_byte)
  obtain rest where r: "hexdump_row buf n off = print_hex (of_nat off) 8 @ ''  '' @
      concat (map (\<lambda>j. [D j, E j, CHR '' ''] @ (if j = 7 then '' '' else [])) [0..<16]) @ rest"
    unfolding hexdump_row_def cell by blast
  have l: "length (print_hex (of_nat off) 8 @ ''  '') = 10" by (simp add: print_hex_def)
  have d: "unat (buf ! (off + i)) div 16 < 16" using unat_lt_8 [of "buf ! (off + i)"] by linarith
  let ?p = "3 * i + (if 7 < i then 1 else 0)"
  have "\<forall>i \<in> set [0..<16]. concat (map (\<lambda>j. [D j, E j, CHR '' ''] @ (if j = 7 then '' '' else [])) [0..<16]) ! (3 * i + (if 7 < i then 1 else 0)) = D i \<and>
      concat (map (\<lambda>j. [D j, E j, CHR '' ''] @ (if j = 7 then '' '' else [])) [0..<16]) ! Suc (3 * i + (if 7 < i then 1 else 0)) = E i"
    unfolding upt16 by simp
  moreover have "length (concat (map (\<lambda>j. [D j, E j, CHR '' ''] @ (if j = 7 then '' '' else [])) [0..<16])) = 49" unfolding upt16 by simp
  ultimately have "hexdump_row buf n off ! (10 + ?p) = D i" "hexdump_row buf n off ! Suc (10 + ?p) = E i"
    unfolding r append_assoc [symmetric] using l assms(1) by (auto simp: nth_append)
  moreover have "hex_value (D i) = unat (buf ! (off + i)) div 16" "hex_value (E i) = unat (buf ! (off + i)) mod 16"
    using assms(2) d by (simp_all add: D_def E_def hex_value_digit)
  ultimately have "dumped_byte (hexdump_row buf n off) i = of_nat (16 * (unat (buf ! (off + i)) div 16) + unat (buf ! (off + i)) mod 16)"
    by (simp only: dumped_byte_def Let_def add.assoc)
  also have "\<dots> = buf ! (off + i)" by (simp only: mult_div_mod_eq) simp
  finally show ?thesis .
qed

section \<open>Printing files\<close>

lemma file_rooms:
  fixes n :: u32
  shows "(ucast (n + 1) :: u64) = 0 \<and> n = - 1 \<or> unat n < unat (ucast (n + 1) :: u64) \<and> unat (ucast (n + 1) :: u64) + 7 < 2 ^ 64"
    "unat n \<le> unat (ucast (max 1 n) :: u64) \<and> unat (ucast (max 1 n) :: u64) + 7 < 2 ^ 64"
    "unat n \<le> unat (ucast n :: u64) \<and> unat (ucast n :: u64) + 7 < 2 ^ 64" "(if n \<noteq> 0 then n else 1) = max 1 n"
proof -
  have lt: "unat x + 7 < 2 ^ 64" for x :: u32 using order.strict_trans [OF unat_lt_32 [of x], of "2 ^ 64 - 7"] by simp
  have "n + 1 = 0 \<and> n = - 1 \<or> unat (n + 1) = unat n + 1" by (metis add.commute unatSuc Suc_eq_plus1 eq_neg_iff_add_eq_0)
  then show "(ucast (n + 1) :: u64) = 0 \<and> n = - 1 \<or> unat n < unat (ucast (n + 1) :: u64) \<and> unat (ucast (n + 1) :: u64) + 7 < 2 ^ 64"
    using lt [of "n + 1"] by auto
  have "n \<le> max 1 n" by simp
  then show "unat n \<le> unat (ucast (max 1 n) :: u64) \<and> unat (ucast (max 1 n) :: u64) + 7 < 2 ^ 64"
    using lt [of "max 1 n"] by (simp add: word_le_nat_alt)
  show "unat n \<le> unat (ucast n :: u64) \<and> unat (ucast n :: u64) + 7 < 2 ^ 64" using lt by simp
  show "(if n \<noteq> 0 then n else 1) = max 1 n" by (simp add: max_def word_le_nat_alt Suc_le_eq unat_gt_0)
qed

lemma cat_result:
  fixes s :: "'a heap_state_scheme"
  assumes "image_ok phys sz" "fs_dev fs = Some (ramdisk phys sz)" "heap_ok s"
  shows "\<exists>out m' s'. cmd_cat (vfs_mount fs v) name file0 m s = Some (out, m', s') \<and> heap_ok s' \<and> live s' = live s \<and>
      (case lookup fs name m of
         None \<Rightarrow> out = ''cat: '' @ [CHR 0x27] @ name @ [CHR 0x27] @ '' not found'' @ [CHR 0x0A]
       | Some file \<Rightarrow> if no_room (ucast (f_size file + 1)) s then out = ''cat: out of memory'' @ [CHR 0x0A]
           else if file_readable phys sz m fs file then
             out = map (\<lambda>b. char_of (unat b)) (takeWhile (\<lambda>b. b \<noteq> 0) (file_data phys sz m fs file)) @ [CHR 0x0A]
           else out = ''cat: read error'' @ [CHR 0x0A])"
proof -
  let ?room = "\<lambda>n :: u32. ucast (n + 1) :: u64"
  have room: "?room n = 0 \<or> unat n \<le> unat (?room n) \<and> unat (?room n) + 7 < 2 ^ 64" for n using file_rooms(1) [of n] by auto
  from read_whole_result [OF assms room, of "''cat''" v name file0 m] obtain r m' s' where
    rd: "read_whole ''cat'' ?room (vfs_mount fs v) name file0 m s = Some (r, m', s')" "heap_ok s'"
    and c: "case r of Inl _ \<Rightarrow> live s' = live s
     | Inr (buf, n, bs) \<Rightarrow> live s buf = None \<and> (\<exists>z. unat n \<le> unat (?room n) \<and> unat (?room n) \<le> unat z \<and> live s' = (live s)(buf \<mapsto> z)) \<and>
         buf \<noteq> 0 \<and> (\<exists>u. kmalloc (?room n) s = Some (buf, u) \<and> s' = u\<lparr>kmem := put_bytes buf bs (kmem u)\<rparr>) \<and> length bs = unat n \<and> heap_bytes buf (unat n) (kmem s') = bs"
    and t: "case lookup fs name m of
       None \<Rightarrow> r = Inl (''cat'' @ '': '' @ [CHR 0x27] @ name @ [CHR 0x27] @ '' not found'' @ [CHR 0x0A]) \<and> s' = s
     | Some file \<Rightarrow> if no_room (?room (f_size file)) s then r = Inl (''cat'' @ '': out of memory'' @ [CHR 0x0A]) \<and> s' = s
         else if file_readable phys sz m fs file then
           (\<exists>buf. fst (the (kmalloc (?room (f_size file)) s)) = buf \<and> r = Inr (buf, f_size file, file_data phys sz m fs file))
         else f_size file \<noteq> - 1 \<longrightarrow> r = Inl (''cat'' @ '': read error'' @ [CHR 0x0A])" by blast
  have nz: "no_room 0 s" by (simp add: kmalloc_def)
  show ?thesis
  proof (cases r)
    case (Inl msg)
    show ?thesis using Inl rd c t nz by (auto simp: cmd_cat_def split: option.splits if_splits)
  next
    case (Inr x)
    obtain buf n bs where x: "r = Inr (buf, n, bs)" using Inr by (cases x) auto
    obtain z where z: "live s buf = None" "unat n \<le> unat (?room n)" "unat (?room n) \<le> unat z" "live s' = (live s)(buf \<mapsto> z)"
      using c x by auto
    have n: "unat n < unat z" using file_rooms(1) [of n] z(2,3) by (auto simp: unsigned_minus_1_eq_mask mask_eq_exp_minus_1)
    let ?s = "s'\<lparr>kmem := (kmem s')(buf + ucast n := 0)\<rparr>"
    have l: "live s' buf = Some z" using z(4) by simp
    have u: "unat (buf + ucast n) = unat buf + unat n"
      using live_bounds(1) [OF rd(2) l] n by (subst unat_add_nowrap) simp_all
    have k: "heap_ok ?s" "live ?s = live s'"
      by (rule payload_write [OF rd(2) l]; use u n in \<open>auto split: if_splits\<close>)+
    then have "heap_ok (kfree buf ?s)" "live (kfree buf ?s) = live s"
      using kheap.release_inv [OF k(1), of buf z] kheap.release_regions [OF k(1), of buf z] l z(1,4) by (auto simp: fun_eq_iff)
    then show ?thesis using rd(1) x t nz by (auto simp: cmd_cat_def Let_def split: option.splits if_splits)
  qed
qed

lemma hexdump_text:
  assumes "sz > n \<longleftrightarrow> rest \<noteq> []" "n = (if sz < HEXDUMP_MAX then sz else HEXDUMP_MAX)"
  shows "\<exists>rows note k. hexdump_rows bs (unat n) @ rest = concat rows @ note \<and> k = min 256 (unat sz) \<and> length rows = (k + 15) div 16 \<and>
    (\<forall>j i. i < 16 \<longrightarrow> 16 * j + i < k \<longrightarrow> dumped_byte (rows ! j) i = bs ! (16 * j + i)) \<and> (note = [] \<longleftrightarrow> unat sz \<le> 256)"
proof -
  have k: "unat n = min 256 (unat sz)" using assms(2) by (auto simp: HEXDUMP_MAX_def word_less_nat_alt)
  let ?rows = "map (\<lambda>k. hexdump_row bs (unat n) (16 * k)) [0..<(unat n + 15) div 16]"
  have "dumped_byte (?rows ! j) i = bs ! (16 * j + i)" if "i < 16" "16 * j + i < unat n" for i j
  proof -
    have "j < (unat n + 15) div 16" using that by linarith
    then show ?thesis using dumped_row [OF that] by simp
  qed
  moreover have "rest = [] \<longleftrightarrow> unat sz \<le> 256" using assms k by (auto simp: word_less_nat_alt)
  ultimately show ?thesis
    by (intro exI [of _ ?rows] exI [of _ rest] exI [of _ "unat n"]) (simp add: hexdump_rows_def k [symmetric])
qed

lemma hexdump_result:
  fixes s :: "'a heap_state_scheme"
  assumes "image_ok phys sz" "fs_dev fs = Some (ramdisk phys sz)" "heap_ok s"
  shows "\<exists>out m' s'. cmd_hexdump (vfs_mount fs v) name file0 m s = Some (out, m', s') \<and> heap_ok s' \<and> live s' = live s \<and>
      (if name = [] then out = ''usage: hexdump <file>'' @ [CHR 0x0A]
       else case lookup fs name m of
         None \<Rightarrow> out = ''hexdump: '' @ [CHR 0x27] @ name @ [CHR 0x27] @ '' not found'' @ [CHR 0x0A]
       | Some file \<Rightarrow> if no_room (ucast (max 1 (f_size file))) s then out = ''hexdump: out of memory'' @ [CHR 0x0A]
           else if file_readable phys sz m fs file then
             (\<exists>rows note n. out = concat rows @ note \<and> n = min 256 (unat (f_size file)) \<and> length rows = (n + 15) div 16 \<and>
               (\<forall>k i. i < 16 \<longrightarrow> 16 * k + i < n \<longrightarrow> dumped_byte (rows ! k) i = file_data phys sz m fs file ! (16 * k + i)) \<and>
               (note = [] \<longleftrightarrow> unat (f_size file) \<le> 256))
           else f_size file \<noteq> - 1 \<longrightarrow> out = ''hexdump: read error'' @ [CHR 0x0A])"
proof (cases "name = []")
  case False
  let ?room = "\<lambda>n :: u32. ucast (max 1 n) :: u64"
  have room: "?room n = 0 \<or> unat n \<le> unat (?room n) \<and> unat (?room n) + 7 < 2 ^ 64" for n using file_rooms(2) [of n] by blast
  from read_whole_result [OF assms room, of "''hexdump''" v name file0 m] obtain r m' s' where
    rd: "read_whole ''hexdump'' ?room (vfs_mount fs v) name file0 m s = Some (r, m', s')" "heap_ok s'"
    and c: "case r of Inl _ \<Rightarrow> live s' = live s
     | Inr (buf, n, bs) \<Rightarrow> live s buf = None \<and> (\<exists>z. unat n \<le> unat (?room n) \<and> unat (?room n) \<le> unat z \<and> live s' = (live s)(buf \<mapsto> z)) \<and>
         buf \<noteq> 0 \<and> (\<exists>u. kmalloc (?room n) s = Some (buf, u) \<and> s' = u\<lparr>kmem := put_bytes buf bs (kmem u)\<rparr>) \<and> length bs = unat n \<and> heap_bytes buf (unat n) (kmem s') = bs"
    and t: "case lookup fs name m of
       None \<Rightarrow> r = Inl (''hexdump'' @ '': '' @ [CHR 0x27] @ name @ [CHR 0x27] @ '' not found'' @ [CHR 0x0A]) \<and> s' = s
     | Some file \<Rightarrow> if no_room (?room (f_size file)) s then r = Inl (''hexdump'' @ '': out of memory'' @ [CHR 0x0A]) \<and> s' = s
         else if file_readable phys sz m fs file then
           (\<exists>buf. fst (the (kmalloc (?room (f_size file)) s)) = buf \<and> r = Inr (buf, f_size file, file_data phys sz m fs file))
         else f_size file \<noteq> - 1 \<longrightarrow> r = Inl (''hexdump'' @ '': read error'' @ [CHR 0x0A])" by blast
  show ?thesis
  proof (cases r)
    case (Inl msg)
    then show ?thesis using False rd c t by (auto simp: cmd_hexdump_def file_rooms(4) split: option.splits if_splits)
  next
    case (Inr x)
    obtain buf n bs where x: "r = Inr (buf, n, bs)" using Inr by (cases x) auto
    obtain z where z: "live s buf = None" "live s' = (live s)(buf \<mapsto> z)" using c x by auto
    have l: "live s' buf = Some z" using z(2) by simp
    have k: "heap_ok (kfree buf s')" "live (kfree buf s') = live s"
      using kheap.release_inv [OF rd(2) l] kheap.release_regions [OF rd(2) l] z by (auto simp: fun_eq_iff)
    define h where "h = (if n < HEXDUMP_MAX then n else HEXDUMP_MAX)"
    obtain rest where rest: "(if n > h then kformat (''(showing first %d of %d bytes)'' @ [CHR 0x0A]) [Num (ucast h), Num (ucast n)] else Some []) = Some rest"
      "n > h \<longleftrightarrow> rest \<noteq> []" by (cases "n > h") (auto simp: bind_eq_Some_conv)
    have "cmd_hexdump (vfs_mount fs v) name file0 m s = Option.bind
        (if n > h then kformat (''(showing first %d of %d bytes)'' @ [CHR 0x0A]) [Num (ucast h), Num (ucast n)] else Some [])
        (\<lambda>rest. Some (hexdump_rows bs (unat h) @ rest, m', kfree buf s'))"
      using False rd(1) x by (simp add: cmd_hexdump_def file_rooms(4) h_def Let_def)
    then have e: "cmd_hexdump (vfs_mount fs v) name file0 m s = Some (hexdump_rows bs (unat h) @ rest, m', kfree buf s')"
      unfolding rest(1) by simp
    show ?thesis
    proof (cases "lookup fs name m")
      case (Some fi)
      have "\<exists>rows note k. hexdump_rows bs (unat h) @ rest = concat rows @ note \<and> k = min 256 (unat (f_size fi)) \<and> length rows = (k + 15) div 16 \<and>
          (\<forall>j i. i < 16 \<longrightarrow> 16 * j + i < k \<longrightarrow> dumped_byte (rows ! j) i = file_data phys sz m fs fi ! (16 * j + i)) \<and> (note = [] \<longleftrightarrow> unat (f_size fi) \<le> 256)"
        if "file_readable phys sz m fs fi" "\<not> no_room (?room (f_size fi)) s"
        using hexdump_text [OF rest(2) h_def, of bs] t x Some that by auto
      then show ?thesis using e k t x Some False by auto
    qed (use e k t x False in auto)
  qed
qed (use assms(3) in \<open>simp add: cmd_hexdump_def\<close>)

text \<open>
  C36. The commands that print files. Whatever the volume in the RAM disk holds, \<open>cat\<close> and \<open>hexdump\<close> come to an end, leave the heap well formed
  and with exactly the regions it had. A name that is not in the root directory, a lack of memory and a file that cannot be read, because its
  chain is too short or too long or leaves the device, give their messages. For a file that can be read, \<open>cat\<close> prints its bytes up to the first
  null byte, and \<open>hexdump\<close> prints one row for each 16 of
  the first 256 bytes, in which the bytes can be read back, and a note when there are more. (For \<open>hexdump\<close> of a file of
  size $2^{32}-1$ that is unreadable nothing is said: there the return value for an error equals the size.)
\<close>

theorem shell_print_files_correct:
  fixes s :: "'a heap_state_scheme"
  assumes "image_ok phys sz" "fs_dev fs = Some (ramdisk phys sz)" "heap_ok s"
  shows "(\<exists>out m' s'. cmd_cat (vfs_mount fs v) name file0 m s = Some (out, m', s') \<and> heap_ok s' \<and> live s' = live s \<and>
      (case lookup fs name m of
         None \<Rightarrow> out = ''cat: '' @ [CHR 0x27] @ name @ [CHR 0x27] @ '' not found'' @ [CHR 0x0A]
       | Some file \<Rightarrow> if no_room (ucast (f_size file + 1)) s then out = ''cat: out of memory'' @ [CHR 0x0A]
           else if file_readable phys sz m fs file then
             out = map (\<lambda>b. char_of (unat b)) (takeWhile (\<lambda>b. b \<noteq> 0) (file_data phys sz m fs file)) @ [CHR 0x0A]
           else out = ''cat: read error'' @ [CHR 0x0A])) \<and>
    (\<exists>out m' s'. cmd_hexdump (vfs_mount fs v) name file0 m s = Some (out, m', s') \<and> heap_ok s' \<and> live s' = live s \<and>
      (if name = [] then out = ''usage: hexdump <file>'' @ [CHR 0x0A]
       else case lookup fs name m of
         None \<Rightarrow> out = ''hexdump: '' @ [CHR 0x27] @ name @ [CHR 0x27] @ '' not found'' @ [CHR 0x0A]
       | Some file \<Rightarrow> if no_room (ucast (max 1 (f_size file))) s then out = ''hexdump: out of memory'' @ [CHR 0x0A]
           else if file_readable phys sz m fs file then
             (\<exists>rows note n. out = concat rows @ note \<and> n = min 256 (unat (f_size file)) \<and> length rows = (n + 15) div 16 \<and>
               (\<forall>k i. i < 16 \<longrightarrow> 16 * k + i < n \<longrightarrow> dumped_byte (rows ! k) i = file_data phys sz m fs file ! (16 * k + i)) \<and>
               (note = [] \<longleftrightarrow> unat (f_size file) \<le> 256))
           else f_size file \<noteq> - 1 \<longrightarrow> out = ''hexdump: read error'' @ [CHR 0x0A]))"
  using cat_result [OF assms] hexdump_result [OF assms] by (rule conjI)

lemma lookup_of_volume: "lookup fs_example ''A.B'' (volume_with n d) = Some \<lparr>start_cluster = 3, f_size = ucast n\<rparr>"
  by (simp add: listing_of_volume line_file_def)

lemma readable_in_volume:
  assumes "n \<noteq> 0"
  shows "file_readable 0x100000 0x1000 (volume_with n d) fs_example \<lparr>start_cluster = 3, f_size = ucast n\<rparr>"
    "file_data 0x100000 0x1000 (volume_with n d) fs_example \<lparr>start_cluster = 3, f_size = ucast n\<rparr> = map d [0..<unat n]"
proof -
  let ?n = "bd_sectors (ramdisk 0x100000 0x1000)" and ?D = "image_sector 0x100000 (volume_with n d)"
  have u: "unat (ucast n :: u32) = unat n" "unat n \<le> 512"
    using unat_lt_8 [of n] by (simp_all add: unsigned_ucast_eq take_bit_nat_eq_self del: unat_lt_8)
  have k: "sectors_for (unat n) = 1" using u(2) assms unat_gt_0 [of n] by linarith
  have c: "file_chain ?n ?D fs_example 3 [3]" using chain_example by (simp add: sectors_example)
  have p: "unat (sectors_per_cluster fs_example) = 1" by (simp add: fs_example_simps(2))
  have z: "nth_cluster ?n ?D fs_example 3 0 = 3" "nth_lba ?n ?D fs_example 3 0 = cluster_lba fs_example 3"
    using nth_in_cluster [of 0 fs_example ?n ?D 3] p by simp_all
  show "file_readable 0x100000 0x1000 (volume_with n d) fs_example \<lparr>start_cluster = 3, f_size = ucast n\<rparr>"
    using c p by (simp add: file_readable_def chain_readable_def u(1) k z sector_offsets_def)
  have "chain_bytes ?n ?D fs_example 3 1 = cluster_data ?D fs_example 3"
    by (simp add: chain_bytes_def cluster_data_def sector_offsets_def p z)
  then show "file_data 0x100000 0x1000 (volume_with n d) fs_example \<lparr>start_cluster = 3, f_size = ucast n\<rparr> = map d [0..<unat n]"
    using data_of_volume [OF u(2)] u(1) k by (simp add: file_data_def)
qed

lemma lookup_example: "lookup fs_example ''A.B'' volume_example = Some \<lparr>start_cluster = 3, f_size = 3\<rparr>"
  using lookup_of_volume [of 3] by (simp add: volume_example_def)

lemma readable_example:
  "file_readable 0x100000 0x1000 volume_example fs_example \<lparr>start_cluster = 3, f_size = 3\<rparr>"
  "file_data 0x100000 0x1000 volume_example fs_example \<lparr>start_cluster = 3, f_size = 3\<rparr> = [0x58, 0x59, 0x5A]"
  using readable_in_volume [of 3] by (simp_all add: volume_example_def upt_small)

theorem shell_print_files_correct_witness:
  "\<exists>m' s'. cmd_cat (vfs_mount fs_example \<lparr>mounted_fs = fs_example, mounted = False\<rparr>) ''A.B''
      \<lparr>vf_ops = None, vf_size = 0, vf_valid = False, vf_fat = \<lparr>start_cluster = 0, f_size = 0\<rparr>\<rparr> volume_example sys_example =
        Some (''XYZ'' @ [CHR 0x0A], m', s') \<and> live s' = live sys_example"
proof -
  let ?v = "\<lparr>mounted_fs = fs_example, mounted = False\<rparr>"
  let ?f = "\<lparr>vf_ops = None, vf_size = 0, vf_valid = False, vf_fat = \<lparr>start_cluster = 0, f_size = 0\<rparr>\<rparr>"
  have "\<exists>p s1. kmalloc 4 sys_example = Some (p, s1) \<and> p \<noteq> 0"
    using kmalloc_result [OF sys_heap, of 4] by (auto simp: fits_def alloc_blk_def sys_block_def ALIGN8_def HEAP_START_def)
  then have r: "\<not> no_room (ucast (f_size \<lparr>start_cluster = 3, f_size = 3\<rparr> + 1)) sys_example" by auto
  from conjunct1 [OF shell_print_files_correct [OF image_example fs_example_simps(1) sys_heap_ok, where name = "''A.B''" and m = volume_example and v = ?v and ?file0.0 = ?f,
      unfolded lookup_example option.case if_not_P [OF r] if_P [OF readable_example(1)] readable_example(2)]]
  obtain out m' s' where c: "cmd_cat (vfs_mount fs_example ?v) ''A.B'' ?f volume_example sys_example = Some (out, m', s')" "live s' = live sys_example"
    "out = map (\<lambda>b. char_of (unat b)) (takeWhile (\<lambda>b. b \<noteq> 0) [0x58, 0x59, 0x5A :: u8]) @ [CHR 0x0A]"
    by blast
  have "out = ''XYZ'' @ [CHR 0x0A]" using c(3)
    by (simp add: char_of_def bit_numeral_rec bit_Suc_0_iff)
  then show ?thesis using c(1,2) by blast
qed

end
