(* ===== verification/Boot.thy ===== *)
theory Boot
  imports ShellFiles AtaSpec
begin

text \<open>
  The parts of \<^verbatim>\<open>kmain\<close> (\<^verbatim>\<open>kernel/main.c\<close>) that decide something: the self-test of the disk, which is compiled in on
  request, the choice of the root device, and the start of the file system with its walk over the root
  directory and its probe of a program. The initialisations \<^verbatim>\<open>kmain\<close> calls in between are in the theories of their files.
\<close>

section \<open>Disk self-test\<close>

definition test_pattern :: "u8 list" where
  "test_pattern = map (\<lambda>i. of_nat i XOR 0x5A) [0..<ATA_SECTOR_SIZE]"

datatype verdict = Write_failed | Read_failed | Pass | Mismatch nat u8 u8

definition disk_test :: "'hw ports \<Rightarrow> 'hw ata_state \<Rightarrow> verdict \<times> 'hw ata_state" where
  "disk_test P s =
     (case ata_write P 100 1 test_pattern s of
        (False, s) \<Rightarrow> (Write_failed, s)
      | (True, s) \<Rightarrow>
          (case ata_read P 100 1 s of
             (None, s) \<Rightarrow> (Read_failed, s)
           | (Some bs, s) \<Rightarrow>
               (case find (\<lambda>i. bs ! i \<noteq> test_pattern ! i) [0..<ATA_SECTOR_SIZE] of
                  None \<Rightarrow> Pass
                | Some i \<Rightarrow> Mismatch i (test_pattern ! i) (bs ! i), s)))"

definition guarded_disk_test :: "'hw ports \<Rightarrow> 'hw ata_state \<Rightarrow> verdict \<times> 'hw ata_state" where
  "guarded_disk_test P s =
     (let s = ata_allow_writes True s;
          (v, s) = disk_test P s
      in (v, ata_allow_writes False s))"

section \<open>Root device\<close>

datatype 'hw root_device = Ram_root "memory block_device" | Ata_root "'hw ata_state block_device"

definition root_dev :: "'hw ports \<Rightarrow> bool \<Rightarrow> 'a pmm_state_scheme \<Rightarrow> 'hw ata_state \<Rightarrow> 'hw root_device option" where
  "root_dev P disk_ok s a =
     (case (case pmm_boot_module s of None \<Rightarrow> None | Some (phys, sz) \<Rightarrow> ramdisk_init phys sz) of
        Some d \<Rightarrow> Some (Ram_root d)
      | None \<Rightarrow> if disk_ok then map_option Ata_root (ata_blockdev P a) else None)"

section \<open>Start of the file system\<close>

text \<open>The clusters printed and the value the walk stops at.\<close>

function root_walk :: "'st fat32_fs \<Rightarrow> nat \<Rightarrow> u32 \<Rightarrow> 'st \<Rightarrow> (u32 list \<times> u32) \<times> 'st" where
  "root_walk fs guard c st =
     (if in_chain c then
        let (c', st) = fat32_next_cluster fs c st in
        if guard + 1 > 64 then (([c], c'), st)
        else let ((rest, e), st) = root_walk fs (guard + 1) c' st in ((c # rest, e), st)
      else (([], c), st))"
  by pat_completeness auto
termination
  by (relation "measure (\<lambda>(fs, guard, c, st). 65 - guard)") auto

declare root_walk.simps [simp del]

text \<open>The probe reads the first four bytes of the buffer even when the file is shorter.\<close>

datatype probe = Absent | Unreadable | Magic "u8 list"

definition hello_probe :: "'st fat32_fs \<Rightarrow> 'st \<Rightarrow> 'a heap_state_scheme \<Rightarrow> (probe \<times> 'st \<times> 'a heap_state_scheme) option" where
  "hello_probe fs st s =
     (case fat32_find fs (map (\<lambda>c. of_nat (of_char c)) ''HELLO.ELF'') st of
        (None, st) \<Rightarrow> Some (Absent, st, s)
      | (Some f, st) \<Rightarrow> do {
          (filebuf, s) \<leftarrow> kmalloc (ucast (f_size f)) s;
          if filebuf = 0 then Some (Unreadable, st, s)
          else case fat32_read_file fs f (heap_bytes filebuf (unat (f_size f)) (kmem s)) (f_size f) st of ((k, bs), st) \<Rightarrow>
            let s = s\<lparr>kmem := put_bytes filebuf bs (kmem s)\<rparr>
            in Some (if k = sint (f_size f) then Magic (heap_bytes filebuf 4 (kmem s)) else Unreadable, st, kfree filebuf s)
        })"

definition start_fs ::
  "'st block_device option \<Rightarrow> 'st vfs_state \<Rightarrow> 'st \<Rightarrow> 'a heap_state_scheme \<Rightarrow>
   (((u32 list \<times> u32) \<times> line list \<times> probe) option \<times> 'st vfs_state \<times> 'st \<times> 'a heap_state_scheme) option" where
  "start_fs dev v st s =
     (case dev of None \<Rightarrow> Some (None, v, st, s)
      | Some _ \<Rightarrow>
          (case fat32_init dev st of
             (None, st) \<Rightarrow> Some (None, v, st, s)
           | (Some fs, st) \<Rightarrow>
               let (walk, st) = root_walk fs 0 (root_cluster fs) st;
                   v = vfs_mount fs v;
                   (ls, st) = fat32_list_root fs st
               in do {
                 (p, st, s) \<leftarrow> hello_probe fs st s;
                 Some (Some (walk, ls, p), v, st, s)
               }))"

section \<open>What they do\<close>

lemma disk_test_pass:
  assumes "disk_test P s = (Pass, t)"
  shows "\<exists>s1 bs. ata_write P 100 1 test_pattern s = (True, s1) \<and> ata_read P 100 1 s1 = (Some bs, t) \<and>
    (\<forall>i < ATA_SECTOR_SIZE. bs ! i = test_pattern ! i)"
  using assms by (auto simp: disk_test_def find_None_iff split: prod.splits bool.splits option.splits)

lemma guarded_disk_test_writes: "\<not> ata_writes_ok (snd (guarded_disk_test P s))"
  by (simp add: guarded_disk_test_def ata_allow_writes_def Let_def split: prod.split)

lemma takeWhile_iterate:
  "takeWhile P (map (\<lambda>k. (f ^^ k) c) [0..<Suc m]) = (if P c then c # takeWhile P (map (\<lambda>k. (f ^^ k) (f c)) [0..<m]) else [])"
proof -
  have "map (\<lambda>k. (f ^^ k) c) [0..<Suc m] = c # map (\<lambda>k. (f ^^ k) (f c)) [0..<m]"
    by (simp add: upt_conv_Cons map_Suc_upt [symmetric] o_def funpow_swap1 del: upt_Suc)
  then show ?thesis by simp
qed

context sector_store
begin

text \<open>The walk prints the chain from the start cluster on, at most 65 clusters of it, also when the chain is a cycle.\<close>

lemma root_walk_chain:
  assumes "ok st" "fs_dev fs = Some dev" "guard \<le> 64"
  shows "\<exists>st'. root_walk fs guard c st =
    ((takeWhile in_chain (map (\<lambda>k. (fat_next (bd_sectors dev) (content st) fs ^^ k) c) [0..<65 - guard]),
      (fat_next (bd_sectors dev) (content st) fs ^^
        length (takeWhile in_chain (map (\<lambda>k. (fat_next (bd_sectors dev) (content st) fs ^^ k) c) [0..<65 - guard]))) c), st') \<and>
    ok st' \<and> content st' = content st"
  using assms
proof (induction fs guard c st rule: root_walk.induct)
  case (1 fs guard c st)
  let ?N = "fat_next (bd_sectors dev) (content st) fs"
  obtain st1 where n: "fat32_next_cluster fs c st = (?N c, st1)" "ok st1" "content st1 = content st"
    using next_cluster [OF "1.prems"(1,2)] by blast
  have t: "65 - guard = Suc (64 - guard)" using "1.prems"(3) by simp
  show ?case
  proof (cases "in_chain c \<and> \<not> guard + 1 > 64")
    case True
    have g: "64 - guard = 65 - (guard + 1)" by simp
    from "1.IH" [OF _ n(1) [symmetric] refl] True n(2,3) "1.prems"(2) obtain st' where
      "root_walk fs (guard + 1) (?N c) st1 = ((takeWhile in_chain (map (\<lambda>k. (?N ^^ k) (?N c)) [0..<64 - guard]),
        (?N ^^ length (takeWhile in_chain (map (\<lambda>k. (?N ^^ k) (?N c)) [0..<64 - guard]))) (?N c)), st') \<and> ok st' \<and> content st' = content st"
      unfolding g by auto
    then show ?thesis using True n(1) unfolding t takeWhile_iterate
      by (subst root_walk.simps) (simp add: funpow_swap1)
  next
    case False
    show ?thesis
    proof (cases "in_chain c")
      case True
      with False "1.prems"(3) have "guard = 64" by simp
      then show ?thesis using True n unfolding t takeWhile_iterate by (subst root_walk.simps) simp
    next
      case False
      then show ?thesis using "1.prems"(1) unfolding t takeWhile_iterate by (subst root_walk.simps) simp
    qed
  qed
qed

end

lemma probe_result:
  fixes s :: "'a heap_state_scheme"
  assumes img: "image_ok phys sz" "fs_dev fs = Some (ramdisk phys sz)" and ok: "heap_ok s"
  shows "\<exists>p m' s'. hello_probe fs m s = Some (p, m', s') \<and> heap_ok s' \<and> live s' = live s"
proof -
  obtain r m1 where r: "fat32_find fs (map (\<lambda>c. of_nat (of_char c)) ''HELLO.ELF'') m = (r, m1)" by (rule prod.exhaust)
  show ?thesis
  proof (cases r)
    case None
    then show ?thesis using r ok by (simp only: hello_probe_def prod.case option.case) blast
  next
    case (Some f)
    let ?n = "f_size f"
    obtain buf s1 where k: "kmalloc (ucast ?n) s = Some (buf, s1)" using kheap.alloc_returns [OF ok] by blast
    show ?thesis
    proof (cases "buf = 0")
      case True
      then have "s1 = s" using kheap.alloc_null [OF ok] k by blast
      then show ?thesis using True k Some r ok unfolding hello_probe_def by simp
    next
      case False
      have rm: "unat ?n \<le> unat (ucast ?n :: u64)" "unat (ucast ?n :: u64) + 7 < 2 ^ 64" using file_rooms(3) [of ?n] by blast+
      obtain z where z: "live s buf = None" "unat (ucast ?n :: u64) \<le> unat z" "live s1 = (live s)(buf \<mapsto> z)"
        using kheap.alloc_region [OF ok k False rm(2)] by blast
      have ok1: "heap_ok s1" by (rule kheap.alloc_inv [OF ok k])
      obtain kk bs m2 where rd: "fat32_read_file fs f (heap_bytes buf (unat ?n) (kmem s1)) ?n m1 = ((kk, bs), m2)" "length bs = unat ?n"
        using ram0.file_inside [OF img, of "heap_bytes buf (unat ?n) (kmem s1)" ?n f m1] by (auto simp: heap_bytes_def)
      define s2 where "s2 = s1\<lparr>kmem := put_bytes buf bs (kmem s1)\<rparr>"
      have bl: "live s1 buf = Some z" "length bs \<le> unat z" using z(2,3) rm(1) rd(2) by simp_all
      have s2: "heap_ok s2" "live s2 = (live s)(buf \<mapsto> z)" using buffer_write(1,2) [OF ok1 bl] z(3) by (simp_all add: s2_def)
      then have l2: "live s2 buf = Some z" by simp
      have "heap_ok (kfree buf s2)" "live (kfree buf s2) = live s"
        using kheap.release_inv [OF s2(1) l2] kheap.release_regions [OF s2(1) l2] s2(2) z(1) by (auto simp: fun_eq_iff)
      moreover have "hello_probe fs m s = Some (if kk = sint ?n then Magic (heap_bytes buf 4 (kmem s2)) else Unreadable, m2, kfree buf s2)"
        using r Some k False rd(1) unfolding hello_probe_def by (simp add: s2_def Let_def)
      ultimately show ?thesis by blast
    qed
  qed
qed

section \<open>The boot sector\<close>

text \<open>
  The boot sector by its bytes: the number that \<open>k\<close> bytes of an image stand for, least significant first. A FAT32
  volume carries the signature in the last two bytes, has sectors of 512 bytes, and zero in the two fields that
  FAT12 and FAT16 use.
\<close>

definition image_num :: "u64 \<Rightarrow> memory \<Rightarrow> nat \<Rightarrow> nat \<Rightarrow> nat" where
  "image_num phys m off k = (\<Sum>i < k. unat (m (phys + of_nat (off + i))) * 256 ^ i)"

definition fat32_volume :: "u64 \<Rightarrow> memory \<Rightarrow> bool" where
  "fat32_volume phys m \<longleftrightarrow> m (phys + 510) = 0x55 \<and> m (phys + 511) = 0xAA \<and>
     image_num phys m 11 2 = 512 \<and> image_num phys m 17 2 = 0 \<and> image_num phys m 22 2 = 0"

text \<open>
  The geometry: reserved sectors (bytes 14 and 15) come before the file allocation tables (byte 16: how many; bytes 36 to 39: sectors
  in each), which come before the data. The sum is one of 32-bit numbers.
\<close>

definition fat32_geometry :: "u64 \<Rightarrow> u64 \<Rightarrow> memory \<Rightarrow> memory fat32_fs \<Rightarrow> bool" where
  "fat32_geometry phys sz m fs \<longleftrightarrow> unat (fat_start_lba fs) = image_num phys m 14 2 \<and>
     unat (data_start_lba fs) = (image_num phys m 14 2 + image_num phys m 16 1 * image_num phys m 36 4) mod 2 ^ 32 \<and>
     unat (sectors_per_cluster fs) = image_num phys m 13 1 \<and> unat (fs_bytes_per_sector fs) = 512 \<and>
     unat (root_cluster fs) = image_num phys m 44 4 \<and> fs_dev fs = Some (ramdisk phys sz)"

lemma unat_or_push:
  fixes a b :: "'a::len word"
  assumes "unat a < 2 ^ n" "unat b * 2 ^ n < 2 ^ LENGTH('a)"
  shows "unat (a OR push_bit n b) = unat a + unat b * 2 ^ n"
proof -
  have a: "take_bit n (unat a) = unat a" by (rule take_bit_nat_eq_self [OF assms(1)])
  have "take_bit LENGTH('a) (push_bit n (unat b)) = push_bit n (unat b)"
    using assms(2) by (intro take_bit_nat_eq_self) (simp add: push_bit_eq_mult)
  then have "unat (a OR push_bit n b) = unat a OR push_bit n (unat b)" by (simp only: unsigned_or_eq unsigned_push_bit_eq)
  also have "\<dots> = take_bit n (unat a) + push_bit n (unat b)"
    by (subst a [symmetric], subst disjunctive_add) (auto simp: bit_simps)
  finally show ?thesis by (simp only: a push_bit_eq_mult)
qed

lemma unat_le16: "unat (le16 s i) = unat (s ! i) + unat (s ! (i + 1)) * 256"
  unfolding le16_def using unat_lt_8 [of "s ! i"] unat_lt_8 [of "s ! (i + 1)"]
  by (subst unat_or_push) (simp_all add: unsigned_ucast_eq take_bit_nat_eq_self del: unat_lt_8)

lemma unat_le32:
  "unat (le32 s i) = unat (s ! i) + unat (s ! (i + 1)) * 256 + unat (s ! (i + 2)) * 65536 + unat (s ! (i + 3)) * 16777216"
proof -
  have lt: "unat (s ! k) < 256" for k by (rule unat_lt_8)
  let ?a = "ucast (s ! i) OR push_bit 8 (ucast (s ! (i + 1))) :: u32"
  have a: "unat ?a = unat (s ! i) + unat (s ! (i + 1)) * 256" using lt [of i] lt [of "i + 1"] by (subst unat_or_push) (simp_all del: unat_lt_8)
  let ?b = "?a OR push_bit 16 (ucast (s ! (i + 2)))"
  have b: "unat ?b = unat ?a + unat (s ! (i + 2)) * 65536"
    using a lt [of i] lt [of "i + 1"] lt [of "i + 2"] by (subst unat_or_push) (simp_all del: unat_lt_8)
  have "unat (?b OR push_bit 24 (ucast (s ! (i + 3)))) = unat ?b + unat (s ! (i + 3)) * 16777216"
    using a b lt [of i] lt [of "i + 1"] lt [of "i + 2"] lt [of "i + 3"] by (subst unat_or_push) (simp_all del: unat_lt_8)
  then show ?thesis using a b by (simp add: le32_def or.assoc)
qed

lemma image_num_fields:
  "i < 512 \<Longrightarrow> unat (image_sector phys m 0 ! i) = image_num phys m i 1"
  "i < 511 \<Longrightarrow> unat (le16 (image_sector phys m 0) i) = image_num phys m i 2"
  "i < 509 \<Longrightarrow> unat (le32 (image_sector phys m 0) i) = image_num phys m i 4"
proof -
  have s: "(\<Sum>j < 1. f j) = f 0" "(\<Sum>j < 2. f j) = f 0 + f 1" "(\<Sum>j < 4. f j) = f 0 + f 1 + f 2 + (f 3 :: nat)" for f :: "nat \<Rightarrow> nat"
    by (simp_all add: numeral_eq_Suc)
  show "i < 512 \<Longrightarrow> unat (image_sector phys m 0 ! i) = image_num phys m i 1"
    "i < 511 \<Longrightarrow> unat (le16 (image_sector phys m 0) i) = image_num phys m i 2"
    "i < 509 \<Longrightarrow> unat (le32 (image_sector phys m 0) i) = image_num phys m i 4"
    unfolding image_num_def s unat_le16 unat_le32 by (simp_all add: image_nth)
qed

lemma fat32_init_ramdisk:
  assumes "image_ok phys sz"
  shows "if fat32_volume phys m then \<exists>fs. fat32_init (Some (ramdisk phys sz)) m = (Some fs, m) \<and> fat32_geometry phys sz m fs
    else fat32_init (Some (ramdisk phys sz)) m = (None, m)"
proof -
  let ?s = "image_sector phys m 0"
  have rd: "block_read (Some (ramdisk phys sz)) 0 1 m = (Some ?s, m)"
    using ramdisk_sector [OF assms, of 0 m] assms by (simp add: image_ok_def div_greater_zero_iff)
  have sig: "?s ! 510 = m (phys + 510)" "?s ! 511 = m (phys + 511)" by (simp_all add: image_nth)
  have z: "le16 ?s 17 = 0 \<longleftrightarrow> image_num phys m 17 2 = 0" "le16 ?s 22 = 0 \<longleftrightarrow> image_num phys m 22 2 = 0"
    "le16 ?s 11 = 512 \<longleftrightarrow> image_num phys m 11 2 = 512"
    using image_num_fields(2) [of 17 phys m] image_num_fields(2) [of 22 phys m] image_num_fields(2) [of 11 phys m]
    by (simp_all add: word_unat_eq_iff)
  have v: "fat32_volume phys m \<longleftrightarrow> \<not> (?s ! 510 \<noteq> 0x55 \<or> ?s ! 511 \<noteq> 0xAA) \<and>
      \<not> (root_entry_count (bpb_of ?s) \<noteq> 0 \<or> fat_size_16 (bpb_of ?s) \<noteq> 0) \<and> bytes_per_sector (bpb_of ?s) = 512"
    by (auto simp: fat32_volume_def sig z bpb_of_def)
  show ?thesis
  proof (cases "fat32_volume phys m")
    case True
    note f = image_num_fields
    have "unat (ucast (le16 ?s 14) + ucast (?s ! 16) * le32 ?s 36 :: u32) =
        (image_num phys m 14 2 + image_num phys m 16 1 * image_num phys m 36 4) mod 2 ^ 32"
      using f(2) [of 14 phys m] f(1) [of 16 phys m] f(3) [of 36 phys m]
      by (simp add: unat_word_ariths unsigned_ucast_eq take_bit_nat_eq_self take_bit_eq_mod mod_simps)
    moreover have "unat (ucast (le16 ?s 14) :: u32) = unat (le16 ?s 14)"
    proof -
      have "unat (le16 ?s 14) < 2 ^ 32" using unat_lt_16 [of "le16 ?s 14"] by (simp del: unat_lt_16)
      then have "take_bit 32 (unat (le16 ?s 14)) = unat (le16 ?s 14)" by (rule take_bit_nat_eq_self)
      then show ?thesis by (simp add: unsigned_ucast_eq)
    qed
    ultimately show ?thesis
      using True [unfolded v] f(1) [of 13 phys m] f(2) [of 14 phys m] f(3) [of 44 phys m]
      by (simp add: True fat32_init_def rd Let_def) (simp add: bpb_of_def fat32_geometry_def)
  next
    case False
    then show ?thesis using False [unfolded v] by (auto simp: fat32_init_def rd Let_def)
  qed
qed

text \<open>
  C38. The start of the file system comes to an end on every volume in the RAM disk, also on one whose cluster chains are cycles. When the bytes of
  the boot sector are not those of a FAT32 volume (signature, sector size, the two FAT12/16 fields) nothing is mounted and the heap is untouched.
  Otherwise the volume is mounted with the geometry its boot sector gives; the walk prints the chain of the root directory, at most 65
  clusters, and reports the entry it stopped at; and the heap has its regions back.
\<close>

theorem start_fs_correct:
  fixes s :: "'a heap_state_scheme"
  assumes "image_ok phys sz" "heap_ok s"
  shows "\<exists>r v' m' s'. start_fs (Some (ramdisk phys sz)) v m s = Some (r, v', m', s') \<and> heap_ok s' \<and> live s' = live s \<and>
    (if \<not> fat32_volume phys m then r = None \<and> v' = v \<and> s' = s
     else mounted v' \<and> fat32_geometry phys sz m (mounted_fs v') \<and>
       (let next = fat_next (bd_sectors (ramdisk phys sz)) (image_sector phys m) (mounted_fs v');
            root = root_cluster (mounted_fs v');
            walked = takeWhile in_chain (map (\<lambda>k. (next ^^ k) root) [0..<65])
        in \<exists>ls p. r = Some ((walked, (next ^^ length walked) root), ls, p)))"
proof (cases "fat32_volume phys m")
  case False
  then show ?thesis using fat32_init_ramdisk [OF assms(1), of m] assms(2) by (simp add: start_fs_def)
next
  case True
  let ?d = "Some (ramdisk phys sz)"
  obtain fs where i: "fat32_init ?d m = (Some fs, m)" "fat32_geometry phys sz m fs"
    using fat32_init_ramdisk [OF assms(1), of m] True by auto
  then have fs: "fs_dev fs = ?d" by (simp add: fat32_geometry_def)
  let ?N = "fat_next (bd_sectors (ramdisk phys sz)) (image_sector phys m) fs"
  let ?w = "takeWhile in_chain (map (\<lambda>k. (?N ^^ k) (root_cluster fs)) [0..<65])"
  obtain m2 where w: "root_walk fs 0 (root_cluster fs) m = ((?w, (?N ^^ length ?w) (root_cluster fs)), m2)"
    using ram0.root_walk_chain [OF assms(1) fs, of 0 "root_cluster fs" m] by auto
  obtain ls m3 where l: "fat32_list_root fs m2 = (ls, m3)" by (rule prod.exhaust)
  obtain p m' s' where p: "hello_probe fs m3 s = Some (p, m', s')" "heap_ok s'" "live s' = live s"
    using probe_result [OF assms(1) fs assms(2)] by blast
  have "start_fs ?d v m s = Some (Some ((?w, (?N ^^ length ?w) (root_cluster fs)), ls, p), vfs_mount fs v, m', s')"
    using i(1) w l p(1) by (simp add: start_fs_def)
  then show ?thesis using True i(2) p(2,3) by (simp add: vfs_mount_def Let_def)
qed

text \<open>A volume whose root directory is a cluster that leads to itself.\<close>

definition cyclic_volume :: memory where
  "cyclic_volume = (\<lambda>_. 0)(0x10000C := 2, 0x10000D := 1, 0x10000E := 1, 0x100010 := 1, 0x100024 := 1, 0x10002C := 2,
     0x1001FE := 0x55, 0x1001FF := 0xAA, 0x100208 := 2)"

lemma cyclic_image:
  "fat32_volume 0x100000 cyclic_volume" "image_num 0x100000 cyclic_volume 14 2 = 1" "image_num 0x100000 cyclic_volume 44 4 = 2"
proof -
  have s: "(\<Sum>j < 2. f j) = f 0 + f 1" "(\<Sum>j < 4. f j) = f 0 + f 1 + f 2 + (f 3 :: nat)" for f :: "nat \<Rightarrow> nat"
    by (simp_all add: numeral_eq_Suc)
  show "fat32_volume 0x100000 cyclic_volume" "image_num 0x100000 cyclic_volume 14 2 = 1" "image_num 0x100000 cyclic_volume 44 4 = 2"
    unfolding fat32_volume_def image_num_def s by (simp_all add: cyclic_volume_def)
qed

theorem start_fs_correct_witness:
  "\<exists>ls p v' m' s'. start_fs (Some (ramdisk 0x100000 0x1000)) \<lparr>mounted_fs = fs_example, mounted = False\<rparr> cyclic_volume sys_example =
     Some (Some ((replicate 65 2, 2), ls, p), v', m', s') \<and> mounted v' \<and> live s' = live sys_example"
proof -
  let ?N = "\<lambda>fs. fat_next (bd_sectors (ramdisk 0x100000 0x1000)) (image_sector 0x100000 cyclic_volume) fs"
  have n: "?N fs 2 = 2" if "fat_start_lba fs = 1" for fs :: "memory fat32_fs"
    unfolding sectors_example by (simp add: fat_next_def that le32_def image_nth) (simp add: cyclic_volume_def)
  have it: "(?N fs ^^ k) 2 = 2" if "fat_start_lba fs = 1" for k and fs :: "memory fat32_fs"
    by (induction k) (simp_all add: n [OF that])
  have w: "takeWhile in_chain (map (\<lambda>k. (?N fs ^^ k) 2) [0..<65]) = replicate 65 2" if "fat_start_lba fs = 1" for fs :: "memory fat32_fs"
    by (simp add: it [OF that] map_replicate_const takeWhile_replicate in_chain_def FAT32_EOC_def)
  have g: "fat_start_lba fs = 1 \<and> root_cluster fs = 2" if "fat32_geometry 0x100000 0x1000 cyclic_volume fs" for fs
    using that cyclic_image(2,3) by (simp add: fat32_geometry_def word_unat_eq_iff)
  obtain r v' m' s' where st: "start_fs (Some (ramdisk 0x100000 0x1000)) \<lparr>mounted_fs = fs_example, mounted = False\<rparr> cyclic_volume sys_example =
      Some (r, v', m', s')" "live s' = live sys_example" "mounted v'" and ge: "fat32_geometry 0x100000 0x1000 cyclic_volume (mounted_fs v')"
    and r: "\<exists>ls p. r = Some ((takeWhile in_chain (map (\<lambda>k. (?N (mounted_fs v') ^^ k) (root_cluster (mounted_fs v'))) [0..<65]),
      (?N (mounted_fs v') ^^ length (takeWhile in_chain (map (\<lambda>k. (?N (mounted_fs v') ^^ k) (root_cluster (mounted_fs v'))) [0..<65])))
        (root_cluster (mounted_fs v'))), ls, p)"
    using start_fs_correct [OF image_example sys_heap_ok, of "\<lparr>mounted_fs = fs_example, mounted = False\<rparr>" cyclic_volume] cyclic_image(1)
    unfolding Let_def by auto
  have f: "fat_start_lba (mounted_fs v') = 1" "root_cluster (mounted_fs v') = 2" using g [OF ge] by simp_all
  obtain ls p where "r = Some ((replicate 65 2, 2), ls, p)" using r unfolding f(2) w [OF f(1)] unfolding it [OF f(1)] by blast
  then show ?thesis using st by blast
qed

end
