(* ===== verification/ShellRun.thy ===== *)
theory ShellRun
  imports ShellFiles
begin

text \<open>
  The command that runs a program, from the file on the volume to the end of the process: file system, heap, loader, page
  tables and scheduler together.
\<close>

section \<open>Allocation does not depend on what the regions hold\<close>



section \<open>Waiting\<close>


section \<open>Running a program\<close>








section \<open>An example\<close>






end
