(* ===== verification/Spec2Isabelle.thy ===== *)
theory Spec2Isabelle
  imports PmmInit VmmDestroy UserAccess HeapInit SchedExample Vfs AtaSpec Keyboard GfxSpec Mouse Rtc KprintfSpec
    VgaSpec Lifecycle Irq Desktop Exceptions Boot ShellRun
begin

text \<open>
  Verification of RevinixOS, a small x86-64 kernel in C (all paths below are under \<^verbatim>\<open>kernel/\<close>).

  \<^bold>\<open>The system.\<close> GRUB enters \<^verbatim>\<open>kmain\<close> (\<^verbatim>\<open>main.c\<close>), which sets up descriptor tables and interrupts, the physical frame
  allocator (\<^verbatim>\<open>mm/pmm.c\<close>) from the Multiboot2 memory map, the four-level page tables (\<^verbatim>\<open>mm/vmm.c\<close>), the heap
  (\<^verbatim>\<open>mm/heap.c\<close>), graphics and consoles, a root file system (FAT32 on a RAM disk or an ATA disk), the scheduler and the
  shell. The page tables take their frames from the allocator; the heap and the ELF loader map pages through
  them; a task owns a structure and a kernel stack on the heap and an address space; the timer interrupt drives
  the scheduler; system calls copy user memory after checking it against the page tables.

  \<^bold>\<open>Conventions.\<close> C integers are words of their width, or \<^verbatim>\<open>int\<close> where the code uses small signed numbers.
  Memory is a function from 64-bit addresses to bytes: \<^verbatim>\<open>ram\<close> is physical memory, reached by the kernel
  through the direct map (\<^verbatim>\<open>kaddr\<close>), \<^verbatim>\<open>kmem\<close> the memory of the heap at its virtual addresses. The state of a file
  is a record of its static variables; files that build on each other extend each other's records
  (\<^verbatim>\<open>pmm_state\<close>, \<^verbatim>\<open>vmm_state\<close>, \<^verbatim>\<open>heap_state\<close>, \<^verbatim>\<open>sched_state\<close>; and \<^verbatim>\<open>vmm_state\<close>, \<^verbatim>\<open>gfx_state\<close>, \<^verbatim>\<open>fbcon_state\<close>, \<^verbatim>\<open>vga_state\<close>,
  \<^verbatim>\<open>console_state\<close>). An operation takes the state and returns its result with the new state. A loop that may run
  for ever is a \<^verbatim>\<open>while_option\<close>, a \<^verbatim>\<open>for_step\<close> or a partial function, and \<^verbatim>\<open>None\<close> means that it does not
  end; the theorems that say an operation returns prove \<^verbatim>\<open>Some\<close>. No fuel is used except for the polling loops whose bound is in the
  source. Devices are a parameter: a record of port functions over an arbitrary hardware state (\<^verbatim>\<open>Ports\<close>), so the
  theorems about drivers hold whatever the device answers. Progress messages, saving and restoring the interrupt
  flag, the TLB and memory-mapped side effects are left out.

  \<^bold>\<open>Foundations.\<close>
  \<^item> \<^verbatim>\<open>Prelude\<close>: words, loads and stores in byte memory, loops; \<^verbatim>\<open>Machine\<close>: addresses and the direct map.
  \<^item> \<^verbatim>\<open>Ports\<close>, \<^verbatim>\<open>Pic\<close>: port access (\<^verbatim>\<open>arch/x86_64/io.h\<close>) and the interrupt controllers (\<^verbatim>\<open>pic.c\<close>).

  \<^bold>\<open>Memory.\<close>
  \<^item> \<^verbatim>\<open>Pmm\<close>, \<^verbatim>\<open>PmmInit\<close> (\<^verbatim>\<open>mm/pmm.c\<close>): allocation is first fit on the set of used frames and meets the contract
    \<^verbatim>\<open>frame_allocator\<close> the rest of the kernel relies on; contiguous runs; release; start-up from the boot information. A
    theorem shows that \<^verbatim>\<open>pmm_use_hhdm\<close> moves the bitmap to the wrong place.
  \<^item> \<^verbatim>\<open>Vmm\<close>, \<^verbatim>\<open>VmmMap\<close>, \<^verbatim>\<open>VmmData\<close>, \<^verbatim>\<open>VmmDestroy\<close>, \<^verbatim>\<open>VmmOwn\<close>, \<^verbatim>\<open>VmmInit\<close> (\<^verbatim>\<open>mm/vmm.c\<close>): the tables of an address space form a
    tree of distinct frames (\<^verbatim>\<open>pt_ok\<close>); mapping and unmapping change one translation, creation shares the kernel half, destruction
    frees exactly what the space owns; frames that hold data are not touched by mapping, and every operation accounts for
    the frames it takes (\<^verbatim>\<open>accounts\<close>, \<^verbatim>\<open>untouched\<close>); the tables that \<^verbatim>\<open>vmm_init\<close> builds map exactly the intended ranges.
  \<^item> \<^verbatim>\<open>UserAccess\<close> (\<^verbatim>\<open>mm/uaccess.c\<close>, \<^verbatim>\<open>syscall/syscall.c\<close>): a model of the processor's page walk; the range check accepts exactly the
    buffers a user program could access itself; \<^verbatim>\<open>sys_write\<close> and the dispatcher.
  \<^item> \<^verbatim>\<open>Kheap\<close>, \<^verbatim>\<open>KheapSpec\<close>, \<^verbatim>\<open>HeapInit\<close> (\<^verbatim>\<open>mm/heap.c\<close>): the linked blocks in memory refine a list of blocks on which \<^verbatim>\<open>kmalloc\<close> is first fit
    with splitting and \<^verbatim>\<open>kfree\<close> release with merging; contract \<^verbatim>\<open>region_allocator\<close>; statistics; start-up on top of the page tables.

  \<^bold>\<open>Tasks and programs.\<close>
  \<^item> \<^verbatim>\<open>Sched\<close>, \<^verbatim>\<open>SchedSpec\<close>, \<^verbatim>\<open>SchedTasks\<close>, \<^verbatim>\<open>SchedExample\<close> (\<^verbatim>\<open>sched/sched.c\<close>): the ring of tasks; round robin, no starvation,
    context switches that resume where they left, creation and reaping.
  \<^item> \<^verbatim>\<open>Elf\<close>, \<^verbatim>\<open>PageStore\<close>, \<^verbatim>\<open>ElfSpec\<close> (\<^verbatim>\<open>user/elf.c\<close>): the loader over the contract \<^verbatim>\<open>page_store\<close> of user memory, which \<open>put_byte\<close> with
    demand mapping provides; every byte of a segment ends up at its address and nobody else's frames change.
  \<^item> \<^verbatim>\<open>Process\<close> (\<^verbatim>\<open>main.c\<close>): \<^verbatim>\<open>spawn_user_process\<close>, where page tables, loader, heap and scheduler meet, and \<^verbatim>\<open>load_program\<close>.
    \<^verbatim>\<open>Lifecycle\<close>: the shell and a process run interleaved, as a step relation \<^verbatim>\<open>exec\<close> (computing on the own kernel stack, stores to user
    memory, switches, exit); its invariant holds until the process is reaped, and then everything is as before its start.

  \<^bold>\<open>Files.\<close>
  \<^item> \<^verbatim>\<open>Block\<close>, \<^verbatim>\<open>Fat32\<close>, \<^verbatim>\<open>Fat32Spec\<close>, \<^verbatim>\<open>Vfs\<close> (\<^verbatim>\<open>drivers/block.h\<close>, \<^verbatim>\<open>drivers/ramdisk.c\<close>, \<^verbatim>\<open>fs/\<close>): sector devices as the contract
    \<^verbatim>\<open>sector_store\<close>; listing, search and reading against the cluster chains of the volume.
  \<^item> \<^verbatim>\<open>Boot\<close> (\<^verbatim>\<open>main.c\<close>): the disk self-test, the choice of the root device and the start of the file system, which ends on every volume.
  \<^item> \<^verbatim>\<open>Ata\<close>, \<^verbatim>\<open>AtaSpec\<close> (\<^verbatim>\<open>drivers/ata.c\<close>): the LBA28 driver; reads address exactly the sectors asked for, writes are guarded.

  \<^bold>\<open>Devices and display.\<close>
  \<^item> \<^verbatim>\<open>Keyboard\<close> (\<^verbatim>\<open>drivers/keyboard.c\<close>): refines a line editor. \<^verbatim>\<open>Mouse\<close> (\<^verbatim>\<open>drivers/mouse.c\<close>): a byte stream is the sequence of its packets.
    \<^verbatim>\<open>Rtc\<close> (\<^verbatim>\<open>drivers/rtc.c\<close>): decodes what the clock's registers encode.
  \<^item> \<^verbatim>\<open>Bootinfo\<close>, \<^verbatim>\<open>Font\<close>, \<^verbatim>\<open>Gfx\<close>, \<^verbatim>\<open>Canvas\<close>, \<^verbatim>\<open>GfxSpec\<close> (\<^verbatim>\<open>bootinfo.c\<close>, \<^verbatim>\<open>gfx/\<close>): drawing against the contract \<^verbatim>\<open>canvas\<close> of a grid of pixels.
  \<^item> \<^verbatim>\<open>Fbcon\<close>, \<^verbatim>\<open>Console\<close>, \<^verbatim>\<open>VgaSpec\<close>, \<^verbatim>\<open>Kprintf\<close>, \<^verbatim>\<open>KprintfSpec\<close> (\<^verbatim>\<open>gfx/fbcon.c\<close>, \<^verbatim>\<open>drivers/vga.c\<close>, \<^verbatim>\<open>drivers/serial.c\<close>, \<^verbatim>\<open>kprintf.c\<close>): the consoles, of which the text screen refines a terminal of lines,
    formatted output, and the log ring, which refines the list of all output.
  \<^item> \<^verbatim>\<open>Descriptors\<close>, \<^verbatim>\<open>Irq\<close>, \<^verbatim>\<open>Exceptions\<close> (\<^verbatim>\<open>arch/x86_64/gdt.c\<close>, \<^verbatim>\<open>idt.c\<close>, \<^verbatim>\<open>irq.c\<close>): what the processor reads in the tables, the
    dispatch of interrupts, and the report of exceptions.
  \<^item> \<^verbatim>\<open>Desktop\<close> (\<^verbatim>\<open>gui/desktop.c\<close>): painting, clock and pointer.
  \<^item> \<^verbatim>\<open>Shell\<close>, \<^verbatim>\<open>ShellFiles\<close>, \<^verbatim>\<open>ShellRun\<close> (\<^verbatim>\<open>shell.c\<close>): command parsing and the commands; printing files reads exactly the file and gives its
    buffer back on any volume; running a program, from the file to the end of the process, leaves nothing behind.

  \<^bold>\<open>Bounds.\<close> Physical memory lies below 2^47, inside the direct map. Mapping a page may take three frames for tables, so
  theorems about mapping ask for three free frames, and loading a program for four per page. Polling of the ATA
  disk and the PS/2 controller stops after the numbers of tries in the source.

  \<^bold>\<open>Not modelled.\<close> Assembly (boot, interrupt stubs, the entry to Ring 3; the context switch is modelled by the
  registers it saves and restores); the order of the initialisations in \<^verbatim>\<open>kmain\<close>, which has no branches of its own, and the endless
  prompt loop of \<^verbatim>\<open>shell_run\<close>; interleaving of interrupts with the operations they interrupt, except through the scheduler's steps: the
  code masks interrupts in its critical sections; user programs, the build and the disk image. The start-up theorems are not composed
  into one run of \<^verbatim>\<open>kmain\<close>, because \<^verbatim>\<open>pmm_use_hhdm\<close> between them leaves the allocator with the wrong bitmap.
\<close>

end
